(* ===== verification/Prelude.thy ===== *)
theory Prelude
  imports Main "HOL-Library.Word" "HOL-Library.Signed_Division"
begin

text \<open>
  Shared vocabulary of the development: the C integer conversions the sources rely on,
  results of code that may abort (an \<open>assert\<close> that fails, a dangling pointer, a zero divisor, an exit of
  \<open>main\<close> with an error code), arrays of one
  to three dimensions as functions, and counting loops as folds.

  The simulator's \<open>int\<close> and \<open>long long int\<close> values are HOL integers. Signed overflow is
  undefined in C, so no wrap-around is attached to \<open>+\<close>, \<open>-\<close> and \<open>*\<close>; a
  conversion that C defines (storing a 64-bit value in an \<open>int\<close>, passing an \<open>int\<close> for an
  \<open>unsigned int\<close>) is written out, by \<^term>\<open>signed_take_bit 31\<close> or a word.
\<close>

unbundle bit_operations_syntax

named_theorems array_simps
named_theorems frame_simps
named_theorems bank_simps

section \<open>C integers\<close>

text \<open>The conversion of a 64-bit value to \<open>int\<close>, as gcc does it: keep 32 bits, read them signed.\<close>

definition c_int :: "int \<Rightarrow> int" where
  "c_int x = signed_take_bit 31 x"

lemma c_int_id: "- (2 ^ 31) \<le> x \<Longrightarrow> x < 2 ^ 31 \<Longrightarrow> c_int x = x"
  by (simp add: c_int_def signed_take_bit_int_eq_self)

lemma c_int_bounds: "- (2 ^ 31) \<le> c_int x \<and> c_int x < 2 ^ 31"
  using signed_take_bit_int_greater_eq_minus_exp [of 31 x] signed_take_bit_int_less_exp [of 31 x]
  by (simp add: c_int_def)

text \<open>\<open>%\<close> truncates towards zero; on a non-negative dividend it is \<open>mod\<close>.\<close>

lemma smod_nonneg: "0 \<le> a \<Longrightarrow> 0 < b \<Longrightarrow> a smod b = a mod (b :: int)"
  by (cases "a = 0") (simp_all add: signed_modulo_int_def signed_divide_int_def minus_div_mult_eq_mod)

lemma int_div_less:
  assumes "a < m * k" and "0 < k"
  shows "a div k < (m :: int)"
proof (rule ccontr)
  assume "\<not> a div k < m"
  then have "m * k \<le> a div k * k" using assms(2) by (simp add: mult_right_mono)
  also have "\<dots> \<le> a" using assms(2) by (simp add: minus_mod_eq_div_mult [symmetric])
  finally show False using assms(1) by simp
qed

section \<open>Results of code that may abort\<close>

datatype fault =
    Assertion_failed string
  | Invalid_pointer
  | Division_by_zero
  | Exits int

type_synonym 'a res = "fault + 'a"

primrec bindE :: "'a res \<Rightarrow> ('a \<Rightarrow> 'b res) \<Rightarrow> 'b res" where
  "bindE (Inl e) f = Inl e"
| "bindE (Inr x) f = f x"

definition assertE :: "bool \<Rightarrow> string \<Rightarrow> unit res" where
  "assertE b msg = (if b then Inr () else Inl (Assertion_failed msg))"

primrec foldE :: "('a \<Rightarrow> 's \<Rightarrow> 's res) \<Rightarrow> 'a list \<Rightarrow> 's \<Rightarrow> 's res" where
  "foldE f [] s = Inr s"
| "foldE f (x # xs) s = bindE (f x s) (foldE f xs)"

lemma bindE_eq_Inr [simp]: "bindE m f = Inr y \<longleftrightarrow> (\<exists>x. m = Inr x \<and> f x = Inr y)"
  by (cases m) auto

lemma assertE_eq_Inr [simp]: "assertE b msg = Inr u \<longleftrightarrow> b"
  by (simp add: assertE_def)

lemma assertE_True [simp]: "b \<Longrightarrow> assertE b msg = Inr ()"
  by (simp add: assertE_def)

lemma foldE_append: "foldE f (xs @ ys) s = bindE (foldE f xs s) (foldE f ys)"
proof (induction xs arbitrary: s)
  case Nil
  show ?case by simp
next
  case (Cons x xs)
  then show ?case by (cases "f x s") auto
qed

text \<open>The loop rule: an invariant every iteration keeps, with no iteration aborting.\<close>

lemma foldE_invariant:
  assumes step: "\<And>x s. x \<in> set xs \<Longrightarrow> I s \<Longrightarrow> \<exists>s'. f x s = Inr s' \<and> I s'"
    and init: "I s"
  shows "\<exists>s'. foldE f xs s = Inr s' \<and> I s'"
  using assms
proof (induction xs arbitrary: s)
  case Nil
  then show ?case by simp
next
  case (Cons x xs)
  then obtain s1 where "f x s = Inr s1" and "I s1" by (meson list.set_intros(1))
  moreover obtain s' where "foldE f xs s1 = Inr s'" and "I s'"
    using Cons \<open>I s1\<close> by (meson list.set_intros(2))
  ultimately show ?case by auto
qed

lemma foldE_Inr_induct:
  assumes "foldE f xs s = Inr s'" and "P s"
    and "\<And>x s s'. x \<in> set xs \<Longrightarrow> P s \<Longrightarrow> f x s = Inr s' \<Longrightarrow> P s'"
  shows "P s'"
  using assms
proof (induction xs arbitrary: s)
  case Nil
  then show ?case by simp
next
  case (Cons x xs)
  then obtain s1 where s1: "f x s = Inr s1" and rest: "foldE f xs s1 = Inr s'" by auto
  have "P s1" using Cons.prems(2,3) s1 by (meson list.set_intros(1))
  then show ?case using rest Cons.prems(3) by (intro Cons.IH [of s1]) auto
qed

section \<open>Arrays as functions\<close>

text \<open>
  The sources' global arrays are functions on \<open>int\<close> indices. That every index the code
  computes lies within the array is a theorem about the code, not a property of the type.
\<close>

type_synonym 'a arr1 = "int \<Rightarrow> 'a"
type_synonym 'a arr2 = "int \<Rightarrow> int \<Rightarrow> 'a"
type_synonym 'a arr3 = "int \<Rightarrow> int \<Rightarrow> int \<Rightarrow> 'a"

definition upd2 :: "'a arr2 \<Rightarrow> int \<Rightarrow> int \<Rightarrow> 'a \<Rightarrow> 'a arr2" where
  "upd2 f i j v = f(i := (f i)(j := v))"

definition upd3 :: "'a arr3 \<Rightarrow> int \<Rightarrow> int \<Rightarrow> int \<Rightarrow> 'a \<Rightarrow> 'a arr3" where
  "upd3 f i j k v = f(i := (f i)(j := (f i j)(k := v)))"

lemma upd2_apply [simp, array_simps]:
  "upd2 f i j v i' j' = (if i' = i \<and> j' = j then v else f i' j')"
  by (simp add: upd2_def)

lemma upd3_apply [simp, array_simps]:
  "upd3 f i j k v i' j' k' = (if i' = i \<and> j' = j \<and> k' = k then v else f i' j' k')"
  by (simp add: upd3_def)

section \<open>Counting loops\<close>

text \<open>\<open>for (int i = 0; i < n; i++)\<close> runs over this list.\<close>

abbreviation below :: "int \<Rightarrow> int list" where
  "below n \<equiv> [0..n - 1]"

lemma fold_frame:
  assumes "\<And>x s. g (f x s) = g s"
  shows "g (fold f xs s) = g s"
  by (induction xs arbitrary: s) (simp_all add: assms)

lemma fold_invariant:
  assumes "P s" and "\<And>x s. x \<in> set xs \<Longrightarrow> P s \<Longrightarrow> P (f x s)"
  shows "P (fold f xs s)"
  using assms by (induction xs arbitrary: s) auto

lemma fold_rel:
  assumes "\<And>x. R x x" and "\<And>x y z. R x y \<Longrightarrow> R y z \<Longrightarrow> R x z"
    and "\<And>i x. i \<in> set xs \<Longrightarrow> R x (f i x)"
  shows "R x (fold f xs x)"
  using assms(3)
proof (induction xs arbitrary: x)
  case Nil
  show ?case by (simp add: assms(1))
next
  case (Cons i xs)
  have "R x (f i x)" and "R (f i x) (fold f xs (f i x))" using Cons by simp_all
  then show ?case using assms(2) by simp
qed

text \<open>
  A loop that rewrites one array cell per iteration rewrites each cell it visits once,
  from the value the cell had before the loop.
\<close>

lemma fold_pointwise:
  assumes cell: "\<And>i k s. get k (f i s) = (if k = i then h i (get i s) else get k s)"
    and "distinct xs"
  shows "get k (fold f xs s) = (if k \<in> set xs then h k (get k s) else get k s)"
  using \<open>distinct xs\<close>
proof (induction xs arbitrary: s)
  case Nil
  show ?case by simp
next
  case (Cons x xs)
  have "get k (fold f xs (f x s)) =
    (if k \<in> set xs then h k (get k (f x s)) else get k (f x s))"
    using Cons by simp
  then show ?case using Cons.prems by (auto simp: cell)
qed

end
