(* ===== verification/Scan.thy ===== *)
theory Scan
  imports Prelude
begin

text \<open>
  The part of \<open>stdio.h\<close> that \<open>main.c\<close> and \<open>configfile.h\<close> rely on: the conversions of \<open>sscanf\<close> and
  \<open>fscanf\<close> on the characters that are left to read, and numbers printed in positional notation,
  which the conversions read back.
\<close>

section \<open>Conversions\<close>

text \<open>
  The conversions of \<open>sscanf\<close> the code uses: \<open>%d\<close>, \<open>%c\<close> after white space, and \<open>%Lx\<close>, which reads a
  64-bit hexadecimal number with an optional \<open>0x\<close>.
\<close>

definition is_space :: "char \<Rightarrow> bool" where
  "is_space c \<longleftrightarrow> c \<in> {CHR 0x20, CHR 0x09, CHR 0x0A, CHR 0x0B, CHR 0x0C, CHR 0x0D}"

definition skip_space :: "string \<Rightarrow> string" where
  "skip_space cs = dropWhile is_space cs"

definition digit_value :: "int \<Rightarrow> char \<Rightarrow> int option" where
  "digit_value base c =
     (let n = of_char c;
          v = (if 48 \<le> n \<and> n \<le> 57 then n - 48
               else if 97 \<le> n \<and> n \<le> 102 then n - 87
               else if 65 \<le> n \<and> n \<le> 70 then n - 55 else 16)
      in if v < base then Some v else None)"

definition is_digit :: "int \<Rightarrow> char \<Rightarrow> bool" where
  "is_digit base c \<longleftrightarrow> digit_value base c \<noteq> None"

definition number :: "int \<Rightarrow> string \<Rightarrow> int" where
  "number base ds = fold (\<lambda>c v. v * base + the (digit_value base c)) ds 0"

definition scan_sign :: "string \<Rightarrow> bool \<times> string" where
  "scan_sign cs = (case cs of [] \<Rightarrow> (False, []) | c # r \<Rightarrow>
     if c = CHR ''-'' then (True, r) else if c = CHR ''+'' then (False, r) else (False, cs))"

definition scan_number :: "int \<Rightarrow> (string \<Rightarrow> string) \<Rightarrow> string \<Rightarrow> (int \<times> string) option" where
  "scan_number base prefix cs =
     (let (neg, cs) = scan_sign (skip_space cs); cs = prefix cs; ds = takeWhile (is_digit base) cs
      in if ds = [] then None
         else Some (if neg then - number base ds else number base ds, dropWhile (is_digit base) cs))"

definition skip_0x :: "string \<Rightarrow> string" where
  "skip_0x cs = (case cs of a # b # r \<Rightarrow> if a = CHR ''0'' \<and> b \<in> {CHR ''x'', CHR ''X''} then r else cs | _ \<Rightarrow> cs)"

definition scan_d :: "string \<Rightarrow> (int \<times> string) option" where
  "scan_d cs = map_option (\<lambda>(v, r). (c_int v, r)) (scan_number 10 (\<lambda>cs. cs) cs)"

definition scan_Lx :: "string \<Rightarrow> (int \<times> string) option" where
  "scan_Lx cs = map_option (\<lambda>(v, r). (signed_take_bit 63 v, r)) (scan_number 16 skip_0x cs)"

definition scan_c :: "string \<Rightarrow> (char \<times> string) option" where
  "scan_c cs = (case skip_space cs of [] \<Rightarrow> None | c # r \<Rightarrow> Some (c, r))"

text \<open>
  On a stream a conversion also moves the position: over white space, over what it converts and,
  when it fails, over a sign it has read. A failing conversion assigns nothing.
\<close>

definition fscan_d :: "string \<Rightarrow> int option \<times> string" where
  "fscan_d cs = (case scan_d cs of Some (v, r) \<Rightarrow> (Some v, r) | None \<Rightarrow> (None, snd (scan_sign (skip_space cs))))"

text \<open>\<open>%s\<close>: a word; it fails only at the end of the file.\<close>

definition fscan_s :: "string \<Rightarrow> string option \<times> string" where
  "fscan_s cs =
     (let cs = skip_space cs
      in if cs = [] then (None, []) else (Some (takeWhile (\<lambda>c. \<not> is_space c) cs), dropWhile (\<lambda>c. \<not> is_space c) cs))"

section \<open>Numbers in positional notation\<close>

definition digit_char :: "nat \<Rightarrow> char" where
  "digit_char d = char_of (if d < 10 then 48 + int d else 87 + int d)"

function show_nat :: "nat \<Rightarrow> nat \<Rightarrow> string" where
  "show_nat base n =
     (if n < base \<or> base < 2 then [digit_char n] else show_nat base (n div base) @ [digit_char (n mod base)])"
  by pat_completeness auto
termination by (relation "measure snd") auto

declare show_nat.simps [simp del]

lemma digit_value_char:
  assumes "d < base" and "base \<le> 16"
  shows "digit_value (int base) (digit_char d) = Some (int d)"
proof -
  have "of_char (digit_char d) = (if d < 10 then 48 + int d else 87 + int d)"
    using assms by (simp add: digit_char_def)
  then show ?thesis using assms by (simp add: digit_value_def Let_def)
qed

lemma number_append: "number base (ds @ [c]) = number base ds * base + the (digit_value base c)"
  by (simp add: number_def)

lemma show_nat_digits:
  assumes "2 \<le> base" and "base \<le> 16"
  shows "list_all (is_digit (int base)) (show_nat base n) \<and> show_nat base n \<noteq> [] \<and> number (int base) (show_nat base n) = int n"
  using assms
proof (induction base n rule: show_nat.induct)
  case (1 base n)
  show ?case
  proof (cases "n < base")
    case True
    then have "show_nat base n = [digit_char n]" by (simp add: show_nat.simps)
    then show ?thesis using True 1 digit_value_char by (simp add: is_digit_def number_def)
  next
    case False
    then have s: "show_nat base n = show_nat base (n div base) @ [digit_char (n mod base)]"
      using 1(2) by (simp add: show_nat.simps [of base n])
    have d: "digit_value (int base) (digit_char (n mod base)) = Some (int (n mod base))"
      using digit_value_char 1 by simp
    have "int (n div base) * int base + int (n mod base) = int n"
      by (metis div_mult_mod_eq of_nat_add of_nat_mult)
    then show ?thesis using 1 False d by (simp add: s is_digit_def number_append)
  qed
qed

text \<open>A printed number is read back, with the characters after it left to read.\<close>

lemma digit_not_special:
  assumes "is_digit base c" and "base \<le> 16"
  shows "\<not> is_space c" "c \<noteq> CHR ''-''" "c \<noteq> CHR ''+''"
proof -
  have "\<not> is_digit base d" if "d \<in> {CHR 0x20, CHR 0x09, CHR 0x0A, CHR 0x0B, CHR 0x0C, CHR 0x0D, CHR ''-'', CHR ''+''}" for d
    using that assms(2) by (auto simp: is_digit_def digit_value_def)
  then show "\<not> is_space c" "c \<noteq> CHR ''-''" "c \<noteq> CHR ''+''" using assms(1) by (auto simp: is_space_def)
qed

definition ends_number :: "int \<Rightarrow> string \<Rightarrow> bool" where
  "ends_number base r \<longleftrightarrow> r = [] \<or> \<not> is_digit base (hd r)"

lemma scan_number_show:
  assumes "2 \<le> base" and "base \<le> 16" and "ends_number (int base) r" and "list_all is_space ws"
    and "f (show_nat base n @ r) = show_nat base n @ r"
  shows "scan_number (int base) f (ws @ show_nat base n @ r) = Some (int n, r)"
proof -
  let ?ds = "show_nat base n"
  have ds: "list_all (is_digit (int base)) ?ds" "?ds \<noteq> []" "number (int base) ?ds = int n"
    using show_nat_digits assms(1,2) by blast+
  obtain d ds' where d: "?ds = d # ds'" using ds(2) by (cases ?ds) auto
  have "is_digit (int base) d" using ds(1) d by simp
  note sp = digit_not_special [OF this]
  have "skip_space (ws @ ?ds @ r) = ?ds @ r"
    using assms(2,4) sp(1) by (simp add: skip_space_def d dropWhile_append3 list_all_iff dropWhile_append2)
  moreover have "scan_sign (?ds @ r) = (False, ?ds @ r)" using sp assms(2) by (simp add: scan_sign_def d)
  moreover have "takeWhile (is_digit (int base)) (?ds @ r) = ?ds" "dropWhile (is_digit (int base)) (?ds @ r) = r"
    using ds(1) assms(3) by (auto simp: list_all_iff ends_number_def takeWhile_append2 dropWhile_append2 neq_Nil_conv
        takeWhile_eq_Nil_iff dropWhile_eq_self_iff)
  ultimately show ?thesis using assms(5) ds by (simp add: scan_number_def)
qed

lemma scan_d_show:
  assumes "n < 2 ^ 31" and "ends_number 10 r" and "list_all is_space ws"
  shows "scan_d (ws @ show_nat 10 n @ r) = Some (int n, r)"
  using scan_number_show [of 10 r ws "\<lambda>cs. cs" n] assms by (simp add: scan_d_def c_int_id)

end
