(* ===== verification/Rvm.thy ===== *)
theory Rvm
  imports Scan
begin

text \<open>
  The recoverable virtual memory of \<open>src/aos/l-recoverable-vm/prj4/rvm.cpp\<close>: segments that are mapped
  into memory, transactions with undo records, redo logs in files, recovery when a segment is mapped
  and truncation of the logs.

  A block of memory and a file are strings of bytes. The linked lists are lists; a node that was
  freed but is still linked is \<open>None\<close>, and following it is a fault, as are null pointers, copies
  beyond the end of a block and the use of a variable that was never assigned. What \<open>malloc\<close> leaves in a
  new block is an argument of the operations. Offsets and sizes are not negative. The writes of
  \<open>rvm_abort_trans\<close> and \<open>Cleanup_transaction\<close> to the transaction they have just freed are left out.
\<close>

section \<open>State\<close>

record SegList_t =
  SegBase :: nat
  SegName :: string
  SegSize :: nat
  Busy :: bool
  SegID :: int

record UndoRecord_t =
  undo_base :: nat
  undo_buf :: "string option"
  undo_offset :: nat
  undo_nBytes :: nat

record RedoLogs_t =
  redo_name :: "string option"
  redo_base :: nat
  redo_offset :: nat
  redo_nBytes :: nat

record Transactions_t =
  TID :: int
  UndoRecord :: "UndoRecord_t list"
  RedoLog :: "RedoLogs_t list"
  nModifyRegions :: nat

record rvm_state =
  RVM_Id :: int
  DirName :: string
  Seg_list :: "SegList_t option list"
  nSegs :: int
  gTransList :: "Transactions_t list"
  g_rvmID :: int
  block :: "nat \<Rightarrow> string option"
  disk :: "string \<Rightarrow> string option"

definition seg_path :: "string \<Rightarrow> string \<Rightarrow> string" where
  "seg_path dir name = dir @ ''/'' @ name"

definition log_path :: "string \<Rightarrow> string \<Rightarrow> string" where
  "log_path dir name = dir @ ''/REDO_LOG_'' @ name"

section \<open>Blocks, files and lists\<close>

definition read_at :: "nat \<Rightarrow> nat \<Rightarrow> string \<Rightarrow> string res" where
  "read_at off n m = (if off + n \<le> length m then Inr (take n (drop off m)) else Inl Invalid_pointer)"

definition write_at :: "nat \<Rightarrow> string \<Rightarrow> string \<Rightarrow> string res" where
  "write_at off d m = (if off + length d \<le> length m then Inr (take off m @ d @ drop (off + length d) m) else Inl Invalid_pointer)"

text \<open>\<open>write\<close> after \<open>lseek\<close> and \<open>truncate\<close>: a file grows with zero bytes, and not when nothing is written.\<close>

definition grow :: "nat \<Rightarrow> string \<Rightarrow> string" where
  "grow n m = m @ replicate (n - length m) (CHR 0x00)"

definition file_write :: "nat \<Rightarrow> string \<Rightarrow> string \<Rightarrow> string" where
  "file_write off d m = (if d = [] then m else let m = grow off m in take off m @ d @ drop (off + length d) m)"

definition mem_block :: "nat \<Rightarrow> rvm_state \<Rightarrow> string res" where
  "mem_block b s = (case block s b of None \<Rightarrow> Inl Invalid_pointer | Some m \<Rightarrow> Inr m)"

definition put_block :: "nat \<Rightarrow> string \<Rightarrow> rvm_state \<Rightarrow> rvm_state" where
  "put_block b m s = s\<lparr>block := (block s)(b \<mapsto> m)\<rparr>"

text \<open>The position of the first node with a property in a list that may hold freed nodes.\<close>

fun find_seg :: "(SegList_t \<Rightarrow> bool) \<Rightarrow> SegList_t option list \<Rightarrow> nat option res" where
  "find_seg P [] = Inr None"
| "find_seg P (None # xs) = Inl Invalid_pointer"
| "find_seg P (Some x # xs) = (if P x then Inr (Some 0) else bindE (find_seg P xs) (\<lambda>r. Inr (map_option Suc r)))"

definition upd_seg :: "nat \<Rightarrow> (SegList_t \<Rightarrow> SegList_t) \<Rightarrow> rvm_state \<Rightarrow> rvm_state" where
  "upd_seg i f s = s\<lparr>Seg_list := (Seg_list s)[i := map_option f (Seg_list s ! i)]\<rparr>"

fun upd_trans :: "int \<Rightarrow> (Transactions_t \<Rightarrow> Transactions_t) \<Rightarrow> Transactions_t list \<Rightarrow> Transactions_t list" where
  "upd_trans tid f [] = []"
| "upd_trans tid f (t # ts) = (if TID t = tid then f t # ts else t # upd_trans tid f ts)"

definition find_trans :: "int \<Rightarrow> rvm_state \<Rightarrow> Transactions_t option" where
  "find_trans tid s = List.find (\<lambda>t. TID t = tid) (gTransList s)"

section \<open>The redo log\<close>

text \<open>What \<open>rvm_commit_trans\<close> prints for a region.\<close>

definition print_entry :: "string \<Rightarrow> nat \<Rightarrow> string \<Rightarrow> string" where
  "print_entry name off d =
     ''#REDO LOG#'' @ name @ [CHR 0x0A] @ show_nat 10 off @ '' '' @ show_nat 10 (length d) @ [CHR 0x0A] @ d @ [CHR 0x0A]"

text \<open>Literal characters of a format of \<open>fscanf\<close>.\<close>

datatype literal = Matched string | Differs | Ended

fun match_literal :: "string \<Rightarrow> string \<Rightarrow> literal" where
  "match_literal [] cs = Matched cs"
| "match_literal (l # ls) [] = Ended"
| "match_literal (l # ls) (c # cs) = (if l = c then match_literal ls cs else Differs)"

text \<open>\<open>"#REDO LOG#%s\n"\<close>: the blank in it and the final newline skip white space.\<close>

datatype header = Header string string | No_header | Log_ended

definition scan_header :: "string \<Rightarrow> header" where
  "scan_header cs =
     (case match_literal ''#REDO'' cs of
        Differs \<Rightarrow> No_header
      | Ended \<Rightarrow> Log_ended
      | Matched cs \<Rightarrow>
          (case match_literal ''LOG#'' (skip_space cs) of
             Differs \<Rightarrow> No_header
           | Ended \<Rightarrow> Log_ended
           | Matched cs \<Rightarrow>
               (case fscan_s cs of (None, _) \<Rightarrow> Log_ended | (Some w, cs) \<Rightarrow> Header w (skip_space cs))))"

text \<open>\<open>"%d %d\n"\<close> into two variables of type \<open>uint32_t\<close>, and \<open>fread\<close>; the newline after \<open>%d\<close> skips all white space.\<close>

definition scan_region :: "string \<Rightarrow> (nat \<times> string \<times> string) res" where
  "scan_region cs =
     (case fscan_d cs of
        (None, _) \<Rightarrow> Inl Invalid_pointer
      | (Some off, cs) \<Rightarrow>
          (case fscan_d (skip_space cs) of
             (None, _) \<Rightarrow> Inl Invalid_pointer
           | (Some n, cs) \<Rightarrow>
               let cs = skip_space cs; n = nat (n mod 2 ^ 32) in
               if length cs < n then Inl Invalid_pointer
               else Inr (nat (off mod 2 ^ 32), take n cs, skip_space (drop n cs))))"

lemma skip_space_length: "length (skip_space cs) \<le> length cs"
  by (simp add: skip_space_def length_dropWhile_le)

lemma match_literal_length: "match_literal ls cs = Matched r \<Longrightarrow> length cs = length ls + length r"
  by (induction ls cs rule: match_literal.induct) (auto split: if_splits)

lemma fscan_s_length: "fscan_s cs = (w, r) \<Longrightarrow> length r \<le> length cs"
  using skip_space_length [of cs] length_dropWhile_le [of "\<lambda>c. \<not> is_space c" "skip_space cs"]
  by (auto simp: fscan_s_def Let_def split: if_splits)

lemma fscan_d_length: "fscan_d cs = (v, r) \<Longrightarrow> length r \<le> length cs"
proof -
  have sign: "length (snd (scan_sign xs)) \<le> length xs" for xs by (cases xs) (auto simp: scan_sign_def)
  have "length r \<le> length cs" if "scan_number 10 (\<lambda>x. x) cs = Some (v, r)" for v r
    using that sign [of "skip_space cs"] skip_space_length [of cs] length_dropWhile_le [of "is_digit 10" "snd (scan_sign (skip_space cs))"]
    by (auto simp: scan_number_def Let_def split: if_splits prod.splits)
  then show "fscan_d cs = (v, r) \<Longrightarrow> length r \<le> length cs"
    using sign [of "skip_space cs"] skip_space_length [of cs] by (auto simp: fscan_d_def scan_d_def split: option.splits)
qed

lemma scan_header_length: "scan_header cs = Header w r \<Longrightarrow> length r < length cs"
proof -
  assume "scan_header cs = Header w r"
  then obtain c1 c2 c3 where "match_literal ''#REDO'' cs = Matched c1" "match_literal ''LOG#'' (skip_space c1) = Matched c2"
    "fscan_s c2 = (Some w, c3)" "r = skip_space c3"
    by (auto simp: scan_header_def split: literal.splits prod.splits option.splits)
  then show ?thesis
    using match_literal_length [of "''#REDO''" cs c1] match_literal_length [of "''LOG#''" "skip_space c1" c2]
      fscan_s_length [of c2 "Some w" c3] skip_space_length [of c1] skip_space_length [of c3] by simp
qed

lemma scan_region_length:
  assumes "scan_region cs = Inr (off, d, r)"
  shows "length r \<le> length cs"
proof -
  obtain a c1 b c2 where "fscan_d cs = (Some a, c1)" "fscan_d (skip_space c1) = (Some b, c2)" "r = skip_space (drop (nat (b mod 2 ^ 32)) (skip_space c2))"
    using assms by (auto simp: scan_region_def Let_def split: prod.splits option.splits if_splits)
  then show ?thesis
    using fscan_d_length [of cs] fscan_d_length [of "skip_space c1"] skip_space_length [of c1] skip_space_length [of c2]
      skip_space_length [of "drop (nat (b mod 2 ^ 32)) (skip_space c2)"] by fastforce
qed

text \<open>
  The loop of \<open>rvm_map\<close> over the log \<open>cs\<close> on the new segment's memory \<open>m\<close>. The name in the log is read into
  the segment's own name, which must be long enough for it. The loop ends when white space has been
  skipped to the end of the file.
\<close>

function redo_loop :: "string \<Rightarrow> string \<Rightarrow> string \<Rightarrow> (string \<times> string) res" where
  "redo_loop cs name m =
     (case scan_header cs of
        No_header \<Rightarrow> Inr (name, m)
      | Log_ended \<Rightarrow> Inl Invalid_pointer
      | Header w cs' \<Rightarrow>
          if length name < length w then Inl Invalid_pointer
          else (case scan_region cs' of
                  Inl e \<Rightarrow> Inl e
                | Inr (off, d, r) \<Rightarrow>
                    (case write_at off d m of
                       Inl e \<Rightarrow> Inl e
                     | Inr m' \<Rightarrow> if r = [] then Inr (w, m') else redo_loop r w m')))"
  by pat_completeness auto
termination
  by (relation "measure (\<lambda>(cs, _, _). length cs)") (auto dest!: scan_header_length scan_region_length)

declare redo_loop.simps [simp del]

text \<open>The loop of \<open>rvm_truncate_log\<close>: each region goes to the file of the segment its header names; a file that
  does not exist is not written.\<close>

function truncate_loop :: "string \<Rightarrow> string \<Rightarrow> (string \<Rightarrow> string option) \<Rightarrow> (string \<Rightarrow> string option) res" where
  "truncate_loop dir cs fs =
     (case scan_header cs of
        Header w cs' \<Rightarrow>
          (case scan_region cs' of
             Inl e \<Rightarrow> Inl e
           | Inr (off, d, r) \<Rightarrow>
               let fs' = fs(seg_path dir w := map_option (file_write off d) (fs (seg_path dir w)))
               in if r = [] then Inr fs' else truncate_loop dir r fs')
      | _ \<Rightarrow> Inl Invalid_pointer)"
  by pat_completeness auto
termination
  by (relation "measure (\<lambda>(_, cs, _). length cs)") (auto dest!: scan_header_length scan_region_length)

declare truncate_loop.simps [simp del]

section \<open>Segments\<close>

text \<open>\<open>raw_segs\<close> and \<open>raw_n\<close> are what \<open>malloc\<close> left in the new metadata.\<close>

definition rvm_init :: "string \<Rightarrow> SegList_t option list \<Rightarrow> int \<Rightarrow> rvm_state \<Rightarrow> int \<times> rvm_state" where
  "rvm_init dir raw_segs raw_n s =
     (let i = g_rvmID s + 1 in
      (if i > 1 then - 1 else i, s\<lparr>DirName := dir, Seg_list := raw_segs, nSegs := raw_n, g_rvmID := i, RVM_Id := i\<rparr>))"

text \<open>
  \<open>rvm_map\<close>: \<open>b\<close> is the address of the new block, \<open>raw\<close> its contents; \<open>found\<close> is the initial value of
  \<open>bSegFound\<close> and \<open>raw_busy\<close> that of the node's \<open>Busy\<close>.
\<close>

definition open_segment :: "bool \<Rightarrow> string \<Rightarrow> nat \<Rightarrow> (string \<Rightarrow> string option) \<Rightarrow> string \<Rightarrow> string option" where
  "open_segment found path sz fs =
     (case fs path of
        Some c \<Rightarrow> if length c < sz then fs(path \<mapsto> grow sz c) else fs
      | None \<Rightarrow> if found then fs else fs(path \<mapsto> replicate sz (CHR 0x00)))"

definition rvm_map :: "int \<Rightarrow> string \<Rightarrow> nat \<Rightarrow> nat \<Rightarrow> string \<Rightarrow> bool \<Rightarrow> bool \<Rightarrow> rvm_state \<Rightarrow> (nat option \<times> rvm_state) res" where
  "rvm_map rvm name sz b raw found raw_busy s =
     (if RVM_Id s \<noteq> rvm then Inr (None, s)
      else
        let fs = open_segment found (seg_path (DirName s) name) sz (disk s);
            m = (case fs (seg_path (DirName s) name) of Some c \<Rightarrow> take sz c | None \<Rightarrow> raw)
        in if None \<in> set (Seg_list s) then Inl Invalid_pointer
           else case fs (log_path (DirName s) name) of
                  None \<Rightarrow>
                    Inr (Some b, s\<lparr>nSegs := nSegs s + 1, disk := fs, block := (block s)(b \<mapsto> m), Seg_list := Seg_list s @
                      [Some \<lparr>SegBase = b, SegName = name, SegSize = sz, Busy = raw_busy, SegID = nSegs s + 1\<rparr>]\<rparr>)
                | Some log \<Rightarrow>
                    (case redo_loop log name m of
                       Inl e \<Rightarrow> Inl e
                     | Inr (w, m) \<Rightarrow>
                         Inr (Some b, s\<lparr>nSegs := nSegs s + 1, disk := fs, block := (block s)(b \<mapsto> m), Seg_list := Seg_list s @
                           [Some \<lparr>SegBase = b, SegName = w, SegSize = sz, Busy = raw_busy, SegID = nSegs s + 1\<rparr>]\<rparr>)))"

text \<open>The node is freed; it is unlinked only if it is not the last one.\<close>

definition unlink_seg :: "nat \<Rightarrow> rvm_state \<Rightarrow> rvm_state" where
  "unlink_seg i s =
     s\<lparr>Seg_list := (if i + 1 < length (Seg_list s) then take i (Seg_list s) @ drop (i + 1) (Seg_list s) else (Seg_list s)[i := None])\<rparr>"

definition rvm_unmap :: "int \<Rightarrow> nat \<Rightarrow> rvm_state \<Rightarrow> rvm_state res" where
  "rvm_unmap rvm b s =
     (if RVM_Id s \<noteq> rvm then Inr s
      else bindE (find_seg (\<lambda>x. SegBase x = b) (Seg_list s)) (\<lambda>r.
        case r of
          None \<Rightarrow> Inr s
        | Some i \<Rightarrow> if block s b = None then Inl Invalid_pointer else Inr (unlink_seg i (s\<lparr>block := (block s)(b := None)\<rparr>))))"

definition rvm_destroy :: "int \<Rightarrow> string \<Rightarrow> rvm_state \<Rightarrow> rvm_state res" where
  "rvm_destroy rvm name s =
     (if RVM_Id s \<noteq> rvm then Inr s
      else bindE (find_seg (\<lambda>x. SegName x = name) (Seg_list s)) (\<lambda>r.
        let s = (case r of None \<Rightarrow> s | Some i \<Rightarrow> unlink_seg i s) in
        Inr (s\<lparr>disk := (disk s)(seg_path (DirName s) name := None, log_path (DirName s) name := None)\<rparr>)))"

section \<open>Transactions\<close>

text \<open>The search for the segments goes on where the one before ended and marks them busy; nothing reads the mark.\<close>

fun mark_from :: "nat \<Rightarrow> SegList_t option list \<Rightarrow> (SegList_t option list \<times> nat) res" where
  "mark_from b [] = Inr ([], 0)"
| "mark_from b (None # xs) = Inl Invalid_pointer"
| "mark_from b (Some x # xs) =
     (if SegBase x = b \<and> \<not> Busy x then Inr (Some (x\<lparr>Busy := True\<rparr>) # xs, 0)
      else bindE (mark_from b xs) (\<lambda>(ys, i). Inr (Some x # ys, Suc i)))"

fun mark_all :: "nat list \<Rightarrow> nat \<Rightarrow> SegList_t option list \<Rightarrow> SegList_t option list res" where
  "mark_all [] i xs = Inr xs"
| "mark_all (b # bs) i xs = bindE (mark_from b (drop i xs)) (\<lambda>(ys, j). mark_all bs (i + j) (take i xs @ ys))"

text \<open>\<open>raw\<close> is what \<open>malloc\<close> left in the new transaction and \<open>r\<close> the first number \<open>rand\<close> returns after \<open>srand(1)\<close>.\<close>

definition rvm_begin_trans :: "int \<Rightarrow> nat list \<Rightarrow> Transactions_t \<Rightarrow> int \<Rightarrow> rvm_state \<Rightarrow> (int \<times> rvm_state) res" where
  "rvm_begin_trans rvm segbases raw r s =
     (if RVM_Id s \<noteq> rvm then Inr (- 1, s)
      else bindE (mark_all segbases 0 (Seg_list s)) (\<lambda>segs.
        Inr (r, s\<lparr>Seg_list := segs, gTransList := gTransList s @ [raw\<lparr>TID := r\<rparr>]\<rparr>)))"

text \<open>One undo record is written back.\<close>

definition restore :: "UndoRecord_t \<Rightarrow> rvm_state \<Rightarrow> rvm_state res" where
  "restore u s =
     bindE (find_seg (\<lambda>x. SegBase x = undo_base u) (Seg_list s)) (\<lambda>r.
       case r of
         None \<Rightarrow> Inr s
       | Some i \<Rightarrow>
           (case undo_buf u of
              None \<Rightarrow> Inl Invalid_pointer
            | Some d \<Rightarrow>
                bindE (mem_block (undo_base u) s) (\<lambda>m.
                bindE (write_at (undo_offset u) d m) (\<lambda>m.
                Inr (upd_seg i (\<lambda>x. x\<lparr>Busy := False\<rparr>) (put_block (undo_base u) m s))))))"

text \<open>The loops over \<open>nModifyRegions\<close> undo records; they stay at the last record if there are fewer.\<close>

fun undo_loop :: "nat \<Rightarrow> UndoRecord_t list \<Rightarrow> rvm_state \<Rightarrow> rvm_state res" where
  "undo_loop 0 us s = Inr s"
| "undo_loop (Suc k) [] s = Inl Invalid_pointer"
| "undo_loop (Suc k) (u # us) s = bindE (restore u s) (undo_loop k (if us = [] then [u\<lparr>undo_buf := None\<rparr>] else us))"

fun discard_loop :: "nat \<Rightarrow> UndoRecord_t list \<Rightarrow> rvm_state \<Rightarrow> rvm_state res" where
  "discard_loop 0 us s = Inr s"
| "discard_loop (Suc k) [] s = Inl Invalid_pointer"
| "discard_loop (Suc k) (u # us) s =
     bindE (find_seg (\<lambda>x. SegBase x = undo_base u) (Seg_list s)) (\<lambda>r.
       discard_loop k (if us = [] then [u] else us) (case r of None \<Rightarrow> s | Some i \<Rightarrow> upd_seg i (\<lambda>x. x\<lparr>Busy := False\<rparr>) s))"

text \<open>The end of both: the names in the redo log are freed and the transaction is unlinked. If it is not
  the first one, the code goes on with a null pointer.\<close>

definition end_trans :: "int \<Rightarrow> Transactions_t \<Rightarrow> rvm_state \<Rightarrow> rvm_state res" where
  "end_trans tid t s =
     (if \<not> list_all (\<lambda>r. redo_name r \<noteq> None) (RedoLog t) then Inl Invalid_pointer
      else case gTransList s of
        [] \<Rightarrow> Inl Invalid_pointer
      | t0 # ts \<Rightarrow> if TID t0 = tid then Inr (s\<lparr>gTransList := ts\<rparr>) else Inl Invalid_pointer)"

definition rvm_abort_trans :: "int \<Rightarrow> rvm_state \<Rightarrow> rvm_state res" where
  "rvm_abort_trans tid s =
     (case find_trans tid s of
        None \<Rightarrow> Inr s
      | Some t \<Rightarrow>
          bindE (undo_loop (nModifyRegions t) (UndoRecord t) s) (\<lambda>s.
          if UndoRecord t = [] then Inl Invalid_pointer else end_trans tid t s))"

definition Cleanup_transaction :: "int \<Rightarrow> rvm_state \<Rightarrow> rvm_state res" where
  "Cleanup_transaction tid s =
     (case find_trans tid s of
        None \<Rightarrow> Inr s
      | Some t \<Rightarrow> bindE (discard_loop (nModifyRegions t) (UndoRecord t) s) (end_trans tid t))"

definition rvm_about_to_modify :: "int \<Rightarrow> nat \<Rightarrow> nat \<Rightarrow> nat \<Rightarrow> rvm_state \<Rightarrow> rvm_state res" where
  "rvm_about_to_modify tid b off sz s =
     (case find_trans tid s of
        None \<Rightarrow> Inr s
      | Some t \<Rightarrow>
          bindE (find_seg (\<lambda>x. SegBase x = b) (Seg_list s)) (\<lambda>r.
            let add = (\<lambda>buf name t. t\<lparr>nModifyRegions := nModifyRegions t + 1,
                  UndoRecord := UndoRecord t @ [\<lparr>undo_base = b, undo_buf = buf, undo_offset = off, undo_nBytes = sz\<rparr>],
                  RedoLog := RedoLog t @ [\<lparr>redo_name = name, redo_base = b, redo_offset = off, redo_nBytes = sz\<rparr>]\<rparr>)
            in case r of
                 None \<Rightarrow> rvm_abort_trans tid (s\<lparr>gTransList := upd_trans tid (add None None) (gTransList s)\<rparr>)
               | Some i \<Rightarrow>
                   bindE (mem_block b s) (\<lambda>m. bindE (read_at off sz m) (\<lambda>d.
                   Inr (s\<lparr>gTransList := upd_trans tid (add (Some d) (map_option SegName (Seg_list s ! i))) (gTransList s)\<rparr>)))))"

text \<open>Appending an entry to the log of its segment.\<close>

definition log_entry :: "RedoLogs_t \<Rightarrow> rvm_state \<Rightarrow> rvm_state res" where
  "log_entry r s =
     (case redo_name r of
        None \<Rightarrow> Inl Invalid_pointer
      | Some name \<Rightarrow>
          bindE (mem_block (redo_base r) s) (\<lambda>m. bindE (read_at (redo_offset r) (redo_nBytes r) m) (\<lambda>d.
          let path = log_path (DirName s) name; old = (case disk s path of None \<Rightarrow> [] | Some c \<Rightarrow> c) in
          Inr (s\<lparr>disk := (disk s)(path \<mapsto> old @ print_entry name (redo_offset r) d)\<rparr>))))"

definition rvm_commit_trans :: "int \<Rightarrow> rvm_state \<Rightarrow> rvm_state res" where
  "rvm_commit_trans tid s =
     bindE (case find_trans tid s of None \<Rightarrow> Inr s | Some t \<Rightarrow> foldE log_entry (RedoLog t) s) (Cleanup_transaction tid)"

definition truncate_segment :: "SegList_t option \<Rightarrow> rvm_state \<Rightarrow> rvm_state res" where
  "truncate_segment x s =
     (case x of
        None \<Rightarrow> Inl Invalid_pointer
      | Some x \<Rightarrow>
          (case disk s (log_path (DirName s) (SegName x)) of
             None \<Rightarrow> Inr s
           | Some log \<Rightarrow>
               bindE (truncate_loop (DirName s) log (disk s)) (\<lambda>fs.
               Inr (s\<lparr>disk := fs(log_path (DirName s) (SegName x) := None)\<rparr>))))"

definition rvm_truncate_log :: "rvm_state \<Rightarrow> rvm_state res" where
  "rvm_truncate_log s = foldE truncate_segment (Seg_list s) s"

text \<open>The application writes to a mapped segment.\<close>

definition store :: "nat \<Rightarrow> nat \<Rightarrow> string \<Rightarrow> rvm_state \<Rightarrow> rvm_state res" where
  "store b off d s = bindE (mem_block b s) (\<lambda>m. bindE (write_at off d m) (\<lambda>m. Inr (put_block b m s)))"

end
