(* ===== verification/Rvm_Log.thy ===== *)
theory Rvm_Log
  imports Rvm
begin

text \<open>
  The format of the redo log of \<open>rvm.cpp\<close>: what \<open>rvm_commit_trans\<close> prints is read back by \<open>rvm_map\<close> and
  \<open>rvm_truncate_log\<close>, unless the bytes of a region begin with white space; and replaying a log in memory
  is the same as writing it to the segment's file.
\<close>

section \<open>Reading entries back\<close>

type_synonym entry = "nat \<times> string"

definition name_ok :: "string \<Rightarrow> bool" where
  "name_ok name \<longleftrightarrow> name \<noteq> [] \<and> list_all (\<lambda>c. \<not> is_space c) name \<and> take 9 name \<noteq> ''REDO_LOG_''"

definition entry_ok :: "entry \<Rightarrow> bool" where
  "entry_ok e \<longleftrightarrow> fst e < 2 ^ 31 \<and> length (snd e) < 2 ^ 31 \<and> (snd e \<noteq> [] \<longrightarrow> \<not> is_space (hd (snd e)))"

definition log_of :: "string \<Rightarrow> entry list \<Rightarrow> string" where
  "log_of name es = concat (map (\<lambda>(off, d). print_entry name off d) es)"

lemma skip_space_stop: "\<not> is_space c \<Longrightarrow> skip_space (c # cs) = c # cs"
  by (simp add: skip_space_def)

lemma skip_space_newline [simp]: "skip_space (CHR 0x0A # cs) = skip_space cs" "skip_space (CHR 0x20 # cs) = skip_space cs"
  by (simp_all add: skip_space_def is_space_def)

lemma skip_space_show: "skip_space (show_nat 10 n @ cs) = show_nat 10 n @ cs"
proof -
  have "list_all (is_digit 10) (show_nat 10 n)" "show_nat 10 n \<noteq> []" using show_nat_digits [of 10 n] by simp_all
  then obtain c ds where "show_nat 10 n = c # ds" "is_digit 10 c" by (cases "show_nat 10 n") auto
  then show ?thesis using digit_not_special [of 10 c] by (simp add: skip_space_def)
qed

lemma scan_header_entry:
  assumes "name_ok name"
  shows "scan_header (print_entry name off d @ cs) =
    Header name (show_nat 10 off @ '' '' @ show_nat 10 (length d) @ [CHR 0x0A] @ d @ [CHR 0x0A] @ cs)"
proof -
  obtain c r where name: "name = c # r" "\<not> is_space c" using assms by (cases name) (auto simp: name_ok_def)
  let ?rest = "show_nat 10 off @ '' '' @ show_nat 10 (length d) @ [CHR 0x0A] @ d @ [CHR 0x0A] @ cs"
  have "takeWhile (\<lambda>c. \<not> is_space c) (name @ [CHR 0x0A] @ ?rest) = name" "dropWhile (\<lambda>c. \<not> is_space c) (name @ [CHR 0x0A] @ ?rest) = [CHR 0x0A] @ ?rest"
    using assms by (simp_all add: name_ok_def list_all_iff is_space_def takeWhile_append2 dropWhile_append2)
  moreover have "skip_space (name @ [CHR 0x0A] @ ?rest) = name @ [CHR 0x0A] @ ?rest" using name by (simp add: skip_space_def)
  ultimately have "fscan_s (name @ [CHR 0x0A] @ ?rest) = (Some name, [CHR 0x0A] @ ?rest)" by (simp add: fscan_s_def name(1))
  moreover have "skip_space ?rest = ?rest" using skip_space_show by simp
  moreover have "skip_space (''LOG#'' @ name @ [CHR 0x0A] @ ?rest) = ''LOG#'' @ name @ [CHR 0x0A] @ ?rest"
    by (simp add: skip_space_def is_space_def)
  ultimately show ?thesis by (simp add: scan_header_def print_entry_def)
qed

lemma scan_region_entry:
  assumes "entry_ok (off, d)"
  shows "scan_region (show_nat 10 off @ '' '' @ show_nat 10 (length d) @ [CHR 0x0A] @ d @ [CHR 0x0A] @ cs) = Inr (off, d, skip_space cs)"
proof -
  let ?t = "[CHR 0x0A] @ d @ [CHR 0x0A] @ cs"
  have ends: "ends_number 10 ('' '' @ show_nat 10 (length d) @ ?t)" "ends_number 10 ?t"
    by (simp_all add: ends_number_def is_digit_def digit_value_def)
  have bounds: "off < 2 ^ 31" "length d < 2 ^ 31" using assms by (simp_all add: entry_ok_def)
  have 1: "fscan_d (show_nat 10 off @ '' '' @ show_nat 10 (length d) @ ?t) = (Some (int off), '' '' @ show_nat 10 (length d) @ ?t)"
    using scan_d_show [OF bounds(1) ends(1), of "[]"] by (simp add: fscan_d_def)
  have 2: "fscan_d (show_nat 10 (length d) @ ?t) = (Some (int (length d)), ?t)"
    using scan_d_show [OF bounds(2) ends(2), of "[]"] by (simp add: fscan_d_def)
  have sp: "skip_space ('' '' @ show_nat 10 (length d) @ ?t) = show_nat 10 (length d) @ ?t" using skip_space_show by simp
  have m: "nat (int off mod 2 ^ 32) = off" "nat (int (length d) mod 2 ^ 32) = length d" using bounds by simp_all
  show ?thesis
  proof (cases d)
    case Nil
    have "skip_space (skip_space cs) = skip_space cs" by (simp add: skip_space_def dropWhile_idem)
    then show ?thesis using 1 2 sp m Nil by (simp add: scan_region_def)
  next
    case (Cons c r)
    then have "skip_space ?t = d @ [CHR 0x0A] @ cs" using assms by (simp add: entry_ok_def skip_space_stop)
    then show ?thesis using 1 2 sp m by (simp add: scan_region_def Let_def)
  qed
qed

lemma log_of_start: "es \<noteq> [] \<Longrightarrow> skip_space (log_of name es) = log_of name es \<and> log_of name es \<noteq> []"
  by (cases es) (auto simp: log_of_def print_entry_def skip_space_def is_space_def)

section \<open>Replaying a log\<close>

definition replay :: "entry list \<Rightarrow> string \<Rightarrow> string res" where
  "replay es m = foldE (\<lambda>(off, d). write_at off d) es m"

lemma redo_loop_log:
  assumes "es \<noteq> []" and "list_all entry_ok es" and "name_ok name"
  shows "redo_loop (log_of name es) name m = bindE (replay es m) (\<lambda>m. Inr (name, m))"
  using assms(1,2)
proof (induction es arbitrary: m)
  case Nil
  then show ?case by simp
next
  case (Cons e es)
  obtain off d where e: "e = (off, d)" by (cases e)
  have ok: "entry_ok (off, d)" using Cons.prems e by simp
  have log: "log_of name (e # es) = print_entry name off d @ log_of name es" by (simp add: log_of_def e)
  show ?case
  proof (cases "es = []")
    case True
    then show ?thesis unfolding log redo_loop.simps [of "print_entry name off d @ log_of name es"]
      scan_header_entry [OF assms(3)]
      using scan_region_entry [OF ok] e by (cases "write_at off d m") (simp_all add: log_of_def replay_def skip_space_def)
  next
    case False
    note start = log_of_start [OF False, of name]
    have region: "scan_region (show_nat 10 off @ '' '' @ show_nat 10 (length d) @ [CHR 0x0A] @ d @ [CHR 0x0A] @ log_of name es) = Inr (off, d, log_of name es)"
      using scan_region_entry [OF ok, of "log_of name es"] start by simp
    show ?thesis unfolding log redo_loop.simps [of "print_entry name off d @ log_of name es"]
      scan_header_entry [OF assms(3)]
      using region start False Cons e by (cases "write_at off d m") (simp_all add: replay_def)
  qed
qed

lemma truncate_loop_log:
  assumes "es \<noteq> []" and "list_all entry_ok es" and "name_ok name"
  shows "truncate_loop dir (log_of name es) fs =
    Inr (fs(seg_path dir name := map_option (fold (\<lambda>(off, d). file_write off d) es) (fs (seg_path dir name))))"
  using assms(1,2)
proof (induction es arbitrary: fs)
  case Nil
  then show ?case by simp
next
  case (Cons e es)
  obtain off d where e: "e = (off, d)" by (cases e)
  have ok: "entry_ok (off, d)" using Cons.prems e by simp
  have log: "log_of name (e # es) = print_entry name off d @ log_of name es" by (simp add: log_of_def e)
  show ?case
  proof (cases "es = []")
    case True
    then show ?thesis unfolding log truncate_loop.simps [of dir "print_entry name off d @ log_of name es"] scan_header_entry [OF assms(3)]
      using scan_region_entry [OF ok] e by (simp add: log_of_def skip_space_def fun_eq_iff)
  next
    case False
    note start = log_of_start [OF False, of name]
    have region: "scan_region (show_nat 10 off @ '' '' @ show_nat 10 (length d) @ [CHR 0x0A] @ d @ [CHR 0x0A] @ log_of name es) = Inr (off, d, log_of name es)"
      using scan_region_entry [OF ok, of "log_of name es"] start by simp
    show ?thesis unfolding log truncate_loop.simps [of dir "print_entry name off d @ log_of name es"] scan_header_entry [OF assms(3)]
      using region start False Cons e by (simp add: option.map_comp comp_def Let_def fun_eq_iff)
  qed
qed

section \<open>Writing to memory and to the file\<close>

text \<open>The first \<open>n\<close> bytes of a file that is long enough or grown.\<close>

definition file_image :: "nat \<Rightarrow> string \<Rightarrow> string" where
  "file_image n c = take n (grow n c)"

lemma file_image_length [simp]: "length (file_image n c) = n"
  by (simp add: file_image_def grow_def)

lemma file_image_nth: "i < n \<Longrightarrow> file_image n c ! i = (if i < length c then c ! i else CHR 0x00)"
  by (simp add: file_image_def grow_def nth_append)

lemma write_at_nth:
  assumes "write_at off d m = Inr m'"
  shows "length m' = length m" and "i < length m \<Longrightarrow> m' ! i = (if off \<le> i \<and> i < off + length d then d ! (i - off) else m ! i)"
  using assms by (auto simp: write_at_def nth_append min_def split: if_splits)

lemma file_write_nth:
  "length (file_write off d c) = (if d = [] then length c else max (length c) (off + length d))"
  "i < length (file_write off d c) \<Longrightarrow>
     file_write off d c ! i = (if off \<le> i \<and> i < off + length d then d ! (i - off) else if i < length c then c ! i else CHR 0x00)"
  by (auto simp: file_write_def grow_def Let_def nth_append min_def max_def)

lemma file_image_file_write:
  assumes "write_at off d (file_image n c) = Inr m"
  shows "file_image n (file_write off d c) = m"
proof (rule nth_equalityI)
  show "length (file_image n (file_write off d c)) = length m" using write_at_nth(1) [OF assms] by simp
  fix i assume "i < length (file_image n (file_write off d c))"
  then have i: "i < n" by simp
  have fit: "off + length d \<le> n" using assms by (auto simp: write_at_def split: if_splits)
  show "file_image n (file_write off d c) ! i = m ! i"
    using i fit write_at_nth(2) [OF assms, of i] file_write_nth(1) [of off d c] file_write_nth(2) [of i off d c] by (auto simp: file_image_nth)
qed

lemma file_image_replay: "replay es (file_image n c) = Inr m \<Longrightarrow> file_image n (fold (\<lambda>(off, d). file_write off d) es c) = m"
proof (induction es arbitrary: c)
  case Nil
  then show ?case by (simp add: replay_def)
next
  case (Cons e es)
  then show ?case using file_image_file_write by (cases e) (fastforce simp: replay_def)
qed

lemma replay_append: "replay (es @ fs) m = bindE (replay es m) (replay fs)"
  unfolding replay_def foldE_append by (simp add: replay_def [abs_def])

text \<open>Writing slices of \<open>m\<close> over a block that agrees with \<open>m\<close> elsewhere makes it equal to \<open>m\<close>.\<close>

definition covered :: "(nat \<times> nat) list \<Rightarrow> nat \<Rightarrow> bool" where
  "covered rs i \<longleftrightarrow> (\<exists>(off, n) \<in> set rs. off \<le> i \<and> i < off + n)"

lemma covered_Cons: "covered ((off, n) # rs) i \<longleftrightarrow> off \<le> i \<and> i < off + n \<or> covered rs i"
  by (auto simp: covered_def)

lemma replay_slices:
  assumes "\<forall>(off, n) \<in> set rs. off + n \<le> length m" and "length m0 = length m"
    and "\<And>i. i < length m \<Longrightarrow> \<not> covered rs i \<Longrightarrow> m0 ! i = m ! i"
  shows "replay (map (\<lambda>(off, n). (off, take n (drop off m))) rs) m0 = Inr m"
  using assms
proof (induction rs arbitrary: m0)
  case Nil
  then have "m0 = m" by (intro nth_equalityI) (simp_all add: covered_def)
  then show ?case by (simp add: replay_def)
next
  case (Cons r rs)
  obtain off n where r: "r = (off, n)" by (cases r)
  let ?d = "take n (drop off m)"
  have fit: "off + n \<le> length m" using Cons.prems(1) r by simp
  obtain m1 where m1: "write_at off ?d m0 = Inr m1" using fit Cons.prems(2) by (simp add: write_at_def)
  have "m1 ! i = m ! i" if "i < length m" "\<not> covered rs i" for i
    using write_at_nth(2) [OF m1, of i] that fit Cons.prems(2,3) r by (auto simp: covered_Cons)
  then have "replay (map (\<lambda>(off, n). (off, take n (drop off m))) rs) m1 = Inr m"
    using Cons.prems write_at_nth(1) [OF m1] by (intro Cons.IH) auto
  then show ?case using m1 r by (simp add: replay_def)
qed

section \<open>What a new process finds\<close>

definition recovered :: "string \<Rightarrow> (string \<Rightarrow> string option) \<Rightarrow> string \<Rightarrow> nat \<Rightarrow> string res" where
  "recovered dir fs name n =
     (let m = file_image n (case fs (seg_path dir name) of None \<Rightarrow> [] | Some c \<Rightarrow> c)
      in case fs (log_path dir name) of None \<Rightarrow> Inr m | Some log \<Rightarrow> bindE (redo_loop log name m) (\<lambda>(w, m). Inr m))"

lemma path_simps [simp]:
  "seg_path dir a = seg_path dir b \<longleftrightarrow> a = b" "log_path dir a = log_path dir b \<longleftrightarrow> a = b"
  "name_ok a \<Longrightarrow> seg_path dir a \<noteq> log_path dir b" "name_ok a \<Longrightarrow> log_path dir b \<noteq> seg_path dir a"
  by (auto simp: seg_path_def log_path_def name_ok_def)

lemma map_recovered:
  assumes "recovered (DirName s) (disk s) name n = Inr m" and "name_ok name" and "None \<notin> set (Seg_list s)"
    and "\<not> found \<or> disk s (seg_path (DirName s) name) \<noteq> None"
  shows "\<exists>s'. rvm_map (RVM_Id s) name n b raw found busy s = Inr (Some b, s') \<and> block s' b = Some m"
proof -
  let ?p = "seg_path (DirName s) name" and ?l = "log_path (DirName s) name"
  let ?c = "case disk s ?p of None \<Rightarrow> [] | Some c \<Rightarrow> c"
  let ?fs = "open_segment found ?p n (disk s)"
  have "take n (case ?fs ?p of Some c \<Rightarrow> c | None \<Rightarrow> raw) = file_image n ?c" "?fs ?p \<noteq> None"
    using assms(4) by (auto simp: open_segment_def file_image_def grow_def split: option.splits)
  then have m: "(case ?fs ?p of Some c \<Rightarrow> take n c | None \<Rightarrow> raw) = file_image n ?c" by (cases "?fs ?p") auto
  have l: "?fs ?l = disk s ?l" using assms(2) by (auto simp: open_segment_def split: option.splits)
  show ?thesis
  proof (cases "disk s ?l")
    case None
    then show ?thesis using assms(1,3) m l by (simp add: rvm_map_def recovered_def Let_def)
  next
    case (Some log)
    then obtain w where "redo_loop log name (file_image n ?c) = Inr (w, m)" using assms(1) by (auto simp: recovered_def Let_def)
    then show ?thesis using Some assms(3) m l by (simp add: rvm_map_def Let_def)
  qed
qed

end
