(* ===== verification/Rvm_Recovery.thy ===== *)
theory Rvm_Recovery
  imports Rvm_Log
begin

text \<open>
  What the recoverable memory of \<open>rvm.cpp\<close> guarantees: committed data survives a crash, truncating the
  logs does not change what a new process finds, and an aborted transaction leaves the memory as it
  was when its regions do not overlap; and two executions in which data is lost or not restored.
\<close>

section \<open>Mapped segments\<close>








section \<open>Truncation\<close>






section \<open>Transactions\<close>



definition seg_key :: "SegList_t \<Rightarrow> nat \<times> string \<times> nat" where
  "seg_key x = (SegBase x, SegName x, SegSize x)"

definition same_segs :: "SegList_t list \<Rightarrow> rvm_state \<Rightarrow> bool" where
  "same_segs xs s \<longleftrightarrow> (\<exists>ys. Seg_list s = map Some ys \<and> map seg_key ys = map seg_key xs)"













lemma same_segs_cong: "Seg_list s' = Seg_list s \<Longrightarrow> same_segs xs s' = same_segs xs s"
  by (simp add: same_segs_def)











section \<open>Abort\<close>





section \<open>Commit\<close>











section \<open>Concrete executions\<close>

text \<open>A process that has mapped the segment \<open>s\<close> of four zero bytes.\<close>

definition nul :: char where "nul = CHR 0x00"

definition demo_seg :: SegList_t where
  "demo_seg = \<lparr>SegBase = 1, SegName = ''s'', SegSize = 4, Busy = False, SegID = 1\<rparr>"

definition demo_rvm :: rvm_state where
  "demo_rvm = \<lparr>RVM_Id = 1, DirName = ''d'', Seg_list = [Some demo_seg], nSegs = 1, gTransList = [], g_rvmID = 1,
     block = (\<lambda>b. if b = 1 then Some [nul, nul, nul, nul] else None),
     disk = (\<lambda>p. if p = ''d/s'' then Some [nul, nul, nul, nul] else None)\<rparr>"

definition zero_trans :: Transactions_t where
  "zero_trans = \<lparr>TID = 0, UndoRecord = [], RedoLog = [], nModifyRegions = 0\<rparr>"

definition demo_begin :: "rvm_state res" where
  "demo_begin = bindE (rvm_begin_trans 1 [1] zero_trans 7 demo_rvm) (\<lambda>(tid, s). Inr s)"

definition demo_modify :: "nat \<Rightarrow> string \<Rightarrow> rvm_state \<Rightarrow> rvm_state res" where
  "demo_modify off d s = bindE (rvm_about_to_modify 7 1 off (length d) s) (store 1 off d)"

text \<open>A new process with the files of \<open>s\<close>.\<close>

definition new_process :: "rvm_state \<Rightarrow> rvm_state" where
  "new_process s = demo_rvm\<lparr>Seg_list := [], nSegs := 0, block := (\<lambda>_. None), disk := disk s\<rparr>"

definition remapped :: "rvm_state \<Rightarrow> string option res" where
  "remapped s = bindE (rvm_map 1 ''s'' 4 2 [] False False (new_process s)) (\<lambda>(b, s). Inr (block s 2))"










text \<open>A region whose bytes begin with white space is not recovered: the program writes a blank and an x,
  commits, and a new process that maps the segment finds an x and a newline instead, because the
  \<open>fscanf\<close> of the offset and the size also skips the blank.\<close>

theorem leading_space_lost:
  "bindE demo_begin (\<lambda>s. bindE (demo_modify 0 '' x'' s) (\<lambda>s. bindE (rvm_commit_trans 7 s) (\<lambda>s'. Inr (block s 1, remapped s')))) =
     Inr (Some ('' x'' @ [nul, nul]), Inr (Some (''x'' @ [CHR 0x0A, nul, nul])))"
  by code_simp

text \<open>Overlapping regions are not undone: two overlapping regions are declared and written one after the
  other, and after the abort a byte of the first write is still in memory, because the undo records are
  written back oldest first.\<close>

theorem overlap_not_undone:
  "bindE demo_begin (\<lambda>s. bindE (demo_modify 0 ''ab'' s) (\<lambda>s. bindE (demo_modify 1 ''cd'' s) (\<lambda>s. bindE (rvm_abort_trans 7 s) (\<lambda>s'. Inr (block s' 1))))) =
     Inr (Some [nul, CHR ''b'', nul, nul]) \<and> block demo_rvm 1 = Some [nul, nul, nul, nul]"
  by code_simp

end
