(* ===== verification/Std_Map.thy ===== *)
theory Std_Map
  imports Prelude "HOL-Library.Char_ord" "HOL-Library.List_Lexorder"
begin

text \<open>
  \<open>std::map\<close> of the C++ sources: the elements in the order of their keys, as an iterator visits them.
  \<open>m[k]\<close> on the right of an assignment makes an element with a default value if there is none; the
  sources erase it at once, so reading is \<open>at_key\<close> and leaves the map alone.
\<close>

type_synonym ('k, 'v) std_map = "('k \<times> 'v) list"

definition map_ok :: "('k::linorder, 'v) std_map \<Rightarrow> bool" where
  "map_ok m \<longleftrightarrow> sorted_wrt (<) (map fst m)"

fun put_key :: "'k::linorder \<Rightarrow> 'v \<Rightarrow> ('k, 'v) std_map \<Rightarrow> ('k, 'v) std_map" where
  "put_key k v [] = [(k, v)]"
| "put_key k v ((a, b) # m) = (if k < a then (k, v) # (a, b) # m else if k = a then (k, v) # m else (a, b) # put_key k v m)"

definition erase :: "'k \<Rightarrow> ('k, 'v) std_map \<Rightarrow> ('k, 'v) std_map" where
  "erase k m = filter (\<lambda>x. fst x \<noteq> k) m"

definition at_key :: "'v \<Rightarrow> ('k, 'v) std_map \<Rightarrow> 'k \<Rightarrow> 'v" where
  "at_key d m k = (case map_of m k of None \<Rightarrow> d | Some v \<Rightarrow> v)"

lemma map_ok_simps [simp]:
  "map_ok []" "map_ok ((k, v) # m) \<longleftrightarrow> (\<forall>x \<in> set m. k < fst x) \<and> map_ok m"
  by (auto simp: map_ok_def)

lemma map_ok_distinct: "map_ok m \<Longrightarrow> distinct (map fst m)"
  by (induction m) (auto simp: map_ok_def)

lemma set_put_key: "map_ok m \<Longrightarrow> set (put_key k v m) = insert (k, v) {x \<in> set m. fst x \<noteq> k}"
  by (induction k v m rule: put_key.induct) auto

lemma map_ok_put_key [simp]: "map_ok m \<Longrightarrow> map_ok (put_key k v m)"
  by (induction k v m rule: put_key.induct) (auto simp: set_put_key)

lemma map_of_put_key [simp]: "map_ok m \<Longrightarrow> map_of (put_key k v m) = (map_of m)(k \<mapsto> v)"
  by (induction k v m rule: put_key.induct) (auto simp: fun_eq_iff)

lemma map_ok_erase [simp]: "map_ok m \<Longrightarrow> map_ok (erase k m)"
  by (induction m) (auto simp: erase_def)

lemma map_of_erase [simp]: "map_of (erase k m) = (map_of m)(k := None)"
  by (induction m) (auto simp: erase_def fun_eq_iff)

lemma set_erase [simp]: "set (erase k m) = {x \<in> set m. fst x \<noteq> k}"
  by (auto simp: erase_def)

lemma erase_hd [simp]: "map_ok ((k, v) # m) \<Longrightarrow> erase k ((k, v) # m) = m"
  by (auto simp: erase_def intro!: filter_True)

lemma put_key_max: "\<forall>x \<in> set m. fst x < k \<Longrightarrow> put_key k v m = m @ [(k, v)]"
  by (induction k v m rule: put_key.induct) (auto dest: less_asym)

text \<open>Sums over the elements.\<close>

lemma sum_erase:
  fixes f :: "'v \<Rightarrow> int" and m :: "('k::linorder, 'v) std_map"
  assumes "map_ok m" and "map_of m k = Some v"
  shows "sum_list (map (f \<circ> snd) (erase k m)) + f v = sum_list (map (f \<circ> snd) m)"
  using assms
proof (induction m)
  case (Cons x m)
  show ?case
  proof (cases "fst x = k")
    case True
    then show ?thesis using Cons.prems erase_hd [of k "snd x" m] by (cases x) simp
  next
    case False
    then show ?thesis using Cons by (cases x) (simp add: erase_def)
  qed
qed simp

lemma sum_put_key:
  fixes f :: "'v \<Rightarrow> int" and m :: "('k::linorder, 'v) std_map"
  assumes "map_ok m" and "map_of m k = None"
  shows "sum_list (map (f \<circ> snd) (put_key k v m)) = sum_list (map (f \<circ> snd) m) + f v"
  using assms by (induction k v m rule: put_key.induct) (auto split: if_splits)

end
