(* ===== verification/Web_Cache.thy ===== *)
theory Web_Cache
  imports Std_Map
begin

text \<open>
  The page caches of \<open>src/aos/a3/rpc/gen-cpp\<close>: \<open>lru_cache.cpp\<close>, \<open>minlru_cache.cpp\<close> and
  \<open>rand_cache.cpp\<close>, three implementations of the interface of \<open>cache.h\<close>. The globals of a file are a
  record; the first two files have the same ones, up to the type of the entries of \<open>lru_table\<close>. The next
  numbers \<open>rand\<close> will return are part of the state of the third.

  The interface is the locale \<open>page_cache\<close>. A cache's contract holds for a number of operations, because
  the two least-recently-used caches keep a 64-bit count of them in 32-bit keys.
\<close>

section \<open>State\<close>

record webpage =
  webpage_data :: string
  webpage_len :: int

record hash_value =
  lru_cnt :: "32 word"
  cached_pg :: webpage

record lru_metadata =
  url :: string
  pg_size :: "32 word"

record 'e page_store =
  web_cache :: "(string, hash_value) std_map"
  lru_table :: "(32 word, 'e) std_map"
  cache_sz_total :: int
  cache_sz_remaining :: int
  glru_count :: "64 word"

definition no_value :: hash_value where
  "no_value = \<lparr>lru_cnt = 0, cached_pg = \<lparr>webpage_data = [], webpage_len = 0\<rparr>\<rparr>"

definition no_metadata :: lru_metadata where
  "no_metadata = \<lparr>url = [], pg_size = 0\<rparr>"

text \<open>The globals at program start.\<close>

definition empty_store :: "'e page_store" where
  "empty_store = \<lparr>web_cache = [], lru_table = [], cache_sz_total = 0, cache_sz_remaining = 0, glru_count = 0\<rparr>"

definition set_cache_size :: "32 word \<Rightarrow> 'e page_store \<Rightarrow> 'e page_store" where
  "set_cache_size sz s = s\<lparr>cache_sz_total := c_int (uint sz), cache_sz_remaining := c_int (uint sz)\<rparr>"

text \<open>The statements both files have: a page is evicted, added, or becomes the most recently used one.\<close>

definition evict_page :: "32 word \<Rightarrow> string \<Rightarrow> 'e page_store \<Rightarrow> 'e page_store" where
  "evict_page c u s = s\<lparr>cache_sz_remaining := cache_sz_remaining s + webpage_len (cached_pg (at_key no_value (web_cache s) u)),
     web_cache := erase u (web_cache s), lru_table := erase c (lru_table s)\<rparr>"

definition insert_page :: "string \<Rightarrow> webpage \<Rightarrow> 'e \<Rightarrow> 'e page_store \<Rightarrow> 'e page_store" where
  "insert_page u pg e s =
     (let c = ucast (glru_count s) in
      s\<lparr>glru_count := glru_count s + 1, cache_sz_remaining := cache_sz_remaining s - webpage_len pg,
        web_cache := put_key u \<lparr>lru_cnt = c, cached_pg = pg\<rparr> (web_cache s), lru_table := put_key c e (lru_table s)\<rparr>)"

definition touch_page :: "string \<Rightarrow> hash_value \<Rightarrow> 'e \<Rightarrow> 'e page_store \<Rightarrow> 'e page_store" where
  "touch_page u v e s =
     (let c = ucast (glru_count s) in
      s\<lparr>glru_count := glru_count s + 1, web_cache := put_key u (v\<lparr>lru_cnt := c\<rparr>) (web_cache s),
        lru_table := put_key c e (erase (lru_cnt v) (lru_table s))\<rparr>)"

lemma erase_length: "x \<in> set m \<Longrightarrow> length (erase (fst x) m) < length m"
  unfolding erase_def by (rule length_filter_less) simp_all

section \<open>Least recently used\<close>

type_synonym lru_cache = "string page_store"

text \<open>The loop takes the first element of \<open>lru_table\<close> without looking whether there is one.\<close>

function lru_evict :: "int \<Rightarrow> lru_cache \<Rightarrow> lru_cache res" where
  "lru_evict len s =
     (if cache_sz_remaining s < len then
        case lru_table s of [] \<Rightarrow> Inl Invalid_pointer | x # _ \<Rightarrow> lru_evict len (evict_page (fst x) (snd x) s)
      else Inr s)"
  by pat_completeness auto
termination
proof (relation "measure (\<lambda>(_, s). length (lru_table s))", goal_cases)
  case (2 len s x xs)
  then show ?case using erase_length [of x "lru_table s"] by (simp add: evict_page_def)
qed simp

declare lru_evict.simps [simp del]

definition lru_add_to_cache :: "string \<Rightarrow> webpage \<Rightarrow> lru_cache \<Rightarrow> lru_cache res" where
  "lru_add_to_cache u pg s =
     (if cache_sz_total s < webpage_len pg then Inr s
      else bindE (lru_evict (webpage_len pg) s) (\<lambda>s. Inr (insert_page u pg u s)))"

definition lru_get_cached_page :: "string \<Rightarrow> lru_cache \<Rightarrow> webpage option \<times> lru_cache" where
  "lru_get_cached_page u s =
     (case map_of (web_cache s) u of None \<Rightarrow> (None, s) | Some v \<Rightarrow> (Some (cached_pg v), touch_page u v u s))"

section \<open>Least recently used of the pages that are large enough\<close>

type_synonym minlru_cache = "lru_metadata page_store"

text \<open>The page the two inner loops evict, if any.\<close>

function minlru_victim :: "32 word \<Rightarrow> (32 word, lru_metadata) std_map \<Rightarrow> (32 word \<times> lru_metadata) option" where
  "minlru_victim min_size t =
     (if min_size = 0 then None
      else case List.find (\<lambda>x. min_size \<le> pg_size (snd x)) t of Some x \<Rightarrow> Some x | None \<Rightarrow> minlru_victim (min_size div 2) t)"
  by pat_completeness auto
termination
  by (relation "measure (\<lambda>(m, _). unat m)") (auto simp: unat_div unat_gt_0 intro!: div_less_dividend)

declare minlru_victim.simps [simp del]

text \<open>The outer loop goes on as long as there is not enough room, even if nothing was evicted.\<close>

partial_function (option) minlru_evict :: "int \<Rightarrow> minlru_cache \<Rightarrow> minlru_cache option" where
  "minlru_evict len s =
     (if cache_sz_remaining s < len then
        minlru_evict len (case minlru_victim (word_of_int len) (lru_table s) of None \<Rightarrow> s | Some (c, e) \<Rightarrow> evict_page c (url e) s)
      else Some s)"

definition minlru_add_to_cache :: "string \<Rightarrow> webpage \<Rightarrow> minlru_cache \<Rightarrow> minlru_cache option" where
  "minlru_add_to_cache u pg s =
     (if cache_sz_total s < webpage_len pg then Some s
      else if webpage_len pg = 0 then Some s
      else case minlru_evict (webpage_len pg) s of
             None \<Rightarrow> None
           | Some s \<Rightarrow> Some (insert_page u pg \<lparr>url = u, pg_size = word_of_int (webpage_len pg)\<rparr> s))"

definition minlru_get_cached_page :: "string \<Rightarrow> minlru_cache \<Rightarrow> webpage option \<times> minlru_cache" where
  "minlru_get_cached_page u s =
     (case map_of (web_cache s) u of
        None \<Rightarrow> (None, s)
      | Some v \<Rightarrow> (Some (cached_pg v), touch_page u v (at_key no_metadata (lru_table s) (lru_cnt v)) s))"

section \<open>Random replacement\<close>

text \<open>This file's \<open>hash_value\<close> has a count too, which nothing reads or writes; it is left out.\<close>

record rand_cache =
  rand_web_cache :: "(string, webpage) std_map"
  rand_sz_total :: int
  rand_sz_remaining :: int
  rand_next :: "nat \<Rightarrow> nat"

definition rand_set_cache_size :: "32 word \<Rightarrow> rand_cache \<Rightarrow> rand_cache" where
  "rand_set_cache_size sz s = s\<lparr>rand_sz_total := c_int (uint sz), rand_sz_remaining := c_int (uint sz)\<rparr>"

definition rand_victim :: "rand_cache \<Rightarrow> string \<times> webpage" where
  "rand_victim s = rand_web_cache s ! (rand_next s 0 mod length (rand_web_cache s))"

function rand_evict :: "int \<Rightarrow> rand_cache \<Rightarrow> rand_cache res" where
  "rand_evict len s =
     (if rand_sz_remaining s < len then
        if rand_web_cache s = [] then Inl Division_by_zero
        else rand_evict len (s\<lparr>rand_sz_remaining := rand_sz_remaining s + webpage_len (snd (rand_victim s)),
               rand_web_cache := erase (fst (rand_victim s)) (rand_web_cache s), rand_next := (\<lambda>i. rand_next s (Suc i))\<rparr>)
      else Inr s)"
  by pat_completeness auto
termination
proof (relation "measure (\<lambda>(_, s). length (rand_web_cache s))", goal_cases)
  case (2 len s)
  then have "rand_victim s \<in> set (rand_web_cache s)" by (simp add: rand_victim_def)
  from erase_length [OF this] show ?case by simp
qed simp

declare rand_evict.simps [simp del]

definition rand_add_to_cache :: "string \<Rightarrow> webpage \<Rightarrow> rand_cache \<Rightarrow> rand_cache res" where
  "rand_add_to_cache u pg s =
     (if rand_sz_total s < webpage_len pg then Inr s
      else bindE (rand_evict (webpage_len pg) s) (\<lambda>s.
        Inr (s\<lparr>rand_sz_remaining := rand_sz_remaining s - webpage_len pg, rand_web_cache := put_key u pg (rand_web_cache s)\<rparr>)))"

definition rand_get_cached_page :: "string \<Rightarrow> rand_cache \<Rightarrow> webpage option \<times> rand_cache" where
  "rand_get_cached_page u s = (map_of (rand_web_cache s) u, s)"

end
