(* ===== verification/Cache_Contract.thy ===== *)
theory Cache_Contract
  imports Web_Cache
begin

text \<open>
  The contract of \<open>cache.h\<close> as a locale, and its interpretation for the three caches: what is stored
  always fits, a lookup returns what is stored and changes nothing that is stored, and adding a page that
  is not stored returns, stores the page if it can fit at all and at most drops others.
\<close>

definition total_len :: "(string \<times> webpage) list \<Rightarrow> int" where
  "total_len xs = sum_list (map (webpage_len \<circ> snd) xs)"

locale page_cache =
  fixes get :: "string \<Rightarrow> 's \<Rightarrow> webpage option \<times> 's"
    and add :: "string \<Rightarrow> webpage \<Rightarrow> 's \<Rightarrow> 's option"
    and stored :: "'s \<Rightarrow> (string, webpage) std_map"
    and capacity :: "'s \<Rightarrow> int"
    and usable :: "nat \<Rightarrow> 's \<Rightarrow> bool"
  assumes usable_Suc: "usable (Suc n) s \<Longrightarrow> usable n s"
    and stored_ok: "usable n s \<Longrightarrow> map_ok (stored s)"
    and stored_nonneg: "usable n s \<Longrightarrow> x \<in> set (stored s) \<Longrightarrow> 0 \<le> webpage_len (snd x)"
    and stored_fits: "usable n s \<Longrightarrow> total_len (stored s) \<le> capacity s"
    and get_stored: "usable (Suc n) s \<Longrightarrow> get u s = (r, s') \<Longrightarrow>
      r = map_of (stored s) u \<and> stored s' = stored s \<and> capacity s' = capacity s \<and> usable n s'"
    and add_stored: "usable (Suc n) s \<Longrightarrow> map_of (stored s) u = None \<Longrightarrow> 0 \<le> webpage_len pg \<Longrightarrow>
      \<exists>s'. add u pg s = Some s' \<and> usable n s' \<and> capacity s' = capacity s \<and>
        map_of (stored s') \<subseteq>\<^sub>m (map_of (stored s))(u \<mapsto> pg) \<and>
        (0 < webpage_len pg \<and> webpage_len pg \<le> capacity s \<longrightarrow> map_of (stored s') u = Some pg)"

section \<open>The two least-recently-used caches\<close>

definition pages :: "(string, hash_value) std_map \<Rightarrow> (string, webpage) std_map" where
  "pages m = map (map_prod id cached_pg) m"

definition store_pages :: "'e page_store \<Rightarrow> (string, webpage) std_map" where
  "store_pages s = pages (web_cache s)"

lemma map_of_pages: "map_of (pages m) u = map_option cached_pg (map_of m u)"
  by (induction m) (auto simp: pages_def)

lemma map_ok_pages [simp]: "map_ok (pages m) = map_ok m"
  by (simp add: map_ok_def pages_def)

lemma pages_erase: "pages (erase u m) = erase u (pages m)"
  by (simp add: pages_def erase_def filter_map o_def)

lemma pages_put_key: "pages (put_key u v m) = put_key u (cached_pg v) (pages m)"
  by (induction u v m rule: put_key.induct) (auto simp: pages_def)

lemma put_key_same: "map_ok m \<Longrightarrow> map_of m k = Some v \<Longrightarrow> put_key k v m = m"
  by (induction k v m rule: put_key.induct) (force split: if_splits dest: map_of_SomeD)+

lemma total_len_erase: "map_ok m \<Longrightarrow> map_of m u = Some pg \<Longrightarrow> total_len (erase u m) = total_len m - webpage_len pg"
  using sum_erase [of m u pg webpage_len] by (simp add: total_len_def)

lemma total_len_put_key: "map_ok m \<Longrightarrow> map_of m u = None \<Longrightarrow> total_len (put_key u pg m) = total_len m + webpage_len pg"
  using sum_put_key [of m u webpage_len pg] by (simp add: total_len_def)

text \<open>
  The entries of \<open>lru_table\<close> and the cached pages belong together one to one; \<open>P\<close> is what an entry says of
  its page. The counts used as keys are below \<open>glru_count\<close>, which has not reached the range of the keys.
\<close>

definition linked :: "('e \<Rightarrow> string) \<Rightarrow> ('e \<Rightarrow> hash_value \<Rightarrow> bool) \<Rightarrow> 'e page_store \<Rightarrow> bool" where
  "linked url_of P s \<longleftrightarrow>
     (\<forall>c e. map_of (lru_table s) c = Some e \<longrightarrow> (\<exists>v. map_of (web_cache s) (url_of e) = Some v \<and> lru_cnt v = c \<and> P e v)) \<and>
     (\<forall>u v. map_of (web_cache s) u = Some v \<longrightarrow> (\<exists>e. map_of (lru_table s) (lru_cnt v) = Some e \<and> url_of e = u))"

lemma linked_entry: "linked url_of P s \<Longrightarrow> map_of (lru_table s) c = Some e \<Longrightarrow> \<exists>v. map_of (web_cache s) (url_of e) = Some v \<and> lru_cnt v = c \<and> P e v"
  by (simp add: linked_def)

lemma linked_page: "linked url_of P s \<Longrightarrow> map_of (web_cache s) u = Some v \<Longrightarrow> \<exists>e. map_of (lru_table s) (lru_cnt v) = Some e \<and> url_of e = u"
  by (simp add: linked_def)

definition counted :: "nat \<Rightarrow> 'e page_store \<Rightarrow> bool" where
  "counted n s \<longleftrightarrow> (\<forall>x \<in> set (lru_table s). unat (fst x) < unat (glru_count s)) \<and> unat (glru_count s) + n \<le> 2 ^ 32"

definition sized :: "'e page_store \<Rightarrow> bool" where
  "sized s \<longleftrightarrow> cache_sz_remaining s = cache_sz_total s - total_len (store_pages s) \<and> 0 \<le> cache_sz_remaining s \<and> cache_sz_total s < 2 ^ 31 \<and>
     (\<forall>x \<in> set (store_pages s). 0 \<le> webpage_len (snd x))"

definition store_ok :: "('e \<Rightarrow> string) \<Rightarrow> ('e \<Rightarrow> hash_value \<Rightarrow> bool) \<Rightarrow> nat \<Rightarrow> 'e page_store \<Rightarrow> bool" where
  "store_ok url_of P n s \<longleftrightarrow> map_ok (web_cache s) \<and> map_ok (lru_table s) \<and> linked url_of P s \<and> counted n s \<and> sized s"

lemma store_ok_Suc: "store_ok url_of P (Suc n) s \<Longrightarrow> store_ok url_of P n s"
  by (auto simp: store_ok_def counted_def)

lemma evict_page_ok:
  assumes ok: "store_ok url_of P n s" and c: "map_of (lru_table s) c = Some e"
  shows "store_ok url_of P n (evict_page c (url_of e) s)"
    and "store_pages (evict_page c (url_of e) s) = erase (url_of e) (store_pages s)"
proof -
  let ?s = "evict_page c (url_of e) s"
  have m: "map_ok (web_cache s)" "map_ok (lru_table s)" and l: "linked url_of P s" using ok by (simp_all add: store_ok_def)
  obtain v where v: "map_of (web_cache s) (url_of e) = Some v" "lru_cnt v = c" using linked_entry [OF l c] by blast
  show p: "store_pages ?s = erase (url_of e) (store_pages s)" by (simp add: store_pages_def evict_page_def pages_erase)
  have "total_len (store_pages ?s) = total_len (store_pages s) - webpage_len (cached_pg v)"
    unfolding p using m(1) v(1) by (intro total_len_erase) (simp_all add: store_pages_def map_of_pages)
  moreover have "0 \<le> webpage_len (cached_pg v)"
  proof -
    have "(url_of e, cached_pg v) \<in> set (store_pages s)" using map_of_SomeD [OF v(1)] by (force simp: store_pages_def pages_def)
    then show ?thesis using ok by (force simp: store_ok_def sized_def)
  qed
  ultimately have "sized ?s" using ok v(1) p by (auto simp: store_ok_def sized_def evict_page_def at_key_def)
  moreover have "linked url_of P ?s" unfolding linked_def
  proof (intro conjI allI impI)
    fix c' e' assume "map_of (lru_table ?s) c' = Some e'"
    then have c': "map_of (lru_table s) c' = Some e'" "c' \<noteq> c" by (auto simp: evict_page_def split: if_splits)
    then obtain v' where "map_of (web_cache s) (url_of e') = Some v'" "lru_cnt v' = c'" "P e' v'" using linked_entry [OF l] by blast
    moreover from this have "url_of e' \<noteq> url_of e" using v c'(2) by auto
    ultimately show "\<exists>v. map_of (web_cache ?s) (url_of e') = Some v \<and> lru_cnt v = c' \<and> P e' v" by (simp add: evict_page_def)
  next
    fix u' v' assume "map_of (web_cache ?s) u' = Some v'"
    then have u': "map_of (web_cache s) u' = Some v'" "u' \<noteq> url_of e" by (auto simp: evict_page_def split: if_splits)
    then obtain e' where "map_of (lru_table s) (lru_cnt v') = Some e'" "url_of e' = u'" using linked_page [OF l u'(1)] by blast
    moreover from this have "lru_cnt v' \<noteq> c" using c u'(2) by auto
    ultimately show "\<exists>e. map_of (lru_table ?s) (lru_cnt v') = Some e \<and> url_of e = u'" by (simp add: evict_page_def)
  qed
  ultimately show "store_ok url_of P n ?s" using ok by (auto simp: store_ok_def counted_def evict_page_def)
qed

lemma next_count:
  assumes "counted (Suc n) s"
  shows "\<forall>x \<in> set (lru_table s). fst x < ucast (glru_count s)" and "unat (glru_count s + 1) = unat (glru_count s) + 1"
    and "unat (ucast (glru_count s) :: 32 word) = unat (glru_count s)"
proof -
  have g: "unat (glru_count s) < 2 ^ 32" using assms by (simp add: counted_def)
  then show c: "unat (ucast (glru_count s) :: 32 word) = unat (glru_count s)" by (simp add: unsigned_ucast_eq take_bit_nat_eq_self)
  show "unat (glru_count s + 1) = unat (glru_count s) + 1" using g by (simp add: unat_word_ariths)
  show "\<forall>x \<in> set (lru_table s). fst x < ucast (glru_count s)" using assms c by (auto simp: counted_def word_less_nat_alt)
qed

text \<open>A page gets the next count as its key, in place of the one it had.\<close>

lemma linked_renew:
  assumes m: "map_ok (web_cache s)" "map_ok t" and fresh: "map_of t c = None"
    and tab: "\<And>c' e'. map_of t c' = Some e' \<longleftrightarrow> map_of (lru_table s) c' = Some e' \<and> url_of e' \<noteq> u"
    and l: "linked url_of P s" and e: "url_of e = u" "P e v" "lru_cnt v = c"
  shows "linked url_of P (s\<lparr>web_cache := put_key u v (web_cache s), lru_table := put_key c e t\<rparr>)"
  unfolding linked_def
proof (intro conjI allI impI, goal_cases)
  case (1 c' e')
  then have "c' = c \<and> e' = e \<or> c' \<noteq> c \<and> map_of (lru_table s) c' = Some e' \<and> url_of e' \<noteq> u" using m tab by (auto split: if_splits)
  then show ?case using linked_entry [OF l, of c' e'] e m by auto
next
  case (2 u' v')
  then consider "u' = u" "v' = v" | "u' \<noteq> u" "map_of (web_cache s) u' = Some v'" using m by (auto split: if_splits)
  then show ?case
  proof cases
    case 2
    then obtain e' where e': "map_of (lru_table s) (lru_cnt v') = Some e'" "url_of e' = u'" using linked_page [OF l 2(2)] by blast
    then have "map_of t (lru_cnt v') = Some e'" using tab 2 by simp
    then show ?thesis using m fresh e' by auto
  qed (use e m in simp)
qed

lemma insert_page_ok:
  assumes ok: "store_ok url_of P (Suc n) s" and new: "map_of (store_pages s) u = None" and len: "0 \<le> webpage_len pg" "webpage_len pg \<le> cache_sz_remaining s"
    and e: "url_of e = u" "\<And>c. P e \<lparr>lru_cnt = c, cached_pg = pg\<rparr>"
  shows "store_ok url_of P n (insert_page u pg e s)" and "store_pages (insert_page u pg e s) = put_key u pg (store_pages s)"
    and "lru_table (insert_page u pg e s) = lru_table s @ [(ucast (glru_count s), e)]"
proof -
  let ?s = "insert_page u pg e s"
  have m: "map_ok (web_cache s)" "map_ok (lru_table s)" and l: "linked url_of P s" and cnt: "counted (Suc n) s" using ok by (simp_all add: store_ok_def)
  have u: "map_of (web_cache s) u = None" using new by (simp add: store_pages_def map_of_pages)
  show p: "store_pages ?s = put_key u pg (store_pages s)" by (simp add: store_pages_def insert_page_def Let_def pages_put_key)
  show t: "lru_table ?s = lru_table s @ [(ucast (glru_count s), e)]"
    using put_key_max [OF next_count(1) [OF cnt]] by (simp add: insert_page_def Let_def)
  have fresh: "map_of (lru_table s) (ucast (glru_count s)) = None"
    using next_count(1) [OF cnt] by (auto simp: map_of_eq_None_iff)
  have "total_len (store_pages ?s) = total_len (store_pages s) + webpage_len pg"
    unfolding p using m(1) new by (intro total_len_put_key) (simp_all add: store_pages_def)
  moreover have "\<forall>x \<in> set (store_pages ?s). 0 \<le> webpage_len (snd x)"
    unfolding p using ok len m(1) by (auto simp: set_put_key store_pages_def store_ok_def sized_def)
  ultimately have "sized ?s" using ok len by (auto simp: store_ok_def sized_def insert_page_def Let_def)
  moreover have "linked url_of P (s\<lparr>web_cache := put_key u \<lparr>lru_cnt = ucast (glru_count s), cached_pg = pg\<rparr> (web_cache s),
      lru_table := put_key (ucast (glru_count s)) e (lru_table s)\<rparr>)"
  proof (rule linked_renew [OF m fresh _ l])
    show "map_of (lru_table s) c' = Some e' \<longleftrightarrow> map_of (lru_table s) c' = Some e' \<and> url_of e' \<noteq> u" for c' e'
      using linked_entry [OF l, of c' e'] u by auto
  qed (use e in simp_all)
  moreover have "counted n ?s" unfolding counted_def t using cnt next_count(2,3) [OF cnt]
    by (auto simp: counted_def insert_page_def Let_def intro: less_SucI)
  ultimately show "store_ok url_of P n ?s" using m by (simp add: store_ok_def insert_page_def Let_def linked_def)
qed

lemma touch_page_ok:
  assumes ok: "store_ok url_of P (Suc n) s" and v: "map_of (web_cache s) u = Some v"
    and e: "url_of e = u" "\<And>c. P e (v\<lparr>lru_cnt := c\<rparr>)"
  shows "store_ok url_of P n (touch_page u v e s)" and "store_pages (touch_page u v e s) = store_pages s"
    and "lru_table (touch_page u v e s) = erase (lru_cnt v) (lru_table s) @ [(ucast (glru_count s), e)]"
proof -
  let ?s = "touch_page u v e s" and ?t = "erase (lru_cnt v) (lru_table s)"
  have m: "map_ok (web_cache s)" "map_ok (lru_table s)" "map_ok ?t" and l: "linked url_of P s" and cnt: "counted (Suc n) s"
    using ok by (simp_all add: store_ok_def)
  have below: "\<forall>x \<in> set ?t. fst x < ucast (glru_count s)" using next_count(1) [OF cnt] by simp
  show p: "store_pages ?s = store_pages s"
    using put_key_same [of "pages (web_cache s)" u "cached_pg v"] m(1) v
    by (simp add: store_pages_def touch_page_def Let_def pages_put_key map_of_pages)
  show t: "lru_table ?s = ?t @ [(ucast (glru_count s), e)]"
    using put_key_max [OF below] by (simp add: touch_page_def Let_def)
  have fresh: "map_of ?t (ucast (glru_count s)) = None"
    using next_count(1) [OF cnt] by (auto simp: map_of_eq_None_iff)
  have "linked url_of P (s\<lparr>web_cache := put_key u (v\<lparr>lru_cnt := ucast (glru_count s)\<rparr>) (web_cache s), lru_table := put_key (ucast (glru_count s)) e ?t\<rparr>)"
  proof (rule linked_renew [OF m(1,3) fresh _ l])
    obtain e0 where "map_of (lru_table s) (lru_cnt v) = Some e0" "url_of e0 = u" using linked_page [OF l v] by blast
    then show "map_of ?t c' = Some e' \<longleftrightarrow> map_of (lru_table s) c' = Some e' \<and> url_of e' \<noteq> u" for c' e'
      using linked_entry [OF l, of c' e'] v by auto
  qed (use e in simp_all)
  moreover have "counted n ?s" unfolding counted_def t using cnt next_count(2,3) [OF cnt]
    by (auto simp: counted_def touch_page_def Let_def intro: less_SucI)
  moreover have "sized ?s" using ok p by (simp add: store_ok_def sized_def) (simp add: touch_page_def Let_def)
  ultimately show "store_ok url_of P n ?s" using m by (simp add: store_ok_def touch_page_def Let_def linked_def)
qed

end
