(* ===== verification/Cache_Policies.thy ===== *)
theory Cache_Policies
  imports Cache_Contract
begin

text \<open>
  The three caches implement the contract, and the two least-recently-used ones their policies: seen as
  the list of the pages from the least to the most recently used one, \<open>lru_cache.cpp\<close> drops pages from the
  front until the new one fits, and \<open>minlru_cache.cpp\<close> drops the first page of at least the new page's size,
  or else of half that size, and so on.
\<close>

section \<open>The order of use\<close>

definition recency :: "('e \<Rightarrow> string) \<Rightarrow> 'e page_store \<Rightarrow> (string \<times> webpage) list" where
  "recency url_of s = map (\<lambda>x. (url_of (snd x), the (map_of (store_pages s) (url_of (snd x))))) (lru_table s)"

lemma entry_url:
  assumes "store_ok url_of P n s" and "x \<in> set (lru_table s)" and "y \<in> set (lru_table s)"
  shows "url_of (snd x) = url_of (snd y) \<longleftrightarrow> fst x = fst y"
proof -
  have l: "linked url_of P s" and d: "distinct (map fst (lru_table s))" using assms(1) by (auto simp: store_ok_def intro: map_ok_distinct)
  have tab: "map_of (lru_table s) (fst x) = Some (snd x)" "map_of (lru_table s) (fst y) = Some (snd y)" using assms(2,3) d by simp_all
  obtain v where v: "map_of (web_cache s) (url_of (snd x)) = Some v" "lru_cnt v = fst x" using linked_entry [OF l tab(1)] by blast
  obtain w where w: "map_of (web_cache s) (url_of (snd y)) = Some w" "lru_cnt w = fst y" using linked_entry [OF l tab(2)] by blast
  show ?thesis
  proof
    assume "url_of (snd x) = url_of (snd y)"
    then show "fst x = fst y" using v w by simp
  next
    assume "fst x = fst y"
    then show "url_of (snd x) = url_of (snd y)" using tab by simp
  qed
qed

lemma recency_keys: "store_ok url_of P n s \<Longrightarrow> distinct (map fst (recency url_of s))"
proof -
  assume ok: "store_ok url_of P n s"
  have "distinct (map fst (lru_table s))" using ok by (auto simp: store_ok_def intro: map_ok_distinct)
  then have "distinct (lru_table s)" "inj_on (url_of \<circ> snd) (set (lru_table s))"
    using entry_url [OF ok] by (auto simp: distinct_map inj_on_def)
  then show ?thesis by (simp add: recency_def o_def distinct_map)
qed

lemma recency_set:
  assumes "store_ok url_of P n s"
  shows "set (recency url_of s) = set (store_pages s)"
proof -
  have l: "linked url_of P s" and d: "map_ok (store_pages s)" "map_ok (lru_table s)" using assms by (auto simp: store_ok_def store_pages_def)
  note tab = map_of_is_SomeI [OF map_ok_distinct [OF d(2)]] and web = map_of_is_SomeI [OF map_ok_distinct [OF d(1)]]
  have "x \<in> set (store_pages s)" if x: "x \<in> set (recency url_of s)" for x
  proof -
    obtain c e where "(c, e) \<in> set (lru_table s)" "x = (url_of e, the (map_of (store_pages s) (url_of e)))" using x by (auto simp: recency_def)
    moreover from this obtain v where "map_of (web_cache s) (url_of e) = Some v" using linked_entry [OF l tab] by blast
    ultimately show ?thesis by (auto simp: store_pages_def map_of_pages intro!: map_of_SomeD)
  qed
  moreover have "(u, pg) \<in> set (recency url_of s)" if "(u, pg) \<in> set (store_pages s)" for u pg
  proof -
    have pg: "map_of (store_pages s) u = Some pg" using web [OF that] .
    then obtain v where "map_of (web_cache s) u = Some v" by (auto simp: store_pages_def map_of_pages)
    then obtain e where "map_of (lru_table s) (lru_cnt v) = Some e" "url_of e = u" using linked_page [OF l] by blast
    then show ?thesis using pg map_of_SomeD by (force simp: recency_def)
  qed
  ultimately show ?thesis by auto
qed

lemma recency_map_of:
  assumes "store_ok url_of P n s"
  shows "map_of (recency url_of s) = map_of (store_pages s)"
proof
  fix u
  have "distinct (map fst (store_pages s))" using assms by (auto simp: store_ok_def store_pages_def intro: map_ok_distinct)
  then have "map_of (recency url_of s) u = Some pg \<longleftrightarrow> map_of (store_pages s) u = Some pg" for pg
    using recency_keys [OF assms] recency_set [OF assms] by (simp add: map_of_eq_Some_iff)
  then show "map_of (recency url_of s) u = map_of (store_pages s) u" by (metis not_Some_eq)
qed

lemma recency_total:
  assumes "store_ok url_of P n s"
  shows "total_len (recency url_of s) = total_len (store_pages s)"
proof -
  have "distinct (store_pages s)" using assms by (auto simp: store_ok_def store_pages_def distinct_map dest!: map_ok_distinct [of "pages _", simplified])
  moreover have "distinct (recency url_of s)" using recency_keys [OF assms] by (simp add: distinct_map)
  ultimately show ?thesis using recency_set [OF assms] by (simp add: total_len_def sum_list_distinct_conv_sum_set)
qed

lemma remaining_eq: "store_ok url_of P n s \<Longrightarrow> cache_sz_remaining s = cache_sz_total s - total_len (recency url_of s)"
  by (simp add: recency_total) (simp add: store_ok_def sized_def)

lemma recency_evict:
  assumes ok: "store_ok url_of P n s" and e: "(c, e) \<in> set (lru_table s)"
  shows "recency url_of (evict_page c (url_of e) s) = erase (url_of e) (recency url_of s)"
proof -
  have "map_of (lru_table s) c = Some e" using ok e by (auto simp: store_ok_def intro: map_of_is_SomeI dest: map_ok_distinct)
  note pages = evict_page_ok(2) [OF ok this]
  have "fst x \<noteq> c \<longleftrightarrow> url_of (snd x) \<noteq> url_of e" if "x \<in> set (lru_table s)" for x using entry_url [OF ok that e] by simp
  then have "erase c (lru_table s) = filter (\<lambda>x. url_of (snd x) \<noteq> url_of e) (lru_table s)" by (simp add: erase_def cong: filter_cong)
  moreover have "lru_table (evict_page c (url_of e) s) = erase c (lru_table s)" by (simp add: evict_page_def)
  ultimately show ?thesis by (simp add: recency_def pages) (simp add: erase_def filter_map o_def)
qed

lemma recency_insert:
  assumes ok: "store_ok url_of P (Suc n) s" and new: "map_of (store_pages s) u = None" and len: "0 \<le> webpage_len pg" "webpage_len pg \<le> cache_sz_remaining s"
    and e: "url_of e = u" "\<And>c. P e \<lparr>lru_cnt = c, cached_pg = pg\<rparr>"
  shows "recency url_of (insert_page u pg e s) = recency url_of s @ [(u, pg)]"
proof -
  note ins = insert_page_ok [OF ok new len e]
  have ok': "map_ok (store_pages s)" using ok by (simp add: store_ok_def store_pages_def)
  have "u \<notin> fst ` set (recency url_of s)" using new recency_map_of [OF ok] by (metis map_of_eq_None_iff)
  then have "url_of (snd x) \<noteq> u" if "x \<in> set (lru_table s)" for x using that by (force simp: recency_def)
  then show ?thesis using e(1) ok' by (simp add: recency_def ins(2,3))
qed

lemma recency_touch:
  assumes ok: "store_ok url_of P (Suc n) s" and v: "map_of (web_cache s) u = Some v"
    and e: "url_of e = u" "\<And>c. P e (v\<lparr>lru_cnt := c\<rparr>)"
  shows "recency url_of (touch_page u v e s) = erase u (recency url_of s) @ [(u, cached_pg v)]"
proof -
  note t = touch_page_ok [OF ok v e]
  obtain e0 where "map_of (lru_table s) (lru_cnt v) = Some e0" "url_of e0 = u"
    using linked_page [OF _ v] ok by (auto simp: store_ok_def)
  then have e0: "(lru_cnt v, e0) \<in> set (lru_table s)" "url_of e0 = u" by (simp_all add: map_of_SomeD)
  have "fst x \<noteq> lru_cnt v \<longleftrightarrow> url_of (snd x) \<noteq> u" if "x \<in> set (lru_table s)" for x using entry_url [OF ok that e0(1)] e0(2) by simp
  then have "erase (lru_cnt v) (lru_table s) = filter (\<lambda>x. url_of (snd x) \<noteq> u) (lru_table s)" by (simp add: erase_def cong: filter_cong)
  moreover have "map_of (store_pages s) u = Some (cached_pg v)" using v by (simp add: store_pages_def map_of_pages)
  ultimately show ?thesis using e(1) by (simp add: recency_def t(2,3)) (simp add: erase_def filter_map o_def)
qed

section \<open>Least recently used\<close>

definition lru_ok :: "nat \<Rightarrow> lru_cache \<Rightarrow> bool" where
  "lru_ok = store_ok (\<lambda>u. u) (\<lambda>_ _. True)"

abbreviation lru_order :: "lru_cache \<Rightarrow> (string \<times> webpage) list" where
  "lru_order \<equiv> recency (\<lambda>u. u)"

text \<open>The policy: pages are dropped from the front until there is room.\<close>

fun keep_recent :: "int \<Rightarrow> int \<Rightarrow> (string \<times> webpage) list \<Rightarrow> (string \<times> webpage) list" where
  "keep_recent cap len [] = []"
| "keep_recent cap len (x # xs) = (if cap - total_len (x # xs) < len then keep_recent cap len xs else x # xs)"

definition lru_spec_add :: "int \<Rightarrow> string \<Rightarrow> webpage \<Rightarrow> (string \<times> webpage) list \<Rightarrow> (string \<times> webpage) list" where
  "lru_spec_add cap u pg xs = (if cap < webpage_len pg then xs else keep_recent cap (webpage_len pg) xs @ [(u, pg)])"

definition lru_spec_get :: "string \<Rightarrow> (string \<times> webpage) list \<Rightarrow> webpage option \<times> (string \<times> webpage) list" where
  "lru_spec_get u xs = (case map_of xs u of None \<Rightarrow> (None, xs) | Some pg \<Rightarrow> (Some pg, erase u xs @ [(u, pg)]))"

lemma keep_recent_suffix: "\<exists>ys. xs = ys @ keep_recent cap len xs"
proof (induction cap len xs rule: keep_recent.induct)
  case (2 cap len x xs)
  then show ?case by (cases "cap - total_len (x # xs) < len") (auto intro: exI [of _ "x # _"])
qed simp

lemma lru_evict_ok:
  assumes "lru_ok n s" and "len \<le> cache_sz_total s"
  shows "\<exists>s'. lru_evict len s = Inr s' \<and> lru_ok n s' \<and> cache_sz_total s' = cache_sz_total s \<and> glru_count s' = glru_count s \<and>
    len \<le> cache_sz_remaining s' \<and> lru_order s' = keep_recent (cache_sz_total s) len (lru_order s)"
  using assms
proof (induction len s rule: lru_evict.induct)
  case (1 len s)
  have ok: "store_ok (\<lambda>u. u) (\<lambda>_ _. True) n s" using "1.prems"(1) by (simp add: lru_ok_def)
  note rem = remaining_eq [OF ok]
  show ?case
  proof (cases "cache_sz_remaining s < len")
    case False
    then have "keep_recent (cache_sz_total s) len (lru_order s) = lru_order s" using rem by (cases "lru_order s") auto
    then show ?thesis using False "1.prems" by (simp add: lru_evict.simps [of len s])
  next
    case True
    show ?thesis
    proof (cases "lru_table s")
      case Nil
      then show ?thesis using True rem "1.prems"(2) by (simp add: recency_def total_len_def)
    next
      case (Cons x t)
      let ?s = "evict_page (fst x) (snd x) s"
      have x: "(fst x, snd x) \<in> set (lru_table s)" using Cons by simp
      then have "map_of (lru_table s) (fst x) = Some (snd x)" using Cons by simp
      from evict_page_ok(1) [OF ok this] have ok': "lru_ok n ?s" by (simp add: lru_ok_def)
      have "lru_order s = (snd x, the (map_of (store_pages s) (snd x))) # tl (lru_order s)" using Cons by (simp add: recency_def)
      moreover from this have "lru_order ?s = tl (lru_order s)"
        using recency_evict [OF ok x] recency_keys [OF ok] Cons
        by (auto simp: recency_def erase_def intro!: filter_True)
      ultimately have "keep_recent (cache_sz_total s) len (lru_order ?s) = keep_recent (cache_sz_total s) len (lru_order s)"
        using True rem by (metis keep_recent.simps(2))
      moreover have "cache_sz_total ?s = cache_sz_total s" "glru_count ?s = glru_count s" by (simp_all add: evict_page_def)
      ultimately show ?thesis using "1.IH" [OF True Cons ok'] "1.prems"(2) True Cons by (simp add: lru_evict.simps [of len s])
    qed
  qed
qed

lemma keep_recent_sub: "set (keep_recent cap len xs) \<subseteq> set xs" "distinct (map fst xs) \<Longrightarrow> distinct (map fst (keep_recent cap len xs))"
  using keep_recent_suffix [of xs cap len] by (metis Un_iff set_append subsetI, metis distinct_append map_append)

text \<open>Some pages are kept, and a page that was not there is added.\<close>

lemma kept_sub:
  assumes "distinct (map fst xs)" and "set ys \<subseteq> set xs" and "distinct (map fst ys)"
  shows "map_of ys \<subseteq>\<^sub>m map_of xs"
proof -
  have "map_of xs u = Some pg" if "map_of ys u = Some pg" for u pg using that assms by (auto simp: map_of_eq_Some_iff)
  then show ?thesis by (auto simp: map_le_def)
qed

lemma kept_add:
  assumes "map_of ys \<subseteq>\<^sub>m map_of xs" and "map_of xs u = None"
  shows "map_of (ys @ [(u, pg)]) \<subseteq>\<^sub>m (map_of xs)(u \<mapsto> pg)" and "map_of (ys @ [(u, pg)]) u = Some pg"
proof -
  have y: "map_of ys u = None" using assms by (metis domIff map_le_def)
  have "map_of ys v = Some p \<Longrightarrow> map_of xs v = Some p" for v p using assms(1) by (force simp: map_le_def)
  then show "map_of (ys @ [(u, pg)]) \<subseteq>\<^sub>m (map_of xs)(u \<mapsto> pg)" using y by (auto simp: map_le_def map_add_Some_iff split: if_splits)
  show "map_of (ys @ [(u, pg)]) u = Some pg" using y by (simp add: map_add_Some_iff)
qed

lemma lru_add_ok:
  assumes ok: "lru_ok (Suc n) s" and new: "map_of (store_pages s) u = None" and len: "0 \<le> webpage_len pg"
  shows "\<exists>s'. lru_add_to_cache u pg s = Inr s' \<and> lru_ok n s' \<and> cache_sz_total s' = cache_sz_total s \<and>
    lru_order s' = lru_spec_add (cache_sz_total s) u pg (lru_order s)"
proof (cases "cache_sz_total s < webpage_len pg")
  case True
  then show ?thesis using ok store_ok_Suc by (auto simp: lru_add_to_cache_def lru_spec_add_def lru_ok_def)
next
  case False
  then obtain t where t: "lru_evict (webpage_len pg) s = Inr t" "lru_ok (Suc n) t" "cache_sz_total t = cache_sz_total s"
    "webpage_len pg \<le> cache_sz_remaining t" "lru_order t = keep_recent (cache_sz_total s) (webpage_len pg) (lru_order s)"
    using lru_evict_ok [OF ok, of "webpage_len pg"] by auto
  note ok' = ok [unfolded lru_ok_def] and okt = t(2) [unfolded lru_ok_def]
  have "map_of (store_pages t) \<subseteq>\<^sub>m map_of (store_pages s)"
    using kept_sub [OF recency_keys [OF ok'] _ recency_keys [OF okt]] t(5) keep_recent_sub(1) recency_map_of [OF okt] recency_map_of [OF ok'] by metis
  then have new': "map_of (store_pages t) u = None" using new by (metis domIff map_le_def)
  have "lru_ok n (insert_page u pg u t)" unfolding lru_ok_def by (rule insert_page_ok(1) [OF okt new' len t(4)]) simp_all
  moreover have "lru_order (insert_page u pg u t) = lru_order t @ [(u, pg)]" by (rule recency_insert [OF okt new' len t(4)]) simp_all
  moreover have "cache_sz_total (insert_page u pg u t) = cache_sz_total s" using t(3) by (simp add: insert_page_def Let_def)
  ultimately show ?thesis using False t(1,5) by (simp add: lru_add_to_cache_def lru_spec_add_def)
qed

lemma lru_get_ok:
  assumes ok: "lru_ok (Suc n) s" and get: "lru_get_cached_page u s = (r, s')"
  shows "lru_ok n s'" and "store_pages s' = store_pages s" and "cache_sz_total s' = cache_sz_total s" and "r = map_of (store_pages s) u"
    and "(r, lru_order s') = lru_spec_get u (lru_order s)"
proof -
  note ok' = ok [unfolded lru_ok_def]
  note m = recency_map_of [OF ok']
  show "lru_ok n s'" "store_pages s' = store_pages s" "cache_sz_total s' = cache_sz_total s" "r = map_of (store_pages s) u"
    using get store_ok_Suc [OF ok'] touch_page_ok(1,2) [OF ok', of u _ u]
    by (auto simp: lru_get_cached_page_def lru_ok_def store_pages_def map_of_pages touch_page_def Let_def split: option.splits)
  show "(r, lru_order s') = lru_spec_get u (lru_order s)"
    using get recency_touch [OF ok', of u _ u]
    by (auto simp: lru_get_cached_page_def lru_spec_get_def m store_pages_def map_of_pages split: option.splits)
qed

definition lru_add :: "string \<Rightarrow> webpage \<Rightarrow> lru_cache \<Rightarrow> lru_cache option" where
  "lru_add u pg s = (case lru_add_to_cache u pg s of Inl _ \<Rightarrow> None | Inr s \<Rightarrow> Some s)"

lemma store_ok_fits:
  assumes "store_ok url_of P n s"
  shows "map_ok (store_pages s)" and "x \<in> set (store_pages s) \<Longrightarrow> 0 \<le> webpage_len (snd x)" and "total_len (store_pages s) \<le> cache_sz_total s"
  using assms by (auto simp: store_ok_def sized_def store_pages_def)

lemma pages_added:
  assumes ok: "store_ok url_of P n s" and ok': "store_ok url_of P n' s'" and new: "map_of (store_pages s) u = None"
    and order: "recency url_of s' = ys @ [(u, pg)]" "set ys \<subseteq> set (recency url_of s)"
  shows "map_of (store_pages s') \<subseteq>\<^sub>m (map_of (store_pages s))(u \<mapsto> pg) \<and> map_of (store_pages s') u = Some pg"
proof -
  have "distinct (map fst ys)" using recency_keys [OF ok'] order(1) by simp
  then have "map_of ys \<subseteq>\<^sub>m map_of (recency url_of s)" using kept_sub [OF recency_keys [OF ok] order(2)] by simp
  from kept_add [OF this, of u pg] show ?thesis
    using new recency_map_of [OF ok] by (simp only: flip: recency_map_of [OF ok'] order(1))
qed

lemma pages_same:
  assumes ok: "store_ok url_of P n s" and ok': "store_ok url_of P n' s'" and new: "map_of (store_pages s) u = None"
    and order: "recency url_of s' = recency url_of s"
  shows "map_of (store_pages s') \<subseteq>\<^sub>m (map_of (store_pages s))(u \<mapsto> pg)"
  using new recency_map_of [OF ok] recency_map_of [OF ok'] order by (auto simp: map_le_def)

interpretation lru: page_cache lru_get_cached_page lru_add store_pages cache_sz_total lru_ok
proof (unfold_locales, goal_cases)
  case (6 n s u pg)
  obtain s' where s': "lru_add_to_cache u pg s = Inr s'" "lru_ok n s'" "cache_sz_total s' = cache_sz_total s"
    "lru_order s' = lru_spec_add (cache_sz_total s) u pg (lru_order s)" using lru_add_ok 6 by blast
  note ok = 6(1) [unfolded lru_ok_def] s'(2) [unfolded lru_ok_def]
  have "map_of (store_pages s') \<subseteq>\<^sub>m (map_of (store_pages s))(u \<mapsto> pg) \<and> (webpage_len pg \<le> cache_sz_total s \<longrightarrow> map_of (store_pages s') u = Some pg)"
    using pages_added [OF ok 6(2) _ keep_recent_sub(1)] pages_same [OF ok 6(2)] s'(4)
    by (cases "cache_sz_total s < webpage_len pg") (auto simp: lru_spec_add_def)
  then show ?case using s'(1-3) by (simp add: lru_add_def)
qed (auto simp: lru_ok_def dest: store_ok_Suc store_ok_fits lru_get_ok [unfolded lru_ok_def])

section \<open>Least recently used of the pages that are large enough\<close>

definition minlru_entry :: "lru_metadata \<Rightarrow> hash_value \<Rightarrow> bool" where
  "minlru_entry e v \<longleftrightarrow> uint (pg_size e) = webpage_len (cached_pg v) \<and> 0 < webpage_len (cached_pg v)"

definition minlru_ok :: "nat \<Rightarrow> minlru_cache \<Rightarrow> bool" where
  "minlru_ok = store_ok url minlru_entry"

abbreviation minlru_order :: "minlru_cache \<Rightarrow> (string \<times> webpage) list" where
  "minlru_order \<equiv> recency url"

text \<open>The policy: the least recently used page of at least the size \<open>len\<close>, or half of it, and so on.\<close>

function min_victim :: "int \<Rightarrow> (string \<times> webpage) list \<Rightarrow> (string \<times> webpage) option" where
  "min_victim len xs =
     (if len \<le> 0 then None
      else case List.find (\<lambda>x. len \<le> webpage_len (snd x)) xs of Some x \<Rightarrow> Some x | None \<Rightarrow> min_victim (len div 2) xs)"
  by pat_completeness auto
termination
  by (relation "measure (\<lambda>(len, _). nat len)") auto

declare min_victim.simps [simp del]

lemma min_victim_in: "min_victim len xs = Some x \<Longrightarrow> x \<in> set xs"
  by (induction len xs rule: min_victim.induct) (subst (asm) (2) min_victim.simps, auto simp: find_Some_iff split: if_splits option.splits)

function keep_min :: "int \<Rightarrow> int \<Rightarrow> (string \<times> webpage) list \<Rightarrow> (string \<times> webpage) list" where
  "keep_min cap len xs =
     (if cap - total_len xs < len then case min_victim len xs of None \<Rightarrow> xs | Some x \<Rightarrow> keep_min cap len (erase (fst x) xs) else xs)"
  by pat_completeness auto
termination
  by (relation "measure (\<lambda>(_, _, xs). length xs)") (auto dest: min_victim_in erase_length)

declare keep_min.simps [simp del]

definition minlru_spec_add :: "int \<Rightarrow> string \<Rightarrow> webpage \<Rightarrow> (string \<times> webpage) list \<Rightarrow> (string \<times> webpage) list" where
  "minlru_spec_add cap u pg xs =
     (if cap < webpage_len pg \<or> webpage_len pg = 0 then xs else keep_min cap (webpage_len pg) xs @ [(u, pg)])"

lemma keep_min_sub: "set (keep_min cap len xs) \<subseteq> set xs"
proof (induction cap len xs rule: keep_min.induct)
  case (1 cap len xs)
  show ?case
  proof (cases "cap - total_len xs < len \<and> min_victim len xs \<noteq> None")
    case True
    then obtain x where x: "min_victim len xs = Some x" by auto
    then show ?thesis using 1 [OF _ x] True by (simp add: keep_min.simps [of cap len xs]) auto
  next
    case False
    then show ?thesis by (auto simp only: keep_min.simps [of cap len xs] split: if_splits option.splits)
  qed
qed

lemma min_victim_exists:
  assumes "0 < len" and "x \<in> set xs" and "0 < webpage_len (snd x)"
  shows "\<exists>y. min_victim len xs = Some y"
  using assms
proof (induction len xs rule: min_victim.induct)
  case (1 len xs)
  show ?case
  proof (cases "List.find (\<lambda>x. len \<le> webpage_len (snd x)) xs")
    case None
    then have "webpage_len (snd x) < len" using "1.prems"(2) by (metis find_None_iff not_le)
    then have "len \<noteq> 1" using "1.prems"(3) by linarith
    then show ?thesis using "1.IH" [OF _ None] "1.prems" None by (simp add: min_victim.simps [of len xs])
  next
    case (Some y)
    then show ?thesis using "1.prems"(1) by (simp add: min_victim.simps [of len xs])
  qed
qed

text \<open>The inner loops find the victim of the policy.\<close>

definition order_entry :: "minlru_cache \<Rightarrow> 32 word \<times> lru_metadata \<Rightarrow> string \<times> webpage" where
  "order_entry s x = (url (snd x), the (map_of (store_pages s) (url (snd x))))"

lemma find_map: "List.find P (map f xs) = map_option f (List.find (P \<circ> f) xs)"
  by (induction xs) auto

lemma minlru_victim_ok:
  assumes ok: "minlru_ok n s" and "0 \<le> len" and "len < 2 ^ 32"
  shows "min_victim len (minlru_order s) = map_option (order_entry s) (minlru_victim (word_of_int len) (lru_table s))"
  using assms(2,3)
proof (induction len "minlru_order s" rule: min_victim.induct)
  case (1 len)
  have l: "linked url minlru_entry s" and d: "distinct (map fst (lru_table s))" using ok by (auto simp: minlru_ok_def store_ok_def intro: map_ok_distinct)
  have u: "uint (word_of_int len :: 32 word) = len" using "1.prems" by (simp add: uint_word_of_int)
  have "uint (pg_size (snd x)) = webpage_len (snd (order_entry s x))" if x: "x \<in> set (lru_table s)" for x
  proof -
    have "map_of (lru_table s) (fst x) = Some (snd x)" using x d by simp
    from linked_entry [OF l this] show ?thesis by (auto simp: minlru_entry_def order_entry_def store_pages_def map_of_pages)
  qed
  then have "List.find (\<lambda>x. word_of_int len \<le> pg_size (snd x)) (lru_table s) =
      List.find (\<lambda>x. len \<le> webpage_len (snd (order_entry s x))) (lru_table s)"
    by (intro find_cong) (simp_all add: word_le_def u)
  moreover have "minlru_order s = map (order_entry s) (lru_table s)" by (simp add: recency_def order_entry_def)
  ultimately have f: "List.find (\<lambda>x. len \<le> webpage_len (snd x)) (minlru_order s) =
      map_option (order_entry s) (List.find (\<lambda>x. word_of_int len \<le> pg_size (snd x)) (lru_table s))" by (simp add: find_map o_def)
  have half: "(word_of_int len :: 32 word) div 2 = word_of_int (len div 2)"
    using u by (intro word_uint_eqI) (simp add: uint_div_distrib uint_word_of_int)
  have zero: "(word_of_int len :: 32 word) = 0 \<longleftrightarrow> len \<le> 0" using u "1.prems"(1) by (auto simp: word_uint_eq_iff)
  show ?case
    using 1 f half zero by (subst min_victim.simps, subst minlru_victim.simps) (auto split: option.splits)
qed

lemma minlru_victim_in: "minlru_victim m t = Some x \<Longrightarrow> x \<in> set t"
  by (induction m t rule: minlru_victim.induct) (subst (asm) (2) minlru_victim.simps, auto simp: find_Some_iff split: if_splits option.splits)

lemma minlru_evict_ok:
  assumes "minlru_ok n s" and "0 < len" and "len \<le> cache_sz_total s"
  shows "\<exists>s'. minlru_evict len s = Some s' \<and> minlru_ok n s' \<and> cache_sz_total s' = cache_sz_total s \<and>
    len \<le> cache_sz_remaining s' \<and> minlru_order s' = keep_min (cache_sz_total s) len (minlru_order s)"
  using assms
proof (induction "length (lru_table s)" arbitrary: s rule: less_induct)
  case less
  have ok: "store_ok url minlru_entry n s" using less.prems(1) by (simp add: minlru_ok_def)
  note rem = remaining_eq [OF ok]
  show ?case
  proof (cases "cache_sz_remaining s < len")
    case False
    then have "keep_min (cache_sz_total s) len (minlru_order s) = minlru_order s" using rem by (simp add: keep_min.simps [of _ _ "minlru_order s"])
    then show ?thesis using False less.prems by (simp add: minlru_evict.simps [of len s])
  next
    case True
    have "minlru_order s \<noteq> []" using True rem less.prems(3) by (auto simp: total_len_def)
    then obtain y where y: "y \<in> set (minlru_order s)" using hd_in_set by blast
    have pos: "0 < webpage_len (snd y)"
    proof -
      have l: "linked url minlru_entry s" and d: "distinct (map fst (lru_table s))" using ok by (auto simp: store_ok_def intro: map_ok_distinct)
      obtain x where "x \<in> set (lru_table s)" "y = order_entry s x" using y by (auto simp: recency_def order_entry_def)
      moreover from this have "map_of (lru_table s) (fst x) = Some (snd x)" using d by simp
      ultimately show ?thesis using linked_entry [OF l] by (fastforce simp: order_entry_def store_pages_def map_of_pages minlru_entry_def)
    qed
    have bound: "len < 2 ^ 32" using ok less.prems(3) by (simp add: store_ok_def sized_def)
    obtain z where "min_victim len (minlru_order s) = Some z" using min_victim_exists [OF less.prems(2) y pos] by blast
    then obtain c e where ce: "minlru_victim (word_of_int len) (lru_table s) = Some (c, e)" "z = order_entry s (c, e)"
      using minlru_victim_ok [OF less.prems(1) _ bound] less.prems(2) by auto
    have e: "(c, e) \<in> set (lru_table s)" using minlru_victim_in [OF ce(1)] .
    let ?s = "evict_page c (url e) s"
    have "map_of (lru_table s) c = Some e" using e ok by (auto simp: store_ok_def dest: map_ok_distinct)
    from evict_page_ok(1) [OF ok this] have ok': "minlru_ok n ?s" by (simp add: minlru_ok_def)
    have shorter: "length (lru_table ?s) < length (lru_table s)" using erase_length [OF e] by (simp add: evict_page_def)
    have same: "cache_sz_total ?s = cache_sz_total s" by (simp add: evict_page_def)
    have "keep_min (cache_sz_total s) len (minlru_order s) = keep_min (cache_sz_total s) len (minlru_order ?s)"
      using \<open>min_victim len (minlru_order s) = Some z\<close> True rem recency_evict [OF ok e] ce(2)
      by (simp add: keep_min.simps [of _ _ "minlru_order s"] order_entry_def)
    moreover have "minlru_evict len s = minlru_evict len ?s" using True ce(1) by (simp add: minlru_evict.simps [of len s])
    ultimately show ?thesis using less.hyps [OF shorter ok' less.prems(2)] less.prems(3) same by simp
  qed
qed

lemma minlru_add_ok:
  assumes ok: "minlru_ok (Suc n) s" and new: "map_of (store_pages s) u = None" and len: "0 \<le> webpage_len pg"
  shows "\<exists>s'. minlru_add_to_cache u pg s = Some s' \<and> minlru_ok n s' \<and> cache_sz_total s' = cache_sz_total s \<and>
    minlru_order s' = minlru_spec_add (cache_sz_total s) u pg (minlru_order s)"
proof (cases "cache_sz_total s < webpage_len pg \<or> webpage_len pg = 0")
  case True
  then show ?thesis using ok store_ok_Suc by (auto simp: minlru_add_to_cache_def minlru_spec_add_def minlru_ok_def)
next
  case False
  then have len': "0 < webpage_len pg" "webpage_len pg \<le> cache_sz_total s" using len by auto
  obtain t where t: "minlru_evict (webpage_len pg) s = Some t" "minlru_ok (Suc n) t" "cache_sz_total t = cache_sz_total s"
    "webpage_len pg \<le> cache_sz_remaining t" "minlru_order t = keep_min (cache_sz_total s) (webpage_len pg) (minlru_order s)"
    using minlru_evict_ok [OF ok len'] by blast
  note ok' = ok [unfolded minlru_ok_def] and okt = t(2) [unfolded minlru_ok_def]
  have "map_of (store_pages t) \<subseteq>\<^sub>m map_of (store_pages s)"
    using kept_sub [OF recency_keys [OF ok'] _ recency_keys [OF okt]] t(5) keep_min_sub recency_map_of [OF okt] recency_map_of [OF ok'] by metis
  then have new': "map_of (store_pages t) u = None" using new by (metis domIff map_le_def)
  let ?e = "\<lparr>url = u, pg_size = word_of_int (webpage_len pg)\<rparr>"
  have "webpage_len pg < 2 ^ 32" using len'(2) ok' by (simp add: store_ok_def sized_def)
  then have e: "url ?e = u" "minlru_entry ?e \<lparr>lru_cnt = c, cached_pg = pg\<rparr>" for c
    using len' by (simp_all add: minlru_entry_def uint_word_of_int)
  have "minlru_ok n (insert_page u pg ?e t)" unfolding minlru_ok_def by (rule insert_page_ok(1) [OF okt new' len t(4) e])
  moreover have "minlru_order (insert_page u pg ?e t) = minlru_order t @ [(u, pg)]" by (rule recency_insert [OF okt new' len t(4) e])
  moreover have "cache_sz_total (insert_page u pg ?e t) = cache_sz_total s" using t(3) by (simp add: insert_page_def Let_def)
  ultimately show ?thesis using False t(1,5) by (simp add: minlru_add_to_cache_def minlru_spec_add_def)
qed

lemma minlru_get_ok:
  assumes ok: "minlru_ok (Suc n) s" and get: "minlru_get_cached_page u s = (r, s')"
  shows "minlru_ok n s'" and "store_pages s' = store_pages s" and "cache_sz_total s' = cache_sz_total s" and "r = map_of (store_pages s) u"
    and "(r, minlru_order s') = lru_spec_get u (minlru_order s)"
proof -
  note ok' = ok [unfolded minlru_ok_def]
  note m = recency_map_of [OF ok']
  have e: "url (at_key no_metadata (lru_table s) (lru_cnt v)) = u" "minlru_entry (at_key no_metadata (lru_table s) (lru_cnt v)) (v\<lparr>lru_cnt := c\<rparr>)"
    if v: "map_of (web_cache s) u = Some v" for v c
  proof -
    have l: "linked url minlru_entry s" using ok' by (simp add: store_ok_def)
    obtain e where e: "map_of (lru_table s) (lru_cnt v) = Some e" "url e = u" using linked_page [OF l v] by blast
    moreover have "minlru_entry e v" using linked_entry [OF l e(1)] e(2) v by auto
    ultimately show "url (at_key no_metadata (lru_table s) (lru_cnt v)) = u"
      "minlru_entry (at_key no_metadata (lru_table s) (lru_cnt v)) (v\<lparr>lru_cnt := c\<rparr>)" by (simp_all add: at_key_def minlru_entry_def)
  qed
  show "minlru_ok n s'" "store_pages s' = store_pages s" "cache_sz_total s' = cache_sz_total s" "r = map_of (store_pages s) u"
    using get store_ok_Suc [OF ok'] touch_page_ok(1,2) [OF ok' _ e]
    by (auto simp: minlru_get_cached_page_def minlru_ok_def store_pages_def map_of_pages touch_page_def Let_def split: option.splits)
  show "(r, minlru_order s') = lru_spec_get u (minlru_order s)"
    using get recency_touch [OF ok' _ e]
    by (auto simp: minlru_get_cached_page_def lru_spec_get_def m store_pages_def map_of_pages split: option.splits)
qed

interpretation minlru: page_cache minlru_get_cached_page minlru_add_to_cache store_pages cache_sz_total minlru_ok
proof (unfold_locales, goal_cases)
  case (6 n s u pg)
  obtain s' where s': "minlru_add_to_cache u pg s = Some s'" "minlru_ok n s'" "cache_sz_total s' = cache_sz_total s"
    "minlru_order s' = minlru_spec_add (cache_sz_total s) u pg (minlru_order s)" using minlru_add_ok 6 by blast
  note ok = 6(1) [unfolded minlru_ok_def] s'(2) [unfolded minlru_ok_def]
  have "map_of (store_pages s') \<subseteq>\<^sub>m (map_of (store_pages s))(u \<mapsto> pg) \<and>
      (0 < webpage_len pg \<and> webpage_len pg \<le> cache_sz_total s \<longrightarrow> map_of (store_pages s') u = Some pg)"
    using pages_added [OF ok 6(2) _ keep_min_sub] pages_same [OF ok 6(2)] s'(4)
    by (cases "cache_sz_total s < webpage_len pg \<or> webpage_len pg = 0") (auto simp: minlru_spec_add_def)
  then show ?case using s'(1-3) by simp
qed (auto simp: minlru_ok_def dest: store_ok_Suc store_ok_fits minlru_get_ok [unfolded minlru_ok_def])

section \<open>Random replacement\<close>

definition rand_ok :: "nat \<Rightarrow> rand_cache \<Rightarrow> bool" where
  "rand_ok n s \<longleftrightarrow> map_ok (rand_web_cache s) \<and> rand_sz_remaining s = rand_sz_total s - total_len (rand_web_cache s) \<and>
     0 \<le> rand_sz_remaining s \<and> (\<forall>x \<in> set (rand_web_cache s). 0 \<le> webpage_len (snd x))"

definition rand_add :: "string \<Rightarrow> webpage \<Rightarrow> rand_cache \<Rightarrow> rand_cache option" where
  "rand_add u pg s = (case rand_add_to_cache u pg s of Inl _ \<Rightarrow> None | Inr s \<Rightarrow> Some s)"

lemma rand_evict_ok:
  assumes "rand_ok n s" and "len \<le> rand_sz_total s"
  shows "\<exists>s'. rand_evict len s = Inr s' \<and> rand_ok n s' \<and> rand_sz_total s' = rand_sz_total s \<and> len \<le> rand_sz_remaining s' \<and>
    set (rand_web_cache s') \<subseteq> set (rand_web_cache s)"
  using assms
proof (induction len s rule: rand_evict.induct)
  case (1 len s)
  show ?case
  proof (cases "rand_sz_remaining s < len")
    case False
    then show ?thesis using "1.prems" by (simp add: rand_evict.simps [of len s])
  next
    case True
    then have ne: "rand_web_cache s \<noteq> []" using "1.prems" by (auto simp: rand_ok_def total_len_def)
    let ?s = "s\<lparr>rand_sz_remaining := rand_sz_remaining s + webpage_len (snd (rand_victim s)),
      rand_web_cache := erase (fst (rand_victim s)) (rand_web_cache s), rand_next := (\<lambda>i. rand_next s (Suc i))\<rparr>"
    have m: "map_ok (rand_web_cache s)" using "1.prems"(1) by (simp add: rand_ok_def)
    have v: "rand_victim s \<in> set (rand_web_cache s)" using ne by (simp add: rand_victim_def)
    then have "map_of (rand_web_cache s) (fst (rand_victim s)) = Some (snd (rand_victim s))" using map_ok_distinct [OF m] by simp
    from total_len_erase [OF m this] have "rand_ok n ?s" using "1.prems"(1) v by (auto simp: rand_ok_def)
    then obtain s' where "rand_evict len ?s = Inr s'" "rand_ok n s'" "rand_sz_total s' = rand_sz_total s" "len \<le> rand_sz_remaining s'"
      "set (rand_web_cache s') \<subseteq> set (rand_web_cache s)"
      using "1.IH" [OF True ne] "1.prems"(2) by auto
    then show ?thesis using True ne by (simp add: rand_evict.simps [of len s])
  qed
qed

interpretation randc: page_cache rand_get_cached_page rand_add rand_web_cache rand_sz_total rand_ok
proof (unfold_locales, goal_cases)
  case (6 n s u pg)
  show ?case
  proof (cases "rand_sz_total s < webpage_len pg")
    case True
    then show ?thesis using 6 by (auto simp: rand_add_def rand_add_to_cache_def rand_ok_def map_le_def)
  next
    case False
    then obtain t where t: "rand_evict (webpage_len pg) s = Inr t" "rand_ok (Suc n) t" "rand_sz_total t = rand_sz_total s"
      "webpage_len pg \<le> rand_sz_remaining t" "set (rand_web_cache t) \<subseteq> set (rand_web_cache s)"
      using rand_evict_ok [OF 6(1), of "webpage_len pg"] by auto
    let ?s = "t\<lparr>rand_sz_remaining := rand_sz_remaining t - webpage_len pg, rand_web_cache := put_key u pg (rand_web_cache t)\<rparr>"
    have m: "map_ok (rand_web_cache s)" "map_ok (rand_web_cache t)" using 6(1) t(2) by (simp_all add: rand_ok_def)
    have sub: "map_of (rand_web_cache t) \<subseteq>\<^sub>m map_of (rand_web_cache s)" using kept_sub t(5) map_ok_distinct m by blast
    then have new: "map_of (rand_web_cache t) u = None" using 6(2) by (metis domIff map_le_def)
    have "rand_ok n ?s" using t(2,4) 6(3) total_len_put_key [OF m(2) new, of pg] by (auto simp: rand_ok_def set_put_key)
    moreover have "map_of (rand_web_cache ?s) \<subseteq>\<^sub>m (map_of (rand_web_cache s))(u \<mapsto> pg) \<and> map_of (rand_web_cache ?s) u = Some pg"
      using sub m(2) by (auto simp: map_le_def)
    ultimately show ?thesis using t(1,3) False by (simp add: rand_add_def rand_add_to_cache_def)
  qed
qed (auto simp: rand_ok_def rand_get_cached_page_def)

section \<open>The policies\<close>

text \<open>C22. \<open>lru_cache.cpp\<close> is least recently used: on the list of the pages from the least to the most recently used one, a
  lookup returns the page and moves it to the end, and adding a page that is not cached returns, drops pages from the
  front, no more than needed for the new page to fit, and appends the new one (a page larger than the whole cache is refused).\<close>

theorem lru_refines:
  assumes "lru_ok (Suc n) s"
  shows "(\<exists>r s'. lru_get_cached_page u s = (r, s') \<and> lru_ok n s' \<and> (r, lru_order s') = lru_spec_get u (lru_order s)) \<and>
    (map_of (lru_order s) u = None \<and> 0 \<le> webpage_len pg \<longrightarrow>
      (\<exists>s'. lru_add_to_cache u pg s = Inr s' \<and> lru_ok n s' \<and> lru_order s' = lru_spec_add (cache_sz_total s) u pg (lru_order s)))"
  using lru_get_ok(1,5) [OF assms, of u] lru_add_ok [OF assms, of u pg] recency_map_of [OF assms [unfolded lru_ok_def]]
  by (metis surj_pair)

text \<open>C23. \<open>minlru_cache.cpp\<close> is LRU-MIN: its eviction loop ends, and on the list of the pages in the order of their use adding
  a page that is not cached drops, until there is room, each time the least recently used page that is at least as large as
  the new one, or else half as large, and so on, and then appends the new page; a lookup moves the page to the end.\<close>

theorem minlru_refines:
  assumes "minlru_ok (Suc n) s"
  shows "(\<exists>r s'. minlru_get_cached_page u s = (r, s') \<and> minlru_ok n s' \<and> (r, minlru_order s') = lru_spec_get u (minlru_order s)) \<and>
    (map_of (minlru_order s) u = None \<and> 0 \<le> webpage_len pg \<longrightarrow>
      (\<exists>s'. minlru_add_to_cache u pg s = Some s' \<and> minlru_ok n s' \<and> minlru_order s' = minlru_spec_add (cache_sz_total s) u pg (minlru_order s)))"
  using minlru_get_ok(1,5) [OF assms, of u] minlru_add_ok [OF assms, of u pg] recency_map_of [OF assms [unfolded minlru_ok_def]]
  by (metis surj_pair)

section \<open>Concrete caches\<close>

text \<open>A cache for six bytes that holds a page of three bytes and then one of two bytes.\<close>

definition demo_page :: "string \<Rightarrow> webpage" where
  "demo_page d = \<lparr>webpage_data = d, webpage_len = int (length d)\<rparr>"

definition demo_lru :: lru_cache where
  "demo_lru = \<lparr>web_cache = [(''a'', \<lparr>lru_cnt = 0, cached_pg = demo_page ''aaa''\<rparr>), (''b'', \<lparr>lru_cnt = 1, cached_pg = demo_page ''bb''\<rparr>)],
     lru_table = [(0, ''a''), (1, ''b'')], cache_sz_total = 6, cache_sz_remaining = 1, glru_count = 2\<rparr>"

definition demo_minlru :: minlru_cache where
  "demo_minlru = \<lparr>web_cache = [(''a'', \<lparr>lru_cnt = 1, cached_pg = demo_page ''aaa''\<rparr>), (''b'', \<lparr>lru_cnt = 0, cached_pg = demo_page ''bb''\<rparr>)],
     lru_table = [(0, \<lparr>url = ''b'', pg_size = 2\<rparr>), (1, \<lparr>url = ''a'', pg_size = 3\<rparr>)], cache_sz_total = 6, cache_sz_remaining = 1, glru_count = 2\<rparr>"

lemma demo_lru_ok: "lru_ok (Suc 0) demo_lru"
  by (simp add: lru_ok_def store_ok_def linked_def counted_def sized_def store_pages_def pages_def total_len_def demo_lru_def demo_page_def map_of_eq_Some_iff)

lemma demo_minlru_ok: "minlru_ok (Suc 0) demo_minlru"
  by (simp add: minlru_ok_def store_ok_def linked_def counted_def sized_def store_pages_def pages_def total_len_def demo_minlru_def demo_page_def
      minlru_entry_def map_of_eq_Some_iff)

lemma demo_orders:
  "lru_order demo_lru = [(''a'', demo_page ''aaa''), (''b'', demo_page ''bb'')]"
  "minlru_order demo_minlru = [(''b'', demo_page ''bb''), (''a'', demo_page ''aaa'')]"
  "cache_sz_total demo_lru = 6" "cache_sz_total demo_minlru = 6"
  by (simp_all add: recency_def store_pages_def pages_def demo_lru_def demo_minlru_def)

theorem lru_refines_witness:
  "\<exists>s'. lru_add_to_cache ''c'' (demo_page ''cccc'') demo_lru = Inr s' \<and> lru_order s' = [(''b'', demo_page ''bb''), (''c'', demo_page ''cccc'')]"
proof -
  have "lru_spec_add 6 ''c'' (demo_page ''cccc'') [(''a'', demo_page ''aaa''), (''b'', demo_page ''bb'')] =
      [(''b'', demo_page ''bb''), (''c'', demo_page ''cccc'')]" by (simp add: lru_spec_add_def total_len_def demo_page_def)
  moreover have "0 \<le> webpage_len (demo_page ''cccc'')" by (simp add: demo_page_def)
  ultimately show ?thesis using lru_refines [OF demo_lru_ok, of "''c''" "demo_page ''cccc''"] by (simp add: demo_orders) blast
qed

theorem minlru_refines_witness:
  "\<exists>s'. minlru_add_to_cache ''c'' (demo_page ''ccc'') demo_minlru = Some s' \<and> minlru_order s' = [(''b'', demo_page ''bb''), (''c'', demo_page ''ccc'')]"
proof -
  have "minlru_spec_add 6 ''c'' (demo_page ''ccc'') [(''b'', demo_page ''bb''), (''a'', demo_page ''aaa'')] =
      [(''b'', demo_page ''bb''), (''c'', demo_page ''ccc'')]"
    by (simp add: minlru_spec_add_def keep_min.simps min_victim.simps erase_def total_len_def demo_page_def)
  moreover have "0 \<le> webpage_len (demo_page ''ccc'')" by (simp add: demo_page_def)
  ultimately show ?thesis using minlru_refines [OF demo_minlru_ok, of "''c''" "demo_page ''ccc''"] by (simp add: demo_orders) blast
qed

end
