(* ===== verification/Web_Proxy.thy ===== *)
theory Web_Proxy
  imports Cache_Policies
begin

text \<open>
  The proxy server of \<open>src/aos/a3/rpc/gen-cpp/webproxy_server.cpp\<close>, the client of the caches. libcurl is not
  part of the sources: \<open>perform\<close> gives the pieces of a page it hands to \<open>write_data\<close>, or \<open>None\<close> when there is no
  handle. \<open>junk\<close> is what new memory contains and \<open>stray\<close> what is in the length of the structure that \<open>httpget\<close>
  has not initialised on a hit. A call is \<open>None\<close> if it exits, faults or does not return.
\<close>

section \<open>Fetching a page\<close>

record wd_in =
  wd_size :: nat
  wd_len :: nat
  wd_data :: string

definition realloc :: "(nat \<Rightarrow> char) \<Rightarrow> nat \<Rightarrow> string \<Rightarrow> string" where
  "realloc junk n d = take n d @ map junk [length d..<n]"

partial_function (option) wd_grow :: "(nat \<Rightarrow> char) \<Rightarrow> nat \<Rightarrow> wd_in \<Rightarrow> wd_in option" where
  "wd_grow junk n w =
     (if wd_size w \<le> wd_len w + n
      then wd_grow junk n (w\<lparr>wd_data := realloc junk (wd_size w * 2) (wd_data w), wd_size := wd_size w * 2\<rparr>)
      else Some w)"

definition write_data :: "(nat \<Rightarrow> char) \<Rightarrow> string \<Rightarrow> wd_in \<Rightarrow> wd_in option" where
  "write_data junk buffer w =
     (case wd_grow junk (length buffer) w of
        None \<Rightarrow> None
      | Some w \<Rightarrow>
          if wd_len w + length buffer \<le> length (wd_data w)
          then Some (w\<lparr>wd_data := take (wd_len w) (wd_data w) @ buffer @ drop (wd_len w + length buffer) (wd_data w),
                 wd_len := wd_len w + length buffer\<rparr>)
          else None)"

fun write_all :: "(nat \<Rightarrow> char) \<Rightarrow> string list \<Rightarrow> wd_in \<Rightarrow> wd_in option" where
  "write_all junk [] w = Some w"
| "write_all junk (b # bs) w = (case write_data junk b w of None \<Rightarrow> None | Some w \<Rightarrow> write_all junk bs w)"

text \<open>The initial block is a thousand times larger than \<open>size\<close> says.\<close>

definition wd_init :: "(nat \<Rightarrow> char) \<Rightarrow> wd_in" where
  "wd_init junk = \<lparr>wd_size = 1024, wd_len = 0, wd_data = map junk [0..<1024 * 1000]\<rparr>"

text \<open>\<open>std::string::assign\<close> of a C string.\<close>

definition c_string :: "string \<Rightarrow> string option" where
  "c_string d = (if CHR 0x00 \<in> set d then Some (takeWhile (\<lambda>c. c \<noteq> CHR 0x00) d) else None)"

section \<open>The handler\<close>

record 's handler =
  hit_count :: int
  total_count :: int
  hit_bytes_count :: int
  total_bytes_count :: int
  proxy_cache :: 's

definition CACHE_SZ :: "32 word" where
  "CACHE_SZ = 500 * 1024"

definition webproxyHandler :: "(32 word \<Rightarrow> 's \<Rightarrow> 's) \<Rightarrow> 's \<Rightarrow> 's handler" where
  "webproxyHandler set_size c =
     \<lparr>hit_count = 0, total_count = 0, hit_bytes_count = 0, total_bytes_count = 0, proxy_cache = set_size CACHE_SZ c\<rparr>"

definition httpget :: "(string \<Rightarrow> 's \<Rightarrow> webpage option \<times> 's) \<Rightarrow> (string \<Rightarrow> webpage \<Rightarrow> 's \<Rightarrow> 's option) \<Rightarrow>
    (string \<Rightarrow> string list option) \<Rightarrow> (nat \<Rightarrow> char) \<Rightarrow> nat \<Rightarrow> string \<Rightarrow> 's handler \<Rightarrow> (webpage \<times> 's handler) option" where
  "httpget get add perform junk stray u h =
     (case get u (proxy_cache h) of
        (Some pg, c) \<Rightarrow>
          Some (pg, h\<lparr>proxy_cache := c, hit_count := hit_count h + 1, hit_bytes_count := hit_bytes_count h + webpage_len pg,
            total_bytes_count := c_int (total_bytes_count h + int stray), total_count := total_count h + 1\<rparr>)
      | (None, c) \<Rightarrow>
          (case perform u of
             None \<Rightarrow> None
           | Some bs \<Rightarrow>
               (case write_all junk bs (wd_init junk) of
                  None \<Rightarrow> None
                | Some w \<Rightarrow>
                    (case c_string (wd_data w) of
                       None \<Rightarrow> None
                     | Some d \<Rightarrow>
                         let pg = \<lparr>webpage_data = d, webpage_len = c_int (int (wd_len w))\<rparr>
                         in case add u pg c of
                              None \<Rightarrow> None
                            | Some c \<Rightarrow>
                                Some (pg, h\<lparr>proxy_cache := c, total_bytes_count := c_int (total_bytes_count h + int (wd_len w)),
                                  total_count := total_count h + 1\<rparr>)))))"

record cache_stat =
  stat_hit_count :: int
  stat_total_count :: int
  stat_total_bytes_count :: int
  stat_hit_bytes_count :: int

definition get_webcache_stats :: "'s handler \<Rightarrow> cache_stat" where
  "get_webcache_stats h = \<lparr>stat_hit_count = hit_count h, stat_total_count = total_count h,
     stat_total_bytes_count = total_bytes_count h, stat_hit_bytes_count = hit_bytes_count h\<rparr>"

definition reset_webcache_stats :: "'s handler \<Rightarrow> 's handler" where
  "reset_webcache_stats h = h"

text \<open>A sequence of requests, each with what it finds in memory.\<close>

type_synonym request = "string \<times> (nat \<Rightarrow> char) \<times> nat"

fun serve_all :: "(string \<Rightarrow> 's \<Rightarrow> webpage option \<times> 's) \<Rightarrow> (string \<Rightarrow> webpage \<Rightarrow> 's \<Rightarrow> 's option) \<Rightarrow>
    (string \<Rightarrow> string list option) \<Rightarrow> request list \<Rightarrow> 's handler \<Rightarrow> (webpage list \<times> 's handler) option" where
  "serve_all get add perform [] h = Some ([], h)"
| "serve_all get add perform ((u, junk, stray) # rs) h =
     (case httpget get add perform junk stray u h of
        None \<Rightarrow> None
      | Some (pg, h) \<Rightarrow> (case serve_all get add perform rs h of None \<Rightarrow> None | Some (pgs, h) \<Rightarrow> Some (pg # pgs, h)))"

section \<open>The buffer\<close>

text \<open>The block holds what was written so far and then what was there before; there is always room for one
  more byte.\<close>

definition wd_ok :: "(nat \<Rightarrow> char) \<Rightarrow> string \<Rightarrow> wd_in \<Rightarrow> bool" where
  "wd_ok junk d w \<longleftrightarrow> wd_len w = length d \<and> wd_len w < wd_size w \<and> wd_size w \<le> length (wd_data w) \<and>
     wd_data w = d @ map junk [length d..<length (wd_data w)]"

lemma realloc_ok:
  assumes "m = d @ map junk [length d..<length m]" and "length d \<le> n"
  shows "realloc junk n m = d @ map junk [length d..<n] \<and> length (realloc junk n m) = n"
proof -
  have len: "length d \<le> length m" using arg_cong [OF assms(1), of length] by simp
  have "take n m = d @ map junk [length d..<min n (length m)]"
    by (subst assms(1)) (use assms(2) len in \<open>simp add: take_map min_def\<close>)
  moreover have "map junk [length d..<n] = map junk [length d..<min n (length m)] @ map junk [length m..<n]"
    by (cases "n \<le> length m") (use len upt_add_eq_append [of "length d" "length m" "n - length m"] in \<open>simp_all flip: map_append\<close>)
  ultimately show ?thesis using assms(2) len by (simp add: realloc_def)
qed

lemma wd_grow_ok:
  assumes "wd_ok junk d w"
  shows "\<exists>w'. wd_grow junk n w = Some w' \<and> wd_ok junk d w' \<and> wd_len w' + n < wd_size w'"
  using assms
proof (induction "wd_len w + n + 1 - wd_size w" arbitrary: w rule: less_induct)
  case less
  show ?case
  proof (cases "wd_size w \<le> wd_len w + n")
    case True
    let ?w = "w\<lparr>wd_data := realloc junk (wd_size w * 2) (wd_data w), wd_size := wd_size w * 2\<rparr>"
    have w: "wd_len w = length d" "wd_len w < wd_size w" "wd_data w = d @ map junk [length d..<length (wd_data w)]"
      using less.prems by (simp_all add: wd_ok_def)
    have "wd_ok junk d ?w" using realloc_ok [OF w(3), of "wd_size w * 2"] w(1,2) by (simp add: wd_ok_def)
    then show ?thesis using less.hyps [of ?w] True w(2) by (simp add: wd_grow.simps [of junk n w])
  next
    case False
    then show ?thesis using less.prems by (simp add: wd_grow.simps [of junk n w])
  qed
qed

lemma write_data_ok:
  assumes "wd_ok junk d w"
  shows "\<exists>w'. write_data junk b w = Some w' \<and> wd_ok junk (d @ b) w'"
proof -
  obtain v where v: "wd_grow junk (length b) w = Some v" "wd_ok junk d v" "wd_len v + length b < wd_size v" using wd_grow_ok [OF assms] by blast
  then have len: "wd_len v = length d" "length d + length b < length (wd_data v)" by (auto simp: wd_ok_def)
  have dat: "wd_data v = d @ map junk [length d..<length (wd_data v)]" using v(2) by (simp add: wd_ok_def)
  have t: "take (length d) (wd_data v) = d" by (subst dat) simp
  have r: "drop (length d + length b) (wd_data v) = map junk [length d + length b..<length (wd_data v)]" by (subst dat) (simp add: drop_map)
  show ?thesis using v len t r by (simp add: write_data_def wd_ok_def)
qed

lemma write_all_ok: "wd_ok junk d w \<Longrightarrow> \<exists>w'. write_all junk bs w = Some w' \<and> wd_ok junk (d @ concat bs) w'"
proof (induction bs arbitrary: d w)
  case (Cons b bs)
  obtain v where "write_data junk b w = Some v" "wd_ok junk (d @ b) v" using write_data_ok [OF Cons.prems] by blast
  then show ?case using Cons.IH [of "d @ b" v] by simp
qed simp

lemma wd_init_ok: "wd_ok junk [] (wd_init junk)"
  by (simp add: wd_ok_def wd_init_def)

text \<open>What a page is, given the pieces; and when a request can read it.\<close>

definition page_of :: "string list \<Rightarrow> webpage" where
  "page_of bs = \<lparr>webpage_data = concat bs, webpage_len = int (length (concat bs))\<rparr>"

definition readable :: "(nat \<Rightarrow> char) \<Rightarrow> string list \<Rightarrow> bool" where
  "readable junk bs \<longleftrightarrow> CHR 0x00 \<notin> set (concat bs) \<and> junk (length (concat bs)) = CHR 0x00 \<and> length (concat bs) < 2 ^ 31"

lemma fetch_ok:
  assumes "readable junk bs"
  shows "\<exists>w. write_all junk bs (wd_init junk) = Some w \<and> c_string (wd_data w) = Some (concat bs) \<and> wd_len w = length (concat bs)"
proof -
  obtain w where w: "write_all junk bs (wd_init junk) = Some w" "wd_ok junk (concat bs) w" using write_all_ok [OF wd_init_ok] by force
  let ?d = "concat bs"
  have len: "wd_len w = length ?d" and "length ?d < length (wd_data w)" "wd_data w = ?d @ map junk [length ?d..<length (wd_data w)]" using w(2) by (auto simp: wd_ok_def)
  then obtain r where "wd_data w = ?d @ CHR 0x00 # r" using assms by (simp add: readable_def upt_conv_Cons)
  moreover have "takeWhile (\<lambda>c. c \<noteq> CHR 0x00) (?d @ CHR 0x00 # r) = ?d"
    using assms by (subst takeWhile_append2) (auto simp: readable_def)
  ultimately have "c_string (wd_data w) = Some ?d" by (simp add: c_string_def)
  then show ?thesis using w(1) len by simp
qed

section \<open>The proxy with any cache\<close>

definition genuine :: "(string \<Rightarrow> string list) \<Rightarrow> (string, webpage) std_map \<Rightarrow> bool" where
  "genuine site m \<longleftrightarrow> (\<forall>u pg. map_of m u = Some pg \<longrightarrow> pg = page_of (site u))"

lemma genuine_sub: "genuine site m \<Longrightarrow> map_of m' \<subseteq>\<^sub>m (map_of m)(u \<mapsto> page_of (site u)) \<Longrightarrow> genuine site m'"
  unfolding genuine_def map_le_def by (metis domI fun_upd_apply option.inject)

context page_cache
begin

lemma httpget_miss:
  assumes c: "usable (Suc (Suc n)) (proxy_cache h)" and miss: "map_of (stored (proxy_cache h)) u = None" and r: "readable junk (site u)"
  shows "\<exists>h'. httpget get add (\<lambda>u. Some (site u)) junk stray u h = Some (page_of (site u), h') \<and> usable n (proxy_cache h') \<and>
    capacity (proxy_cache h') = capacity (proxy_cache h) \<and>
    map_of (stored (proxy_cache h')) \<subseteq>\<^sub>m (map_of (stored (proxy_cache h)))(u \<mapsto> page_of (site u)) \<and>
    (concat (site u) \<noteq> [] \<and> int (length (concat (site u))) \<le> capacity (proxy_cache h) \<longrightarrow>
      map_of (stored (proxy_cache h')) u = Some (page_of (site u))) \<and>
    total_count h' = total_count h + 1 \<and> hit_count h' = hit_count h"
proof -
  obtain r s where g: "get u (proxy_cache h) = (r, s)" by (cases "get u (proxy_cache h)")
  have s: "r = None" "stored s = stored (proxy_cache h)" "capacity s = capacity (proxy_cache h)" "usable (Suc n) s"
    using get_stored [OF c g] miss by simp_all
  obtain w where w: "write_all junk (site u) (wd_init junk) = Some w" "c_string (wd_data w) = Some (concat (site u))" "wd_len w = length (concat (site u))"
    using fetch_ok [OF assms(3)] by blast
  have len: "c_int (int (length (concat (site u)))) = int (length (concat (site u)))" using assms(3) by (intro c_int_id) (auto simp: readable_def)
  obtain t where t: "add u (page_of (site u)) s = Some t" "usable n t" "capacity t = capacity s"
    "map_of (stored t) \<subseteq>\<^sub>m (map_of (stored s))(u \<mapsto> page_of (site u))"
    "0 < webpage_len (page_of (site u)) \<and> webpage_len (page_of (site u)) \<le> capacity s \<longrightarrow> map_of (stored t) u = Some (page_of (site u))"
    using add_stored [OF s(4), of u "page_of (site u)"] miss s(2) by (auto simp: page_of_def)
  have "httpget get add (\<lambda>u. Some (site u)) junk stray u h = Some (page_of (site u), h\<lparr>proxy_cache := t,
      total_bytes_count := c_int (total_bytes_count h + int (wd_len w)), total_count := total_count h + 1\<rparr>)"
    using g s(1) w t(1) len by (simp add: httpget_def page_of_def Let_def)
  then show ?thesis using t s by (auto simp: page_of_def)
qed

lemma httpget_hit:
  assumes "usable (Suc n) (proxy_cache h)" and "map_of (stored (proxy_cache h)) u = Some pg"
  shows "\<exists>h'. httpget get add perform junk stray u h = Some (pg, h') \<and> usable n (proxy_cache h') \<and>
    capacity (proxy_cache h') = capacity (proxy_cache h) \<and> stored (proxy_cache h') = stored (proxy_cache h) \<and>
    total_count h' = total_count h + 1 \<and> hit_count h' = hit_count h + 1 \<and> hit_bytes_count h' = hit_bytes_count h + webpage_len pg"
proof -
  obtain r s where g: "get u (proxy_cache h) = (r, s)" by (cases "get u (proxy_cache h)")
  then show ?thesis using get_stored [OF assms(1) g] assms(2) by (simp add: httpget_def)
qed

lemma httpget_returns:
  assumes c: "usable (Suc (Suc n)) (proxy_cache h)" and gen: "genuine site (stored (proxy_cache h))" and r: "readable junk (site u)"
  shows "\<exists>h'. httpget get add (\<lambda>u. Some (site u)) junk stray u h = Some (page_of (site u), h') \<and> usable n (proxy_cache h') \<and>
    capacity (proxy_cache h') = capacity (proxy_cache h) \<and> genuine site (stored (proxy_cache h')) \<and>
    total_count h' = total_count h + 1 \<and> hit_count h \<le> hit_count h' \<and> hit_count h' \<le> hit_count h + 1"
proof (cases "map_of (stored (proxy_cache h)) u")
  case None
  obtain h' where h': "httpget get add (\<lambda>u. Some (site u)) junk stray u h = Some (page_of (site u), h')" "usable n (proxy_cache h')"
    "capacity (proxy_cache h') = capacity (proxy_cache h)" "total_count h' = total_count h + 1" "hit_count h' = hit_count h"
    "map_of (stored (proxy_cache h')) \<subseteq>\<^sub>m (map_of (stored (proxy_cache h)))(u \<mapsto> page_of (site u))"
    using httpget_miss [where site = site, OF c None r] by blast
  then show ?thesis using genuine_sub [OF gen h'(6)] by auto
next
  case (Some pg)
  then have "pg = page_of (site u)" using gen by (simp add: genuine_def)
  moreover have "usable (Suc n) (proxy_cache h)" using usable_Suc [OF c] .
  ultimately show ?thesis using httpget_hit [OF _ Some, of n "\<lambda>u. Some (site u)" junk stray] gen by auto
qed

lemma serve_all_returns:
  assumes "usable (2 * length rs) (proxy_cache h)" and "genuine site (stored (proxy_cache h))"
    and "\<forall>(u, junk, stray) \<in> set rs. readable junk (site u)"
  shows "\<exists>h'. serve_all get add (\<lambda>u. Some (site u)) rs h = Some (map (\<lambda>r. page_of (site (fst r))) rs, h') \<and> usable 0 (proxy_cache h') \<and>
    capacity (proxy_cache h') = capacity (proxy_cache h) \<and> genuine site (stored (proxy_cache h')) \<and>
    total_count h' = total_count h + int (length rs) \<and> hit_count h \<le> hit_count h' \<and> hit_count h' \<le> hit_count h + int (length rs)"
  using assms(1-3)
proof (induction rs arbitrary: h)
  case (Cons r rs)
  obtain u junk stray where r: "r = (u, junk, stray)" by (cases r)
  have "usable (Suc (Suc (2 * length rs))) (proxy_cache h)" "readable junk (site u)" using Cons.prems(1,3) r by simp_all
  from httpget_returns [where site = site and stray = stray, OF this(1) Cons.prems(2) this(2)] obtain h1 where h1:
    "httpget get add (\<lambda>u. Some (site u)) junk stray u h = Some (page_of (site u), h1)" "usable (2 * length rs) (proxy_cache h1)"
    "capacity (proxy_cache h1) = capacity (proxy_cache h)" "genuine site (stored (proxy_cache h1))"
    "total_count h1 = total_count h + 1" "hit_count h \<le> hit_count h1" "hit_count h1 \<le> hit_count h + 1" by auto
  have "\<forall>(u, junk, stray) \<in> set rs. readable junk (site u)" using Cons.prems(3) by simp
  from Cons.IH [OF h1(2,4) this] obtain h2 where h2: "serve_all get add (\<lambda>u. Some (site u)) rs h1 = Some (map (\<lambda>r. page_of (site (fst r))) rs, h2)"
    "usable 0 (proxy_cache h2)" "capacity (proxy_cache h2) = capacity (proxy_cache h1)" "genuine site (stored (proxy_cache h2))"
    "total_count h2 = total_count h1 + int (length rs)" "hit_count h1 \<le> hit_count h2" "hit_count h2 \<le> hit_count h1 + int (length rs)" by blast
  have "serve_all get add (\<lambda>u. Some (site u)) (r # rs) h = Some (map (\<lambda>r. page_of (site (fst r))) (r # rs), h2)" using h1(1) h2(1) r by simp
  then show ?case using h1 h2 by (intro exI [of _ h2]) simp
qed simp

lemma request_again:
  assumes "usable (Suc (Suc (Suc n))) (proxy_cache h)" and "map_of (stored (proxy_cache h)) u = None" and "readable junk (site u)"
    and "concat (site u) \<noteq> []" and "int (length (concat (site u))) \<le> capacity (proxy_cache h)"
  shows "\<exists>h1 h2. httpget get add (\<lambda>u. Some (site u)) junk stray u h = Some (page_of (site u), h1) \<and> hit_count h1 = hit_count h \<and>
    httpget get add perform junk2 stray2 u h1 = Some (page_of (site u), h2) \<and> hit_count h2 = hit_count h + 1 \<and> total_count h2 = total_count h + 2"
proof -
  obtain h1 where h1: "httpget get add (\<lambda>u. Some (site u)) junk stray u h = Some (page_of (site u), h1)" "usable (Suc n) (proxy_cache h1)"
    "map_of (stored (proxy_cache h1)) u = Some (page_of (site u))" "total_count h1 = total_count h + 1" "hit_count h1 = hit_count h"
    using httpget_miss [where site = site, OF assms(1-3)] assms(4,5) by fastforce
  then show ?thesis using httpget_hit [OF h1(2,3), of perform junk2 stray2] by auto
qed

end

section \<open>The three servers\<close>

definition lru_server :: "lru_cache handler" where
  "lru_server = webproxyHandler set_cache_size empty_store"

definition minlru_server :: "minlru_cache handler" where
  "minlru_server = webproxyHandler set_cache_size empty_store"

definition rand_server :: "(nat \<Rightarrow> nat) \<Rightarrow> rand_cache handler" where
  "rand_server rnd = webproxyHandler rand_set_cache_size \<lparr>rand_web_cache = [], rand_sz_total = 0, rand_sz_remaining = 0, rand_next = rnd\<rparr>"

lemma cache_sz: "c_int (uint CACHE_SZ) = 512000"
  by (simp add: CACHE_SZ_def c_int_id)

lemma start_store_ok: "n \<le> 2 ^ 32 \<Longrightarrow> store_ok url_of P n (set_cache_size CACHE_SZ empty_store)"
  by (simp add: store_ok_def linked_def counted_def sized_def store_pages_def pages_def total_len_def set_cache_size_def empty_store_def cache_sz)

lemma servers_ok:
  "n \<le> 2 ^ 32 \<Longrightarrow> lru_ok n (proxy_cache lru_server)" "n \<le> 2 ^ 32 \<Longrightarrow> minlru_ok n (proxy_cache minlru_server)"
  "rand_ok n (proxy_cache (rand_server rnd))"
  by (simp_all add: lru_server_def minlru_server_def rand_server_def webproxyHandler_def lru_ok_def minlru_ok_def start_store_ok)
    (simp add: rand_ok_def rand_set_cache_size_def total_len_def cache_sz)

lemma servers_empty:
  "store_pages (proxy_cache lru_server) = []" "store_pages (proxy_cache minlru_server) = []" "rand_web_cache (proxy_cache (rand_server rnd)) = []"
  "cache_sz_total (proxy_cache lru_server) = 512000" "cache_sz_total (proxy_cache minlru_server) = 512000" "rand_sz_total (proxy_cache (rand_server rnd)) = 512000"
  "hit_count lru_server = 0" "hit_count minlru_server = 0" "hit_count (rand_server rnd) = 0"
  "total_count lru_server = 0" "total_count minlru_server = 0" "total_count (rand_server rnd) = 0"
  by (simp_all add: lru_server_def minlru_server_def rand_server_def webproxyHandler_def set_cache_size_def rand_set_cache_size_def
      empty_store_def store_pages_def pages_def cache_sz)

lemma genuine_empty [simp]: "genuine site []"
  by (simp add: genuine_def)



text \<open>A page that fits into the cache is fetched once: with each of the three caches, a request for a page that is not cached
  is answered from the network and one for the same page right after it from the cache, whatever the network would deliver then.\<close>

theorem requested_again_hits:
  assumes "readable junk (site u)" and "concat (site u) \<noteq> []" and "length (concat (site u)) \<le> 512000"
  shows "(\<exists>h1 h2. httpget lru_get_cached_page lru_add (\<lambda>u. Some (site u)) junk stray u lru_server = Some (page_of (site u), h1) \<and>
      httpget lru_get_cached_page lru_add perform junk2 stray2 u h1 = Some (page_of (site u), h2) \<and> hit_count h2 = 1 \<and> total_count h2 = 2) \<and>
    (\<exists>h1 h2. httpget minlru_get_cached_page minlru_add_to_cache (\<lambda>u. Some (site u)) junk stray u minlru_server = Some (page_of (site u), h1) \<and>
      httpget minlru_get_cached_page minlru_add_to_cache perform junk2 stray2 u h1 = Some (page_of (site u), h2) \<and> hit_count h2 = 1 \<and> total_count h2 = 2) \<and>
    (\<exists>h1 h2. httpget rand_get_cached_page rand_add (\<lambda>u. Some (site u)) junk stray u (rand_server rnd) = Some (page_of (site u), h1) \<and>
      httpget rand_get_cached_page rand_add perform junk2 stray2 u h1 = Some (page_of (site u), h2) \<and> hit_count h2 = 1 \<and> total_count h2 = 2)"
proof (intro conjI, goal_cases)
  case 1
  then show ?case
    using lru.request_again [where site = site and u = u and n = 0 and junk = junk, OF servers_ok(1), of stray perform junk2 stray2] assms
    by (auto simp: servers_empty)
next
  case 2
  then show ?case
    using minlru.request_again [where site = site and u = u and n = 0 and junk = junk, OF servers_ok(2), of stray perform junk2 stray2] assms
    by (auto simp: servers_empty)
next
  case 3
  then show ?case
    using randc.request_again [where site = site and u = u and n = 0 and junk = junk, OF servers_ok(3), of rnd stray perform junk2 stray2] assms
    by (auto simp: servers_empty)
qed

definition demo_site :: "string \<Rightarrow> string list" where
  "demo_site u = [u, ''.'']"


theorem requested_again_hits_witness:
  "\<exists>h1 h2. httpget lru_get_cached_page lru_add (\<lambda>u. Some (demo_site u)) (\<lambda>_. CHR 0x00) 5 ''a'' lru_server = Some (page_of (demo_site ''a''), h1) \<and>
     httpget lru_get_cached_page lru_add (\<lambda>_. None) (\<lambda>_. CHR 0x00) 6 ''a'' h1 = Some (page_of (demo_site ''a''), h2) \<and> hit_count h2 = 1 \<and> total_count h2 = 2"
  using requested_again_hits [of "\<lambda>_. CHR 0x00" demo_site "''a''" 5 "\<lambda>_. None" "\<lambda>_. CHR 0x00" 6] by (simp add: readable_def demo_site_def)

text \<open>The page is taken as a C string although nothing ends it: when the byte after it in the block is not zero, the server returns
  and caches a page with a byte that is not of the site.\<close>

theorem stale_byte_returned:
  "\<exists>pg h. httpget lru_get_cached_page lru_add (\<lambda>u. Some [u]) (\<lambda>i. if i = 1 then CHR ''x'' else CHR 0x00) 0 ''a'' lru_server = Some (pg, h) \<and>
     webpage_data pg = ''ax'' \<and> webpage_len pg = 1 \<and> map_of (store_pages (proxy_cache h)) ''a'' = Some pg"
proof -
  let ?junk = "\<lambda>i. if i = 1 then CHR ''x'' else CHR 0x00" and ?pg = "\<lparr>webpage_data = ''ax'', webpage_len = 1\<rparr>"
  obtain w where w: "write_all ?junk [''a''] (wd_init ?junk) = Some w" "wd_ok ?junk ''a'' w"
    using write_all_ok [OF wd_init_ok, of ?junk "[''a'']"] by auto
  have g: "wd_grow ?junk 1 (wd_init ?junk) = Some (wd_init ?junk)" by (subst wd_grow.simps) (simp add: wd_init_def)
  then have len: "1024000 \<le> length (wd_data w)" "wd_len w = 1" using w(1) by (auto simp: write_data_def wd_init_def simp del: upt_rec_numeral)
  have "wd_data w = ''a'' @ map ?junk [1..<length (wd_data w)]" using w(2) by (simp add: wd_ok_def)
  moreover have "[1..<n] = 1 # 2 # [3..<n]" if "1024000 \<le> n" for n :: nat
    using that upt_conv_Cons [of 1 n] upt_conv_Cons [of 2 n] by (simp add: numeral_2_eq_2 numeral_3_eq_3)
  ultimately have "wd_data w = ''a'' @ map ?junk (1 # 2 # [3..<length (wd_data w)])" using len(1) by metis
  then have "\<exists>r. wd_data w = ''ax'' @ CHR 0x00 # r" by (simp only: list.map append.simps if_True if_False) auto
  then have c: "c_string (wd_data w) = Some ''ax''" by (auto simp: c_string_def)
  obtain t where t: "lru_add ''a'' ?pg (proxy_cache lru_server) = Some t" "map_of (store_pages t) ''a'' = Some ?pg"
    using lru.add_stored [OF servers_ok(1), of 0 "''a''" ?pg] by (auto simp: servers_empty)
  have "lru_get_cached_page ''a'' (proxy_cache lru_server) = (None, proxy_cache lru_server)"
    by (simp add: lru_get_cached_page_def lru_server_def webproxyHandler_def set_cache_size_def empty_store_def)
  then show ?thesis using w(1) c len(2) t by (simp add: httpget_def Let_def c_int_id)
qed

end
