(* ===== verification/Llc_Policy.thy ===== *)
theory Llc_Policy
  imports Prelude
begin

text \<open>
  The replacement state of the cache simulator, \<open>src/memsystems/cache-championship/CRC/src/LLCsim/replacement_state.cpp\<close>: five
  replacement policies over the per-line state of every set.

  The arrays \<open>SHCT\<close> and \<open>HST\<close> have 2 to the 14 elements; they are functions, and every access checks its index. The lines of a set are a
  list. The next numbers \<open>rand\<close> returns are part of the state. A result is \<open>None\<close> when the code runs forever, and a fault for a failing
  assertion, a division by zero or an access outside an array.
\<close>

section \<open>State\<close>

record LINE_REPLACEMENT_STATE =
  LRUstackposition :: "32 word"
  Signature :: "16 word"
  RRPV :: "8 word"
  Outcome :: bool

record HybridSignatureTable =
  Signature_Strength :: "8 word"
  nHits :: "8 word"
  nMax_Old :: "8 word"
  nMax_Stored :: "8 word"
  expired :: bool

text \<open>The last constructor stands for every other number.\<close>

datatype ReplacemntPolicy = CRC_REPL_LRU | CRC_REPL_RANDOM | CRC_REPL_DRRIP | CRC_REPL_SHIP | CRC_REPL_CONTESTANT | CRC_REPL_other

datatype SDMType = FOLLOWER | LEADER_SRRIP | LEADER_BRRIP

record repl_state =
  repl_assoc :: "32 word"
  replPolicy :: ReplacemntPolicy
  repl :: "LINE_REPLACEMENT_STATE list list"
  repl_timer :: "64 word"
  SDM_info :: "SDMType list"
  PSEL_VAL :: "32 word"
  nLeaderSets :: "32 word"
  SHCT :: "nat \<Rightarrow> 32 word"
  SigHashMask :: "32 word"
  HST :: "nat \<Rightarrow> HybridSignatureTable"
  TagBits :: "64 word"
  TagShift :: "32 word"
  rand_nums :: "nat \<Rightarrow> nat"

section \<open>Initial state\<close>

definition leader :: "nat \<Rightarrow> SDMType" where
  "leader i =
     (if i < 2048 then
        if i AND 31 = drop_bit 6 i AND 31 then if drop_bit 5 i AND 1 \<noteq> 0 then LEADER_SRRIP else LEADER_BRRIP else FOLLOWER
      else FOLLOWER)"

definition InitReplacementState :: "32 word \<Rightarrow> 32 word \<Rightarrow> ReplacemntPolicy \<Rightarrow> (nat \<Rightarrow> nat) \<Rightarrow> repl_state" where
  "InitReplacementState sets assoc pol rnd =
     (let sdm = map leader [0..<unat sets];
          (tb, ts) = (if sets = 4096 then (64 - 12 - 5, 12 + 5) else if sets = 1024 then (64 - 10 - 5, 10 + 5) else (0, 0))
      in \<lparr>repl_assoc = assoc, replPolicy = pol,
          repl = replicate (unat sets) (map (\<lambda>w. \<lparr>LRUstackposition = of_nat w, Signature = 0, RRPV = 0, Outcome = False\<rparr>) [0..<unat assoc]),
          repl_timer = 0, SDM_info = sdm, PSEL_VAL = 0,
          nLeaderSets = 32 - of_nat (length (filter (\<lambda>t. t \<noteq> FOLLOWER) sdm)),
          SHCT = (\<lambda>_. 0), SigHashMask = push_bit 14 1 - 1,
          HST = (\<lambda>_. \<lparr>Signature_Strength = 0, nHits = 0, nMax_Old = 0, nMax_Stored = 0, expired = False\<rparr>),
          TagBits = tb, TagShift = ts, rand_nums = rnd\<rparr>)"

definition IncrementTimer :: "repl_state \<Rightarrow> repl_state" where
  "IncrementTimer r = r\<lparr>repl_timer := repl_timer r + 1\<rparr>"

definition SetReplacementPolicy :: "ReplacemntPolicy \<Rightarrow> repl_state \<Rightarrow> repl_state" where
  "SetReplacementPolicy pol r = r\<lparr>replPolicy := pol\<rparr>"

definition next_rand :: "repl_state \<Rightarrow> nat \<times> repl_state" where
  "next_rand r = (rand_nums r 0, r\<lparr>rand_nums := (\<lambda>i. rand_nums r (Suc i))\<rparr>)"

section \<open>Victims\<close>

text \<open>The first way of a set with a property.\<close>

fun first_way :: "('l \<Rightarrow> bool) \<Rightarrow> 'l list \<Rightarrow> nat option" where
  "first_way P [] = None"
| "first_way P (l # ls) = (if P l then Some 0 else map_option Suc (first_way P ls))"

definition set_of :: "nat \<Rightarrow> repl_state \<Rightarrow> LINE_REPLACEMENT_STATE list res" where
  "set_of i r = (if i < length (repl r) then Inr (repl r ! i) else Inl Invalid_pointer)"

definition Get_LRU_Victim :: "nat \<Rightarrow> repl_state \<Rightarrow> nat res" where
  "Get_LRU_Victim i r =
     bindE (set_of i r) (\<lambda>ls. Inr (case first_way (\<lambda>l. LRUstackposition l = repl_assoc r - 1) ls of None \<Rightarrow> 0 | Some w \<Rightarrow> w))"

definition Get_Random_Victim :: "nat \<Rightarrow> repl_state \<Rightarrow> (nat \<times> repl_state) res" where
  "Get_Random_Victim i r =
     (if repl_assoc r = 0 then Inl Division_by_zero else let (n, r) = next_rand r in Inr (n mod unat (repl_assoc r), r))"

text \<open>All lines age until one is at the distant value.\<close>

definition age :: "LINE_REPLACEMENT_STATE \<Rightarrow> LINE_REPLACEMENT_STATE" where
  "age l = l\<lparr>RRPV := RRPV l + 1\<rparr>"

partial_function (option) rrip_loop :: "32 word \<Rightarrow> LINE_REPLACEMENT_STATE list \<Rightarrow> (nat \<times> LINE_REPLACEMENT_STATE list) option" where
  "rrip_loop assoc ls =
     (case first_way (\<lambda>l. ucast (RRPV l) = assoc - 1) ls of Some w \<Rightarrow> Some (w, ls) | None \<Rightarrow> rrip_loop assoc (map age ls))"

definition Get_RRIP_Victim :: "nat \<Rightarrow> repl_state \<Rightarrow> (nat \<times> repl_state) res option" where
  "Get_RRIP_Victim i r =
     (case set_of i r of
        Inl e \<Rightarrow> Some (Inl e)
      | Inr ls \<Rightarrow> (case rrip_loop (repl_assoc r) ls of None \<Rightarrow> None | Some (w, ls) \<Rightarrow> Some (Inr (w, r\<lparr>repl := (repl r)[i := ls]\<rparr>))))"

definition Get_SHIP_Victim :: "nat \<Rightarrow> repl_state \<Rightarrow> (nat \<times> repl_state) res option" where
  "Get_SHIP_Victim i r =
     (case set_of i r of
        Inl e \<Rightarrow> Some (Inl e)
      | Inr ls \<Rightarrow> (case rrip_loop (repl_assoc r) ls of None \<Rightarrow> None | Some (w, ls) \<Rightarrow> Some (Inr (w, r\<lparr>repl := (repl r)[i := ls]\<rparr>))))"

text \<open>The two loops of \<open>Get_Contestant_Victim\<close> over the ways from \<open>i\<close> on: among the lines whose signature has expired the one of
  largest \<open>RRPV\<close>, and then a line with that \<open>RRPV\<close> and a weaker signature than \<open>iMinSig\<close>.\<close>

fun expired_loop :: "(nat \<Rightarrow> HybridSignatureTable) \<Rightarrow> nat \<Rightarrow> LINE_REPLACEMENT_STATE list \<Rightarrow> nat \<times> 32 word \<times> bool \<Rightarrow> nat \<times> 32 word \<times> bool" where
  "expired_loop hst i [] acc = acc"
| "expired_loop hst i (l # ls) (victim, iMaxRRPV, found) =
     (let h = hst (unat (Signature l)) in
      expired_loop hst (Suc i) ls
        (if expired h \<and> nMax_Old h \<le> nHits h \<and> nMax_Old h \<noteq> 0 \<and> iMaxRRPV < ucast (RRPV l) then (i, ucast (RRPV l), True)
         else (victim, iMaxRRPV, found)))"

fun weakest_loop :: "(nat \<Rightarrow> HybridSignatureTable) \<Rightarrow> 32 word \<Rightarrow> nat \<Rightarrow> LINE_REPLACEMENT_STATE list \<Rightarrow> nat \<times> 32 word \<Rightarrow> nat \<times> 32 word" where
  "weakest_loop hst iMaxRRPV i [] acc = acc"
| "weakest_loop hst iMaxRRPV i (l # ls) (victim, iMinSig) =
     (let strength = ucast (Signature_Strength (hst (unat (Signature l)))) in
      weakest_loop hst iMaxRRPV (Suc i) ls
        (if ucast (RRPV l) = iMaxRRPV \<and> strength < iMinSig then (i, strength) else (victim, iMinSig)))"

definition Get_Contestant_Victim :: "nat \<Rightarrow> repl_state \<Rightarrow> (nat \<times> repl_state) res option" where
  "Get_Contestant_Victim i r =
     (case set_of i r of
        Inl e \<Rightarrow> Some (Inl e)
      | Inr ls \<Rightarrow>
          if \<not> list_all (\<lambda>l. unat (Signature l) < 2 ^ 14) ls then Some (Inl Invalid_pointer)
          else let (victim, iMaxRRPV, found) = expired_loop (HST r) 0 ls (0, 0, False)
               in if found then Some (Inr (fst (weakest_loop (HST r) iMaxRRPV 0 ls (victim, 0)), r))
                  else case rrip_loop (repl_assoc r) ls of None \<Rightarrow> None | Some (w, ls) \<Rightarrow> Some (Inr (w, r\<lparr>repl := (repl r)[i := ls]\<rparr>)))"

definition repl_GetVictimInSet :: "nat \<Rightarrow> repl_state \<Rightarrow> (nat \<times> repl_state) res option" where
  "repl_GetVictimInSet i r =
     (case replPolicy r of
        CRC_REPL_LRU \<Rightarrow> Some (bindE (Get_LRU_Victim i r) (\<lambda>w. Inr (w, r)))
      | CRC_REPL_RANDOM \<Rightarrow> Some (Get_Random_Victim i r)
      | CRC_REPL_DRRIP \<Rightarrow> Get_RRIP_Victim i r
      | CRC_REPL_SHIP \<Rightarrow> Get_SHIP_Victim i r
      | CRC_REPL_CONTESTANT \<Rightarrow> Get_Contestant_Victim i r
      | CRC_REPL_other \<Rightarrow> Some (Inl (Assertion_failed ''0'')))"

section \<open>Updates\<close>

definition line_at :: "nat \<Rightarrow> nat \<Rightarrow> repl_state \<Rightarrow> LINE_REPLACEMENT_STATE res" where
  "line_at i w r = (if i < length (repl r) \<and> w < length (repl r ! i) then Inr (repl r ! i ! w) else Inl Invalid_pointer)"

definition upd_line :: "nat \<Rightarrow> nat \<Rightarrow> LINE_REPLACEMENT_STATE \<Rightarrow> repl_state \<Rightarrow> repl_state" where
  "upd_line i w l r = r\<lparr>repl := (repl r)[i := (repl r ! i)[w := l]]\<rparr>"

definition lru_update :: "nat \<Rightarrow> LINE_REPLACEMENT_STATE list \<Rightarrow> LINE_REPLACEMENT_STATE list" where
  "lru_update w ls =
     (let p = LRUstackposition (ls ! w);
          ls = map (\<lambda>l. if LRUstackposition l < p then l\<lparr>LRUstackposition := LRUstackposition l + 1\<rparr> else l) ls
      in ls[w := (ls ! w)\<lparr>LRUstackposition := 0\<rparr>])"

definition UpdateLRU :: "nat \<Rightarrow> nat \<Rightarrow> repl_state \<Rightarrow> repl_state res" where
  "UpdateLRU i w r = bindE (line_at i w r) (\<lambda>_. Inr (r\<lparr>repl := (repl r)[i := lru_update w (repl r ! i)]\<rparr>))"

definition UpdateDRRIP :: "nat \<Rightarrow> nat \<Rightarrow> bool \<Rightarrow> repl_state \<Rightarrow> repl_state res" where
  "UpdateDRRIP i w hit r =
     bindE (line_at i w r) (\<lambda>l.
       let far = l\<lparr>RRPV := ucast (repl_assoc r - 1)\<rparr>; near = l\<lparr>RRPV := ucast (repl_assoc r - 2)\<rparr> in
       if hit then Inr (upd_line i w (l\<lparr>RRPV := 0\<rparr>) r)
       else if i \<ge> length (SDM_info r) then Inl Invalid_pointer
       else case SDM_info r ! i of
              LEADER_SRRIP \<Rightarrow> Inr ((upd_line i w far r)\<lparr>PSEL_VAL := (if PSEL_VAL r < 1023 then PSEL_VAL r + 1 else PSEL_VAL r)\<rparr>)
            | LEADER_BRRIP \<Rightarrow> Inr ((upd_line i w near r)\<lparr>PSEL_VAL := (if PSEL_VAL r > 0 then PSEL_VAL r - 1 else PSEL_VAL r)\<rparr>)
            | FOLLOWER \<Rightarrow>
                if PSEL_VAL r > 512 then
                  let (n, r) = next_rand r in Inr (upd_line i w (if n mod 100 < 5 then near else far) r)
                else Inr (upd_line i w far r))"

definition UpdateSHIP :: "nat \<Rightarrow> nat \<Rightarrow> bool \<Rightarrow> 32 word \<Rightarrow> repl_state \<Rightarrow> repl_state res" where
  "UpdateSHIP i w hit sig r =
     bindE (line_at i w r) (\<lambda>l.
       let old = unat (Signature l); new = unat sig in
       if \<not> old < 2 ^ 14 then Inl Invalid_pointer
       else if hit then
         Inr ((upd_line i w (l\<lparr>RRPV := 0, Outcome := True\<rparr>) r)
           \<lparr>SHCT := (if SHCT r old < 3 then (SHCT r)(old := SHCT r old + 1) else SHCT r)\<rparr>)
       else if \<not> new < 2 ^ 14 then Inl Invalid_pointer
       else
         let shct = (if \<not> Outcome l \<and> SHCT r old > 0 then (SHCT r)(old := SHCT r old - 1) else SHCT r) in
         Inr ((upd_line i w (l\<lparr>RRPV := (if shct new = 0 then ucast (repl_assoc r - 1) else ucast (repl_assoc r - 2)),
                Outcome := False, Signature := ucast sig\<rparr>) r)\<lparr>SHCT := shct\<rparr>))"

text \<open>\<open>UpdateMyPolicy\<close>: the tables after a hit, and after a miss in which a line of signature \<open>old\<close> is replaced by one of signature \<open>new\<close>.\<close>

definition my_hit :: "nat \<Rightarrow> (nat \<Rightarrow> HybridSignatureTable) \<Rightarrow> nat \<Rightarrow> HybridSignatureTable" where
  "my_hit sig hst =
     (let h = hst sig;
          h = h\<lparr>nHits := (if nHits h < 255 then nHits h + 1 else nHits h)\<rparr>
      in hst(sig := h\<lparr>Signature_Strength := (if Signature_Strength h < 3 then Signature_Strength h + 1 else Signature_Strength h)\<rparr>))"

definition my_evict :: "nat \<Rightarrow> bool \<Rightarrow> (nat \<Rightarrow> HybridSignatureTable) \<Rightarrow> nat \<Rightarrow> HybridSignatureTable" where
  "my_evict old outcome hst =
     (let h = hst old;
          h = h\<lparr>Signature_Strength := (if \<not> outcome \<and> Signature_Strength h > 0 then Signature_Strength h - 1 else Signature_Strength h)\<rparr>;
          h = h\<lparr>nMax_Stored := nHits h\<rparr>
      in hst(old := h\<lparr>expired := (nMax_Old h = nHits h \<and> nMax_Old h \<noteq> 0)\<rparr>))"

definition my_insert :: "nat \<Rightarrow> (nat \<Rightarrow> HybridSignatureTable) \<Rightarrow> nat \<Rightarrow> HybridSignatureTable" where
  "my_insert new hst = hst(new := (hst new)\<lparr>nHits := 0, nMax_Old := nMax_Stored (hst new)\<rparr>)"

definition UpdateMyPolicy :: "nat \<Rightarrow> nat \<Rightarrow> bool \<Rightarrow> 32 word \<Rightarrow> repl_state \<Rightarrow> repl_state res" where
  "UpdateMyPolicy i w hit sig r =
     bindE (line_at i w r) (\<lambda>l.
       let old = unat (Signature l); new = unat sig in
       if \<not> old < 2 ^ 14 then Inl Invalid_pointer
       else if hit then UpdateLRU i w ((upd_line i w (l\<lparr>RRPV := 0, Outcome := True\<rparr>) r)\<lparr>HST := my_hit old (HST r)\<rparr>)
       else if \<not> new < 2 ^ 14 then Inl Invalid_pointer
       else
         let hst = my_evict old (Outcome l) (HST r) in
         UpdateLRU i w ((upd_line i w (l\<lparr>RRPV := (if Signature_Strength (hst new) = 0 then ucast (repl_assoc r - 1) else ucast (repl_assoc r - 2)),
           Outcome := False, Signature := ucast sig\<rparr>) r)\<lparr>HST := my_insert new hst\<rparr>))"

definition UpdateReplacementState :: "nat \<Rightarrow> nat \<Rightarrow> 64 word \<Rightarrow> 64 word \<Rightarrow> bool \<Rightarrow> repl_state \<Rightarrow> repl_state res" where
  "UpdateReplacementState i w line_tag PC hit r =
     (case replPolicy r of
        CRC_REPL_LRU \<Rightarrow> UpdateLRU i w r
      | CRC_REPL_DRRIP \<Rightarrow> UpdateDRRIP i w hit r
      | CRC_REPL_SHIP \<Rightarrow> UpdateSHIP i w hit (ucast (PC AND ucast (SigHashMask r))) r
      | CRC_REPL_CONTESTANT \<Rightarrow> UpdateMyPolicy i w hit (ucast (line_tag AND ucast (SigHashMask r))) r
      | _ \<Rightarrow> Inr r)"

end
