(* ===== verification/Llc_Cache.thy ===== *)
theory Llc_Cache
  imports Llc_Policy
begin

text \<open>
  The cache of the simulator, \<open>src/memsystems/cache-championship/CRC/src/LLCsim/crc_cache.cpp\<close>: its lines, the address functions,
  lookup and fill. The statistics are functions of the access type and the thread; a thread that does not exist is a fault.
\<close>

section \<open>State\<close>

record LINE_STATE =
  valid :: bool
  tag :: "64 word"
  dirty :: bool
  sharing_dir :: "64 word"

datatype AccessTypes = ACCESS_IFETCH | ACCESS_LOAD | ACCESS_STORE | ACCESS_UNSUPPORT0 | ACCESS_UNSUPPORT1 | ACCESS_PREFETCH | ACCESS_WRITEBACK

type_synonym counters = "AccessTypes \<Rightarrow> nat \<Rightarrow> 64 word"

record CRC_CACHE =
  numsets :: "32 word"
  assoc :: "32 word"
  threads :: "32 word"
  linesize :: "32 word"
  cache :: "LINE_STATE list list"
  cacheReplState :: repl_state
  lookups :: counters
  misses :: counters
  hits :: counters
  lineShift :: "32 word"
  indexShift :: "32 word"
  indexMask :: "32 word"
  mytimer :: "64 word"

definition IS_STORE :: "AccessTypes \<Rightarrow> bool" where
  "IS_STORE a \<longleftrightarrow> a = ACCESS_STORE \<or> a = ACCESS_WRITEBACK"

definition bump :: "AccessTypes \<Rightarrow> nat \<Rightarrow> counters \<Rightarrow> counters" where
  "bump a t c = c(a := (c a)(t := c a t + 1))"

section \<open>Construction\<close>

definition log_step :: "32 word \<Rightarrow> nat \<Rightarrow> 32 word \<times> int \<Rightarrow> 32 word \<times> int" where
  "log_step m k np = (if fst np AND m \<noteq> 0 then (drop_bit k (fst np), snd np + int k) else np)"

definition CRC_FloorLog2 :: "32 word \<Rightarrow> int" where
  "CRC_FloorLog2 n =
     (if n = 0 then - 1
      else let (n, p) = log_step 0xc 2 (log_step 0xf0 4 (log_step 0xff00 8 (log_step 0xffff0000 16 (n, 0))))
           in if n AND 2 \<noteq> 0 then p + 1 else p)"

definition InitCache :: "CRC_CACHE \<Rightarrow> CRC_CACHE" where
  "InitCache c =
     (let shift = word_of_int (CRC_FloorLog2 (numsets c)) in
      c\<lparr>lineShift := word_of_int (CRC_FloorLog2 (linesize c)), indexShift := shift, indexMask := push_bit (unat shift) 1 - 1,
        cache := replicate (unat (numsets c)) (replicate (unat (assoc c)) \<lparr>valid = False, tag = 0xdeaddead, dirty = False, sharing_dir = 0\<rparr>),
        mytimer := 0\<rparr>)"

definition InitStats :: "CRC_CACHE \<Rightarrow> CRC_CACHE" where
  "InitStats c = c\<lparr>lookups := (\<lambda>_ _. 0), misses := (\<lambda>_ _. 0), hits := (\<lambda>_ _. 0)\<rparr>"

text \<open>\<open>raw\<close> is the object before the constructor and \<open>rnd\<close> the numbers \<open>rand\<close> will return.\<close>

definition new_CRC_CACHE :: "32 word \<Rightarrow> 32 word \<Rightarrow> 32 word \<Rightarrow> 32 word \<Rightarrow> ReplacemntPolicy \<Rightarrow> (nat \<Rightarrow> nat) \<Rightarrow> CRC_CACHE \<Rightarrow> CRC_CACHE res" where
  "new_CRC_CACHE cacheSize ways tpc line_sz pol rnd raw =
     (if line_sz * ways = 0 then Inl Division_by_zero
      else
        let c = InitCache (raw\<lparr>numsets := cacheSize div (line_sz * ways), assoc := ways, threads := tpc, linesize := line_sz\<rparr>)
        in Inr (InitStats (c\<lparr>cacheReplState := InitReplacementState (numsets c) (assoc c) pol rnd\<rparr>)))"

section \<open>Accesses\<close>

definition GetTag :: "CRC_CACHE \<Rightarrow> 64 word \<Rightarrow> 64 word" where
  "GetTag c addr = drop_bit (unat (indexShift c)) (drop_bit (unat (lineShift c)) addr)"

definition GetSetIndex :: "CRC_CACHE \<Rightarrow> 64 word \<Rightarrow> 32 word" where
  "GetSetIndex c addr = ucast (drop_bit (unat (lineShift c)) addr AND ucast (indexMask c))"

definition LookupSet :: "nat \<Rightarrow> 64 word \<Rightarrow> CRC_CACHE \<Rightarrow> nat option" where
  "LookupSet i t c = first_way (\<lambda>l. valid l \<and> tag l = t) (cache c ! i)"

definition GetVictimInSet :: "nat \<Rightarrow> CRC_CACHE \<Rightarrow> (nat \<times> repl_state) res option" where
  "GetVictimInSet i c =
     (case first_way (\<lambda>l. \<not> valid l) (cache c ! i) of
        Some w \<Rightarrow> Some (Inr (w, cacheReplState c))
      | None \<Rightarrow> repl_GetVictimInSet i (cacheReplState c))"

definition CacheInspect :: "64 word \<Rightarrow> CRC_CACHE \<Rightarrow> bool res" where
  "CacheInspect paddr c =
     (let i = unat (GetSetIndex c paddr) in
      if i < length (cache c) then Inr (LookupSet i (GetTag c paddr) c \<noteq> None) else Inl Invalid_pointer)"

text \<open>\<open>1<<tid\<close> in a 64-bit set of threads.\<close>

definition sharer :: "nat \<Rightarrow> 64 word" where
  "sharer tid = scast (push_bit tid (1 :: 32 word))"

definition set_line :: "nat \<Rightarrow> nat \<Rightarrow> LINE_STATE \<Rightarrow> CRC_CACHE \<Rightarrow> CRC_CACHE" where
  "set_line i w l c = c\<lparr>cache := (cache c)[i := (cache c ! i)[w := l]]\<rparr>"

text \<open>The two branches of \<open>LookupAndFillCache\<close>. No policy asks to bypass the cache, because the assertion in \<open>GetVictimInSet\<close> comes first.\<close>

definition fill_miss :: "nat \<Rightarrow> 64 word \<Rightarrow> nat \<Rightarrow> 64 word \<Rightarrow> AccessTypes \<Rightarrow> CRC_CACHE \<Rightarrow> CRC_CACHE res option" where
  "fill_miss i t tid PC a c =
     (case GetVictimInSet i c of
        None \<Rightarrow> None
      | Some (Inl e) \<Rightarrow> Some (Inl e)
      | Some (Inr (w, r)) \<Rightarrow>
          if w < length (cache c ! i) then
            Some (bindE (UpdateReplacementState i w t PC False r) (\<lambda>r.
              Inr (set_line i w \<lparr>valid = True, tag = t, dirty = IS_STORE a, sharing_dir = sharer tid\<rparr>
                (c\<lparr>cacheReplState := r, misses := bump a tid (misses c)\<rparr>))))
          else Some (Inl Invalid_pointer))"

definition use_hit :: "nat \<Rightarrow> nat \<Rightarrow> nat \<Rightarrow> 64 word \<Rightarrow> AccessTypes \<Rightarrow> CRC_CACHE \<Rightarrow> CRC_CACHE res" where
  "use_hit i w tid PC a c =
     (let l = cache c ! i ! w in
      bindE (if a \<noteq> ACCESS_WRITEBACK then UpdateReplacementState i w (tag l) PC True (cacheReplState c) else Inr (cacheReplState c)) (\<lambda>r.
        Inr (set_line i w (l\<lparr>dirty := dirty l \<or> IS_STORE a, sharing_dir := sharing_dir l OR sharer tid\<rparr>)
          (c\<lparr>cacheReplState := r, hits := bump a tid (hits c)\<rparr>))))"

definition LookupAndFillCache :: "nat \<Rightarrow> 64 word \<Rightarrow> 64 word \<Rightarrow> AccessTypes \<Rightarrow> CRC_CACHE \<Rightarrow> (bool \<times> CRC_CACHE) res option" where
  "LookupAndFillCache tid PC paddr a c =
     (let c = c\<lparr>mytimer := mytimer c + 1, cacheReplState := IncrementTimer (cacheReplState c), lookups := bump a tid (lookups c)\<rparr>;
          i = unat (GetSetIndex c paddr); t = GetTag c paddr
      in if unat (threads c) \<le> tid \<or> length (cache c) \<le> i then Some (Inl Invalid_pointer)
         else case LookupSet i t c of
                None \<Rightarrow> map_option (\<lambda>x. bindE x (\<lambda>c. Inr (False, c))) (fill_miss i t tid PC a c)
              | Some w \<Rightarrow> Some (bindE (use_hit i w tid PC a c) (\<lambda>c. Inr (True, c))))"

section \<open>Statistics\<close>

definition demand :: "(CRC_CACHE \<Rightarrow> counters) \<Rightarrow> nat \<Rightarrow> CRC_CACHE \<Rightarrow> 64 word" where
  "demand f tid c = f c ACCESS_IFETCH tid + f c ACCESS_LOAD tid + f c ACCESS_STORE tid"

definition ThreadDemandLookupStats :: "nat \<Rightarrow> CRC_CACHE \<Rightarrow> 64 word" where
  "ThreadDemandLookupStats = demand lookups"

definition ThreadDemandMissStats :: "nat \<Rightarrow> CRC_CACHE \<Rightarrow> 64 word" where
  "ThreadDemandMissStats = demand misses"

definition ThreadDemandHitStats :: "nat \<Rightarrow> CRC_CACHE \<Rightarrow> 64 word" where
  "ThreadDemandHitStats = demand hits"

end
