(* ===== verification/Llc_Replacement.thy ===== *)
theory Llc_Replacement
  imports Llc_Cache
begin

text \<open>
  The five replacement policies keep the replacement state well formed and always name a way of the set, and what they name: the least
  recently used way for LRU, a way of largest re-reference prediction for the RRIP policies.
\<close>

section \<open>Ways\<close>

lemma first_way_Some: "first_way P ls = Some w \<Longrightarrow> w < length ls \<and> P (ls ! w) \<and> (\<forall>j < w. \<not> P (ls ! j))"
proof (induction ls arbitrary: w)
  case (Cons l ls)
  show ?case
  proof (cases "P l")
    case False
    then obtain v where "first_way P ls = Some v" "w = Suc v" using Cons.prems by auto
    then show ?thesis using Cons.IH [of v] False by (auto simp: nth_Cons split: nat.splits)
  qed (use Cons.prems in auto)
qed simp

lemma first_way_None: "first_way P ls = None \<longleftrightarrow> (\<forall>l \<in> set ls. \<not> P l)"
  by (induction ls) auto

lemma first_way_found: "j < length ls \<Longrightarrow> P (ls ! j) \<Longrightarrow> \<exists>w. first_way P ls = Some w"
  using first_way_None [of P ls] by (metis not_Some_eq nth_mem)

section \<open>The ageing loop\<close>

definition age_by :: "nat \<Rightarrow> LINE_REPLACEMENT_STATE \<Rightarrow> LINE_REPLACEMENT_STATE" where
  "age_by d l = l\<lparr>RRPV := RRPV l + of_nat d\<rparr>"

lemma age_by_simps: "age_by 0 l = l" "age_by d (age l) = age_by (Suc d) l"
  by (simp_all add: age_by_def age_def algebra_simps)

lemma RRPV_age: "unat (RRPV l) + 1 < 256 \<Longrightarrow> unat (RRPV (age l)) = unat (RRPV l) + 1"
  by (simp add: age_def unat_word_ariths)

lemma ucast_RRPV: "unat (ucast (x :: 8 word) :: 32 word) = unat x"
proof -
  have "unat x < 2 ^ 32" using less_trans [OF unsigned_less [of x], of "2 ^ 32"] by simp
  then show ?thesis by (simp add: unsigned_ucast_eq take_bit_nat_eq_self)
qed

lemma far_eq: "2 \<le> unat a \<Longrightarrow> unat a \<le> 256 \<Longrightarrow> ucast (x :: 8 word) = (a :: 32 word) - 1 \<longleftrightarrow> unat x = unat a - 1"
proof -
  assume "2 \<le> unat a" "unat a \<le> 256"
  then have "unat (a - 1) = unat a - 1" by (simp add: unat_sub word_le_nat_alt)
  then show ?thesis by (simp add: word_unat_eq_iff ucast_RRPV)
qed

lemma rrip_loop_ok:
  assumes "2 \<le> unat a" and "unat a \<le> 256" and "ls \<noteq> []" and "\<forall>l \<in> set ls. unat (RRPV l) < unat a"
  shows "\<exists>w d. rrip_loop a ls = Some (w, map (age_by d) ls) \<and> w < length ls \<and> unat (RRPV (ls ! w)) + d = unat a - 1 \<and>
    (\<forall>l \<in> set ls. unat (RRPV l) + d < unat a) \<and> (\<forall>j < w. unat (RRPV (ls ! j)) < unat (RRPV (ls ! w)))"
  using assms(3,4)
proof (induction "unat a - unat (RRPV (hd ls))" arbitrary: ls rule: less_induct)
  case less
  show ?case
  proof (cases "first_way (\<lambda>l. ucast (RRPV l) = a - 1) ls")
    case (Some w)
    then have "w < length ls" "unat (RRPV (ls ! w)) = unat a - 1" "\<forall>j < w. unat (RRPV (ls ! j)) \<noteq> unat a - 1"
      using first_way_Some [OF Some] far_eq [OF assms(1,2)] by auto
    moreover from this have "unat (RRPV (ls ! j)) < unat a - 1" if "j < w" for j
    proof -
      have "ls ! j \<in> set ls" using that \<open>w < length ls\<close> by simp
      then show ?thesis using that less.prems(2) \<open>\<forall>j < w. unat (RRPV (ls ! j)) \<noteq> unat a - 1\<close> by fastforce
    qed
    ultimately show ?thesis using Some less.prems
      by (intro exI [of _ w] exI [of _ 0]) (simp add: rrip_loop.simps [of a ls] age_by_simps(1) map_idI)
  next
    case None
    then have lt: "unat (RRPV l) < unat a - 1" if "l \<in> set ls" for l
      using that less.prems(2) far_eq [OF assms(1,2), of "RRPV l"] by (fastforce simp: first_way_None)
    then have up: "unat (RRPV (age l)) = unat (RRPV l) + 1" if "l \<in> set ls" for l using that assms(2) by (intro RRPV_age) fastforce
    have hd: "hd ls \<in> set ls" using less.prems(1) by simp
    have "unat a - unat (RRPV (hd (map age ls))) < unat a - unat (RRPV (hd ls))"
      using up [OF hd] lt [OF hd] less.prems(1) by (simp add: hd_map)
    moreover have "\<forall>l \<in> set (map age ls). unat (RRPV l) < unat a" using up lt by force
    ultimately have "\<exists>w d. rrip_loop a (map age ls) = Some (w, map (age_by d) (map age ls)) \<and> w < length (map age ls) \<and>
      unat (RRPV (map age ls ! w)) + d = unat a - 1 \<and> (\<forall>l \<in> set (map age ls). unat (RRPV l) + d < unat a) \<and>
      (\<forall>j < w. unat (RRPV (map age ls ! j)) < unat (RRPV (map age ls ! w)))"
      using less.prems(1) by (intro less.hyps) simp_all
    then obtain w d where m: "rrip_loop a (map age ls) = Some (w, map (age_by d) (map age ls))" "w < length (map age ls)"
      "unat (RRPV (map age ls ! w)) + d = unat a - 1" "\<forall>l \<in> set (map age ls). unat (RRPV l) + d < unat a"
      "\<forall>j < w. unat (RRPV (map age ls ! j)) < unat (RRPV (map age ls ! w))" by blast
    then have w: "rrip_loop a (map age ls) = Some (w, map (age_by d) (map age ls))" "w < length ls"
      "unat (RRPV (age (ls ! w))) + d = unat a - 1" "\<forall>l \<in> set ls. unat (RRPV (age l)) + d < unat a"
      "\<forall>j < w. unat (RRPV (age (ls ! j))) < unat (RRPV (age (ls ! w)))" by simp_all
    have "rrip_loop a ls = Some (w, map (age_by (Suc d)) ls)"
      using None w(1) by (simp add: rrip_loop.simps [of a ls] age_by_simps(2) o_def)
    moreover have "\<forall>j < w. unat (RRPV (ls ! j)) < unat (RRPV (ls ! w))" using w(2,5) up by (auto dest: order.strict_trans)
    ultimately show ?thesis using w(2-4) up by (intro exI [of _ w] exI [of _ "Suc d"]) auto
  qed
qed

section \<open>The recency stack\<close>

definition pos :: "LINE_REPLACEMENT_STATE list \<Rightarrow> nat \<Rightarrow> nat" where
  "pos ls w = unat (LRUstackposition (ls ! w))"

lemma pos_word: "LRUstackposition (ls ! w) = of_nat (pos ls w)"
  by (simp add: pos_def)

definition recency_ok :: "LINE_REPLACEMENT_STATE list \<Rightarrow> bool" where
  "recency_ok ls \<longleftrightarrow> length ls < 2 ^ 32 \<and> distinct (map LRUstackposition ls) \<and> (\<forall>l \<in> set ls. unat (LRUstackposition l) < length ls)"

text \<open>The ways of a set from the most to the least recently used one.\<close>

definition lru_stack :: "LINE_REPLACEMENT_STATE list \<Rightarrow> nat list" where
  "lru_stack ls = map (\<lambda>p. the (first_way (\<lambda>l. LRUstackposition l = of_nat p) ls)) [0..<length ls]"

lemma pos_inj:
  assumes "recency_ok ls" and "i < length ls" and "j < length ls" and "pos ls i = pos ls j"
  shows "i = j"
proof (rule ccontr)
  assume "i \<noteq> j"
  then have "LRUstackposition (ls ! i) \<noteq> LRUstackposition (ls ! j)" using assms(1-3) by (auto simp: recency_ok_def distinct_conv_nth)
  then show False using assms(4) by (simp add: pos_def word_unat_eq_iff)
qed

lemma pos_bij:
  assumes "recency_ok ls"
  shows "bij_betw (pos ls) {..<length ls} {..<length ls}"
proof -
  have "inj_on (pos ls) {..<length ls}" using pos_inj [OF assms] by (auto simp: inj_on_def)
  moreover have "pos ls ` {..<length ls} \<subseteq> {..<length ls}" using assms by (auto simp: pos_def recency_ok_def)
  ultimately show ?thesis by (simp add: bij_betw_def endo_inj_surj)
qed

lemma lru_stack_nth:
  assumes "recency_ok ls" and "p < length ls"
  shows "lru_stack ls ! p < length ls \<and> pos ls (lru_stack ls ! p) = p"
proof -
  have "p \<in> pos ls ` {..<length ls}" using pos_bij [OF assms(1)] assms(2) by (simp add: bij_betw_def)
  then obtain w where w: "w < length ls" "pos ls w = p" by blast
  then have "LRUstackposition (ls ! w) = of_nat p" by (metis pos_word)
  then obtain v where v: "first_way (\<lambda>l. LRUstackposition l = of_nat p) ls = Some v" using first_way_found [OF w(1), of "\<lambda>l. LRUstackposition l = of_nat p"] by blast
  then have "lru_stack ls ! p = v" using assms(2) by (simp add: lru_stack_def)
  moreover have "unat (of_nat p :: 32 word) = p" using assms by (simp add: recency_ok_def unat_of_nat take_bit_nat_eq_self)
  ultimately show ?thesis using first_way_Some [OF v] by (simp add: pos_def)
qed

lemma lru_stack_eqI:
  assumes "recency_ok ls" and "length xs = length ls" and "\<And>p. p < length ls \<Longrightarrow> xs ! p < length ls \<and> pos ls (xs ! p) = p"
  shows "lru_stack ls = xs"
proof (rule nth_equalityI)
  show len: "length (lru_stack ls) = length xs" using assms(2) by (simp add: lru_stack_def)
  fix p assume "p < length (lru_stack ls)"
  then have p: "p < length ls" by (simp add: lru_stack_def)
  then show "lru_stack ls ! p = xs ! p"
    using lru_stack_nth [OF assms(1) p] assms(3) [OF p] pos_inj [OF assms(1)] by metis
qed

lemma lru_stack_distinct: "recency_ok ls \<Longrightarrow> distinct (lru_stack ls)"
  unfolding distinct_conv_nth
proof (intro allI impI)
  fix i j assume ok: "recency_ok ls" and i: "i < length (lru_stack ls)" and j: "j < length (lru_stack ls)" and "i \<noteq> j"
  then have "i < length ls" "j < length ls" by (simp_all add: lru_stack_def)
  then show "lru_stack ls ! i \<noteq> lru_stack ls ! j" using lru_stack_nth [OF ok] \<open>i \<noteq> j\<close> by metis
qed

lemma lru_update_pos:
  assumes ok: "recency_ok ls" and w: "w < length ls" and j: "j < length ls"
  shows "pos (lru_update w ls) j = (if j = w then 0 else if pos ls j < pos ls w then pos ls j + 1 else pos ls j)"
proof -
  have "unat (LRUstackposition (ls ! j) + 1) = unat (LRUstackposition (ls ! j)) + 1" if "LRUstackposition (ls ! j) < LRUstackposition (ls ! w)"
  proof -
    have "unat (LRUstackposition (ls ! w)) < 2 ^ 32" using unsigned_less [of "LRUstackposition (ls ! w)"] by simp
    then show ?thesis using that by (simp add: unat_word_ariths word_less_nat_alt)
  qed
  then show ?thesis using w j by (auto simp: pos_def lru_update_def Let_def nth_list_update word_less_nat_alt)
qed

lemma lru_update_length [simp]: "length (lru_update w ls) = length ls"
  by (simp add: lru_update_def Let_def)

lemma lru_update_ok:
  assumes ok: "recency_ok ls" and w: "w < length ls"
  shows "recency_ok (lru_update w ls)"
proof -
  note up = lru_update_pos [OF ok w]
  have inj: "pos ls i = pos ls j \<Longrightarrow> i = j" if "i < length ls" "j < length ls" for i j
    using pos_inj [OF ok] that by blast
  have lt: "pos ls j < length ls" if "j < length ls" for j using that ok by (simp add: pos_def recency_ok_def)
  have "pos (lru_update w ls) i \<noteq> pos (lru_update w ls) j" if "i < length ls" "j < length ls" "i \<noteq> j" for i j
  proof -
    have "pos ls i \<noteq> pos ls j" using inj that by blast
    moreover have "i = w \<or> pos ls i \<noteq> pos ls w" "j = w \<or> pos ls j \<noteq> pos ls w" using inj that w by blast+
    ultimately show ?thesis unfolding up [OF that(1)] up [OF that(2)] using that(3) by auto
  qed
  then have "distinct (map LRUstackposition (lru_update w ls))" by (fastforce simp: distinct_conv_nth pos_def)
  moreover have "pos (lru_update w ls) j < length ls" if "j < length ls" for j using up [OF that] lt [OF that] lt [OF w] by (auto split: if_splits)
  then have "\<forall>l \<in> set (lru_update w ls). unat (LRUstackposition l) < length ls" by (auto simp: pos_def in_set_conv_nth)
  ultimately show ?thesis using ok by (simp add: recency_ok_def)
qed

text \<open>Using a way moves it to the front of the stack.\<close>

lemma lru_stack_update:
  assumes ok: "recency_ok ls" and w: "w < length ls"
  shows "lru_stack (lru_update w ls) = w # remove1 w (lru_stack ls)"
proof (rule lru_stack_eqI [OF lru_update_ok [OF assms]])
  let ?xs = "lru_stack ls" and ?p = "pos ls w"
  have len: "length ?xs = length ls" by (simp add: lru_stack_def)
  have p: "?p < length ls" using ok w by (simp add: pos_def recency_ok_def)
  have wp: "?xs ! ?p = w"
    using lru_stack_nth [OF ok p] pos_inj [OF ok] w by metis
  then have split: "?xs = take ?p ?xs @ w # drop (Suc ?p) ?xs" using p len by (metis id_take_nth_drop)
  moreover have "w \<notin> set (take ?p ?xs)" using lru_stack_distinct [OF ok] by (subst (asm) split) simp
  ultimately have r: "remove1 w ?xs = take ?p ?xs @ drop (Suc ?p) ?xs" by (metis remove1.simps(2) remove1_append)
  show "length (w # remove1 w ?xs) = length (lru_update w ls)" using r p len by simp
  fix q assume "q < length (lru_update w ls)"
  then have q: "q < length ls" by simp
  note nth = lru_stack_nth [OF ok]
  consider "q = 0" | "0 < q" "q \<le> ?p" | "?p < q" by linarith
  then show "(w # remove1 w ?xs) ! q < length (lru_update w ls) \<and> pos (lru_update w ls) ((w # remove1 w ?xs) ! q) = q"
  proof cases
    case 1
    then show ?thesis using w lru_update_pos [OF ok w w] by simp
  next
    case 2
    then have "(w # remove1 w ?xs) ! q = ?xs ! (q - 1)" unfolding r using p len by (auto simp: nth_append nth_Cons')
    moreover have "q - 1 < length ls" "pos ls (?xs ! (q - 1)) = q - 1" using q nth [of "q - 1"] by auto
    ultimately show ?thesis using nth [of "q - 1"] lru_update_pos [OF ok w, of "?xs ! (q - 1)"] 2 by (auto split: if_splits)
  next
    case 3
    then have "(w # remove1 w ?xs) ! q = ?xs ! q" unfolding r using p q len by (auto simp: nth_append nth_Cons')
    then show ?thesis using nth [OF q] lru_update_pos [OF ok w, of "?xs ! q"] 3 by (auto split: if_splits)
  qed
qed

lemma lru_victim_last:
  assumes "recency_ok ls" and "ls \<noteq> []" and "unat a = length ls"
  shows "(case first_way (\<lambda>l. LRUstackposition l = a - 1) ls of None \<Rightarrow> 0 | Some w \<Rightarrow> w) = last (lru_stack ls)"
proof -
  have a: "a - 1 = of_nat (length ls - 1)"
  proof -
    have "1 \<le> length ls" using assms(2) by (simp add: Suc_leI)
    then have "(of_nat (length ls - 1) :: 32 word) = of_nat (unat a) - 1" using assms(3) by (simp add: of_nat_diff)
    then show ?thesis by simp
  qed
  have "lru_stack ls ! (length ls - 1) = the (first_way (\<lambda>l. LRUstackposition l = of_nat (length ls - 1)) ls)"
    using assms(2) by (simp add: lru_stack_def)
  moreover have "last (lru_stack ls) = lru_stack ls ! (length ls - 1)" using assms(2) by (simp add: last_conv_nth lru_stack_def)
  moreover obtain v where "first_way (\<lambda>l. LRUstackposition l = of_nat (length ls - 1)) ls = Some v"
  proof -
    let ?w = "lru_stack ls ! (length ls - 1)"
    have "?w < length ls" "pos ls ?w = length ls - 1" using lru_stack_nth [OF assms(1), of "length ls - 1"] assms(2) by auto
    moreover from this have "LRUstackposition (ls ! ?w) = of_nat (length ls - 1)" by (metis pos_word)
    ultimately show ?thesis using first_way_found [of ?w ls "\<lambda>l. LRUstackposition l = of_nat (length ls - 1)"] that by blast
  qed
  ultimately show ?thesis unfolding a by simp
qed

section \<open>Well-formed states\<close>

definition rline_ok :: "nat \<Rightarrow> LINE_REPLACEMENT_STATE \<Rightarrow> bool" where
  "rline_ok k l \<longleftrightarrow> unat (RRPV l) < k \<and> unat (Signature l) < 2 ^ 14"

definition lines_ok :: "nat \<Rightarrow> LINE_REPLACEMENT_STATE list \<Rightarrow> bool" where
  "lines_ok k ls \<longleftrightarrow> length ls = k \<and> recency_ok ls \<and> list_all (rline_ok k) ls"

text \<open>A state for \<open>m\<close> sets of \<open>k\<close> ways.\<close>

definition repl_ok :: "nat \<Rightarrow> nat \<Rightarrow> repl_state \<Rightarrow> bool" where
  "repl_ok m k r \<longleftrightarrow> 2 \<le> k \<and> k \<le> 256 \<and> unat (repl_assoc r) = k \<and> length (repl r) = m \<and> list_all (lines_ok k) (repl r) \<and>
     length (SDM_info r) = m \<and> replPolicy r \<noteq> CRC_REPL_other \<and> SigHashMask r = push_bit 14 1 - 1 \<and> PSEL_VAL r \<le> 1023 \<and>
     (\<forall>j. SHCT r j \<le> 3) \<and> (\<forall>j. Signature_Strength (HST r j) \<le> 3)"

lemma repl_ok_set: "repl_ok m k r \<Longrightarrow> lines_ok k ls \<Longrightarrow> repl_ok m k (r\<lparr>repl := (repl r)[i := ls]\<rparr>)"
  by (auto simp: repl_ok_def list_all_iff dest!: set_update_subset_insert [THEN subsetD])

lemma repl_ok_lines: "repl_ok m k r \<Longrightarrow> i < m \<Longrightarrow> lines_ok k (repl r ! i)"
  by (simp add: repl_ok_def list_all_length)

lemma repl_ok_set_of: "repl_ok m k r \<Longrightarrow> i < m \<Longrightarrow> set_of i r = Inr (repl r ! i)"
  by (simp add: repl_ok_def set_of_def)

lemma repl_ok_line_at: "repl_ok m k r \<Longrightarrow> i < m \<Longrightarrow> w < k \<Longrightarrow> line_at i w r = Inr (repl r ! i ! w)"
  using repl_ok_lines [of m k r i] by (simp add: repl_ok_def line_at_def lines_ok_def)

lemma repl_ok_line: "repl_ok m k r \<Longrightarrow> i < m \<Longrightarrow> w < k \<Longrightarrow> rline_ok k (repl r ! i ! w)"
  using repl_ok_lines [of m k r i] by (simp add: lines_ok_def list_all_length)

lemma recency_ok_positions:
  "recency_ok ls \<longleftrightarrow> (let ps = map LRUstackposition ls in length ps < 2 ^ 32 \<and> distinct ps \<and> (\<forall>p \<in> set ps. unat p < length ps))"
  by (simp add: recency_ok_def Let_def)

lemma recency_ok_cong: "map LRUstackposition ls' = map LRUstackposition ls \<Longrightarrow> recency_ok ls' = recency_ok ls"
  unfolding recency_ok_positions by simp

lemma lines_ok_upd:
  assumes "lines_ok k ls" and "rline_ok k l" and "LRUstackposition l = LRUstackposition (ls ! w)"
  shows "lines_ok k (ls[w := l])"
proof -
  have "map LRUstackposition (ls[w := l]) = map LRUstackposition ls"
    using assms(3) by (cases "w < length ls") (simp_all add: map_update list_update_same_conv list_update_beyond)
  then have "recency_ok (ls[w := l])" using recency_ok_cong assms(1) by (metis lines_ok_def)
  then show ?thesis using assms(1,2) by (auto simp: lines_ok_def list_all_iff dest!: set_update_subset_insert [THEN subsetD])
qed

lemma repl_ok_upd_line:
  assumes "repl_ok m k r" and "i < m" and "rline_ok k l" and "LRUstackposition l = LRUstackposition (repl r ! i ! w)"
  shows "repl_ok m k (upd_line i w l r)"
  unfolding upd_line_def by (rule repl_ok_set [OF assms(1) lines_ok_upd [OF repl_ok_lines [OF assms(1,2)] assms(3,4)]])

lemma repl_ok_insertion:
  assumes "repl_ok m k r"
  shows "unat (ucast (repl_assoc r - 1) :: 8 word) = k - 1" and "unat (ucast (repl_assoc r - 2) :: 8 word) = k - 2"
proof -
  have k: "2 \<le> k" "k \<le> 256" "unat (repl_assoc r) = k" using assms by (simp_all add: repl_ok_def)
  then have "unat (repl_assoc r - 1) = k - 1" "unat (repl_assoc r - 2) = k - 2" by (simp_all add: unat_sub word_le_nat_alt)
  then show "unat (ucast (repl_assoc r - 1) :: 8 word) = k - 1" "unat (ucast (repl_assoc r - 2) :: 8 word) = k - 2"
    using k by (simp_all add: unsigned_ucast_eq take_bit_nat_eq_self)
qed

section \<open>Victims\<close>

lemma aged_ok:
  assumes "lines_ok k ls" and "\<forall>l \<in> set ls. unat (RRPV l) + d < k" and "k \<le> 256"
  shows "lines_ok k (map (age_by d) ls)"
proof -
  have "unat (RRPV (age_by d l)) < k" if "l \<in> set ls" for l
  proof -
    have "unat (of_nat d :: 8 word) \<le> d" by (simp add: unat_of_nat take_bit_nat_less_eq_self)
    then have "unat (RRPV l + of_nat d) \<le> unat (RRPV l) + d"
      by (simp add: unat_word_ariths)
    then show ?thesis using assms(2) that by (fastforce simp: age_by_def)
  qed
  moreover have "recency_ok (map (age_by d) ls) = recency_ok ls" by (rule recency_ok_cong) (simp add: age_by_def)
  ultimately show ?thesis using assms(1) by (auto simp: lines_ok_def list_all_iff rline_ok_def age_by_def)
qed

lemma rrip_victim_ok:
  assumes ok: "repl_ok m k r" and i: "i < m"
  shows "\<exists>w d. rrip_loop (repl_assoc r) (repl r ! i) = Some (w, map (age_by d) (repl r ! i)) \<and> w < k \<and>
    repl_ok m k (r\<lparr>repl := (repl r)[i := map (age_by d) (repl r ! i)]\<rparr>) \<and> unat (RRPV (repl r ! i ! w)) + d = k - 1 \<and>
    (\<forall>l \<in> set (repl r ! i). unat (RRPV l) + d < k) \<and> (\<forall>j < w. unat (RRPV (repl r ! i ! j)) < unat (RRPV (repl r ! i ! w)))"
proof -
  note ls = repl_ok_lines [OF assms]
  have k: "2 \<le> unat (repl_assoc r)" "unat (repl_assoc r) \<le> 256" "unat (repl_assoc r) = k" using ok by (simp_all add: repl_ok_def)
  have "length (repl r ! i) = k" "\<forall>l \<in> set (repl r ! i). unat (RRPV l) < unat (repl_assoc r)"
    using ls k(3) by (auto simp: lines_ok_def list_all_iff rline_ok_def)
  moreover from this have "repl r ! i \<noteq> []" using k by auto
  ultimately obtain w d where w: "rrip_loop (repl_assoc r) (repl r ! i) = Some (w, map (age_by d) (repl r ! i))" "w < k"
    "unat (RRPV (repl r ! i ! w)) + d = k - 1" "\<forall>l \<in> set (repl r ! i). unat (RRPV l) + d < k"
    "\<forall>j < w. unat (RRPV (repl r ! i ! j)) < unat (RRPV (repl r ! i ! w))"
    using rrip_loop_ok [OF k(1,2)] k(3) by metis
  have "repl_ok m k (r\<lparr>repl := (repl r)[i := map (age_by d) (repl r ! i)]\<rparr>)"
    using repl_ok_set [OF ok aged_ok [OF ls w(4)]] k by simp
  then show ?thesis using w by blast
qed

lemma weakest_loop_idle: "weakest_loop hst mx i ls (v, 0) = (v, 0)"
  by (induction ls arbitrary: i) (simp_all add: Let_def)

lemma expired_loop_way: "expired_loop hst i ls (v, mx, f) = (v', mx', f') \<Longrightarrow> v' = v \<or> v' < i + length ls"
  by (induction ls arbitrary: i v mx f) (fastforce simp: Let_def split: if_splits)+

lemma victim_ok:
  assumes ok: "repl_ok m k r" and i: "i < m"
  shows "\<exists>w r'. repl_GetVictimInSet i r = Some (Inr (w, r')) \<and> w < k \<and> repl_ok m k r'"
proof -
  have k: "2 \<le> k" "unat (repl_assoc r) = k" and pol: "replPolicy r \<noteq> CRC_REPL_other" using ok by (simp_all add: repl_ok_def)
  note ls = repl_ok_lines [OF ok i] and so = repl_ok_set_of [OF ok i]
  obtain w d where rrip: "rrip_loop (repl_assoc r) (repl r ! i) = Some (w, map (age_by d) (repl r ! i))" "w < k"
    "repl_ok m k (r\<lparr>repl := (repl r)[i := map (age_by d) (repl r ! i)]\<rparr>)" using rrip_victim_ok [OF assms] by blast
  show ?thesis
  proof (cases "replPolicy r")
    case CRC_REPL_LRU
    have "repl r ! i \<noteq> []" "length (repl r ! i) = k" "recency_ok (repl r ! i)" using ls k(1) by (auto simp: lines_ok_def)
    moreover from this have "last (lru_stack (repl r ! i)) < k"
      using lru_stack_nth [of "repl r ! i" "k - 1"] k(1) by (simp add: last_conv_nth lru_stack_def)
    ultimately show ?thesis using lru_victim_last [of "repl r ! i" "repl_assoc r"] CRC_REPL_LRU so ok k(2)
      by (simp add: repl_GetVictimInSet_def Get_LRU_Victim_def)
  next
    case CRC_REPL_RANDOM
    moreover have "repl_ok m k (snd (next_rand r))" using ok by (simp add: next_rand_def repl_ok_def)
    moreover have "repl_assoc r \<noteq> 0" using k by auto
    ultimately show ?thesis using k by (simp add: repl_GetVictimInSet_def Get_Random_Victim_def next_rand_def)
  next
    case CRC_REPL_DRRIP
    then show ?thesis using rrip so by (simp add: repl_GetVictimInSet_def Get_RRIP_Victim_def)
  next
    case CRC_REPL_SHIP
    then show ?thesis using rrip so by (simp add: repl_GetVictimInSet_def Get_SHIP_Victim_def)
  next
    case CRC_REPL_CONTESTANT
    have sig: "list_all (\<lambda>l. unat (Signature l) < 2 ^ 14) (repl r ! i)" using ls by (simp add: lines_ok_def list_all_iff rline_ok_def)
    obtain v mx f where e: "expired_loop (HST r) 0 (repl r ! i) (0, 0, False) = (v, mx, f)" by (cases "expired_loop (HST r) 0 (repl r ! i) (0, 0, False)") auto
    then have "v < k" using expired_loop_way [OF e] ls k(1) by (auto simp: lines_ok_def)
    then show ?thesis using CRC_REPL_CONTESTANT rrip so sig e ok
      by (cases f) (simp_all add: repl_GetVictimInSet_def Get_Contestant_Victim_def weakest_loop_idle)
  qed (use pol in simp)
qed

section \<open>Updates\<close>

lemma UpdateLRU_ok:
  assumes ok: "repl_ok m k r" and iw: "i < m" "w < k"
  shows "\<exists>r'. UpdateLRU i w r = Inr r' \<and> repl_ok m k r'"
proof -
  note ls = repl_ok_lines [OF ok iw(1)]
  have "list_all (rline_ok k) (lru_update w (repl r ! i))"
    using ls iw(2) by (auto simp: lines_ok_def list_all_length lru_update_def Let_def nth_list_update rline_ok_def)
  then have "lines_ok k (lru_update w (repl r ! i))" using ls iw(2) lru_update_ok [of "repl r ! i" w] by (simp add: lines_ok_def)
  then show ?thesis using repl_ok_line_at [OF assms] repl_ok_set [OF ok] by (simp add: UpdateLRU_def)
qed

lemma UpdateDRRIP_ok:
  assumes ok: "repl_ok m k r" and iw: "i < m" "w < k"
  shows "\<exists>r'. UpdateDRRIP i w hit r = Inr r' \<and> repl_ok m k r'"
proof -
  let ?l = "repl r ! i ! w"
  note ins = repl_ok_insertion [OF ok]
  have k: "2 \<le> k" "length (SDM_info r) = m" "PSEL_VAL r \<le> 1023" using ok by (simp_all add: repl_ok_def)
  have set: "repl_ok m k (upd_line i w (?l\<lparr>RRPV := x\<rparr>) r)" if "unat x < k" for x
    by (rule repl_ok_upd_line [OF ok iw(1)]) (use that repl_ok_line [OF assms] in \<open>simp_all add: rline_ok_def\<close>)
  have psel: "repl_ok m k (r'\<lparr>PSEL_VAL := x\<rparr>)" if "repl_ok m k r'" "x \<le> 1023" for r' x using that by (simp add: repl_ok_def)
  have rnd: "repl_ok m k (upd_line i w l (r\<lparr>rand_nums := f\<rparr>))" if "repl_ok m k (upd_line i w l r)" for l f using that by (simp add: repl_ok_def upd_line_def)
  have near: "unat (ucast (repl_assoc r - 2) :: 8 word) < k" and far: "unat (ucast (repl_assoc r - 1) :: 8 word) < k" using ins k(1) by simp_all
  have up: "(if PSEL_VAL r < 1023 then PSEL_VAL r + 1 else PSEL_VAL r) \<le> 1023" using k(3) by (simp add: inc_le)
  have down: "(if PSEL_VAL r > 0 then PSEL_VAL r - 1 else PSEL_VAL r) \<le> 1023"
    using k(3) by (auto simp: word_le_nat_alt unat_sub word_less_nat_alt)
  show ?thesis
    using repl_ok_line_at [OF assms] iw(1) k(2) set [of 0] k(1) psel [OF set [OF far] up] psel [OF set [OF near] down] set [OF far] rnd [OF set [OF far]] rnd [OF set [OF near]]
    by (auto simp: UpdateDRRIP_def Let_def next_rand_def split: SDMType.splits)
qed

lemma UpdateSHIP_ok:
  assumes ok: "repl_ok m k r" and iw: "i < m" "w < k" and sig: "unat sig < 2 ^ 14"
  shows "\<exists>r'. UpdateSHIP i w hit sig r = Inr r' \<and> repl_ok m k r'"
proof -
  let ?l = "repl r ! i ! w"
  have k: "2 \<le> k" and shct: "\<And>j. SHCT r j \<le> 3" using ok by (simp_all add: repl_ok_def)
  have old: "unat (Signature ?l) < 2 ^ 14" using repl_ok_line [OF ok iw] by (simp add: rline_ok_def)
  have new: "unat (ucast sig :: 16 word) < 2 ^ 14" using sig by (simp add: unsigned_ucast_eq take_bit_nat_eq_self)
  have set: "repl_ok m k (upd_line i w (?l\<lparr>RRPV := x, Outcome := b\<rparr>) r)" "repl_ok m k (upd_line i w (?l\<lparr>RRPV := x, Outcome := b, Signature := ucast sig\<rparr>) r)"
    if "unat x < k" for x b
    by (rule repl_ok_upd_line [OF ok iw(1)]; use that old new in \<open>simp add: rline_ok_def\<close>)+
  have tab: "repl_ok m k (r'\<lparr>SHCT := t\<rparr>)" if "repl_ok m k r'" "\<And>j. t j \<le> 3" for r' t using that by (simp add: repl_ok_def)
  have near: "unat (ucast (repl_assoc r - 2) :: 8 word) < k" and far: "unat (ucast (repl_assoc r - 1) :: 8 word) < k" using repl_ok_insertion [OF ok] k by simp_all
  have up: "((SHCT r)(j := SHCT r j + 1)) j' \<le> 3" if "SHCT r j < 3" for j j' using that shct [of j'] by (simp add: inc_le)
  have down: "((SHCT r)(j := SHCT r j - 1)) j' \<le> 3" if "SHCT r j > 0" for j j'
    using that shct [of j'] shct [of j] by (auto simp: word_le_nat_alt unat_sub word_less_nat_alt)
  show ?thesis
  proof (cases hit)
    case True
    have "repl_ok m k ((upd_line i w (?l\<lparr>RRPV := 0, Outcome := True\<rparr>) r)\<lparr>SHCT :=
        (if SHCT r (unat (Signature ?l)) < 3 then (SHCT r)(unat (Signature ?l) := SHCT r (unat (Signature ?l)) + 1) else SHCT r)\<rparr>)"
      by (rule tab [OF set(1)]) (use k up shct in simp_all)
    then show ?thesis using repl_ok_line_at [OF ok iw] True old by (simp add: UpdateSHIP_def Let_def)
  next
    case False
    define t where "t = (if \<not> Outcome ?l \<and> SHCT r (unat (Signature ?l)) > 0 then (SHCT r)(unat (Signature ?l) := SHCT r (unat (Signature ?l)) - 1) else SHCT r)"
    have t: "t j \<le> 3" for j unfolding t_def using down shct by simp
    have "repl_ok m k ((upd_line i w (?l\<lparr>RRPV := (if t (unat sig) = 0 then ucast (repl_assoc r - 1) else ucast (repl_assoc r - 2)),
        Outcome := False, Signature := ucast sig\<rparr>) r)\<lparr>SHCT := t\<rparr>)"
      by (rule tab [OF set(2) t]) (use near far in simp)
    then show ?thesis using repl_ok_line_at [OF ok iw] False old sig by (simp add: UpdateSHIP_def Let_def t_def)
  qed
qed

lemma my_tables_ok:
  assumes "\<And>j. Signature_Strength (hst j) \<le> 3"
  shows "Signature_Strength (my_hit sig hst j) \<le> 3" and "Signature_Strength (my_evict sig b hst j) \<le> 3" and "Signature_Strength (my_insert sig hst j) \<le> 3"
proof -
  show "Signature_Strength (my_hit sig hst j) \<le> 3" using assms [of j] by (auto simp: my_hit_def Let_def inc_le)
  show "Signature_Strength (my_evict sig b hst j) \<le> 3" using assms [of j]
    by (auto simp: my_evict_def Let_def word_le_nat_alt unat_sub word_less_nat_alt)
  show "Signature_Strength (my_insert sig hst j) \<le> 3" using assms [of j] by (auto simp: my_insert_def)
qed

lemma UpdateMyPolicy_ok:
  assumes ok: "repl_ok m k r" and iw: "i < m" "w < k" and sig: "unat sig < 2 ^ 14"
  shows "\<exists>r'. UpdateMyPolicy i w hit sig r = Inr r' \<and> repl_ok m k r'"
proof -
  let ?l = "repl r ! i ! w"
  have k: "2 \<le> k" and hst: "\<And>j. Signature_Strength (HST r j) \<le> 3" using ok by (simp_all add: repl_ok_def)
  have old: "unat (Signature ?l) < 2 ^ 14" using repl_ok_line [OF ok iw] by (simp add: rline_ok_def)
  have new: "unat (ucast sig :: 16 word) < 2 ^ 14" using sig by (simp add: unsigned_ucast_eq take_bit_nat_eq_self)
  have set: "repl_ok m k (upd_line i w (?l\<lparr>RRPV := x, Outcome := b\<rparr>) r)" "repl_ok m k (upd_line i w (?l\<lparr>RRPV := x, Outcome := b, Signature := ucast sig\<rparr>) r)"
    if "unat x < k" for x b
    by (rule repl_ok_upd_line [OF ok iw(1)]; use that old new in \<open>simp add: rline_ok_def\<close>)+
  have tab: "repl_ok m k (r'\<lparr>HST := t\<rparr>)" if "repl_ok m k r'" "\<And>j. Signature_Strength (t j) \<le> 3" for r' t using that by (simp add: repl_ok_def)
  have near: "unat (ucast (repl_assoc r - 2) :: 8 word) < k" and far: "unat (ucast (repl_assoc r - 1) :: 8 word) < k" using repl_ok_insertion [OF ok] k by simp_all
  show ?thesis
  proof (cases hit)
    case True
    have "repl_ok m k ((upd_line i w (?l\<lparr>RRPV := 0, Outcome := True\<rparr>) r)\<lparr>HST := my_hit (unat (Signature ?l)) (HST r)\<rparr>)"
      by (rule tab [OF set(1) my_tables_ok(1) [OF hst]]) (use k in simp)
    from UpdateLRU_ok [OF this iw] show ?thesis using repl_ok_line_at [OF ok iw] True old by (simp add: UpdateMyPolicy_def Let_def)
  next
    case False
    let ?t = "my_evict (unat (Signature ?l)) (Outcome ?l) (HST r)"
    have "repl_ok m k ((upd_line i w (?l\<lparr>RRPV := (if Signature_Strength (?t (unat sig)) = 0 then ucast (repl_assoc r - 1) else ucast (repl_assoc r - 2)),
        Outcome := False, Signature := ucast sig\<rparr>) r)\<lparr>HST := my_insert (unat sig) ?t\<rparr>)"
      by (rule tab [OF set(2) my_tables_ok(3) [OF my_tables_ok(2) [OF hst]]]) (use near far in simp)
    from UpdateLRU_ok [OF this iw] show ?thesis using repl_ok_line_at [OF ok iw] False old sig by (simp add: UpdateMyPolicy_def Let_def)
  qed
qed

lemma signature_bound:
  assumes "repl_ok m k r"
  shows "unat (ucast (x AND ucast (SigHashMask r) :: 64 word) :: 32 word) < 2 ^ 14"
proof -
  have m: "SigHashMask r = Bit_Operations.mask 14" using assms by (simp add: repl_ok_def mask_eq_exp_minus_1 push_bit_eq_mult)
  have "x AND ucast (SigHashMask r) = take_bit 14 x" unfolding m by (rule bit_word_eqI) (auto simp: bit_simps)
  moreover have "unat (ucast (take_bit 14 x :: 64 word) :: 32 word) = take_bit 14 (unat x)"
    by (simp add: unsigned_ucast_eq unsigned_take_bit_eq)
  ultimately show ?thesis by (metis take_bit_nat_less_exp)
qed

lemma update_ok:
  assumes ok: "repl_ok m k r" and iw: "i < m" "w < k"
  shows "\<exists>r'. UpdateReplacementState i w t PC hit r = Inr r' \<and> repl_ok m k r'"
  using UpdateLRU_ok [OF assms] UpdateDRRIP_ok [OF assms, of hit] UpdateSHIP_ok [OF assms signature_bound [OF ok, of PC], of hit]
    UpdateMyPolicy_ok [OF assms signature_bound [OF ok, of t], of hit] ok
  by (cases "replPolicy r") (simp_all add: UpdateReplacementState_def)

end
