(* ===== verification/Llc_Access.thy ===== *)
theory Llc_Access
  imports Llc_Replacement
begin

text \<open>
  What the cache of the simulator does with any replacement policy that keeps its contract: the locale \<open>replacement\<close> states what
  \<open>crc_cache.cpp\<close> relies on, and the five policies of \<open>replacement_state.cpp\<close> provide it.
\<close>

section \<open>The binary logarithm\<close>

lemma log_step_ok:
  assumes "m = push_bit k (mask k)" and "2 * k \<le> 32" and "unat n < 2 ^ (2 * k)" and "0 < unat n"
  shows "\<exists>n' d. log_step m k (n, p) = (n', p + int d) \<and> unat n' = unat n div 2 ^ d \<and> 0 < unat n' \<and> unat n' < 2 ^ k"
proof -
  have m: "unat m = push_bit k (mask k)"
    by (rule bit_eqI) (use assms(1,2) in \<open>auto simp: bit_simps\<close>)
  have div: "unat n div 2 ^ k < 2 ^ k"
    using assms(3) by (simp add: less_mult_imp_div_less mult_2 power_add)
  have "unat (n AND m) = unat n AND push_bit k (mask k)" by (simp add: unsigned_and_eq m)
  also have "\<dots> = push_bit k (take_bit k (drop_bit k (unat n)))" by (rule bit_eqI) (auto simp: bit_simps)
  also have "\<dots> = 2 ^ k * (unat n div 2 ^ k)" using div by (simp add: push_bit_eq_mult drop_bit_eq_div take_bit_nat_eq_self)
  finally have z: "n AND m = 0 \<longleftrightarrow> unat n < 2 ^ k" by (simp add: unat_eq_0 [symmetric] div_eq_0_iff)
  show ?thesis
  proof (cases "unat n < 2 ^ k")
    case True
    then show ?thesis using z assms(4) by (intro exI [of _ n] exI [of _ 0]) (simp add: log_step_def)
  next
    case False
    have "0 < unat n div 2 ^ k" using False by (simp add: div_greater_zero_iff)
    moreover have "unat (drop_bit k n) = drop_bit k (unat n)" by (rule bit_eqI) (auto simp: bit_simps)
    then have "unat (drop_bit k n) = unat n div 2 ^ k" by (simp only: drop_bit_eq_div)
    ultimately show ?thesis using z False div by (intro exI [of _ "drop_bit k n"] exI [of _ k]) (simp add: log_step_def)
  qed
qed

lemma CRC_FloorLog2_bounds:
  assumes "n \<noteq> 0"
  shows "\<exists>p. CRC_FloorLog2 n = int p \<and> 2 ^ p \<le> unat n \<and> unat n < 2 ^ (p + 1)"
proof -
  have n: "unat n < 2 ^ (2 * 16)" "0 < unat n" using unsigned_less [of n] assms by (simp_all add: unat_gt_0)
  obtain n1 d1 where 1: "log_step 0xffff0000 16 (n, 0) = (n1, 0 + int d1)" "unat n1 = unat n div 2 ^ d1" "0 < unat n1" "unat n1 < 2 ^ 16"
    using log_step_ok [of "0xffff0000" 16 n 0] n by (auto simp: mask_eq_exp_minus_1 push_bit_eq_mult)
  obtain n2 d2 where 2: "log_step 0xff00 8 (n1, 0 + int d1) = (n2, 0 + int d1 + int d2)" "unat n2 = unat n1 div 2 ^ d2" "0 < unat n2" "unat n2 < 2 ^ 8"
    using log_step_ok [of "0xff00" 8 n1 "0 + int d1"] 1(3,4) by (auto simp: mask_eq_exp_minus_1 push_bit_eq_mult)
  obtain n3 d3 where 3: "log_step 0xf0 4 (n2, 0 + int d1 + int d2) = (n3, 0 + int d1 + int d2 + int d3)" "unat n3 = unat n2 div 2 ^ d3" "0 < unat n3" "unat n3 < 2 ^ 4"
    using log_step_ok [of "0xf0" 4 n2 "0 + int d1 + int d2"] 2(3,4) by (auto simp: mask_eq_exp_minus_1 push_bit_eq_mult)
  obtain n4 d4 where 4: "log_step 0xc 2 (n3, 0 + int d1 + int d2 + int d3) = (n4, 0 + int d1 + int d2 + int d3 + int d4)"
    "unat n4 = unat n3 div 2 ^ d4" "0 < unat n4" "unat n4 < 2 ^ 2"
    using log_step_ok [of "0xc" 2 n3 "0 + int d1 + int d2 + int d3"] 3(3,4) by (auto simp: mask_eq_exp_minus_1 push_bit_eq_mult)
  let ?p = "d1 + d2 + d3 + d4"
  have q: "unat n4 = unat n div 2 ^ ?p" by (simp add: 1(2) 2(2) 3(2) 4(2) power_add div_mult2_eq mult.commute mult.left_commute)
  have "n4 = 1 \<or> n4 = 2 \<or> n4 = 3" using 4(3,4) by (simp add: word_unat_eq_iff) arith
  then have r: "CRC_FloorLog2 n = int (if unat n4 = 1 then ?p else ?p + 1)"
    using assms 1(1) 2(1) 3(1) 4(1) by (auto simp: CRC_FloorLog2_def)
  have lo: "unat n4 * 2 ^ ?p \<le> unat n" unfolding q by simp
  have hi: "unat n < (unat n4 + 1) * 2 ^ ?p" unfolding q using dividend_less_div_times [of "2 ^ ?p" "unat n"] by (simp add: add.commute)
  have "2 \<le> unat n4 \<or> unat n4 = 1" "unat n4 \<le> 3" using 4(3,4) by auto
  then show ?thesis
  proof (elim disjE)
    assume "2 \<le> unat n4"
    then have "2 * 2 ^ ?p \<le> unat n4 * 2 ^ ?p" "(unat n4 + 1) * 2 ^ ?p \<le> 4 * 2 ^ ?p" using \<open>unat n4 \<le> 3\<close> by (simp_all add: mult_le_mono1)
    then have "2 * 2 ^ ?p \<le> unat n" "unat n < 4 * 2 ^ ?p" using lo hi by linarith+
    then show ?thesis using r \<open>2 \<le> unat n4\<close> by (intro exI [of _ "?p + 1"]) auto
  next
    assume "unat n4 = 1"
    then show ?thesis using r lo hi by (intro exI [of _ ?p]) auto
  qed
qed

section \<open>Geometry\<close>

definition geometry :: "CRC_CACHE \<Rightarrow> bool" where
  "geometry c \<longleftrightarrow> numsets c \<noteq> 0 \<and> linesize c \<noteq> 0 \<and> lineShift c = word_of_int (CRC_FloorLog2 (linesize c)) \<and>
     indexShift c = word_of_int (CRC_FloorLog2 (numsets c)) \<and> indexMask c = push_bit (unat (indexShift c)) 1 - 1"

lemma geometry_shift:
  assumes "geometry c"
  shows "unat (indexShift c) < 32" and "2 ^ unat (indexShift c) \<le> unat (numsets c)" and "indexMask c = mask (unat (indexShift c))"
proof -
  obtain p where p: "CRC_FloorLog2 (numsets c) = int p" "2 ^ p \<le> unat (numsets c)" using CRC_FloorLog2_bounds [of "numsets c"] assms by (auto simp: geometry_def)
  have "(2 :: nat) ^ p < 2 ^ 32" using le_less_trans [OF p(2) unsigned_less] by simp
  then have "p < 32" by (rule power_less_imp_less_exp [rotated]) simp
  moreover have "indexShift c = word_of_nat p" using assms p(1) by (simp add: geometry_def)
  ultimately have "unat (indexShift c) = p" by (simp add: unat_of_nat take_bit_nat_eq_self less_trans [of p 32])
  then show "unat (indexShift c) < 32" "2 ^ unat (indexShift c) \<le> unat (numsets c)" using \<open>p < 32\<close> p(2) by simp_all
  show "indexMask c = mask (unat (indexShift c))" using assms by (simp add: geometry_def mask_eq_exp_minus_1 push_bit_eq_mult)
qed

lemma set_index_word:
  assumes "geometry c"
  shows "unat (GetSetIndex c a) = take_bit (unat (indexShift c)) (unat (drop_bit (unat (lineShift c)) a))"
proof -
  have "drop_bit (unat (lineShift c)) a AND ucast (indexMask c) = take_bit (unat (indexShift c)) (drop_bit (unat (lineShift c)) a)"
    unfolding geometry_shift(3) [OF assms] using geometry_shift(1) [OF assms] by (intro bit_word_eqI) (auto simp: bit_simps)
  then show ?thesis unfolding GetSetIndex_def using geometry_shift(1) [OF assms] by (intro bit_eqI) (auto simp: bit_simps)
qed

lemma set_index_bound: "geometry c \<Longrightarrow> unat (GetSetIndex c a) < unat (numsets c)"
  unfolding set_index_word using geometry_shift(2) [of c] take_bit_nat_less_exp less_le_trans by blast

text \<open>The set and the tag identify a line: two addresses have the same set index and the same tag exactly if they are in the same
  line, also when the number of sets is not a power of two.\<close>

theorem set_and_tag_identify_line:
  assumes "geometry c"
  shows "GetSetIndex c a = GetSetIndex c b \<and> GetTag c a = GetTag c b \<longleftrightarrow>
    drop_bit (unat (lineShift c)) a = drop_bit (unat (lineShift c)) b"
proof -
  let ?k = "unat (indexShift c)"
  have "x = y" if t: "take_bit ?k (unat x) = take_bit ?k (unat y)" and d: "drop_bit ?k x = drop_bit ?k y" for x y :: "64 word"
  proof (rule bit_word_eqI)
    fix n assume n: "n < LENGTH(64)"
    show "bit x n \<longleftrightarrow> bit y n"
    proof (cases "n < ?k")
      case True
      then show ?thesis using arg_cong [OF t, of "\<lambda>z. bit z n"] n by (simp add: bit_simps)
    next
      case False
      then show ?thesis using arg_cong [OF d, of "\<lambda>z. bit z (n - ?k)"] by (simp add: bit_simps)
    qed
  qed
  then show ?thesis using set_index_word [OF assms, of a] set_index_word [OF assms, of b] unfolding GetTag_def
    by (metis GetSetIndex_def)
qed

section \<open>The contract of a replacement policy\<close>

locale replacement =
  fixes ok :: "nat \<Rightarrow> nat \<Rightarrow> repl_state \<Rightarrow> bool"
  assumes victim_named: "ok m k r \<Longrightarrow> i < m \<Longrightarrow> \<exists>w r'. repl_GetVictimInSet i r = Some (Inr (w, r')) \<and> w < k \<and> ok m k r'"
    and update_returns: "ok m k r \<Longrightarrow> i < m \<Longrightarrow> w < k \<Longrightarrow> \<exists>r'. UpdateReplacementState i w t PC hit r = Inr r' \<and> ok m k r'"
    and timer_returns: "ok m k r \<Longrightarrow> ok m k (IncrementTimer r)"

lemma timer_ok: "repl_ok m k r \<Longrightarrow> repl_ok m k (IncrementTimer r)"
  by (simp add: IncrementTimer_def repl_ok_def)

interpretation crc: replacement repl_ok
  by unfold_locales (rule victim_ok update_ok timer_ok; assumption)+

section \<open>Accesses\<close>

definition tags_ok :: "LINE_STATE list \<Rightarrow> bool" where
  "tags_ok ls \<longleftrightarrow> (\<forall>i < length ls. \<forall>j < length ls. valid (ls ! i) \<and> valid (ls ! j) \<and> tag (ls ! i) = tag (ls ! j) \<longrightarrow> i = j)"

definition llc_ok :: "(nat \<Rightarrow> nat \<Rightarrow> repl_state \<Rightarrow> bool) \<Rightarrow> CRC_CACHE \<Rightarrow> bool" where
  "llc_ok ok c \<longleftrightarrow> geometry c \<and> length (cache c) = unat (numsets c) \<and> (\<forall>ls \<in> set (cache c). length ls = unat (assoc c) \<and> tags_ok ls) \<and>
     ok (unat (numsets c)) (unat (assoc c)) (cacheReplState c) \<and> (\<forall>a t. hits c a t + misses c a t = lookups c a t)"

text \<open>The lines in the cache, by set and tag.\<close>

definition resident :: "CRC_CACHE \<Rightarrow> (nat \<times> 64 word) set" where
  "resident c = {(i, tag l) |i l. i < length (cache c) \<and> l \<in> set (cache c ! i) \<and> valid l}"

definition line_of :: "CRC_CACHE \<Rightarrow> 64 word \<Rightarrow> nat \<times> 64 word" where
  "line_of c a = (unat (GetSetIndex c a), GetTag c a)"

lemma resident_lookup:
  "i < length (cache c) \<Longrightarrow> (i, t) \<in> resident c \<longleftrightarrow> LookupSet i t c \<noteq> None"
  using first_way_None [of "\<lambda>l. valid l \<and> tag l = t" "cache c ! i"] by (auto simp: resident_def LookupSet_def)

lemma tags_ok_upd:
  assumes "tags_ok ls" and "w < length ls" and "\<And>j. j < length ls \<Longrightarrow> j \<noteq> w \<Longrightarrow> valid (ls ! j) \<Longrightarrow> tag (ls ! j) \<noteq> tag l"
  shows "tags_ok (ls[w := l])"
  unfolding tags_ok_def
proof (intro allI impI, elim conjE)
  fix i j assume *: "i < length (ls[w := l])" "j < length (ls[w := l])" "valid (ls[w := l] ! i)" "valid (ls[w := l] ! j)" "tag (ls[w := l] ! i) = tag (ls[w := l] ! j)"
  then show "i = j" using assms(1) assms(3) [of i] assms(3) [of j] by (cases "i = w"; cases "j = w") (auto simp: tags_ok_def)
qed

lemma resident_set_line:
  assumes i: "i < length (cache c)" and w: "w < length (cache c ! i)" and l: "valid l"
  shows "resident (set_line i w l c) \<subseteq> insert (i, tag l) (resident c)" and "(i, tag l) \<in> resident (set_line i w l c)"
    and "resident c \<subseteq> insert (i, tag (cache c ! i ! w)) (resident (set_line i w l c))"
    and "\<not> valid (cache c ! i ! w) \<or> tag l = tag (cache c ! i ! w) \<Longrightarrow> resident c \<subseteq> resident (set_line i w l c)"
proof -
  let ?c = "cache (set_line i w l c)"
  have c: "?c ! j = (if j = i then (cache c ! i)[w := l] else cache c ! j)" "length ?c = length (cache c)" for j
    using i by (simp_all add: set_line_def)
  have res: "(j, t) \<in> resident d \<longleftrightarrow> j < length (cache d) \<and> (\<exists>v < length (cache d ! j). valid (cache d ! j ! v) \<and> tag (cache d ! j ! v) = t)" for j t d
    by (auto simp: resident_def in_set_conv_nth)
  show "resident (set_line i w l c) \<subseteq> insert (i, tag l) (resident c)"
  proof (rule subrelI)
    fix j t assume "(j, t) \<in> resident (set_line i w l c)"
    then obtain v where v: "j < length (cache c)" "v < length (?c ! j)" "valid (?c ! j ! v)" "tag (?c ! j ! v) = t" using c(2) by (auto simp: res)
    show "(j, t) \<in> insert (i, tag l) (resident c)"
      using v by (cases "j = i"; cases "v = w") (auto simp: res c)
  qed
  show "(i, tag l) \<in> resident (set_line i w l c)" using i w l by (auto simp: res c)
  have keep: "(j, tag (cache c ! j ! v)) \<in> resident (set_line i w l c)"
    if "j < length (cache c)" "v < length (cache c ! j)" "valid (cache c ! j ! v)" "j \<noteq> i \<or> v \<noteq> w" for j v
    using that by (auto simp: res c intro!: exI [of _ v])
  then show "resident c \<subseteq> insert (i, tag (cache c ! i ! w)) (resident (set_line i w l c))" by (fastforce simp: res)
  show "resident c \<subseteq> resident (set_line i w l c)" if "\<not> valid (cache c ! i ! w) \<or> tag l = tag (cache c ! i ! w)"
    using keep that \<open>(i, tag l) \<in> resident (set_line i w l c)\<close> by (fastforce simp: res)
qed

context replacement
begin

text \<open>The two branches of an access to a line of set \<open>i\<close> with tag \<open>t\<close>.\<close>

lemma fill_miss_ok:
  assumes dims: "i < length (cache c)" "length (cache c) = unat (numsets c)" "\<forall>ls \<in> set (cache c). length ls = unat (assoc c) \<and> tags_ok ls"
    and r: "ok (unat (numsets c)) (unat (assoc c)) (cacheReplState c)" and miss: "LookupSet i t c = None"
  shows "\<exists>w r l. fill_miss i t tid PC a c = Some (Inr (set_line i w l (c\<lparr>cacheReplState := r, misses := bump a tid (misses c)\<rparr>))) \<and>
    ok (unat (numsets c)) (unat (assoc c)) r \<and> w < length (cache c ! i) \<and> valid l \<and> tag l = t \<and> tags_ok ((cache c ! i)[w := l]) \<and>
    ((\<exists>x \<in> set (cache c ! i). \<not> valid x) \<longrightarrow> \<not> valid (cache c ! i ! w))"
proof -
  have ls: "length (cache c ! i) = unat (assoc c)" "tags_ok (cache c ! i)" using dims by auto
  obtain w r where w: "GetVictimInSet i c = Some (Inr (w, r))" "w < unat (assoc c)" "ok (unat (numsets c)) (unat (assoc c)) r"
    "(\<exists>x \<in> set (cache c ! i). \<not> valid x) \<longrightarrow> \<not> valid (cache c ! i ! w)"
  proof (cases "first_way (\<lambda>l. \<not> valid l) (cache c ! i)")
    case None
    obtain w r where "repl_GetVictimInSet i (cacheReplState c) = Some (Inr (w, r))" "w < unat (assoc c)" "ok (unat (numsets c)) (unat (assoc c)) r"
      using victim_named [OF r, of i] dims(1,2) by auto
    then show ?thesis using that [of w r] None by (simp add: GetVictimInSet_def first_way_None)
  next
    case (Some w)
    then show ?thesis using that first_way_Some [OF Some] ls(1) r by (simp add: GetVictimInSet_def)
  qed
  obtain r' where r': "UpdateReplacementState i w t PC False r = Inr r'" "ok (unat (numsets c)) (unat (assoc c)) r'"
    using update_returns [OF w(3) _ w(2)] dims(1,2) by metis
  let ?l = "\<lparr>valid = True, tag = t, dirty = IS_STORE a, sharing_dir = sharer tid\<rparr>"
  have "tags_ok ((cache c ! i)[w := ?l])"
  proof (rule tags_ok_upd [OF ls(2)])
    show "w < length (cache c ! i)" using w(2) ls(1) by simp
    fix j assume "j < length (cache c ! i)" "valid (cache c ! i ! j)"
    then show "tag (cache c ! i ! j) \<noteq> tag ?l" using miss by (auto simp: LookupSet_def first_way_None)
  qed
  then show ?thesis using w r' ls(1) by (intro exI [of _ w] exI [of _ r'] exI [of _ ?l]) (simp add: fill_miss_def)
qed

lemma use_hit_ok:
  assumes dims: "i < length (cache c)" "length (cache c) = unat (numsets c)" "\<forall>ls \<in> set (cache c). length ls = unat (assoc c) \<and> tags_ok ls"
    and r: "ok (unat (numsets c)) (unat (assoc c)) (cacheReplState c)" and hit: "LookupSet i t c = Some w"
  shows "\<exists>r l. use_hit i w tid PC a c = Inr (set_line i w l (c\<lparr>cacheReplState := r, hits := bump a tid (hits c)\<rparr>)) \<and>
    ok (unat (numsets c)) (unat (assoc c)) r \<and> w < length (cache c ! i) \<and> valid l \<and> tag l = t \<and> tag (cache c ! i ! w) = t \<and> tags_ok ((cache c ! i)[w := l])"
proof -
  have ls: "length (cache c ! i) = unat (assoc c)" "tags_ok (cache c ! i)" using dims by auto
  let ?l = "cache c ! i ! w"
  have w: "w < length (cache c ! i)" "valid ?l" "tag ?l = t" using first_way_Some [OF hit [unfolded LookupSet_def]] by auto
  obtain r' where r': "(if a \<noteq> ACCESS_WRITEBACK then UpdateReplacementState i w (tag ?l) PC True (cacheReplState c) else Inr (cacheReplState c)) = Inr r'"
    "ok (unat (numsets c)) (unat (assoc c)) r'"
    using update_returns [OF r, of i w t PC True] r dims(1,2) ls(1) w by (cases "a = ACCESS_WRITEBACK") auto
  let ?m = "?l\<lparr>dirty := dirty ?l \<or> IS_STORE a, sharing_dir := sharing_dir ?l OR sharer tid\<rparr>"
  have "tags_ok ((cache c ! i)[w := ?m])"
    by (rule tags_ok_upd [OF ls(2) w(1)]) (use ls(2) w in \<open>auto simp: tags_ok_def\<close>)
  then show ?thesis using w r' by (intro exI [of _ r'] exI [of _ ?m]) (simp add: use_hit_def Let_def)
qed

lemma llc_ok_set_line:
  assumes c: "geometry c" "length (cache c) = unat (numsets c)" "\<forall>ls \<in> set (cache c). length ls = unat (assoc c) \<and> tags_ok ls"
    and new: "i < length (cache c)" "tags_ok ((cache c ! i)[w := l])" "ok (unat (numsets c)) (unat (assoc c)) (cacheReplState c)"
    and counts: "\<forall>a t. hits c a t + misses c a t = lookups c a t"
  shows "llc_ok ok (set_line i w l c)"
  using assms by (auto simp: llc_ok_def set_line_def geometry_def dest!: set_update_subset_insert [THEN subsetD])

lemma counts_bump:
  assumes "\<forall>a t. h a t + m a t = n a t"
  shows "\<forall>x y. bump a t h x y + m x y = bump a t n x y" "\<forall>x y. h x y + bump a t m x y = bump a t n x y"
  using assms by (auto simp: bump_def algebra_simps simp flip: assms [rule_format])

lemma access_ok:
  assumes ok: "llc_ok ok c" and tid: "tid < unat (threads c)"
  shows "\<exists>hit c'. LookupAndFillCache tid PC p a c = Some (Inr (hit, c')) \<and> llc_ok ok c' \<and> hit = (line_of c p \<in> resident c) \<and>
    line_of c p \<in> resident c' \<and> resident c' \<subseteq> insert (line_of c p) (resident c) \<and>
    (\<exists>v. resident c \<subseteq> insert (fst (line_of c p), v) (resident c')) \<and>
    (hit \<or> (\<exists>l \<in> set (cache c ! fst (line_of c p)). \<not> valid l) \<longrightarrow> resident c \<subseteq> resident c') \<and>
    threads c' = threads c \<and> lookups c' = bump a tid (lookups c) \<and> (\<forall>q. line_of c' q = line_of c q)"
proof -
  let ?d = "c\<lparr>mytimer := mytimer c + 1, cacheReplState := IncrementTimer (cacheReplState c), lookups := bump a tid (lookups c)\<rparr>"
  let ?i = "unat (GetSetIndex c p)" and ?t = "GetTag c p"
  have g: "geometry c" and dims: "length (cache c) = unat (numsets c)" "\<forall>ls \<in> set (cache c). length ls = unat (assoc c) \<and> tags_ok ls"
    and r: "ok (unat (numsets c)) (unat (assoc c)) (cacheReplState c)" and counts: "\<forall>a t. hits c a t + misses c a t = lookups c a t"
    using ok by (auto simp: llc_ok_def)
  have i: "?i < length (cache c)" using set_index_bound [OF g] dims(1) by simp
  have d: "GetSetIndex ?d p = GetSetIndex c p" "GetTag ?d p = ?t" "geometry ?d" "LookupSet ?i ?t ?d = LookupSet ?i ?t c"
    using g by (simp_all add: GetSetIndex_def GetTag_def geometry_def LookupSet_def)
  have rd: "ok (unat (numsets ?d)) (unat (assoc ?d)) (cacheReplState ?d)" using timer_returns [OF r] by simp
  show ?thesis
  proof (cases "LookupSet ?i ?t c")
    case None
    obtain w x l where f: "fill_miss ?i ?t tid PC a ?d = Some (Inr (set_line ?i w l (?d\<lparr>cacheReplState := x, misses := bump a tid (misses c)\<rparr>)))"
      "ok (unat (numsets c)) (unat (assoc c)) x" "w < length (cache c ! ?i)" "valid l" "tag l = ?t" "tags_ok ((cache c ! ?i)[w := l])"
      "(\<exists>y \<in> set (cache c ! ?i). \<not> valid y) \<longrightarrow> \<not> valid (cache c ! ?i ! w)"
      using fill_miss_ok [of ?i ?d ?t tid PC a] i dims rd d(4) None by auto
    let ?e = "?d\<lparr>cacheReplState := x, misses := bump a tid (misses c)\<rparr>"
    have "llc_ok ok (set_line ?i w l ?e)"
      by (rule llc_ok_set_line) (use d(3) dims i f(2,6) counts_bump(2) [OF counts] in \<open>simp_all add: geometry_def\<close>)
    moreover have "resident (set_line ?i w l ?e) = resident (set_line ?i w l c)" by (simp add: set_line_def resident_def)
    moreover have "LookupAndFillCache tid PC p a c = Some (Inr (False, set_line ?i w l ?e))"
      using f(1) None i tid d by (simp add: LookupAndFillCache_def Let_def)
    ultimately show ?thesis
      using resident_set_line [OF i f(3,4)] f(5,7) None resident_lookup [OF i, of ?t]
      by (intro exI [of _ False] exI [of _ "set_line ?i w l ?e"]) (auto simp: line_of_def set_line_def GetSetIndex_def GetTag_def)
  next
    case (Some w)
    obtain x l where f: "use_hit ?i w tid PC a ?d = Inr (set_line ?i w l (?d\<lparr>cacheReplState := x, hits := bump a tid (hits c)\<rparr>))"
      "ok (unat (numsets c)) (unat (assoc c)) x" "w < length (cache c ! ?i)" "valid l" "tag l = ?t" "tag (cache c ! ?i ! w) = ?t"
      "tags_ok ((cache c ! ?i)[w := l])"
      using use_hit_ok [of ?i ?d ?t w tid PC a] i dims rd d(4) Some by auto
    let ?e = "?d\<lparr>cacheReplState := x, hits := bump a tid (hits c)\<rparr>"
    have "llc_ok ok (set_line ?i w l ?e)"
      by (rule llc_ok_set_line) (use d(3) dims i f(2,7) counts_bump(1) [OF counts] in \<open>simp_all add: geometry_def\<close>)
    moreover have "resident (set_line ?i w l ?e) = resident (set_line ?i w l c)" by (simp add: set_line_def resident_def)
    moreover have "LookupAndFillCache tid PC p a c = Some (Inr (True, set_line ?i w l ?e))"
      using f(1) Some i tid d by (simp add: LookupAndFillCache_def Let_def)
    ultimately show ?thesis
      using resident_set_line [OF i f(3,4)] f(5,6) Some resident_lookup [OF i, of ?t]
      by (intro exI [of _ True] exI [of _ "set_line ?i w l ?e"]) (auto simp: line_of_def set_line_def GetSetIndex_def GetTag_def)
  qed
qed

end

end
