(* ===== verification/Llc_Run.thy ===== *)
theory Llc_Run
  imports Llc_Access
begin

text \<open>
  What the cache simulator guarantees for every sequence of accesses, and what its replacement policies choose.
\<close>

section \<open>Sequences of accesses\<close>

type_synonym access = "nat \<times> 64 word \<times> 64 word \<times> AccessTypes"

fun llc_run :: "access list \<Rightarrow> CRC_CACHE \<Rightarrow> (bool list \<times> CRC_CACHE) res option" where
  "llc_run [] c = Some (Inr ([], c))"
| "llc_run ((tid, PC, p, a) # xs) c =
     (case LookupAndFillCache tid PC p a c of
        None \<Rightarrow> None
      | Some (Inl e) \<Rightarrow> Some (Inl e)
      | Some (Inr (h, c)) \<Rightarrow> map_option (\<lambda>x. bindE x (\<lambda>(hs, c). Inr (h # hs, c))) (llc_run xs c))"

definition accesses :: "AccessTypes \<Rightarrow> nat \<Rightarrow> access list \<Rightarrow> nat" where
  "accesses a t xs = length (filter (\<lambda>(tid, PC, p, b). tid = t \<and> b = a) xs)"

context replacement
begin

lemma run_ok:
  assumes "llc_ok ok c" and "\<forall>(tid, PC, p, a) \<in> set xs. tid < unat (threads c)"
  shows "\<exists>hs c'. llc_run xs c = Some (Inr (hs, c')) \<and> llc_ok ok c' \<and> length hs = length xs \<and>
    (\<forall>a t. lookups c' a t = lookups c a t + of_nat (accesses a t xs))"
  using assms
proof (induction xs arbitrary: c)
  case (Cons x xs)
  obtain tid PC p a where x: "x = (tid, PC, p, a)" by (cases x)
  have "tid < unat (threads c)" using Cons.prems(2) x by simp
  from access_ok [OF Cons.prems(1) this, of PC p a] obtain h d where d: "LookupAndFillCache tid PC p a c = Some (Inr (h, d))" "llc_ok ok d"
    "threads d = threads c" "lookups d = bump a tid (lookups c)" by blast
  have "\<forall>(tid, PC, p, a) \<in> set xs. tid < unat (threads d)" using Cons.prems(2) d(3) by auto
  from Cons.IH [OF d(2) this] obtain hs c' where c': "llc_run xs d = Some (Inr (hs, c'))" "llc_ok ok c'" "length hs = length xs"
    "\<And>b t. lookups c' b t = lookups d b t + of_nat (accesses b t xs)" by blast
  have "lookups c' b t = lookups c b t + of_nat (accesses b t (x # xs))" for b t
    using c'(4) d(4) x by (auto simp: bump_def accesses_def)
  then show ?case using d(1) c'(1-3) x by (intro exI [of _ "h # hs"] exI [of _ c']) simp
qed (simp add: accesses_def)

end

lemma init_repl_ok:
  assumes "2 \<le> unat ways" and "unat ways \<le> 256" and "pol \<noteq> CRC_REPL_other"
  shows "repl_ok (unat sets) (unat ways) (InitReplacementState sets ways pol rnd)"
proof -
  let ?init = "map (\<lambda>w. \<lparr>LRUstackposition = of_nat w, Signature = 0, RRPV = 0, Outcome = False\<rparr>) [0..<unat ways]"
  have "unat (of_nat w :: 32 word) = w" if "w < unat ways" for w
    using that assms(2) by (simp add: unat_of_nat take_bit_nat_eq_self)
  then have "inj_on (of_nat :: nat \<Rightarrow> 32 word) {0..<unat ways}" "\<forall>w < unat ways. unat (of_nat w :: 32 word) < unat ways"
    by (auto intro!: inj_on_inverseI [of _ unat])
  then have "lines_ok (unat ways) ?init"
    using assms(1,2) by (auto simp: lines_ok_def recency_ok_def rline_ok_def list_all_iff distinct_map o_def)
  then show ?thesis
    using assms by (auto simp: repl_ok_def InitReplacementState_def Let_def list_all_iff)
qed

lemma new_cache_ok:
  assumes "new_CRC_CACHE sz ways tpc line pol rnd raw = Inr c" and "2 \<le> unat ways" and "unat ways \<le> 256" and "pol \<noteq> CRC_REPL_other"
    and "numsets c \<noteq> 0"
  shows "llc_ok repl_ok c \<and> threads c = tpc \<and> resident c = {} \<and> (\<forall>a t. lookups c a t = 0)"
proof -
  have c: "c = InitStats ((InitCache (raw\<lparr>numsets := sz div (line * ways), assoc := ways, threads := tpc, linesize := line\<rparr>))
      \<lparr>cacheReplState := InitReplacementState (sz div (line * ways)) ways pol rnd\<rparr>)" and line: "line * ways \<noteq> 0"
    using assms(1) by (auto simp: new_CRC_CACHE_def InitCache_def Let_def split: if_splits)
  have r: "repl_ok (unat (sz div (line * ways))) (unat ways) (InitReplacementState (sz div (line * ways)) ways pol rnd)"
    using init_repl_ok assms(2-4) by blast
  have "line \<noteq> 0" "numsets c = sz div (line * ways)" using line c by (auto simp: InitStats_def InitCache_def Let_def)
  then have "geometry c" using assms(5) c by (simp add: geometry_def InitStats_def InitCache_def Let_def)
  moreover have "tags_ok (replicate k \<lparr>valid = False, tag = t, dirty = False, sharing_dir = 0\<rparr>)" for k t by (simp add: tags_ok_def)
  ultimately have "llc_ok repl_ok c" unfolding llc_ok_def using r c by (auto simp: InitStats_def InitCache_def Let_def)
  moreover have "resident c = {}" using c by (auto simp: resident_def InitStats_def InitCache_def Let_def)
  ultimately show ?thesis using c by (simp add: InitStats_def InitCache_def Let_def)
qed

section \<open>Guarantees\<close>

text \<open>C16. The simulator answers every access: a cache of at least one set and 2 to 256 ways with any of the five policies processes every
  sequence of accesses of its threads without a failing assertion, an access outside an array or an endless loop; its state stays well
  formed (no line twice in a set, recency positions a permutation, predictions below the associativity, saturating counters in their
  ranges), and hits and misses add up to the lookups, which count the accesses.\<close>

theorem llc_run_returns:
  assumes "new_CRC_CACHE sz ways tpc line pol rnd raw = Inr c" and "2 \<le> unat ways" and "unat ways \<le> 256" and "pol \<noteq> CRC_REPL_other"
    and "numsets c \<noteq> 0" and "\<forall>(tid, PC, p, a) \<in> set xs. tid < unat tpc"
  shows "\<exists>hs c'. llc_run xs c = Some (Inr (hs, c')) \<and> length hs = length xs \<and> llc_ok repl_ok c' \<and>
    (\<forall>a t. hits c' a t + misses c' a t = lookups c' a t \<and> lookups c' a t = of_nat (accesses a t xs))"
proof -
  have c: "llc_ok repl_ok c" "threads c = tpc" "\<And>a t. lookups c a t = 0" using new_cache_ok [OF assms(1-5)] by auto
  then obtain hs c' where "llc_run xs c = Some (Inr (hs, c'))" "llc_ok repl_ok c'" "length hs = length xs"
    "\<forall>a t. lookups c' a t = of_nat (accesses a t xs)" using crc.run_ok [OF c(1), of xs] assms(6) by auto
  then show ?thesis by (auto simp: llc_ok_def)
qed

text \<open>C17. An access does what a cache does: it is a hit exactly if the line is resident, which is what \<open>CacheInspect\<close> reports; afterwards the
  line is resident; no other line becomes resident; at most one line leaves, from the same set, and none on a hit or while the set has an
  invalid way.\<close>

theorem llc_access:
  assumes "llc_ok repl_ok c" and "tid < unat (threads c)"
  shows "\<exists>hit c'. LookupAndFillCache tid PC p a c = Some (Inr (hit, c')) \<and> CacheInspect p c = Inr hit \<and> CacheInspect p c' = Inr True \<and>
    hit = (line_of c p \<in> resident c) \<and> line_of c p \<in> resident c' \<and> resident c' \<subseteq> insert (line_of c p) (resident c) \<and>
    (\<exists>v. resident c \<subseteq> insert (fst (line_of c p), v) (resident c')) \<and>
    (hit \<or> (\<exists>l \<in> set (cache c ! fst (line_of c p)). \<not> valid l) \<longrightarrow> resident c \<subseteq> resident c')"
proof -
  obtain hit c' where c': "LookupAndFillCache tid PC p a c = Some (Inr (hit, c'))" "llc_ok repl_ok c'" "hit = (line_of c p \<in> resident c)"
    "line_of c p \<in> resident c'" "resident c' \<subseteq> insert (line_of c p) (resident c)"
    "\<exists>v. resident c \<subseteq> insert (fst (line_of c p), v) (resident c')"
    "hit \<or> (\<exists>l \<in> set (cache c ! fst (line_of c p)). \<not> valid l) \<longrightarrow> resident c \<subseteq> resident c'" "line_of c' p = line_of c p"
    using crc.access_ok [OF assms, of PC p a] by blast
  have inspect: "CacheInspect p d = Inr (line_of d p \<in> resident d)" if "llc_ok repl_ok d" for d
  proof -
    have "unat (GetSetIndex d p) < length (cache d)" using that set_index_bound [of d p] by (simp add: llc_ok_def)
    then show ?thesis using resident_lookup [of "unat (GetSetIndex d p)" d "GetTag d p"] by (simp add: CacheInspect_def Let_def line_of_def)
  qed
  show ?thesis using c' inspect [OF assms(1)] inspect [OF c'(2)] by auto
qed

text \<open>C18. The LRU policy is exact: on the ways of a set ordered from the most to the least recently used one, \<open>UpdateReplacementState\<close> moves
  the way used to the front and leaves the other sets alone, and the victim is the last way.\<close>

theorem lru_policy_exact:
  assumes "repl_ok m k r" and "replPolicy r = CRC_REPL_LRU" and "i < m" and "w < k"
  shows "repl_GetVictimInSet i r = Some (Inr (last (lru_stack (repl r ! i)), r)) \<and>
    (\<exists>r'. UpdateReplacementState i w t PC hit r = Inr r' \<and> lru_stack (repl r' ! i) = w # remove1 w (lru_stack (repl r ! i)) \<and>
      (\<forall>j < m. j \<noteq> i \<longrightarrow> repl r' ! j = repl r ! j))"
proof -
  have k: "2 \<le> k" "unat (repl_assoc r) = k" "length (repl r) = m" using assms(1) by (simp_all add: repl_ok_def)
  have ls: "length (repl r ! i) = k" "recency_ok (repl r ! i)" "repl r ! i \<noteq> []" using repl_ok_lines [OF assms(1,3)] k(1) by (auto simp: lines_ok_def)
  have "repl_GetVictimInSet i r = Some (Inr (last (lru_stack (repl r ! i)), r))"
    using lru_victim_last [OF ls(2,3)] k(2) ls(1) repl_ok_set_of [OF assms(1,3)] assms(2) by (simp add: repl_GetVictimInSet_def Get_LRU_Victim_def)
  moreover have "UpdateReplacementState i w t PC hit r = Inr (r\<lparr>repl := (repl r)[i := lru_update w (repl r ! i)]\<rparr>)"
    using repl_ok_line_at [OF assms(1,3,4)] assms(2) by (simp add: UpdateReplacementState_def UpdateLRU_def)
  ultimately show ?thesis using lru_stack_update [OF ls(2)] assms(3,4) ls(1) k(3) by auto
qed

lemma rrip_hangs:
  assumes a: "256 < unat a"
  shows "rrip_loop a ls = None"
proof (rule ccontr)
  assume "rrip_loop a ls \<noteq> None"
  then obtain y where y: "rrip_loop a ls = Some y" by auto
  have never: "\<not> (ucast (x :: 8 word) = b - 1)" if "256 < unat b" for x and b :: "32 word"
  proof
    assume "ucast x = b - 1"
    then have "unat (b - 1) = unat x" by (metis ucast_RRPV)
    moreover have "unat (b - 1) = unat b - 1" using that by (simp add: unat_sub word_le_nat_alt)
    moreover have "unat x < 256" using unsigned_less [of x] by simp
    ultimately show False using that by simp
  qed
  have "\<not> 256 < unat a"
  proof (rule rrip_loop.raw_induct [where P = "\<lambda>a ls y. \<not> 256 < unat a", OF _ y])
    fix f and a :: "32 word" and ls y
    assume "\<And>a ls y. f a ls = Some y \<Longrightarrow> \<not> 256 < unat a"
      and "(case first_way (\<lambda>l. ucast (RRPV l) = a - 1) ls of None \<Rightarrow> f a (map age ls) | Some w \<Rightarrow> Some (w, ls)) = Some y"
    then show "\<not> 256 < unat a"
      using never [of a] first_way_Some [of "\<lambda>l. ucast (RRPV l) = a - 1" ls] by (auto split: option.splits)
  qed
  then show False using a by simp
qed

text \<open>C19. The loop of the RRIP policies ends, and its victim is the first line of largest prediction: it returns a way of the set, every line has
  aged by the same amount, and only the victim and its equals have reached the distant value. With more than 256 ways the loop never ends,
  because the prediction is kept in one byte.\<close>

theorem rrip_victim_farthest:
  assumes "repl_ok m k r" and "i < m" and "replPolicy r \<in> {CRC_REPL_DRRIP, CRC_REPL_SHIP}"
  shows "(\<exists>w d. repl_GetVictimInSet i r = Some (Inr (w, r\<lparr>repl := (repl r)[i := map (age_by d) (repl r ! i)]\<rparr>)) \<and> w < k \<and>
      unat (RRPV (repl r ! i ! w)) + d = k - 1 \<and> (\<forall>j < k. unat (RRPV (repl r ! i ! j)) \<le> unat (RRPV (repl r ! i ! w))) \<and>
      (\<forall>j < w. unat (RRPV (repl r ! i ! j)) < unat (RRPV (repl r ! i ! w)))) \<and>
    (256 < unat a \<longrightarrow> rrip_loop a ls = None)"
proof -
  obtain w d where w: "rrip_loop (repl_assoc r) (repl r ! i) = Some (w, map (age_by d) (repl r ! i))" "w < k" "unat (RRPV (repl r ! i ! w)) + d = k - 1"
    "\<forall>l \<in> set (repl r ! i). unat (RRPV l) + d < k" "\<forall>j < w. unat (RRPV (repl r ! i ! j)) < unat (RRPV (repl r ! i ! w))"
    using rrip_victim_ok [OF assms(1,2)] by blast
  have "unat (RRPV (repl r ! i ! j)) \<le> unat (RRPV (repl r ! i ! w))" if "j < k" for j
  proof -
    have "repl r ! i ! j \<in> set (repl r ! i)" using repl_ok_lines [OF assms(1,2)] that by (simp add: lines_ok_def)
    then show ?thesis using w(3,4) by fastforce
  qed
  moreover have "repl_GetVictimInSet i r = Some (Inr (w, r\<lparr>repl := (repl r)[i := map (age_by d) (repl r ! i)]\<rparr>))"
    using w(1) assms(3) repl_ok_set_of [OF assms(1,2)] by (auto simp: repl_GetVictimInSet_def Get_RRIP_Victim_def Get_SHIP_Victim_def)
  ultimately show ?thesis using w rrip_hangs by blast
qed


section \<open>A concrete cache\<close>

text \<open>Two sets of two ways with lines of 64 bytes.\<close>

definition demo_raw :: CRC_CACHE where
  "demo_raw = \<lparr>numsets = 0, assoc = 0, threads = 0, linesize = 0, cache = [], cacheReplState = InitReplacementState 0 0 CRC_REPL_LRU (\<lambda>_. 0),
     lookups = (\<lambda>_ _. 0), misses = (\<lambda>_ _. 0), hits = (\<lambda>_ _. 0), lineShift = 0, indexShift = 0, indexMask = 0, mytimer = 0\<rparr>"

definition demo_llc :: CRC_CACHE where
  "demo_llc = (case new_CRC_CACHE 256 2 1 64 CRC_REPL_SHIP (\<lambda>_. 0) demo_raw of Inr c \<Rightarrow> c | Inl _ \<Rightarrow> demo_raw)"

lemma demo_llc: "new_CRC_CACHE 256 2 1 64 CRC_REPL_SHIP (\<lambda>_. 0) demo_raw = Inr demo_llc" "numsets demo_llc = 2" "threads demo_llc = 1"
  by (simp_all add: demo_llc_def new_CRC_CACHE_def InitStats_def InitCache_def Let_def)

lemma demo_llc_ok: "llc_ok repl_ok demo_llc"
  using new_cache_ok [OF demo_llc(1)] demo_llc(2) by simp

theorem llc_run_returns_witness:
  "\<exists>hs c'. llc_run [(0, 4, 0, ACCESS_LOAD), (0, 8, 64, ACCESS_STORE), (0, 4, 0, ACCESS_LOAD)] demo_llc = Some (Inr (hs, c')) \<and> length hs = 3"
  using llc_run_returns [OF demo_llc(1), of "[(0, 4, 0, ACCESS_LOAD), (0, 8, 64, ACCESS_STORE), (0, 4, 0, ACCESS_LOAD)]"] demo_llc(2)
  by (auto simp del: llc_run.simps)

theorem llc_access_witness:
  "\<exists>hit c'. LookupAndFillCache 0 4 128 ACCESS_LOAD demo_llc = Some (Inr (hit, c')) \<and> CacheInspect 128 c' = Inr True"
  using llc_access [OF demo_llc_ok, of 0 4 128 ACCESS_LOAD] demo_llc(3) by auto

definition demo_repl :: "ReplacemntPolicy \<Rightarrow> repl_state" where
  "demo_repl pol = InitReplacementState 2 2 pol (\<lambda>_. 0)"

lemma demo_repl_ok: "pol \<noteq> CRC_REPL_other \<Longrightarrow> repl_ok 2 2 (demo_repl pol)"
  using init_repl_ok [of 2 pol 2 "\<lambda>_. 0"] by (simp add: demo_repl_def)

theorem lru_policy_exact_witness:
  "repl_GetVictimInSet 1 (demo_repl CRC_REPL_LRU) = Some (Inr (last (lru_stack (repl (demo_repl CRC_REPL_LRU) ! 1)), demo_repl CRC_REPL_LRU))"
  using lru_policy_exact [OF demo_repl_ok, of CRC_REPL_LRU 1 0] by (simp add: demo_repl_def InitReplacementState_def Let_def)

theorem rrip_victim_farthest_witness:
  "\<exists>w d. repl_GetVictimInSet 1 (demo_repl CRC_REPL_SHIP) =
     Some (Inr (w, (demo_repl CRC_REPL_SHIP)\<lparr>repl := (repl (demo_repl CRC_REPL_SHIP))[1 := map (age_by d) (repl (demo_repl CRC_REPL_SHIP) ! 1)]\<rparr>)) \<and> w < 2"
proof -
  have "replPolicy (demo_repl CRC_REPL_SHIP) \<in> {CRC_REPL_DRRIP, CRC_REPL_SHIP}" by (simp add: demo_repl_def InitReplacementState_def Let_def)
  from rrip_victim_farthest [OF demo_repl_ok _ this, of 1 0 "[]"] show ?thesis by auto
qed

theorem set_and_tag_identify_line_witness:
  "GetSetIndex demo_llc 100 = GetSetIndex demo_llc 70 \<and> GetTag demo_llc 100 = GetTag demo_llc 70 \<longleftrightarrow>
     drop_bit (unat (lineShift demo_llc)) 100 = drop_bit (unat (lineShift demo_llc)) (70 :: 64 word)"
  using set_and_tag_identify_line [of demo_llc 100 70] demo_llc_ok by (simp add: llc_ok_def)

end
