(* ===== verification/Mpi_Net.thy ===== *)
theory Mpi_Net
  imports Main "HOL-Library.Sublist"
begin

text \<open>
  Message passing for the barriers of \<open>src/aos/mpi\<close>: the processes of a communicator, each running
  the list of MPI calls its program makes (the control flow of the barriers does not depend on what
  is received). \<open>MPI_Irecv\<close> posts a receive, \<open>MPI_Send\<close> puts a message on its way, \<open>MPI_Wait\<close> blocks
  until the message for the posted receive is there; messages between two processes with one tag do
  not overtake each other. Whether \<open>MPI_Send\<close> waits for the matching receive is up to the MPI
  library: \<open>mpi_exec\<close> lets it proceed, and \<open>mpi_ready\<close> says that a process can proceed even where it
  has to wait.

  The interface between a barrier and its proof is the locale \<open>paired\<close>: within one barrier every
  call occurs once and every receive has its send. From this the locale derives what an
  \<open>MPI_Wait\<close> of the \<open>e\<close>-th barrier says of the sender, which is all that the barriers need.
\<close>

section \<open>Processes and messages\<close>

datatype mpi_call =
    MPI_Irecv int nat
  | MPI_Send int nat
  | MPI_Wait int nat

record net =
  rest :: "int \<Rightarrow> mpi_call list"
  hist :: "int \<Rightarrow> mpi_call list"
  chan :: "int \<Rightarrow> int \<Rightarrow> nat \<Rightarrow> nat"

definition mpi_init :: "(int \<Rightarrow> mpi_call list) \<Rightarrow> net" where
  "mpi_init prog = \<lparr>rest = prog, hist = (\<lambda>_. []), chan = (\<lambda>_ _ _. 0)\<rparr>"

definition mpi_advance :: "int \<Rightarrow> net \<Rightarrow> net" where
  "mpi_advance p s = s\<lparr>rest := (rest s)(p := tl (rest s p)), hist := (hist s)(p := hist s p @ [hd (rest s p)])\<rparr>"

definition set_chan :: "int \<Rightarrow> int \<Rightarrow> nat \<Rightarrow> nat \<Rightarrow> net \<Rightarrow> net" where
  "set_chan q p t k s = s\<lparr>chan := (chan s)(q := (chan s q)(p := (chan s q p)(t := k)))\<rparr>"

text \<open>The next call of process \<open>p\<close>; \<open>None\<close> when it is finished or blocked.\<close>

definition mpi_exec :: "int \<Rightarrow> net \<Rightarrow> net option" where
  "mpi_exec p s =
     (case rest s p of
        [] \<Rightarrow> None
      | MPI_Irecv q t # _ \<Rightarrow> Some (mpi_advance p s)
      | MPI_Send q t # _ \<Rightarrow> Some (mpi_advance p (set_chan p q t (chan s p q t + 1) s))
      | MPI_Wait q t # _ \<Rightarrow>
          if chan s q p t = 0 then None else Some (mpi_advance p (set_chan q p t (chan s q p t - 1) s)))"

text \<open>Process \<open>p\<close> can proceed although \<open>MPI_Send\<close> waits until the receive is posted.\<close>

definition mpi_ready :: "net \<Rightarrow> int \<Rightarrow> bool" where
  "mpi_ready s p =
     (case rest s p of
        [] \<Rightarrow> False
      | MPI_Irecv q t # _ \<Rightarrow> True
      | MPI_Send q t # _ \<Rightarrow> count_list (hist s p) (MPI_Send q t) < count_list (hist s q) (MPI_Irecv p t)
      | MPI_Wait q t # _ \<Rightarrow> 0 < chan s q p t)"

definition procs :: "int \<Rightarrow> int set" where
  "procs n = {0..<n}"

inductive mpi_run :: "int \<Rightarrow> (int \<Rightarrow> mpi_call list) \<Rightarrow> net \<Rightarrow> bool" for n prog where
  start: "mpi_run n prog (mpi_init prog)"
| step: "mpi_run n prog s \<Longrightarrow> p \<in> procs n \<Longrightarrow> mpi_exec p s = Some s' \<Longrightarrow> mpi_run n prog s'"

text \<open>The processes of a list take a step each.\<close>

fun mpi_execs :: "int list \<Rightarrow> net \<Rightarrow> net option" where
  "mpi_execs [] s = Some s"
| "mpi_execs (p # ps) s = (case mpi_exec p s of None \<Rightarrow> None | Some s' \<Rightarrow> mpi_execs ps s')"

lemma mpi_execs_run:
  "mpi_run n prog s \<Longrightarrow> set ps \<subseteq> procs n \<Longrightarrow> mpi_execs ps s = Some s' \<Longrightarrow> mpi_run n prog s'"
  by (induction ps s rule: mpi_execs.induct) (auto split: option.splits intro: mpi_run.step)

lemma mpi_advance_fields [simp]:
  "rest (mpi_advance p s) = (rest s)(p := tl (rest s p))" "hist (mpi_advance p s) = (hist s)(p := hist s p @ [hd (rest s p)])"
  "chan (mpi_advance p s) = chan s"
  by (simp_all add: mpi_advance_def)

lemma set_chan_fields [simp]:
  "rest (set_chan q p t k s) = rest s" "hist (set_chan q p t k s) = hist s"
  "chan (set_chan q p t k s) q' p' t' = (if q' = q \<and> p' = p \<and> t' = t then k else chan s q' p' t')"
  by (auto simp: set_chan_def)

lemma ready_exec: "mpi_ready s p \<Longrightarrow> \<exists>s'. mpi_exec p s = Some s'"
  by (auto simp: mpi_ready_def mpi_exec_def split: list.splits mpi_call.splits)

lemma mpi_exec_rest: "mpi_exec p s = Some s' \<Longrightarrow> rest s p \<noteq> [] \<and> rest s' = (rest s)(p := tl (rest s p)) \<and>
    hist s' = (hist s)(p := hist s p @ [hd (rest s p)])"
  by (auto simp: mpi_exec_def split: list.splits mpi_call.splits if_splits)

section \<open>Histories\<close>

text \<open>A process has made the calls of a prefix of its program, and the channels hold what was sent and not received.\<close>

lemma run_hist: "mpi_run n prog s \<Longrightarrow> hist s p @ rest s p = prog p"
proof (induction rule: mpi_run.induct)
  case start
  then show ?case by (simp add: mpi_init_def)
next
  case (step s q s')
  then show ?case using mpi_exec_rest [OF step(3)] by (cases "p = q") auto
qed

lemma run_chan:
  "mpi_run n prog s \<Longrightarrow> chan s q p t + count_list (hist s p) (MPI_Wait q t) = count_list (hist s q) (MPI_Send p t)"
proof (induction rule: mpi_run.induct)
  case start
  then show ?case by (simp add: mpi_init_def)
next
  case (step s r s')
  from step(3) show ?case
    using step(4) by (auto simp: mpi_exec_def split: list.splits mpi_call.splits if_splits)
qed

lemma run_received:
  "mpi_run n prog s \<Longrightarrow> count_list (hist s p) (MPI_Wait q t) \<le> count_list (hist s q) (MPI_Send p t)"
  using run_chan [of n prog s q p t] by simp

lemma run_prefix: "mpi_run n prog s \<Longrightarrow> prefix (hist s p) (prog p)"
  using run_hist [of n prog s p] by (metis prefixI)

lemma run_cases:
  assumes "mpi_run n prog s" and "prefix xs (prog p)"
  obtains "prefix xs (hist s p)" | c where "prefix (hist s p @ [c]) xs" "rest s p \<noteq> []" "hd (rest s p) = c"
proof (cases "prefix xs (hist s p)")
  case False
  then obtain ys where ys: "xs = hist s p @ ys" "ys \<noteq> []"
    using prefix_same_cases [OF assms(2) run_prefix [OF assms(1)]] by (metis append_Nil2 prefixE prefix_order.refl)
  have "prefix ys (rest s p)" using assms(2) run_hist [OF assms(1), of p] ys(1) by (metis same_prefix_prefix)
  then obtain c zs where "ys = c # zs" "rest s p \<noteq> [] \<and> hd (rest s p) = c" using ys(2) by (cases ys) (auto simp: prefix_def)
  then show ?thesis using that(2) ys by simp
qed (use that in simp)

lemma prefix_shorter: "prefix (xs @ [x]) (ys @ [y]) \<Longrightarrow> prefix xs ys"
  by (auto simp: prefix_snoc dest: append_prefixD)

lemma strict_prefix_concat:
  assumes "prefix h (concat xss)" and "h \<noteq> concat xss"
  obtains i ys where "i < length xss" "prefix ys (xss ! i)" "ys \<noteq> xss ! i" "h = concat (take i xss) @ ys"
  using assms
proof (induction xss arbitrary: h thesis)
  case Nil
  then show ?case by simp
next
  case (Cons xs xss)
  show ?case
  proof (cases "prefix xs h")
    case True
    then obtain h' where h: "h = xs @ h'" by (auto simp: prefix_def)
    then have "prefix h' (concat xss)" "h' \<noteq> concat xss" using Cons.prems(2,3) by simp_all
    from Cons.IH [OF _ this] obtain i ys where "i < length xss" "prefix ys (xss ! i)" "ys \<noteq> xss ! i"
      "h' = concat (take i xss) @ ys" by blast
    then show ?thesis using Cons.prems(1) [of "Suc i" ys] h by simp
  next
    case False
    then have "prefix h xs" "h \<noteq> xs" using Cons.prems(2) by (auto simp: prefix_def append_eq_append_conv2)
    then show ?thesis using Cons.prems(1) [of 0 h] by simp
  qed
qed

lemma prefix_count: "prefix xs ys \<Longrightarrow> count_list xs x \<le> count_list ys x"
  by (auto simp: prefix_def)

lemma count_concat_replicate: "count_list (concat (replicate e xs)) x = e * count_list xs x"
  by (induction e) simp_all

lemma count_distinct: "distinct xs \<Longrightarrow> count_list xs x = (if x \<in> set xs then 1 else 0)"
  by (induction xs) auto

section \<open>Barriers\<close>

text \<open>\<open>m\<close> barriers in sequence, and the calls up to a point of barrier number \<open>e\<close>.\<close>

definition repeated :: "nat \<Rightarrow> (int \<Rightarrow> mpi_call list) \<Rightarrow> int \<Rightarrow> mpi_call list" where
  "repeated m body p = concat (replicate m (body p))"

definition reached :: "(int \<Rightarrow> mpi_call list) \<Rightarrow> net \<Rightarrow> nat \<Rightarrow> int \<Rightarrow> mpi_call list \<Rightarrow> bool" where
  "reached body s e p xs \<longleftrightarrow> prefix (concat (replicate e (body p)) @ xs) (hist s p)"

lemma repeated_Suc: "repeated (Suc m) body p = body p @ repeated m body p"
  by (simp add: repeated_def)

lemma reached_prefix: "reached body s e p ys \<Longrightarrow> prefix xs ys \<Longrightarrow> reached body s e p xs"
  by (auto simp: reached_def prefix_def)

lemma repeated_prefix:
  assumes "e < m" and "prefix xs (body p)"
  shows "prefix (concat (replicate e (body p)) @ xs) (repeated m body p)"
proof -
  obtain k where "m = e + Suc k" using assms(1) less_imp_Suc_add by (metis add_Suc_right)
  then have "repeated m body p = concat (replicate e (body p)) @ body p @ concat (replicate k (body p))"
    unfolding repeated_def by (simp only: replicate_add replicate_Suc concat_append concat.simps)
  then show ?thesis using assms(2) by (auto simp: prefix_def)
qed

locale paired =
  fixes body :: "int \<Rightarrow> int \<Rightarrow> mpi_call list"
  assumes once: "p \<in> procs n \<Longrightarrow> distinct (body n p)"
    and sender: "p \<in> procs n \<Longrightarrow> MPI_Wait q t \<in> set (body n p) \<Longrightarrow> q \<in> procs n \<and> MPI_Send p t \<in> set (body n q)"
begin

text \<open>When a process is past a wait of barrier \<open>e\<close>, the sender is past the matching send of barrier \<open>e\<close>.\<close>

lemma wait_send:
  assumes run: "mpi_run n (repeated m (body n)) s" and p: "p \<in> procs n" and e: "e < m"
    and reached: "reached (body n) s e p (xs @ [MPI_Wait q t])" and pre: "prefix (xs @ [MPI_Wait q t]) (body n p)"
    and send: "prefix (ys @ [MPI_Send p t]) (body n q)"
  shows "reached (body n) s e q (ys @ [MPI_Send p t])"
proof (rule ccontr)
  assume not: "\<not> reached (body n) s e q (ys @ [MPI_Send p t])"
  have wait: "MPI_Wait q t \<in> set (body n p)" using pre by (auto simp: prefix_def)
  then have q: "q \<in> procs n" using sender [OF p] by blast
  let ?X = "concat (replicate e (body n q)) @ ys @ [MPI_Send p t]"
  have "prefix ?X (repeated m (body n) q)" by (rule repeated_prefix [of e m _ "body n", OF e send])
  then obtain c where "prefix (hist s q @ [c]) ?X"
    using run_cases [OF run, of ?X q] not by (metis reached_def)
  then have "prefix (hist s q) (concat (replicate e (body n q)) @ ys)"
    using prefix_shorter [of "hist s q" c "concat (replicate e (body n q)) @ ys"] by simp
  then have "count_list (hist s q) (MPI_Send p t) \<le> count_list (concat (replicate e (body n q)) @ ys) (MPI_Send p t)"
    by (rule prefix_count)
  also have "MPI_Send p t \<notin> set ys"
    using once [OF q] send by (auto simp: prefix_def)
  then have "count_list (concat (replicate e (body n q)) @ ys) (MPI_Send p t) \<le> e"
    using count_distinct [OF once [OF q]] by (simp add: count_concat_replicate)
  finally have few: "count_list (hist s q) (MPI_Send p t) \<le> e" .
  have "e + 1 \<le> count_list (hist s p) (MPI_Wait q t)"
    using prefix_count [OF reached [unfolded reached_def], of "MPI_Wait q t"] count_distinct [OF once [OF p]] wait
    by (simp add: count_concat_replicate)
  also have "\<dots> \<le> count_list (hist s q) (MPI_Send p t)" by (rule run_received [OF run])
  finally show False using few by simp
qed

end

text \<open>
  For progress the calls of one barrier are ranked: a process makes them in the order of their
  ranks, and the call that a blocking call depends on has a smaller rank.
\<close>

locale ranked = paired +
  fixes rank :: "int \<Rightarrow> int \<Rightarrow> mpi_call \<Rightarrow> nat"
  assumes ascending: "p \<in> procs n \<Longrightarrow> sorted_wrt (\<lambda>x y. rank n p x < rank n p y) (body n p)"
    and after_send: "p \<in> procs n \<Longrightarrow> MPI_Wait q t \<in> set (body n p) \<Longrightarrow> rank n q (MPI_Send p t) < rank n p (MPI_Wait q t)"
    and after_post: "p \<in> procs n \<Longrightarrow> MPI_Send q t \<in> set (body n p) \<Longrightarrow>
      q \<in> procs n \<and> MPI_Irecv p t \<in> set (body n q) \<and> rank n q (MPI_Irecv p t) < rank n p (MPI_Send q t)"
begin

text \<open>Process \<open>p\<close> is about to make the call \<open>c\<close> of barrier \<open>e\<close>.\<close>

definition at_call :: "int \<Rightarrow> nat \<Rightarrow> net \<Rightarrow> int \<Rightarrow> nat \<Rightarrow> mpi_call \<Rightarrow> bool" where
  "at_call n m s p e c \<longleftrightarrow> p \<in> procs n \<and> e < m \<and>
     (\<exists>xs zs. body n p = xs @ c # zs \<and> hist s p = concat (replicate e (body n p)) @ xs)"

lemma unfinished_at:
  assumes "mpi_run n (repeated m (body n)) s" and "p \<in> procs n" and "hist s p \<noteq> repeated m (body n) p"
  obtains e c where "at_call n m s p e c"
proof -
  obtain e ys where e: "e < m" "prefix ys (replicate m (body n p) ! e)" "ys \<noteq> replicate m (body n p) ! e"
    "hist s p = concat (take e (replicate m (body n p))) @ ys"
    using strict_prefix_concat [of "hist s p" "replicate m (body n p)"] run_prefix [OF assms(1), of p] assms(3)
    unfolding repeated_def length_replicate by metis
  then obtain c zs where "body n p = ys @ c # zs" by (auto simp: prefix_def neq_Nil_conv)
  then show ?thesis using that [of e c] e assms(2) by (auto simp: at_call_def min_def)
qed

lemma at_call_rest:
  assumes "mpi_run n (repeated m (body n)) s" and "at_call n m s p e c"
  shows "rest s p \<noteq> [] \<and> hd (rest s p) = c \<and> count_list (hist s p) c = e"
proof -
  obtain xs zs where b: "body n p = xs @ c # zs" and h: "hist s p = concat (replicate e (body n p)) @ xs"
    and p: "p \<in> procs n" "e < m" using assms(2) by (auto simp: at_call_def)
  have "prefix (concat (replicate e (body n p)) @ xs @ [c]) (repeated m (body n) p)"
    by (rule repeated_prefix [of e m _ "body n", OF p(2)]) (simp add: b)
  then have "prefix (hist s p @ [c]) (hist s p @ rest s p)" using h run_hist [OF assms(1), of p] by simp
  moreover have "distinct (body n p)" by (rule once [OF p(1)])
  then have "c \<notin> set xs" "count_list (body n p) c = 1" by (auto simp: b count_distinct)
  then have "count_list (hist s p) c = e" by (simp add: h count_concat_replicate)
  ultimately show ?thesis by (auto simp: prefix_def)
qed

text \<open>A call that has not been made yet is not before the call the process is at.\<close>

lemma not_reached_at:
  assumes run: "mpi_run n (repeated m (body n)) s" and q: "q \<in> procs n" and e: "e < m"
    and b: "body n q = xs @ d # zs" and not: "\<not> reached (body n) s e q (xs @ [d])"
  obtains e' c where "at_call n m s q e' c" "e' < e \<or> e' = e \<and> rank n q c \<le> rank n q d"
proof -
  let ?X = "concat (replicate e (body n q)) @ xs @ [d]"
  have X: "prefix ?X (repeated m (body n) q)" by (rule repeated_prefix [of e m _ "body n", OF e]) (simp add: b)
  obtain c0 where h: "prefix (hist s q @ [c0]) ?X"
    using run_cases [OF run X] not unfolding reached_def by blast
  then have "hist s q \<noteq> repeated m (body n) q"
    using prefix_length_le [OF prefix_order.trans [OF h X]] by auto
  then obtain e' c where at: "at_call n m s q e' c" using unfinished_at [OF run q] by blast
  then obtain ys ws where b': "body n q = ys @ c # ws" and h': "hist s q = concat (replicate e' (body n q)) @ ys"
    by (auto simp: at_call_def)
  have len: "e' * length (body n q) + length ys < e * length (body n q) + length (xs @ [d])"
    using prefix_length_le [OF h] by (simp add: h' length_concat sum_list_replicate)
  have "\<not> e < e'"
  proof
    assume "e < e'"
    then have "Suc e * length (body n q) \<le> e' * length (body n q)" by (intro mult_right_mono) simp_all
    then show False using len by (simp add: b)
  qed
  then consider "e' < e" | "e' = e" by linarith
  then show ?thesis
  proof cases
    case 2
    have "length ys \<le> length xs" using len 2 by simp
    have "sorted_wrt (\<lambda>x y. rank n q x < rank n q y) (body n q)" by (rule ascending [OF q])
    moreover have "c = body n q ! length ys" "d = body n q ! length xs" by (metis b' nth_append_length, metis b nth_append_length)
    moreover have "length xs < length (body n q)" by (simp add: b)
    ultimately have "rank n q c \<le> rank n q d"
      using \<open>length ys \<le> length xs\<close> sorted_wrt_nth_less [of "\<lambda>x y. rank n q x < rank n q y" "body n q" "length ys" "length xs"]
      by (cases "length ys = length xs") (simp_all add: less_imp_le)
    then show ?thesis using that at 2 by blast
  qed (use that at in blast)
qed

lemma progress:
  assumes run: "mpi_run n (repeated m (body n)) s" and "\<not> (\<forall>p \<in> procs n. rest s p = [])"
  shows "\<exists>p \<in> procs n. mpi_ready s p"
proof -
  let ?S = "{(e, rank n p c) | p e c. at_call n m s p e c}"
  obtain p0 where "p0 \<in> procs n" "rest s p0 \<noteq> []" using assms(2) by blast
  then have "hist s p0 \<noteq> repeated m (body n) p0" using run_hist [OF run, of p0] by (metis append_self_conv)
  from unfinished_at [OF run \<open>p0 \<in> procs n\<close> this] obtain e0 c0 where "at_call n m s p0 e0 c0" .
  then have "(e0, rank n p0 c0) \<in> ?S" by auto
  from wfE_min [OF wf_lex_prod [OF wf_less_than wf_less_than] this]
  obtain z where z: "z \<in> ?S" "\<And>y. (y, z) \<in> less_than <*lex*> less_than \<Longrightarrow> y \<notin> ?S" by blast
  then obtain p e c where at: "at_call n m s p e c" and zeq: "z = (e, rank n p c)" by blast
  have p: "p \<in> procs n" "e < m" "c \<in> set (body n p)" using at by (auto simp: at_call_def)
  have least: "\<not> (e' < e \<or> e' = e \<and> rank n q c' < rank n p c)" if "at_call n m s q e' c'" for q e' c'
    using z(2) [of "(e', rank n q c')"] that unfolding zeq by auto
  have made: "e < count_list (hist s q) d" if d: "q \<in> procs n" "d \<in> set (body n q)" "rank n q d < rank n p c" for q d
  proof -
    obtain xs zs where b: "body n q = xs @ d # zs" using d(2) by (meson split_list)
    have "reached (body n) s e q (xs @ [d])"
      using not_reached_at [OF run d(1) p(2) b] least d(3) by (metis order_le_less_trans)
    then have "count_list (concat (replicate e (body n q)) @ xs @ [d]) d \<le> count_list (hist s q) d"
      unfolding reached_def by (rule prefix_count)
    then show ?thesis using count_distinct [OF once [OF d(1)], of d] d(2) by (simp add: count_concat_replicate)
  qed
  obtain as where rest: "rest s p = c # as" and own: "count_list (hist s p) c = e"
    using at_call_rest [OF run at] by (metis list.collapse)
  have "mpi_ready s p"
  proof (cases c)
    case (MPI_Irecv q t)
    then show ?thesis by (simp add: mpi_ready_def rest)
  next
    case (MPI_Send q t)
    then show ?thesis using made [of q "MPI_Irecv p t"] after_post [OF p(1)] p(3) own by (simp add: mpi_ready_def rest)
  next
    case (MPI_Wait q t)
    then show ?thesis
      using made [of q "MPI_Send p t"] after_send [OF p(1)] sender [OF p(1)] p(3) own run_chan [OF run, of q p t]
      by (simp add: mpi_ready_def rest)
  qed
  then show ?thesis using p(1) by blast
qed

end

text \<open>A process that has finished the program has made all its calls.\<close>

definition finished_all :: "int \<Rightarrow> net \<Rightarrow> bool" where
  "finished_all n s \<longleftrightarrow> (\<forall>p \<in> procs n. rest s p = [])"

text \<open>Every call shortens what is left, so executions are finite.\<close>

definition mpi_next :: "int \<Rightarrow> net \<Rightarrow> net \<Rightarrow> bool" where
  "mpi_next n s s' \<longleftrightarrow> (\<exists>p \<in> procs n. mpi_exec p s = Some s')"

lemma mpi_next_wf: "wf {(s', s). mpi_next n s s'}"
proof (rule wf_subset)
  let ?f = "\<lambda>s. \<Sum>p \<in> procs n. length (rest s p)"
  show "wf (measure ?f)" by simp
  have "?f s' < ?f s" if "p \<in> procs n" "mpi_exec p s = Some s'" for p s s'
  proof (rule sum_strict_mono_ex1)
    show "\<forall>q \<in> procs n. length (rest s' q) \<le> length (rest s q)" using mpi_exec_rest [OF that(2)] by auto
    show "\<exists>q \<in> procs n. length (rest s' q) < length (rest s q)"
      using mpi_exec_rest [OF that(2)] that(1) by (intro bexI [of _ p]) auto
  qed (simp add: procs_def)
  then show "{(s', s). mpi_next n s s'} \<subseteq> measure ?f" by (auto simp: mpi_next_def)
qed

end
