(* ===== verification/Dissemination.thy ===== *)
theory Dissemination
  imports Mpi_Net Prelude "HOL-Library.Log_Nat"
begin

text \<open>
  The dissemination barrier of \<open>src/aos/mpi/release/mpi/diss.c\<close>: in round \<open>k\<close> a process sends to the one
  \<open>2 ^ k\<close> above it and waits for the one \<open>2 ^ k\<close> below it. The theorems: no process leaves a barrier
  before all have entered it, and the program never deadlocks, whether or not \<open>MPI_Send\<close> waits for
  the receiver.
\<close>

section \<open>The program\<close>

definition NUM_BARRIERS :: nat where "NUM_BARRIERS = 1000"

text \<open>\<open>ceil(log2(procs))\<close>, and the peers of round \<open>k\<close>.\<close>

definition num_rounds :: "int \<Rightarrow> nat" where
  "num_rounds nprocs = ceillog2 (nat nprocs)"

definition diss_dest :: "int \<Rightarrow> int \<Rightarrow> nat \<Rightarrow> int" where
  "diss_dest nprocs my_id k = (my_id + 2 ^ k) smod nprocs"

definition diss_src :: "int \<Rightarrow> int \<Rightarrow> nat \<Rightarrow> int" where
  "diss_src nprocs my_id k = (nprocs + my_id - 2 ^ k) smod nprocs"

definition diss_round :: "int \<Rightarrow> int \<Rightarrow> nat \<Rightarrow> mpi_call list" where
  "diss_round nprocs my_id k =
     [MPI_Irecv (diss_src nprocs my_id k) k, MPI_Send (diss_dest nprocs my_id k) k, MPI_Wait (diss_src nprocs my_id k) k]"

definition diss_rounds :: "int \<Rightarrow> int \<Rightarrow> nat \<Rightarrow> mpi_call list" where
  "diss_rounds nprocs my_id k = concat (map (diss_round nprocs my_id) [0..<k])"

definition dissemination_barrier :: "int \<Rightarrow> int \<Rightarrow> mpi_call list" where
  "dissemination_barrier nprocs my_id = diss_rounds nprocs my_id (num_rounds nprocs)"

definition diss_main :: "int \<Rightarrow> int \<Rightarrow> mpi_call list" where
  "diss_main nprocs = repeated NUM_BARRIERS (dissemination_barrier nprocs)"

section \<open>Peers\<close>

lemma round_less: "k < num_rounds n \<Longrightarrow> 2 ^ k < n"
proof -
  assume k: "k < num_rounds n"
  have pos: "0 < nat n" using k by (cases "nat n") (simp_all add: num_rounds_def)
  then have "2 ^ k < nat n" using ceillog2_le_iff [OF pos, of k] k by (simp add: num_rounds_def)
  then have "int (2 ^ k) < n" by linarith
  then show "2 ^ k < n" by simp
qed

lemma rounds_enough: "0 < n \<Longrightarrow> n \<le> 2 ^ num_rounds n"
  using le_two_power_ceillog2 [of "nat n"] by (simp add: num_rounds_def nat_le_iff)

lemma peers_mod:
  assumes "p \<in> procs n" and "k < num_rounds n"
  shows "diss_dest n p k = (p + 2 ^ k) mod n" "diss_src n p k = (p - 2 ^ k) mod n"
proof -
  have k: "2 ^ k < n" by (rule round_less [OF assms(2)])
  moreover have "0 \<le> p" "p < n" using assms(1) by (simp_all add: procs_def)
  moreover have "(n + p - 2 ^ k) mod n = (p - 2 ^ k) mod n" by (metis add_diff_eq mod_add_self1)
  ultimately show "diss_dest n p k = (p + 2 ^ k) mod n" "diss_src n p k = (p - 2 ^ k) mod n"
    by (simp_all add: diss_dest_def diss_src_def smod_nonneg)
qed

lemma peers:
  assumes "p \<in> procs n" and "k < num_rounds n"
  shows "diss_src n p k \<in> procs n" "diss_dest n p k \<in> procs n"
    "diss_dest n (diss_src n p k) k = p" "diss_src n (diss_dest n p k) k = p"
proof -
  have n: "0 < n" and p: "p mod n = p" using assms(1) by (simp_all add: procs_def)
  show s: "diss_src n p k \<in> procs n" and d: "diss_dest n p k \<in> procs n"
    using n by (simp_all add: peers_mod [OF assms] procs_def)
  have "diss_dest n (diss_src n p k) k = (diss_src n p k + 2 ^ k) mod n" by (rule peers_mod(1) [OF s assms(2)])
  then show "diss_dest n (diss_src n p k) k = p" using p by (simp add: peers_mod(2) [OF assms] mod_simps)
  have "diss_src n (diss_dest n p k) k = (diss_dest n p k - 2 ^ k) mod n" by (rule peers_mod(2) [OF d assms(2)])
  then show "diss_src n (diss_dest n p k) k = p" using p by (simp add: peers_mod(1) [OF assms] mod_simps)
qed

section \<open>The calls of a barrier\<close>

lemma diss_rounds_Suc: "diss_rounds n p (Suc k) = diss_rounds n p k @ diss_round n p k"
  by (simp add: diss_rounds_def)

lemma diss_rounds_length: "length (diss_rounds n p k) = 3 * k"
  by (induction k) (simp_all add: diss_rounds_Suc, simp_all add: diss_rounds_def diss_round_def)

lemma diss_rounds_set: "c \<in> set (diss_rounds n p k) \<longleftrightarrow> (\<exists>i<k. c \<in> set (diss_round n p i))"
  by (auto simp: diss_rounds_def)

lemma diss_rounds_prefix: "j \<le> k \<Longrightarrow> prefix (diss_rounds n p j) (diss_rounds n p k)"
  by (induction k) (auto simp: diss_rounds_Suc le_Suc_eq)

lemma diss_rounds_distinct: "distinct (diss_rounds n p k)"
proof (induction k)
  case 0
  then show ?case by (simp add: diss_rounds_def)
next
  case (Suc k)
  then show ?case by (auto simp: diss_rounds_Suc diss_rounds_set) (auto simp: diss_round_def)
qed

lemma diss_round_prefix:
  "k < num_rounds n \<Longrightarrow> prefix (diss_rounds n p k @ diss_round n p k) (dissemination_barrier n p)"
  using diss_rounds_prefix [of "Suc k" "num_rounds n" n p] by (simp add: dissemination_barrier_def diss_rounds_Suc)

lemma diss_call_prefix:
  assumes "k < num_rounds n" and "prefix xs (diss_round n p k)"
  shows "prefix (diss_rounds n p k @ xs) (dissemination_barrier n p)"
  using diss_round_prefix [OF assms(1), of p] assms(2) by (auto simp: prefix_def)

interpretation diss_msgs: paired dissemination_barrier
proof unfold_locales
  fix p n q t
  assume p: "p \<in> procs n"
  show "distinct (dissemination_barrier n p)" by (simp add: dissemination_barrier_def diss_rounds_distinct)
  assume "MPI_Wait q t \<in> set (dissemination_barrier n p)"
  then have "t < num_rounds n" "q = diss_src n p t"
    by (auto simp: dissemination_barrier_def diss_rounds_set) (auto simp: diss_round_def)
  then show "q \<in> procs n \<and> MPI_Send p t \<in> set (dissemination_barrier n q)"
    using peers [OF p] by (auto simp: dissemination_barrier_def diss_rounds_set) (auto simp: diss_round_def)
qed

section \<open>What a process knows after each round\<close>

lemma sender_reached:
  assumes "mpi_run n (repeated m (dissemination_barrier n)) s" and "p \<in> procs n" and "e < m" and "k < num_rounds n"
    and "reached (dissemination_barrier n) s e p (diss_rounds n p (Suc k))"
  shows "reached (dissemination_barrier n) s e (diss_src n p k)
    (diss_rounds n (diss_src n p k) k @ take 2 (diss_round n (diss_src n p k) k))"
proof -
  let ?q = "diss_src n p k"
  have "diss_dest n ?q k = p" by (rule peers(3) [OF assms(2,4)])
  then have two: "take 2 (diss_round n ?q k) = [MPI_Irecv (diss_src n ?q k) k] @ [MPI_Send p k]"
    by (simp add: diss_round_def)
  let ?xs = "diss_rounds n p k @ [MPI_Irecv ?q k, MPI_Send (diss_dest n p k) k]"
  have all: "diss_rounds n p (Suc k) = ?xs @ [MPI_Wait ?q k]" by (simp add: diss_rounds_Suc diss_round_def)
  have "reached (dissemination_barrier n) s e ?q ((diss_rounds n ?q k @ [MPI_Irecv (diss_src n ?q k) k]) @ [MPI_Send p k])"
  proof (rule diss_msgs.wait_send [OF assms(1-3), where xs = ?xs])
    show "reached (dissemination_barrier n) s e p (?xs @ [MPI_Wait ?q k])" using assms(5) by (simp only: all)
    show "prefix (?xs @ [MPI_Wait ?q k]) (dissemination_barrier n p)"
      using diss_round_prefix [OF assms(4), of p] by (simp only: all [symmetric] diss_rounds_Suc)
    show "prefix ((diss_rounds n ?q k @ [MPI_Irecv (diss_src n ?q k) k]) @ [MPI_Send p k]) (dissemination_barrier n ?q)"
      using diss_call_prefix [OF assms(4) take_is_prefix [of 2 "diss_round n ?q k"]] by (simp add: two)
  qed
  then show ?thesis by (simp add: two)
qed

text \<open>After round \<open>k\<close> it knows that the \<open>2 ^ (k + 1)\<close> processes up to itself have entered the barrier.\<close>

lemma entered_after:
  assumes run: "mpi_run n (repeated m (dissemination_barrier n)) s" and "e < m"
  shows "p \<in> procs n \<Longrightarrow> k < num_rounds n \<Longrightarrow> reached (dissemination_barrier n) s e p (diss_rounds n p (Suc k)) \<Longrightarrow>
    0 \<le> j \<Longrightarrow> j < 2 ^ Suc k \<Longrightarrow>
    reached (dissemination_barrier n) s e ((p - j) mod n) (take 2 (diss_round n ((p - j) mod n) 0))"
proof (induction k arbitrary: p j)
  case 0
  have pm: "p mod n = p" using 0(1) by (simp add: procs_def)
  consider "j = 0" | "j = 1" using 0(4,5) by force
  then show ?case
  proof cases
    case 1
    have "prefix (take 2 (diss_round n p 0)) (diss_rounds n p (Suc 0))"
      by (simp add: diss_rounds_Suc diss_rounds_def take_is_prefix)
    then show ?thesis using reached_prefix [OF 0(3)] pm 1 by simp
  next
    case 2
    have "diss_src n p 0 = (p - 1) mod n" using peers_mod(2) [OF 0(1,2)] by simp
    then show ?thesis
      using sender_reached [OF run 0(1) assms(2) 0(2,3)] by (simp add: 2 diss_rounds_def)
  qed
next
  case (Suc k)
  have k: "k < num_rounds n" using Suc.prems(2) by simp
  show ?case
  proof (cases "j < 2 ^ Suc k")
    case True
    have "reached (dissemination_barrier n) s e p (diss_rounds n p (Suc k))"
      using reached_prefix [OF Suc.prems(3) diss_rounds_prefix] by simp
    then show ?thesis using Suc.IH [OF Suc.prems(1) k _ Suc.prems(4) True] by blast
  next
    case False
    let ?q = "diss_src n p (Suc k)"
    have "reached (dissemination_barrier n) s e ?q (diss_rounds n ?q (Suc k))"
      using sender_reached [OF run Suc.prems(1) assms(2) Suc.prems(2,3)] by (rule reached_prefix) simp
    moreover have "(?q - (j - 2 ^ Suc k)) mod n = (p - j) mod n"
      unfolding peers_mod(2) [OF Suc.prems(1,2)] by (simp only: mod_diff_left_eq) simp
    ultimately show ?thesis
      using Suc.IH [of ?q "j - 2 ^ Suc k"] peers(1) [OF Suc.prems(1,2)] k False Suc.prems(5) by simp
  qed
qed

text \<open>The calls ranked by their place in the barrier.\<close>

definition diss_rank :: "mpi_call \<Rightarrow> nat" where
  "diss_rank c = (case c of MPI_Irecv q k \<Rightarrow> 3 * k | MPI_Send q k \<Rightarrow> 3 * k + 1 | MPI_Wait q k \<Rightarrow> 3 * k + 2)"

lemma diss_rounds_ascending: "sorted_wrt (\<lambda>x y. diss_rank x < diss_rank y) (diss_rounds n p k) \<and>
    (\<forall>c \<in> set (diss_rounds n p k). diss_rank c < 3 * k)"
  by (induction k) (auto simp: diss_rounds_Suc sorted_wrt_append, auto simp: diss_rounds_def diss_round_def diss_rank_def)

interpretation diss: ranked dissemination_barrier "\<lambda>n p. diss_rank"
proof unfold_locales
  fix p n q t
  assume p: "p \<in> procs n"
  show "sorted_wrt (\<lambda>x y. diss_rank x < diss_rank y) (dissemination_barrier n p)"
    using diss_rounds_ascending by (simp add: dissemination_barrier_def)
  show "diss_rank (MPI_Send p t) < diss_rank (MPI_Wait q t)" by (simp add: diss_rank_def)
  assume "MPI_Send q t \<in> set (dissemination_barrier n p)"
  then have "t < num_rounds n" "q = diss_dest n p t"
    by (auto simp: dissemination_barrier_def diss_rounds_set) (auto simp: diss_round_def)
  then show "q \<in> procs n \<and> MPI_Irecv p t \<in> set (dissemination_barrier n q) \<and> diss_rank (MPI_Irecv p t) < diss_rank (MPI_Send q t)"
    using peers [OF p] by (auto simp: dissemination_barrier_def diss_rounds_set diss_rank_def) (auto simp: diss_round_def)
qed

section \<open>Properties\<close>

text \<open>C24. The dissemination barrier synchronises: in every execution of the program with \<open>n\<close> processes,
  whatever the interleaving, when one process has returned from its barrier number \<open>e\<close>, every
  process has entered its own barrier number \<open>e\<close> and sent the message of the first round.\<close>

theorem dissemination_synchronises:
  assumes "mpi_run n (diss_main n) s" and "e < NUM_BARRIERS" and "p \<in> procs n" and "q \<in> procs n"
    and "reached (dissemination_barrier n) s e p (dissemination_barrier n p)"
  shows "reached (dissemination_barrier n) s e q (take 2 (dissemination_barrier n q))"
proof (cases "num_rounds n")
  case 0
  have "0 < n" using assms(3) by (simp add: procs_def)
  then have "n \<le> 1" using rounds_enough [of n] 0 by simp
  then have "p = q" using assms(3,4) by (simp add: procs_def)
  then show ?thesis using assms(5) 0 by (simp add: dissemination_barrier_def diss_rounds_def)
next
  case (Suc k)
  define j where "j = (p - q) mod n"
  have n: "0 < n" "q mod n = q" using assms(4) by (simp_all add: procs_def)
  have "j < 2 ^ Suc k" using rounds_enough [OF n(1)] pos_mod_bound [OF n(1), of "p - q"] by (simp add: j_def Suc)
  moreover have "(p - j) mod n = q" using n by (simp add: j_def mod_simps)
  ultimately have "reached (dissemination_barrier n) s e q (take 2 (diss_round n q 0))"
    using entered_after [OF assms(1) [unfolded diss_main_def] assms(2,3), of k j] assms(5) n
    by (simp add: Suc dissemination_barrier_def j_def)
  moreover have "take 2 (dissemination_barrier n q) = take 2 (diss_round n q 0)"
  proof -
    obtain zs where "dissemination_barrier n q = diss_round n q 0 @ zs"
      using diss_round_prefix [of 0 n q] Suc by (auto simp: prefix_def diss_rounds_def)
    then show ?thesis by (simp add: diss_round_def)
  qed
  ultimately show ?thesis by simp
qed

lemma demo_pair: "num_rounds 2 = 1" "p \<in> {0, 1} \<Longrightarrow> dissemination_barrier 2 p = [MPI_Irecv (1 - p) 0, MPI_Send (1 - p) 0, MPI_Wait (1 - p) 0]"
  by (auto simp: num_rounds_def dissemination_barrier_def diss_rounds_def diss_round_def diss_src_def diss_dest_def smod_nonneg)

lemma demo_pair_main: "p \<in> {0, 1} \<Longrightarrow> diss_main 2 p =
    [MPI_Irecv (1 - p) 0, MPI_Send (1 - p) 0, MPI_Wait (1 - p) 0] @ repeated 999 (dissemination_barrier 2) p"
proof -
  assume p: "p \<in> {0, 1}"
  have N: "NUM_BARRIERS = Suc 999" by (simp add: NUM_BARRIERS_def)
  show ?thesis unfolding diss_main_def N repeated_Suc demo_pair(2) [OF p] by simp
qed

theorem dissemination_synchronises_witness:
  "\<exists>s. mpi_run 2 (diss_main 2) s \<and> hist s 0 = dissemination_barrier 2 0 \<and>
     prefix (take 2 (dissemination_barrier 2 1)) (hist s 1)"
proof -
  note sim = demo_pair_main [of 0] demo_pair_main [of 1]
  obtain s where run: "mpi_execs [0, 0, 1, 1, 0] (mpi_init (diss_main 2)) = Some s"
    and hist: "hist s 0 = [MPI_Irecv 1 0, MPI_Send 1 0, MPI_Wait 1 0]"
    by (simp add: mpi_exec_def mpi_init_def sim)
  have s: "mpi_run 2 (diss_main 2) s" using mpi_execs_run [OF mpi_run.start _ run] by (simp add: procs_def)
  have "reached (dissemination_barrier 2) s 0 0 (dissemination_barrier 2 0)"
    using hist demo_pair(2) [of 0] by (simp add: reached_def)
  then have "reached (dissemination_barrier 2) s 0 1 (take 2 (dissemination_barrier 2 1))"
    by (intro dissemination_synchronises [OF s, of 0 0 1]) (simp_all add: NUM_BARRIERS_def procs_def)
  then show ?thesis using s hist demo_pair(2) [of 0] by (auto simp: reached_def)
qed

text \<open>C25. The dissemination program terminates: its executions are finite, and until all processes have
  finished some process can make its next call, even if \<open>MPI_Send\<close> blocks until the receiver has
  posted the receive.\<close>

theorem dissemination_terminates:
  assumes "mpi_run n (diss_main n) s"
  shows "wf {(s', s). mpi_next n s s'} \<and> (finished_all n s \<or> (\<exists>p \<in> procs n. mpi_ready s p \<and> (\<exists>s'. mpi_exec p s = Some s')))"
  using mpi_next_wf diss.progress [OF assms [unfolded diss_main_def]] ready_exec unfolding finished_all_def by blast

theorem dissemination_terminates_witness: "\<exists>p \<in> procs 2. mpi_ready (mpi_init (diss_main 2)) p"
proof -
  have "\<not> finished_all 2 (mpi_init (diss_main 2))"
    using demo_pair_main [of 0] by (auto simp: finished_all_def mpi_init_def procs_def intro: bexI [of _ 0])
  then show ?thesis using dissemination_terminates [OF mpi_run.start, of 2] by blast
qed

end
