(* ===== verification/Tournament.thy ===== *)
theory Tournament
  imports Dissemination
begin

text \<open>
  The tournament barrier of \<open>src/aos/mpi/release/mpi/tourn.c\<close>: in round \<open>r\<close> the processes divisible by
  \<open>2 ^ r\<close> wait for their opponent, the others report to theirs and wait to be woken up; the
  winners wake up their opponents in the opposite order. All messages have the tag 1. The
  theorems: no process leaves a barrier before all have reported in it, and the program never
  deadlocks.
\<close>

section \<open>The program\<close>

function tournament_barrier :: "int \<Rightarrow> int \<Rightarrow> nat \<Rightarrow> mpi_call list" where
  "tournament_barrier nprocs my_id rnd =
     (if rnd > num_rounds nprocs then []
      else if my_id smod 2 ^ rnd = 0 then
        (let src = my_id + 2 ^ (rnd - 1) in
         if src \<ge> nprocs then tournament_barrier nprocs my_id (rnd + 1)
         else [MPI_Irecv src 1, MPI_Wait src 1] @ tournament_barrier nprocs my_id (rnd + 1) @ [MPI_Send src 1])
      else
        (let dest = my_id - 2 ^ (rnd - 1)
         in [MPI_Send dest 1, MPI_Irecv dest 1, MPI_Wait dest 1]))"
  by pat_completeness auto
termination by (relation "measure (\<lambda>(n, p, r). Suc (num_rounds n) - r)") auto

declare tournament_barrier.simps [simp del]

definition tourn_body :: "int \<Rightarrow> int \<Rightarrow> mpi_call list" where
  "tourn_body nprocs my_id = tournament_barrier nprocs my_id 1"

definition tourn_main :: "int \<Rightarrow> int \<Rightarrow> mpi_call list" where
  "tourn_main nprocs = repeated NUM_BARRIERS (tourn_body nprocs)"

section \<open>The tree of opponents\<close>

text \<open>The round a process loses, its opponent there, and the opponents it has beaten.\<close>

definition lose :: "int \<Rightarrow> nat" where
  "lose p = (LEAST j. \<not> 2 ^ j dvd p)"

definition last_round :: "int \<Rightarrow> int \<Rightarrow> nat" where
  "last_round n p = (if p = 0 then Suc (num_rounds n) else lose p)"

definition winner_of :: "int \<Rightarrow> int" where
  "winner_of p = p - 2 ^ (lose p - 1)"

lemma dvd_power_mono: "i \<le> j \<Longrightarrow> (2 :: int) ^ j dvd p \<Longrightarrow> 2 ^ i dvd p"
  by (rule dvd_trans [OF le_imp_power_dvd])

lemma lose:
  assumes "p \<in> procs n" and "p \<noteq> 0"
  shows "1 \<le> lose p" "lose p \<le> num_rounds n" "\<not> 2 ^ lose p dvd p" "j < lose p \<Longrightarrow> 2 ^ j dvd p"
proof -
  have p: "0 < p" "p < n" using assms by (simp_all add: procs_def)
  have "\<not> 2 ^ num_rounds n dvd p"
  proof
    assume "2 ^ num_rounds n dvd p"
    from zdvd_imp_le [OF this p(1)] show False using rounds_enough [of n] p by linarith
  qed
  then show "lose p \<le> num_rounds n" "\<not> 2 ^ lose p dvd p" unfolding lose_def by (rule Least_le, rule LeastI)
  then show "1 \<le> lose p" by (cases "lose p") simp_all
  show "2 ^ j dvd p" if "j < lose p" using that not_less_Least unfolding lose_def by blast
qed

lemma lose_unique: "2 ^ j dvd p \<Longrightarrow> \<not> 2 ^ Suc j dvd p \<Longrightarrow> lose p = Suc j"
  unfolding lose_def by (rule Least_equality) (auto simp: not_less_eq_eq [symmetric] dest: dvd_power_mono)

lemma winner:
  assumes "p \<in> procs n" and "p \<noteq> 0"
  shows "winner_of p \<in> procs n" "winner_of p < p" "2 ^ lose p dvd winner_of p" "winner_of p + 2 ^ (lose p - 1) = p"
    "lose p < last_round n (winner_of p)"
proof -
  note l = lose [OF assms]
  have p: "0 < p" "p < n" using assms by (simp_all add: procs_def)
  obtain j where j: "lose p = Suc j" using l(1) by (cases "lose p") simp_all
  have d: "2 ^ j dvd p" using l(4) j by simp
  then obtain c where c: "p = 2 ^ j * c" by blast
  have "\<not> even c"
  proof
    assume "even c"
    then have "2 ^ Suc j dvd p" unfolding c by auto
    then show False using l(3) j by simp
  qed
  then obtain b where b: "c = 2 * b + 1" by (elim oddE)
  have "winner_of p = p - 2 ^ j" by (simp add: winner_of_def j)
  also have "\<dots> = 2 ^ Suc j * b" by (simp add: c b algebra_simps)
  finally have w: "winner_of p = 2 ^ Suc j * b" .
  then show dv: "2 ^ lose p dvd winner_of p" by (simp add: j)
  have "2 ^ j \<le> p" "(0 :: int) < 2 ^ j" using zdvd_imp_le [OF d] p by simp_all
  then have "0 \<le> winner_of p \<and> winner_of p < n \<and> winner_of p < p" using p unfolding \<open>winner_of p = p - 2 ^ j\<close> by linarith
  then show "winner_of p \<in> procs n" "winner_of p < p" by (simp_all add: procs_def)
  then have wp: "winner_of p \<in> procs n" by simp
  show "winner_of p + 2 ^ (lose p - 1) = p" by (simp add: winner_of_def)
  show "lose p < last_round n (winner_of p)"
  proof (cases "winner_of p = 0")
    case True
    then show ?thesis using l(2) by (simp add: last_round_def)
  next
    case False
    then show ?thesis using lose(3) [OF wp] dv dvd_power_mono by (metis last_round_def not_less)
  qed
qed

lemma beaten:
  assumes "p \<in> procs n" and "1 \<le> j" and "j < last_round n p" and "p + 2 ^ (j - 1) < n"
  shows "p + 2 ^ (j - 1) \<in> procs n" "p + 2 ^ (j - 1) \<noteq> 0" "lose (p + 2 ^ (j - 1)) = j" "winner_of (p + 2 ^ (j - 1)) = p"
proof -
  obtain i where i: "j = Suc i" using assms(2) by (cases j) simp_all
  have dv: "2 ^ j dvd p"
    using assms(1,3) lose(4) [of p n j] by (cases "p = 0") (simp_all add: last_round_def)
  have "0 \<le> p" using assms(1) by (simp add: procs_def)
  then have "0 < p + 2 ^ (j - 1)" by (intro add_nonneg_pos) simp_all
  then show q: "p + 2 ^ (j - 1) \<in> procs n" "p + 2 ^ (j - 1) \<noteq> 0"
    using assms(4) by (simp_all add: procs_def)
  have "\<not> 2 ^ Suc i dvd (2 :: int) ^ i" by (simp add: power_dvd_imp_le)
  then have "\<not> 2 ^ Suc i dvd p + 2 ^ i" using dv i by (metis dvd_add_right_iff)
  moreover have "2 ^ i dvd p + 2 ^ i" using dv i by (metis dvd_add dvd_refl dvd_power_mono le_SucI le_refl)
  ultimately show "lose (p + 2 ^ (j - 1)) = j" using lose_unique [of i "p + 2 ^ i"] i by simp
  then show "winner_of (p + 2 ^ (j - 1)) = p" by (simp add: winner_of_def)
qed

section \<open>The calls of a barrier\<close>

definition recvs :: "int \<Rightarrow> int \<Rightarrow> nat list \<Rightarrow> mpi_call list" where
  "recvs n p js = concat (map (\<lambda>j. if p + 2 ^ (j - 1) < n
     then [MPI_Irecv (p + 2 ^ (j - 1)) 1, MPI_Wait (p + 2 ^ (j - 1)) 1] else []) js)"

definition wakes :: "int \<Rightarrow> int \<Rightarrow> nat list \<Rightarrow> mpi_call list" where
  "wakes n p js = concat (map (\<lambda>j. if p + 2 ^ (j - 1) < n then [MPI_Send (p + 2 ^ (j - 1)) 1] else []) js)"

definition report :: "int \<Rightarrow> mpi_call list" where
  "report p = (if p = 0 then [] else [MPI_Send (winner_of p) 1])"

definition woken :: "int \<Rightarrow> mpi_call list" where
  "woken p = (if p = 0 then [] else [MPI_Irecv (winner_of p) 1, MPI_Wait (winner_of p) 1])"

definition arrival :: "int \<Rightarrow> int \<Rightarrow> mpi_call list" where
  "arrival n p = recvs n p [1..<last_round n p] @ report p"

lemma tournament_unfold:
  assumes "p \<in> procs n" and "1 \<le> r" and "r \<le> last_round n p"
  shows "tournament_barrier n p r =
    recvs n p [r..<last_round n p] @ report p @ woken p @ wakes n p (rev [r..<last_round n p])"
  using assms(2,3)
proof (induction "last_round n p - r" arbitrary: r)
  case 0
  then have r: "r = last_round n p" by simp
  show ?case
  proof (cases "p = 0")
    case True
    then show ?thesis using r by (simp add: tournament_barrier.simps last_round_def recvs_def wakes_def report_def woken_def)
  next
    case False
    have "0 \<le> p" using assms(1) by (simp add: procs_def)
    then have "p smod 2 ^ lose p \<noteq> 0" using lose(3) [OF assms(1) False] by (simp add: smod_nonneg dvd_eq_mod_eq_0)
    then show ?thesis using r False lose(2) [OF assms(1) False]
      by (simp add: tournament_barrier.simps [of n p "lose p"] last_round_def recvs_def wakes_def report_def woken_def winner_of_def Let_def)
  qed
next
  case (Suc k)
  then have r: "r < last_round n p" by simp
  have "2 ^ r dvd p" "r \<le> num_rounds n"
    using r lose(2,4) [OF assms(1)] by (cases "p = 0"; fastforce simp: last_round_def)+
  moreover have "0 \<le> p" using assms(1) by (simp add: procs_def)
  ultimately have "p smod 2 ^ r = 0" "\<not> num_rounds n < r" by (simp_all add: smod_nonneg)
  moreover have "[r..<last_round n p] = r # [Suc r..<last_round n p]" using r by (simp add: upt_rec)
  moreover have "tournament_barrier n p (Suc r) =
      recvs n p [Suc r..<last_round n p] @ report p @ woken p @ wakes n p (rev [Suc r..<last_round n p])"
    using Suc r by simp
  ultimately show ?case
    by (simp add: tournament_barrier.simps [of n p r] recvs_def wakes_def Let_def)
qed

lemma last_round_pos: "p \<in> procs n \<Longrightarrow> 1 \<le> last_round n p"
  using lose(1) by (auto simp: last_round_def)

lemma tourn_body_eq:
  "p \<in> procs n \<Longrightarrow> tourn_body n p = arrival n p @ woken p @ wakes n p (rev [1..<last_round n p])"
  using tournament_unfold [of p n 1] last_round_pos by (simp add: tourn_body_def arrival_def)

section \<open>The order of the calls\<close>

text \<open>Up the tree round by round, then down; \<open>level\<close> is the round two opponents meet in.\<close>

definition level :: "int \<Rightarrow> int \<Rightarrow> nat" where
  "level p q = (if p < q then lose q else lose p)"

definition down_step :: "int \<Rightarrow> nat \<Rightarrow> nat" where
  "down_step n j = 3 * (num_rounds n + 1) + 3 * (num_rounds n + 1 - j)"

definition tourn_rank :: "int \<Rightarrow> int \<Rightarrow> mpi_call \<Rightarrow> nat" where
  "tourn_rank n p c = (case c of
     MPI_Irecv q _ \<Rightarrow> if p < q then 3 * level p q else down_step n (level p q)
   | MPI_Send q _ \<Rightarrow> if q < p then 3 * level p q + 1 else down_step n (level p q) + 1
   | MPI_Wait q _ \<Rightarrow> if p < q then 3 * level p q + 2 else down_step n (level p q) + 2)"

lemma recvs_snoc: "recvs n p (js @ [j]) = recvs n p js @ recvs n p [j]"
  and wakes_Cons: "wakes n p (j # js) = wakes n p [j] @ wakes n p js"
  by (simp_all add: recvs_def wakes_def)

lemma upt_snoc: "1 \<le> k \<Longrightarrow> [1..<Suc k] = [1..<k] @ [k]"
  by simp

lemma recvs_mem: "c \<in> set (recvs n p js) \<longleftrightarrow>
    (\<exists>j \<in> set js. p + 2 ^ (j - 1) < n \<and> (c = MPI_Irecv (p + 2 ^ (j - 1)) 1 \<or> c = MPI_Wait (p + 2 ^ (j - 1)) 1))"
  by (auto simp: recvs_def split: if_splits)

lemma wakes_mem: "c \<in> set (wakes n p js) \<longleftrightarrow> (\<exists>j \<in> set js. p + 2 ^ (j - 1) < n \<and> c = MPI_Send (p + 2 ^ (j - 1)) 1)"
  by (auto simp: wakes_def split: if_splits)

lemma child_ranks:
  assumes "p \<in> procs n" and "1 \<le> j" and "j < last_round n p" and "p + 2 ^ (j - 1) < n"
  shows "tourn_rank n p (MPI_Irecv (p + 2 ^ (j - 1)) t) = 3 * j" "tourn_rank n p (MPI_Wait (p + 2 ^ (j - 1)) t) = 3 * j + 2"
    "tourn_rank n p (MPI_Send (p + 2 ^ (j - 1)) t) = down_step n j + 1"
  using beaten(3) [OF assms] by (simp_all add: tourn_rank_def level_def)

lemma last_round_le: "p \<in> procs n \<Longrightarrow> last_round n p \<le> Suc (num_rounds n)"
  using lose(2) by (fastforce simp: last_round_def)

lemma recvs_ascending:
  assumes "p \<in> procs n" and "1 \<le> k" and "k \<le> last_round n p"
  shows "sorted_wrt (\<lambda>x y. tourn_rank n p x < tourn_rank n p y) (recvs n p [1..<k]) \<and>
    (\<forall>c \<in> set (recvs n p [1..<k]). tourn_rank n p c < 3 * k)"
  using assms(2,3)
proof (induction k rule: nat_induct_at_least)
  case base
  then show ?case by (simp add: recvs_def)
next
  case (Suc k)
  have IH: "sorted_wrt (\<lambda>x y. tourn_rank n p x < tourn_rank n p y) (recvs n p [1..<k])"
    "\<And>c. c \<in> set (recvs n p [1..<k]) \<Longrightarrow> tourn_rank n p c < 3 * k" using Suc by simp_all
  show ?case
  proof (cases "p + 2 ^ (k - 1) < n")
    case True
    note r = child_ranks [OF assms(1) Suc.hyps _ True, of 1]
    have "recvs n p [k] = [MPI_Irecv (p + 2 ^ (k - 1)) 1, MPI_Wait (p + 2 ^ (k - 1)) 1]" using True by (simp add: recvs_def)
    then show ?thesis using IH r Suc.prems less_trans
      unfolding upt_snoc [OF Suc.hyps] recvs_snoc by (fastforce simp: sorted_wrt_append)
  next
    case False
    then have "recvs n p [k] = []" by (simp add: recvs_def)
    then show ?thesis using IH less_trans unfolding upt_snoc [OF Suc.hyps] recvs_snoc by fastforce
  qed
qed

lemma wakes_ascending:
  assumes "p \<in> procs n" and "1 \<le> k" and "k \<le> last_round n p"
  shows "sorted_wrt (\<lambda>x y. tourn_rank n p x < tourn_rank n p y) (wakes n p (rev [1..<k])) \<and>
    (\<forall>c \<in> set (wakes n p (rev [1..<k])). down_step n k + 2 < tourn_rank n p c)"
  using assms(2,3)
proof (induction k rule: nat_induct_at_least)
  case base
  then show ?case by (simp add: wakes_def)
next
  case (Suc k)
  have IH: "sorted_wrt (\<lambda>x y. tourn_rank n p x < tourn_rank n p y) (wakes n p (rev [1..<k]))"
    "\<And>c. c \<in> set (wakes n p (rev [1..<k])) \<Longrightarrow> down_step n k + 2 < tourn_rank n p c" using Suc by simp_all
  have d: "down_step n (Suc k) + 3 = down_step n k"
    using Suc.prems last_round_le [OF assms(1)] by (simp add: down_step_def)
  have split: "wakes n p (rev [1..<Suc k]) = wakes n p [k] @ wakes n p (rev [1..<k])"
    unfolding upt_snoc [OF Suc.hyps] by (simp add: wakes_def)
  show ?case
  proof (cases "p + 2 ^ (k - 1) < n")
    case True
    have "wakes n p [k] = [MPI_Send (p + 2 ^ (k - 1)) 1]" using True by (simp add: wakes_def)
    then show ?thesis using IH child_ranks(3) [OF assms(1) Suc.hyps _ True, of 1] Suc.prems d
      unfolding split by fastforce
  next
    case False
    then have "wakes n p [k] = []" by (simp add: wakes_def)
    then show ?thesis using IH d unfolding split by fastforce
  qed
qed

lemma body_ascending:
  assumes p: "p \<in> procs n"
  shows "sorted_wrt (\<lambda>x y. tourn_rank n p x < tourn_rank n p y) (tourn_body n p)"
proof -
  let ?L = "last_round n p"
  note up = recvs_ascending [OF p last_round_pos [OF p] le_refl]
  note dn = wakes_ascending [OF p last_round_pos [OF p] le_refl]
  have low: "3 * ?L \<le> down_step n ?L" "3 * ?L + 1 < down_step n ?L \<or> p = 0" using last_round_le [OF p] lose(2) [OF p]
    by (auto simp: down_step_def last_round_def)
  show ?thesis
  proof (cases "p = 0")
    case True
    then show ?thesis using up dn low(1) unfolding tourn_body_eq [OF p] arrival_def
      by (fastforce simp: sorted_wrt_append report_def woken_def)
  next
    case False
    have "winner_of p < p" by (rule winner(2) [OF p False])
    then have "tourn_rank n p (MPI_Send (winner_of p) 1) = 3 * ?L + 1" "tourn_rank n p (MPI_Irecv (winner_of p) 1) = down_step n ?L"
      "tourn_rank n p (MPI_Wait (winner_of p) 1) = down_step n ?L + 2"
      using False by (simp_all add: tourn_rank_def level_def last_round_def)
    then show ?thesis using up dn low False unfolding tourn_body_eq [OF p] arrival_def
      by (fastforce simp: sorted_wrt_append report_def woken_def)
  qed
qed

lemma ascending_distinct: "sorted_wrt (\<lambda>x y. f x < (f y :: nat)) xs \<Longrightarrow> distinct xs"
  by (induction xs) auto

lemma body_calls:
  assumes "p \<in> procs n"
  shows "c \<in> set (tourn_body n p) \<longleftrightarrow>
    (\<exists>j. 1 \<le> j \<and> j < last_round n p \<and> p + 2 ^ (j - 1) < n \<and>
      c \<in> {MPI_Irecv (p + 2 ^ (j - 1)) 1, MPI_Wait (p + 2 ^ (j - 1)) 1, MPI_Send (p + 2 ^ (j - 1)) 1}) \<or>
    p \<noteq> 0 \<and> c \<in> {MPI_Send (winner_of p) 1, MPI_Irecv (winner_of p) 1, MPI_Wait (winner_of p) 1}"
  unfolding tourn_body_eq [OF assms] arrival_def
  by (auto simp: recvs_mem wakes_mem report_def woken_def)

lemma child_calls:
  assumes "p \<in> procs n" and "1 \<le> j" and "j < last_round n p" and "p + 2 ^ (j - 1) < n"
  shows "c \<in> {MPI_Send p 1, MPI_Irecv p 1, MPI_Wait p 1} \<Longrightarrow> c \<in> set (tourn_body n (p + 2 ^ (j - 1)))"
  using beaten [OF assms] body_calls [of "p + 2 ^ (j - 1)" n c] by simp

lemma winner_calls:
  assumes p: "p \<in> procs n" and nz: "p \<noteq> 0" and c: "c \<in> {MPI_Send p 1, MPI_Irecv p 1, MPI_Wait p 1}"
  shows "c \<in> set (tourn_body n (winner_of p))"
proof -
  note w = winner [OF p nz]
  have "p < n" using p by (simp add: procs_def)
  then show ?thesis
    using c w(5) lose(1) [OF p nz] unfolding body_calls [OF w(1)]
    by (intro disjI1 exI [of _ "lose p"]) (simp only: w(4), blast)
qed

interpretation tourn_msgs: paired tourn_body
proof unfold_locales
  fix p n q t
  assume p: "p \<in> procs n"
  show "distinct (tourn_body n p)" by (rule ascending_distinct [OF body_ascending [OF p]])
  assume "MPI_Wait q t \<in> set (tourn_body n p)"
  then consider j where "t = 1" "1 \<le> j" "j < last_round n p" "p + 2 ^ (j - 1) < n" "q = p + 2 ^ (j - 1)"
    | "t = 1" "p \<noteq> 0" "q = winner_of p"
    unfolding body_calls [OF p] by auto
  then show "q \<in> procs n \<and> MPI_Send p t \<in> set (tourn_body n q)"
  proof cases
    case 1
    then show ?thesis using child_calls [OF p 1(2-4)] beaten(1) [OF p 1(2-4)] by simp
  next
    case 2
    then show ?thesis using winner(1) [OF p 2(2)] winner_calls [OF p 2(2)] by simp
  qed
qed

interpretation tourn: ranked tourn_body tourn_rank
proof unfold_locales
  fix p n q t
  assume p: "p \<in> procs n"
  show "sorted_wrt (\<lambda>x y. tourn_rank n p x < tourn_rank n p y) (tourn_body n p)" by (rule body_ascending [OF p])
  have peer: "(p < q \<or> q < p)" if "c \<in> {MPI_Send q t, MPI_Irecv q t, MPI_Wait q t}" "c \<in> set (tourn_body n p)" for c
    using that winner(2) [OF p] unfolding body_calls [OF p] by auto
  show "tourn_rank n q (MPI_Send p t) < tourn_rank n p (MPI_Wait q t)" if "MPI_Wait q t \<in> set (tourn_body n p)"
    using peer [OF _ that] by (auto simp: tourn_rank_def level_def)
  assume send: "MPI_Send q t \<in> set (tourn_body n p)"
  then consider j where "t = 1" "1 \<le> j" "j < last_round n p" "p + 2 ^ (j - 1) < n" "q = p + 2 ^ (j - 1)"
    | "t = 1" "p \<noteq> 0" "q = winner_of p"
    unfolding body_calls [OF p] by auto
  then have "q \<in> procs n \<and> MPI_Irecv p t \<in> set (tourn_body n q)"
  proof cases
    case 1
    then show ?thesis using child_calls [OF p 1(2-4)] beaten(1) [OF p 1(2-4)] by simp
  next
    case 2
    then show ?thesis using winner(1) [OF p 2(2)] winner_calls [OF p 2(2)] by simp
  qed
  then show "q \<in> procs n \<and> MPI_Irecv p t \<in> set (tourn_body n q) \<and> tourn_rank n q (MPI_Irecv p t) < tourn_rank n p (MPI_Send q t)"
    using peer [OF _ send] by (auto simp: tourn_rank_def level_def)
qed

section \<open>Who has arrived\<close>

lemma arrival_prefix: "p \<in> procs n \<Longrightarrow> prefix (arrival n p) (tourn_body n p)"
  by (simp add: tourn_body_eq)

text \<open>Down the tree: when the winner of \<open>q\<close> has reported, so has \<open>q\<close>.\<close>

lemma arrived_child:
  assumes run: "mpi_run n (repeated m (tourn_body n)) s" and e: "e < m" and q: "q \<in> procs n" and nz: "q \<noteq> 0"
    and up: "reached (tourn_body n) s e (winner_of q) (arrival n (winner_of q))"
  shows "reached (tourn_body n) s e q (arrival n q)"
proof -
  let ?p = "winner_of q"
  note w = winner [OF q nz]
  have "MPI_Wait (?p + 2 ^ (lose q - 1)) 1 \<in> set (recvs n ?p [1..<last_round n ?p])"
    using w(4,5) lose(1) [OF q nz] q unfolding recvs_mem by (intro bexI [of _ "lose q"]) (simp_all add: procs_def)
  then have "MPI_Wait q 1 \<in> set (recvs n ?p [1..<last_round n ?p])" by (simp only: w(4))
  then obtain xs zs where "recvs n ?p [1..<last_round n ?p] = xs @ MPI_Wait q 1 # zs" by (meson split_list)
  then have x: "prefix (xs @ [MPI_Wait q 1]) (arrival n ?p)" by (simp add: arrival_def)
  have a: "arrival n q = recvs n q [1..<last_round n q] @ [MPI_Send ?p 1]" by (simp add: arrival_def report_def nz)
  show ?thesis unfolding a
  proof (rule tourn_msgs.wait_send [OF run w(1) e])
    show "reached (tourn_body n) s e ?p (xs @ [MPI_Wait q 1])" by (rule reached_prefix [OF up x])
    show "prefix (xs @ [MPI_Wait q 1]) (tourn_body n ?p)" using x arrival_prefix [OF w(1)] by (rule prefix_order.trans)
    show "prefix (recvs n q [1..<last_round n q] @ [MPI_Send ?p 1]) (tourn_body n q)"
      using arrival_prefix [OF q] by (simp only: a)
  qed
qed

text \<open>Up the tree: a process that has been woken up was woken up by one that had been, up to process 0.\<close>

lemma woken_winner:
  assumes run: "mpi_run n (repeated m (tourn_body n)) s" and e: "e < m" and p: "p \<in> procs n" and nz: "p \<noteq> 0"
    and up: "reached (tourn_body n) s e p (arrival n p @ woken p)"
  shows "reached (tourn_body n) s e (winner_of p) (arrival n (winner_of p) @ woken (winner_of p))"
proof -
  let ?q = "winner_of p"
  note w = winner [OF p nz]
  have "MPI_Send (?q + 2 ^ (lose p - 1)) 1 \<in> set (wakes n ?q (rev [1..<last_round n ?q]))"
    using w(4,5) lose(1) [OF p nz] p unfolding wakes_mem by (intro bexI [of _ "lose p"]) (simp_all add: procs_def)
  then have "MPI_Send p 1 \<in> set (wakes n ?q (rev [1..<last_round n ?q]))" by (simp only: w(4))
  then obtain ys zs where y: "wakes n ?q (rev [1..<last_round n ?q]) = ys @ MPI_Send p 1 # zs" by (meson split_list)
  have pw: "arrival n p @ woken p = (arrival n p @ [MPI_Irecv ?q 1]) @ [MPI_Wait ?q 1]" by (simp add: woken_def nz)
  have "reached (tourn_body n) s e ?q ((arrival n ?q @ woken ?q @ ys) @ [MPI_Send p 1])"
  proof (rule tourn_msgs.wait_send [OF run p e])
    show "reached (tourn_body n) s e p ((arrival n p @ [MPI_Irecv ?q 1]) @ [MPI_Wait ?q 1])" using up by (simp only: pw)
    show "prefix ((arrival n p @ [MPI_Irecv ?q 1]) @ [MPI_Wait ?q 1]) (tourn_body n p)"
      unfolding pw [symmetric] tourn_body_eq [OF p] by simp
    show "prefix ((arrival n ?q @ woken ?q @ ys) @ [MPI_Send p 1]) (tourn_body n ?q)"
      unfolding tourn_body_eq [OF w(1)] y by simp
  qed
  then show ?thesis by (rule reached_prefix) simp
qed

lemma woken_root:
  assumes run: "mpi_run n (repeated m (tourn_body n)) s" and e: "e < m"
  shows "p \<in> procs n \<Longrightarrow> reached (tourn_body n) s e p (arrival n p @ woken p) \<Longrightarrow> reached (tourn_body n) s e 0 (arrival n 0)"
proof (induction "nat p" arbitrary: p rule: less_induct)
  case less
  show ?case
  proof (cases "p = 0")
    case True
    then show ?thesis using less.prems(2) by (simp add: woken_def)
  next
    case False
    note w = winner [OF less.prems(1) False]
    have "nat (winner_of p) < nat p" using w(1,2) by (simp add: procs_def)
    from less.hyps [OF this w(1) woken_winner [OF run e less.prems(1) False less.prems(2)]] show ?thesis .
  qed
qed

lemma arrived_all:
  assumes run: "mpi_run n (repeated m (tourn_body n)) s" and e: "e < m" and root: "reached (tourn_body n) s e 0 (arrival n 0)"
  shows "q \<in> procs n \<Longrightarrow> reached (tourn_body n) s e q (arrival n q)"
proof (induction "nat q" arbitrary: q rule: less_induct)
  case less
  show ?case
  proof (cases "q = 0")
    case False
    note w = winner [OF less.prems False]
    have "nat (winner_of q) < nat q" using w(1,2) by (simp add: procs_def)
    from arrived_child [OF run e less.prems False less.hyps [OF this w(1)]] show ?thesis .
  qed (use root in simp)
qed

section \<open>Properties\<close>

text \<open>C26. The tournament barrier synchronises: in every execution with \<open>n\<close> processes, when one process
  has returned from its barrier number \<open>e\<close>, every process has entered its own barrier number \<open>e\<close>,
  heard from everyone it waits for there, and reported to its opponent.\<close>

theorem tournament_synchronises:
  assumes "mpi_run n (tourn_main n) s" and "e < NUM_BARRIERS" and "p \<in> procs n" and "q \<in> procs n"
    and "reached (tourn_body n) s e p (tourn_body n p)"
  shows "reached (tourn_body n) s e q (arrival n q)"
proof -
  note run = assms(1) [unfolded tourn_main_def]
  have "reached (tourn_body n) s e p (arrival n p @ woken p)"
    by (rule reached_prefix [OF assms(5)]) (simp add: tourn_body_eq [OF assms(3)])
  from arrived_all [OF run assms(2) woken_root [OF run assms(2,3) this] assms(4)] show ?thesis .
qed

lemma demo_match: "tourn_body 2 0 = [MPI_Irecv 1 1, MPI_Wait 1 1, MPI_Send 1 1]" "tourn_body 2 1 = [MPI_Send 0 1, MPI_Irecv 0 1, MPI_Wait 0 1]"
  by (simp_all add: tourn_body_def tournament_barrier.simps demo_pair(1) smod_nonneg)

lemma demo_match_main: "tourn_main 2 p = tourn_body 2 p @ repeated 999 (tourn_body 2) p"
proof -
  have N: "NUM_BARRIERS = Suc 999" by (simp add: NUM_BARRIERS_def)
  show ?thesis unfolding tourn_main_def N repeated_Suc ..
qed

theorem tournament_synchronises_witness:
  "\<exists>s. mpi_run 2 (tourn_main 2) s \<and> hist s 0 = tourn_body 2 0 \<and> prefix (arrival 2 1) (hist s 1)"
proof -
  obtain s where run: "mpi_execs [1, 0, 0, 0] (mpi_init (tourn_main 2)) = Some s"
    and hist: "hist s 0 = tourn_body 2 0"
    by (simp add: mpi_exec_def mpi_init_def demo_match_main demo_match)
  have s: "mpi_run 2 (tourn_main 2) s" using mpi_execs_run [OF mpi_run.start _ run] by (simp add: procs_def)
  have "reached (tourn_body 2) s 0 0 (tourn_body 2 0)" by (simp add: reached_def hist)
  then have "reached (tourn_body 2) s 0 1 (arrival 2 1)"
    by (intro tournament_synchronises [OF s, of 0 0 1]) (simp_all add: NUM_BARRIERS_def procs_def)
  then show ?thesis using s hist by (auto simp: reached_def)
qed

text \<open>The tournament program terminates: its executions are finite, and until all processes have
  finished some process can make its next call, even if \<open>MPI_Send\<close> blocks until the receiver has
  posted the receive.\<close>

theorem tournament_terminates:
  assumes "mpi_run n (tourn_main n) s"
  shows "wf {(s', s). mpi_next n s s'} \<and> (finished_all n s \<or> (\<exists>p \<in> procs n. mpi_ready s p \<and> (\<exists>s'. mpi_exec p s = Some s')))"
  using mpi_next_wf tourn.progress [OF assms [unfolded tourn_main_def]] ready_exec unfolding finished_all_def by blast

theorem tournament_terminates_witness: "\<exists>p \<in> procs 2. mpi_ready (mpi_init (tourn_main 2)) p"
proof -
  have "\<not> finished_all 2 (mpi_init (tourn_main 2))"
    by (auto simp: finished_all_def mpi_init_def procs_def demo_match_main demo_match intro: bexI [of _ 0])
  then show ?thesis using tournament_terminates [OF mpi_run.start, of 2] by blast
qed

end
