(* ===== verification/Sense_Barrier.thy ===== *)
theory Sense_Barrier
  imports Prelude
begin

text \<open>
  The sense-reversing barrier of \<open>src/aos/mpi/release/omp/barrier_sense.c\<close> and its copy in the hybrid
  \<open>src/aos/mpi/release/combined/mp_mpi_sendiss.c\<close>. The threads of the team are interleaved, one
  access to a shared variable at a time; the end of the parallel region joins them, and the loop of
  \<open>main\<close> opens the next region with the \<open>count\<close> and \<open>sense\<close> the last one left.

  The theorems: the barrier of the first region holds every thread back until all have arrived, it
  never deadlocks in any region, and from the second region on (in the hybrid program from the
  first) it holds nobody back, because \<open>sense\<close> is never set to true again.
\<close>

section \<open>The program\<close>

datatype sb_pc = Entering | Testing | Resetting | Flipping | Spinning | Leaving

record sb =
  sb_count :: int
  sb_sense :: bool
  local_sense :: "int \<Rightarrow> bool"
  sb_pc :: "int \<Rightarrow> sb_pc"
  region :: nat

definition team :: "int \<Rightarrow> int set" where
  "team n = {0..<n}"

definition sb_goto :: "int \<Rightarrow> sb_pc \<Rightarrow> sb \<Rightarrow> sb" where
  "sb_goto t l s = s\<lparr>sb_pc := (sb_pc s)(t := l)\<rparr>"

text \<open>One access of thread \<open>t\<close> of a team of \<open>num_threads\<close>; a pass of the spin loop may change nothing.\<close>

definition sb_exec :: "int \<Rightarrow> int \<Rightarrow> sb \<Rightarrow> sb option" where
  "sb_exec num_threads t s =
     (case sb_pc s t of
        Entering \<Rightarrow>
          Some (sb_goto t Testing (s\<lparr>local_sense := (local_sense s)(t := \<not> True), sb_count := sb_count s - 1\<rparr>))
      | Testing \<Rightarrow> Some (sb_goto t (if sb_count s = 0 then Resetting else Spinning) s)
      | Resetting \<Rightarrow> Some (sb_goto t Flipping (s\<lparr>sb_count := num_threads\<rparr>))
      | Flipping \<Rightarrow> Some (sb_goto t Leaving (s\<lparr>sb_sense := local_sense s t\<rparr>))
      | Spinning \<Rightarrow> Some (if sb_sense s \<noteq> local_sense s t then s else sb_goto t Leaving s)
      | Leaving \<Rightarrow> None)"

text \<open>The loop of \<open>main\<close>: \<open>barriers\<close> regions, 20 in the one program and 1000 in the other.\<close>

definition sb_next_region :: "sb \<Rightarrow> sb" where
  "sb_next_region s = s\<lparr>sb_pc := (\<lambda>_. Entering), region := region s + 1\<rparr>"

inductive sb_run :: "int \<Rightarrow> bool \<Rightarrow> nat \<Rightarrow> sb \<Rightarrow> bool" for num_threads sense0 barriers where
  start: "s = \<lparr>sb_count = num_threads, sb_sense = sense0, local_sense = l, sb_pc = (\<lambda>_. Entering), region = 0\<rparr> \<Longrightarrow>
     sb_run num_threads sense0 barriers s"
| step: "sb_run num_threads sense0 barriers s \<Longrightarrow> t \<in> team num_threads \<Longrightarrow> sb_exec num_threads t s = Some s' \<Longrightarrow>
     sb_run num_threads sense0 barriers s'"
| next_region: "sb_run num_threads sense0 barriers s \<Longrightarrow> \<forall>t \<in> team num_threads. sb_pc s t = Leaving \<Longrightarrow>
     region s + 1 < barriers \<Longrightarrow> sb_run num_threads sense0 barriers (sb_next_region s)"

text \<open>The threads of a list take a step each.\<close>

fun sb_execs :: "int \<Rightarrow> int list \<Rightarrow> sb \<Rightarrow> sb option" where
  "sb_execs n [] s = Some s"
| "sb_execs n (t # ts) s = (case sb_exec n t s of None \<Rightarrow> None | Some s' \<Rightarrow> sb_execs n ts s')"

lemma sb_execs_run:
  "sb_run n b m s \<Longrightarrow> set ts \<subseteq> team n \<Longrightarrow> sb_execs n ts s = Some s' \<Longrightarrow> sb_run n b m s'"
  by (induction n ts s rule: sb_execs.induct) (auto split: option.splits intro: sb_run.step)

lemma sb_goto_fields [simp]:
  "sb_count (sb_goto t l s) = sb_count s" "sb_sense (sb_goto t l s) = sb_sense s"
  "local_sense (sb_goto t l s) = local_sense s" "sb_pc (sb_goto t l s) = (sb_pc s)(t := l)" "region (sb_goto t l s) = region s"
  by (simp_all add: sb_goto_def)

lemma sb_next_region_fields [simp]:
  "sb_count (sb_next_region s) = sb_count s" "sb_sense (sb_next_region s) = sb_sense s"
  "local_sense (sb_next_region s) = local_sense s" "sb_pc (sb_next_region s) t = Entering" "region (sb_next_region s) = region s + 1"
  by (simp_all add: sb_next_region_def)

section \<open>The invariant\<close>

text \<open>Who has not arrived yet; \<open>count\<close> is their number until it is reset.\<close>

definition late :: "int \<Rightarrow> sb \<Rightarrow> int set" where
  "late n s = {t \<in> team n. sb_pc s t = Entering}"

definition counting :: "int \<Rightarrow> sb \<Rightarrow> bool" where
  "counting n s \<longleftrightarrow> sb_count s = int (card (late n s)) \<and>
     (\<forall>t \<in> team n. sb_pc s t \<noteq> Flipping \<and> (sb_pc s t = Resetting \<longrightarrow> late n s = {}) \<and> (sb_sense s \<longrightarrow> sb_pc s t \<noteq> Leaving)) \<and>
     (late n s = {} \<longrightarrow> (\<exists>t \<in> team n. sb_pc s t \<in> {Testing, Resetting}))"

definition released :: "int \<Rightarrow> sb \<Rightarrow> bool" where
  "released n s \<longleftrightarrow> late n s = {} \<and> sb_count s = n \<and> (\<not> sb_sense s \<or> (\<exists>t \<in> team n. sb_pc s t = Flipping))"

definition sb_inv :: "int \<Rightarrow> bool \<Rightarrow> sb \<Rightarrow> bool" where
  "sb_inv n b s \<longleftrightarrow> (counting n s \<and> (region s = 0 \<and> b \<longrightarrow> sb_sense s) \<or> released n s) \<and>
     (\<forall>t \<in> team n. sb_pc s t \<noteq> Entering \<longrightarrow> \<not> local_sense s t) \<and> (0 < region s \<or> \<not> b \<longrightarrow> \<not> sb_sense s)"

lemma late_finite: "finite (late n s)"
  by (rule finite_subset [of _ "{0..<n}"]) (auto simp: late_def team_def)

lemma late_goto:
  assumes "t \<in> team n" and "l \<noteq> Entering"
  shows "late n (sb_goto t l s) = late n s - {t}"
  using assms by (auto simp: late_def)

lemma late_cong: "sb_pc s' = sb_pc s \<Longrightarrow> late n s' = late n s"
  by (simp add: late_def)

lemma sb_step_inv:
  assumes inv: "sb_inv n b s" and t: "t \<in> team n" and n: "1 \<le> n" and step: "sb_exec n t s = Some s'"
  shows "sb_inv n b s'"
proof (cases "sb_pc s t")
  case Entering
  then have s': "s' = sb_goto t Testing (s\<lparr>local_sense := (local_sense s)(t := False), sb_count := sb_count s - 1\<rparr>)"
    using step by (simp add: sb_exec_def)
  have in_late: "t \<in> late n s" using Entering t by (simp add: late_def)
  have "counting n s" "region s = 0 \<and> b \<longrightarrow> sb_sense s" using inv in_late by (auto simp: sb_inv_def released_def)
  have late': "late n s' = late n s - {t}" by (auto simp: late_def s')
  have "int (card (late n s)) - 1 = int (card (late n s - {t}))"
    using card.remove [OF late_finite in_late] by simp
  then have "sb_count s' = int (card (late n s'))" using \<open>counting n s\<close> late' by (simp add: counting_def s')
  moreover have "\<forall>v \<in> team n. sb_pc s v \<noteq> Flipping \<and> sb_pc s v \<noteq> Resetting \<and> (sb_sense s \<longrightarrow> sb_pc s v \<noteq> Leaving)"
    using \<open>counting n s\<close> in_late unfolding counting_def by blast
  then have "\<forall>v \<in> team n. sb_pc s' v \<noteq> Flipping \<and> sb_pc s' v \<noteq> Resetting \<and> (sb_sense s' \<longrightarrow> sb_pc s' v \<noteq> Leaving)"
    by (simp add: s')
  moreover have "sb_pc s' t = Testing" by (simp add: s')
  ultimately have "counting n s'" using t unfolding counting_def by blast
  then show ?thesis using inv t \<open>region s = 0 \<and> b \<longrightarrow> sb_sense s\<close> by (auto simp: sb_inv_def s')
next
  case Testing
  then have s': "s' = sb_goto t (if sb_count s = 0 then Resetting else Spinning) s" using step by (simp add: sb_exec_def)
  have late': "late n s' = late n s" using Testing by (auto simp: late_def s')
  have count: "counting n s \<Longrightarrow> counting n s'"
    using t late' late_finite [of n s] unfolding counting_def by (auto simp: s' split: if_splits)
  have "sb_pc s' v = Flipping" if "sb_pc s v = Flipping" for v using that Testing by (auto simp: s')
  moreover have "sb_count s' = sb_count s" "sb_sense s' = sb_sense s" by (simp_all add: s')
  ultimately have "released n s \<Longrightarrow> released n s'" using late' unfolding released_def by metis
  then show ?thesis using inv t Testing count by (auto simp: sb_inv_def s')
next
  case Resetting
  then have s': "s' = sb_goto t Flipping (s\<lparr>sb_count := n\<rparr>)" using step by (simp add: sb_exec_def)
  have "late n s = {}" using inv t Resetting by (auto simp: sb_inv_def counting_def released_def)
  then have "late n s' = {}" by (auto simp: late_def s')
  then have "released n s'" using t by (auto simp: released_def s')
  then show ?thesis using inv t Resetting by (auto simp: sb_inv_def s')
next
  case Flipping
  then have s': "s' = sb_goto t Leaving (s\<lparr>sb_sense := local_sense s t\<rparr>)" using step by (simp add: sb_exec_def)
  have "\<not> local_sense s t" "released n s" using inv t Flipping by (auto simp: sb_inv_def counting_def)
  moreover have "late n s' = late n s" using Flipping by (auto simp: late_def s')
  ultimately have "released n s'" by (simp add: released_def s')
  then show ?thesis using inv t \<open>\<not> local_sense s t\<close> Flipping by (auto simp: sb_inv_def s')
next
  case Spinning
  have loc: "\<not> local_sense s t" using inv t Spinning by (auto simp: sb_inv_def)
  show ?thesis
  proof (cases "sb_sense s")
    case True
    then show ?thesis using step Spinning loc inv by (simp add: sb_exec_def)
  next
    case False
    then have s': "s' = sb_goto t Leaving s" using step Spinning loc by (simp add: sb_exec_def)
    have late': "late n s' = late n s" using Spinning by (auto simp: late_def s')
    have pc: "sb_pc s' v = sb_pc s v" if "sb_pc s v \<in> {Testing, Resetting}" for v using that Spinning by (auto simp: s')
    have "\<exists>v \<in> team n. sb_pc s' v \<in> {Testing, Resetting}" if "\<exists>v \<in> team n. sb_pc s v \<in> {Testing, Resetting}"
      using that pc by (metis (no_types, lifting))
    then have "counting n s \<Longrightarrow> counting n s'" using False late' unfolding counting_def by (simp add: s')
    moreover have "released n s \<Longrightarrow> released n s'" using False late' by (simp add: released_def s')
    ultimately show ?thesis using inv t Spinning by (auto simp: sb_inv_def s')
  qed
next
  case Leaving
  then show ?thesis using step by (simp add: sb_exec_def)
qed

lemma sb_run_inv: "sb_run n b m s \<Longrightarrow> 1 \<le> n \<Longrightarrow> sb_inv n b s"
proof (induction rule: sb_run.induct)
  case (start s l)
  have "late n s = team n" by (auto simp: late_def start(1))
  then have "counting n s" using start by (auto simp: counting_def team_def)
  then show ?case using start(1) by (auto simp: sb_inv_def)
next
  case (step s t s')
  then show ?case using sb_step_inv by blast
next
  case (next_region s)
  have inv: "sb_inv n b s" using next_region by simp
  have "\<not> counting n s" using next_region(2) by (auto simp: counting_def late_def)
  then have "sb_count s = n" "\<not> sb_sense s" using inv next_region(2) by (auto simp: sb_inv_def released_def)
  moreover have "late n (sb_next_region s) = team n" by (auto simp: late_def)
  ultimately have "counting n (sb_next_region s)" using next_region.prems by (auto simp: counting_def team_def)
  then show ?case using \<open>\<not> sb_sense s\<close> by (auto simp: sb_inv_def)
qed

section \<open>Properties\<close>

text \<open>The first barrier of the sense-reversing program synchronises: in every interleaving of its first
  region, when a thread leaves the barrier, all threads have arrived at it, although \<open>count\<close> is
  tested outside the critical section and several threads may find it zero.\<close>

theorem sense_barrier_first_region:
  assumes "sb_run n True m s" and "region s = 0" and "t \<in> team n" and "sb_pc s t = Leaving" and "u \<in> team n"
  shows "sb_pc s u \<noteq> Entering"
proof
  assume u: "sb_pc s u = Entering"
  have n: "1 \<le> n" using assms(3) by (simp add: team_def)
  have "late n s \<noteq> {}" using u assms(5) by (auto simp: late_def)
  then show False using sb_run_inv [OF assms(1) n] assms(2-4) by (auto simp: sb_inv_def released_def counting_def)
qed

definition sb_start :: "int \<Rightarrow> bool \<Rightarrow> sb" where
  "sb_start n b = \<lparr>sb_count = n, sb_sense = b, local_sense = (\<lambda>_. True), sb_pc = (\<lambda>_. Entering), region = 0\<rparr>"

lemma sb_start_run: "sb_run n b m (sb_start n b)"
  by (rule sb_run.start) (simp add: sb_start_def)

theorem sense_barrier_first_region_witness:
  "\<exists>s. sb_run 2 True 20 s \<and> sb_pc s 1 = Leaving \<and> sb_pc s 0 = Spinning \<and> sb_pc s 0 \<noteq> Entering"
proof -
  obtain s where run: "sb_execs 2 [0, 0, 1, 1, 1, 1] (sb_start 2 True) = Some s"
    and pc: "sb_pc s 1 = Leaving" "sb_pc s 0 = Spinning" "region s = 0"
    by (simp add: sb_exec_def sb_start_def)
  have "sb_run 2 True 20 s" using sb_execs_run [OF sb_start_run _ run] by (simp add: team_def)
  then show ?thesis
    using sense_barrier_first_region [of 2 20 s 1 0] pc by (auto simp: team_def)
qed

text \<open>The sense-reversing barrier never deadlocks: in every region of every execution, as long as a
  thread has not left the barrier, some thread can make progress in it.\<close>

theorem sense_barrier_progress:
  assumes "sb_run n b m s" and "t \<in> team n" and "sb_pc s t \<noteq> Leaving"
  shows "\<exists>u \<in> team n. \<exists>s'. sb_exec n u s = Some s' \<and> sb_pc s' u \<noteq> sb_pc s u"
proof -
  have inv: "sb_inv n b s" using sb_run_inv [OF assms(1)] assms(2) by (simp add: team_def)
  show ?thesis
  proof (cases "\<exists>u \<in> team n. sb_pc s u \<notin> {Spinning, Leaving}")
    case True
    then obtain u where u: "u \<in> team n" "sb_pc s u \<notin> {Spinning, Leaving}" by blast
    then show ?thesis by (intro bexI [OF _ u(1)]) (cases "sb_pc s u"; simp add: sb_exec_def)
  next
    case False
    then have spin: "\<forall>u \<in> team n. sb_pc s u \<in> {Spinning, Leaving}" by blast
    then have "late n s = {}" by (auto simp: late_def)
    moreover have "\<not> counting n s" using spin \<open>late n s = {}\<close> by (auto simp: counting_def)
    ultimately have "\<not> sb_sense s" using inv spin by (auto simp: sb_inv_def released_def)
    moreover have "sb_pc s t = Spinning" using spin assms(2,3) by auto
    moreover have "\<not> local_sense s t" using inv assms(2) calculation(2) by (auto simp: sb_inv_def)
    ultimately show ?thesis using assms(2) by (intro bexI [OF _ assms(2)]) (simp add: sb_exec_def)
  qed
qed

theorem sense_barrier_progress_witness:
  "\<exists>u \<in> team 2. \<exists>s'. sb_exec 2 u (sb_start 2 True) = Some s' \<and> sb_pc s' u \<noteq> sb_pc (sb_start 2 True) u"
  by (rule sense_barrier_progress [OF sb_start_run, of 0]) (simp_all add: team_def sb_start_def)

text \<open>C35. The barrier works only once: from the second region on, and in the hybrid program, whose \<open>sense\<close>
  starts as false, already in the first, a thread passes the barrier on its own with three steps
  while others have not arrived, because \<open>local_sense\<close> is false in every region and \<open>sense\<close> is
  never set back to true.\<close>

theorem sense_barrier_holds_nobody:
  assumes "sb_run n b m s" and "0 < region s \<or> \<not> b" and "t \<in> team n" and "u \<in> team n" and "t \<noteq> u"
    and "sb_pc s t = Entering" and "sb_pc s u = Entering"
  shows "\<exists>s1 s2 s3. sb_exec n t s = Some s1 \<and> sb_exec n t s1 = Some s2 \<and> sb_exec n t s2 = Some s3 \<and>
    sb_run n b m s3 \<and> sb_pc s3 t = Leaving \<and> sb_pc s3 u = Entering"
proof -
  have inv: "sb_inv n b s" using sb_run_inv [OF assms(1)] assms(3) by (simp add: team_def)
  have tu: "{t, u} \<subseteq> late n s" using assms(3,4,6,7) by (simp add: late_def)
  have "counting n s" "\<not> sb_sense s" using inv tu assms(2) by (auto simp: sb_inv_def released_def)
  moreover have "card {t, u} \<le> card (late n s)" by (rule card_mono [OF late_finite tu])
  ultimately have count: "sb_count s - 1 \<noteq> 0" using assms(5) by (simp add: counting_def)
  define s1 where "s1 = sb_goto t Testing (s\<lparr>local_sense := (local_sense s)(t := False), sb_count := sb_count s - 1\<rparr>)"
  have e1: "sb_exec n t s = Some s1" using assms(6) by (simp add: sb_exec_def s1_def)
  have e2: "sb_exec n t s1 = Some (sb_goto t Spinning s1)" using count by (simp add: sb_exec_def s1_def)
  have e3: "sb_exec n t (sb_goto t Spinning s1) = Some (sb_goto t Leaving (sb_goto t Spinning s1))"
    using \<open>\<not> sb_sense s\<close> by (simp add: sb_exec_def s1_def)
  have "sb_run n b m (sb_goto t Leaving (sb_goto t Spinning s1))"
    using sb_run.step [OF sb_run.step [OF sb_run.step [OF assms(1,3) e1] assms(3) e2] assms(3) e3] .
  then show ?thesis using e1 e2 e3 assms(5,7) by (auto simp: s1_def)
qed

theorem sense_barrier_holds_nobody_witness:
  "\<exists>s. sb_run 2 False 1000 s \<and> sb_pc s 0 = Leaving \<and> sb_pc s 1 = Entering"
  using sense_barrier_holds_nobody [of 2 False 1000 "sb_start 2 False" 0 1] sb_start_run
  by (auto simp: team_def) (auto simp: sb_start_def)

end
