(* ===== verification/Tree_Barrier.thy ===== *)
theory Tree_Barrier
  imports Sense_Barrier
begin

text \<open>
  The combining tree barrier of \<open>src/aos/mpi/release/omp/tree_barrier.c\<close>: two threads meet at a leaf,
  the one that finds the count zero goes on to the parent node (\<open>recurse\<close>), the others spin on
  \<open>lock_sense\<close> of their node. The threads are interleaved, one access to a shared variable at a time.

  The theorems: the two threads of a leaf wait for each other, and the whole team does not: since the
  count is tested outside the critical section, both threads of a leaf can find it zero and report
  twice to the parent, which then releases its subtree although the other one has not arrived.
\<close>

section \<open>The program\<close>

text \<open>
  Where a thread is: at the decrement, the test or the spin loop of a node, with the nodes below at
  which it still has to set \<open>lock_sense\<close> when \<open>recurse\<close> returns; or setting them.
\<close>

datatype tb_pc =
    TDec int "int list"
  | TTest int "int list"
  | TSpin int "int list"
  | TRelease "int list"
  | TLeft

record tb =
  tb_count :: "int \<Rightarrow> int"
  lock_sense :: "int \<Rightarrow> bool"
  tb_pc :: "int \<Rightarrow> tb_pc"

definition tb_goto :: "int \<Rightarrow> tb_pc \<Rightarrow> tb \<Rightarrow> tb" where
  "tb_goto t l s = s\<lparr>tb_pc := (tb_pc s)(t := l)\<rparr>"

text \<open>The call of \<open>recurse\<close> from node \<open>v\<close>; the last level returns at once.\<close>

definition tb_parent :: "int \<Rightarrow> int \<Rightarrow> int" where
  "tb_parent N v = v div 2 + N div 2"

definition recurse :: "int \<Rightarrow> int \<Rightarrow> int list \<Rightarrow> tb_pc" where
  "recurse N v vs = (if tb_parent N v \<ge> N - 1 then TRelease (v # vs) else TDec (tb_parent N v) (v # vs))"

definition tb_return :: "int list \<Rightarrow> tb_pc" where
  "tb_return vs = (if vs = [] then TLeft else TRelease vs)"

text \<open>\<open>local_sense\<close> is false in every region.\<close>

definition tb_exec :: "int \<Rightarrow> int \<Rightarrow> tb \<Rightarrow> tb option" where
  "tb_exec N t s =
     (case tb_pc s t of
        TDec v vs \<Rightarrow> Some (tb_goto t (TTest v vs) (s\<lparr>tb_count := (tb_count s)(v := tb_count s v - 1)\<rparr>))
      | TTest v vs \<Rightarrow> Some (tb_goto t (if tb_count s v = 0 then recurse N v vs else TSpin v vs) s)
      | TSpin v vs \<Rightarrow> Some (if lock_sense s v then s else tb_goto t (tb_return vs) s)
      | TRelease [] \<Rightarrow> None
      | TRelease (v # vs) \<Rightarrow> Some (tb_goto t (tb_return vs) (s\<lparr>lock_sense := (lock_sense s)(v := False)\<rparr>))
      | TLeft \<Rightarrow> None)"

definition tb_start :: tb where
  "tb_start = \<lparr>tb_count = (\<lambda>_. 2), lock_sense = (\<lambda>_. True), tb_pc = (\<lambda>t. TDec (t div 2) [])\<rparr>"

text \<open>The first region of \<open>main\<close>.\<close>

inductive tb_run :: "int \<Rightarrow> tb \<Rightarrow> bool" for N where
  start: "tb_run N tb_start"
| step: "tb_run N s \<Longrightarrow> t \<in> team N \<Longrightarrow> tb_exec N t s = Some s' \<Longrightarrow> tb_run N s'"

lemma tb_goto_fields [simp]:
  "tb_count (tb_goto t l s) = tb_count s" "lock_sense (tb_goto t l s) = lock_sense s"
  "tb_pc (tb_goto t l s) = (tb_pc s)(t := l)"
  by (simp_all add: tb_goto_def)

section \<open>Leaves\<close>

text \<open>The threads that have not arrived at leaf \<open>v\<close>.\<close>

definition absent :: "int \<Rightarrow> tb \<Rightarrow> int \<Rightarrow> int set" where
  "absent N s v = {t \<in> team N. t div 2 = v \<and> tb_pc s t = TDec v []}"

text \<open>A thread past its leaf found it complete; the nodes it works on further up are not leaves.\<close>

definition stack_ok :: "int \<Rightarrow> tb \<Rightarrow> int \<Rightarrow> int \<Rightarrow> int list \<Rightarrow> bool" where
  "stack_ok N s t v vs \<longleftrightarrow> (if vs = [] then v = t div 2 else N div 2 \<le> v \<and> absent N s (t div 2) = {}) \<and>
     (\<forall>w \<in> set vs. w < N div 2 \<longrightarrow> absent N s w = {})"

fun pc_ok :: "int \<Rightarrow> tb \<Rightarrow> int \<Rightarrow> tb_pc \<Rightarrow> bool" where
  "pc_ok N s t (TDec v vs) = stack_ok N s t v vs"
| "pc_ok N s t (TTest v vs) = stack_ok N s t v vs"
| "pc_ok N s t (TSpin v vs) = stack_ok N s t v vs"
| "pc_ok N s t (TRelease vs) = (absent N s (t div 2) = {} \<and> (\<forall>w \<in> set vs. w < N div 2 \<longrightarrow> absent N s w = {}))"
| "pc_ok N s t TLeft = (absent N s (t div 2) = {})"

definition tb_inv :: "int \<Rightarrow> tb \<Rightarrow> bool" where
  "tb_inv N s \<longleftrightarrow>
     (\<forall>v. 0 \<le> v \<and> v < N div 2 \<longrightarrow> tb_count s v = int (card (absent N s v)) \<and> (\<not> lock_sense s v \<longrightarrow> absent N s v = {})) \<and>
     (\<forall>t \<in> team N. pc_ok N s t (tb_pc s t))"

lemma absent_finite: "finite (absent N s v)"
  by (rule finite_subset [of _ "{0..<N}"]) (auto simp: absent_def team_def)

lemma leaf_range:
  assumes "even N" and "t \<in> team N" shows "0 \<le> t div 2" "t div 2 < N div 2"
  using assms by (auto simp: team_def elim!: evenE)

text \<open>Absences only shrink, and with them the conditions on the other threads survive.\<close>

lemma pc_ok_mono:
  assumes "\<And>v. absent N s' v \<subseteq> absent N s v" and "pc_ok N s t l"
  shows "pc_ok N s' t l"
proof -
  have e: "absent N s v = {} \<Longrightarrow> absent N s' v = {}" for v using assms(1) [of v] by blast
  show ?thesis using assms(2) e by (cases l) (auto simp: stack_ok_def)
qed

lemma tb_inv_step:
  assumes inv: "tb_inv N s" and even: "even N" and t: "t \<in> team N"
    and late: "\<And>v. absent N s' v \<subseteq> absent N s v"
    and pcs: "\<And>u. u \<noteq> t \<Longrightarrow> tb_pc s' u = tb_pc s u" and pc: "pc_ok N s' t (tb_pc s' t)"
    and count: "\<And>v. 0 \<le> v \<Longrightarrow> v < N div 2 \<Longrightarrow> tb_count s' v = int (card (absent N s' v))"
    and sense: "\<And>v. 0 \<le> v \<Longrightarrow> v < N div 2 \<Longrightarrow> \<not> lock_sense s' v \<Longrightarrow> lock_sense s v \<Longrightarrow> absent N s v = {}"
  shows "tb_inv N s'"
proof -
  have "pc_ok N s' u (tb_pc s' u)" if "u \<in> team N" for u
    using that pc pcs [of u] inv pc_ok_mono [OF late, of u "tb_pc s u"] by (cases "u = t") (auto simp: tb_inv_def)
  moreover have "absent N s' v = {}" if "0 \<le> v" "v < N div 2" "\<not> lock_sense s' v" for v
    using sense [OF that] inv that late [of v] by (cases "lock_sense s v") (auto simp: tb_inv_def)
  ultimately show ?thesis using count by (simp add: tb_inv_def)
qed

lemma absent_goto: "l \<noteq> TDec (t div 2) [] \<Longrightarrow> absent N (tb_goto t l s) v = absent N s v - {t}"
  by (auto simp: absent_def)

lemma absent_same: "tb_pc s t \<noteq> TDec v [] \<Longrightarrow> absent N s v - {t} = absent N s v"
  by (auto simp: absent_def)

lemma absent_cong: "tb_pc s' = tb_pc s \<Longrightarrow> absent N s' = absent N s"
  by (auto simp: absent_def fun_eq_iff)

lemma tb_exec_inv:
  assumes inv: "tb_inv N s" and even: "even N" and t: "t \<in> team N" and step: "tb_exec N t s = Some s'"
  shows "tb_inv N s'"
proof -
  note leaf = leaf_range [OF even t]
  have ok: "pc_ok N s t (tb_pc s t)" using inv t by (simp add: tb_inv_def)
  have counts: "tb_count s v = int (card (absent N s v))" "\<not> lock_sense s v \<Longrightarrow> absent N s v = {}"
    if "0 \<le> v" "v < N div 2" for v using inv that by (auto simp: tb_inv_def)
  show ?thesis
  proof (cases "tb_pc s t")
    case (TDec v vs)
    define s1 where "s1 = s\<lparr>tb_count := (tb_count s)(v := tb_count s v - 1)\<rparr>"
    have s': "s' = tb_goto t (TTest v vs) s1" using step TDec by (simp add: tb_exec_def s1_def)
    have pc1: "absent N s1 = absent N s" by (rule absent_cong) (simp add: s1_def)
    have ab: "absent N s' w = absent N s w - {t}" for w unfolding s' by (subst absent_goto) (simp_all add: pc1)
    show ?thesis
    proof (rule tb_inv_step [OF inv even t])
      show "pc_ok N s' t (tb_pc s' t)" using ok TDec ab unfolding s' by (auto simp: stack_ok_def s1_def)
      show "absent N s' w \<subseteq> absent N s w" for w by (auto simp: ab)
      fix w assume w: "0 \<le> w" "w < N div 2"
      show "tb_count s' w = int (card (absent N s' w))"
      proof (cases "vs = [] \<and> w = v")
        case True
        then have "t \<in> absent N s w" using ok TDec t by (simp add: absent_def stack_ok_def)
        from card.remove [OF absent_finite this] have "card (absent N s w) = Suc (card (absent N s w - {t}))" .
        moreover have "tb_count s' w = tb_count s w - 1" using True by (simp add: s' s1_def)
        ultimately show ?thesis using counts(1) [OF w] unfolding ab by linarith
      next
        case False
        then have "t \<notin> absent N s w" "w \<noteq> v" using TDec ok w by (auto simp: absent_def stack_ok_def split: if_splits)
        moreover from this have "tb_count s' w = tb_count s w" by (simp add: s' s1_def)
        ultimately show ?thesis using counts(1) [OF w] unfolding ab by simp
      qed
    qed (auto simp: s' s1_def)
  next
    case (TTest v vs)
    have s': "s' = tb_goto t (if tb_count s v = 0 then recurse N v vs else TSpin v vs) s" using step TTest by (simp add: tb_exec_def)
    have "recurse N v vs \<noteq> TDec (t div 2) []" by (simp add: recurse_def)
    then have ab: "absent N s' w = absent N s w" for w
      unfolding s' using absent_same [of s t w N] TTest by (simp add: absent_goto)
    have up: "N div 2 \<le> tb_parent N v" using ok TTest leaf by (auto simp: tb_parent_def stack_ok_def split: if_splits)
    have found: "absent N s v = {}" if "tb_count s v = 0" "v < N div 2"
      using that counts(1) [of v] ok TTest leaf absent_finite [of N s v] by (auto simp: stack_ok_def split: if_splits)
    have "pc_ok N s t (if tb_count s v = 0 then recurse N v vs else TSpin v vs)"
      using ok TTest found up leaf by (auto simp: stack_ok_def recurse_def split: if_splits)
    then have "pc_ok N s' t (tb_pc s' t)" using pc_ok_mono [of N s' s] ab by (simp add: s')
    moreover have "tb_count s' = tb_count s" "lock_sense s' = lock_sense s" "\<And>u. u \<noteq> t \<Longrightarrow> tb_pc s' u = tb_pc s u"
      by (simp_all add: s')
    ultimately show ?thesis by (intro tb_inv_step [OF inv even t]) (simp_all add: ab counts)
  next
    case (TSpin v vs)
    show ?thesis
    proof (cases "lock_sense s v")
      case True
      then show ?thesis using step TSpin inv by (simp add: tb_exec_def)
    next
      case False
      then have s': "s' = tb_goto t (tb_return vs) s" using step TSpin by (simp add: tb_exec_def)
      have ab: "absent N s' w = absent N s w" for w
        unfolding s' using absent_same [of s t w N] TSpin by (simp add: absent_goto tb_return_def)
      have "pc_ok N s t (tb_return vs)"
        using ok TSpin counts(2) [of v] leaf False by (auto simp: stack_ok_def tb_return_def split: if_splits)
      then have "pc_ok N s' t (tb_pc s' t)" using pc_ok_mono [of N s' s] ab by (simp add: s')
      moreover have "tb_count s' = tb_count s" "lock_sense s' = lock_sense s" "\<And>u. u \<noteq> t \<Longrightarrow> tb_pc s' u = tb_pc s u"
        by (simp_all add: s')
      ultimately show ?thesis by (intro tb_inv_step [OF inv even t]) (simp_all add: ab counts)
    qed
  next
    case (TRelease vs)
    then obtain v ws where vs: "vs = v # ws" using step by (cases vs) (simp_all add: tb_exec_def)
    define s1 where "s1 = s\<lparr>lock_sense := (lock_sense s)(v := False)\<rparr>"
    have s': "s' = tb_goto t (tb_return ws) s1" using step TRelease vs by (simp add: tb_exec_def s1_def)
    have pc1: "absent N s1 = absent N s" by (rule absent_cong) (simp add: s1_def)
    have ab: "absent N s' w = absent N s w" for w
      unfolding s' using absent_same [of s t w N] TRelease by (simp add: absent_goto tb_return_def pc1)
    have "pc_ok N s t (tb_return ws)" using ok TRelease vs by (auto simp: tb_return_def)
    then have "pc_ok N s' t (tb_pc s' t)" using pc_ok_mono [of N s' s] ab by (simp add: s')
    moreover have "tb_count s' = tb_count s" "\<And>u. u \<noteq> t \<Longrightarrow> tb_pc s' u = tb_pc s u"
      "\<And>w. \<not> lock_sense s' w \<Longrightarrow> lock_sense s w \<Longrightarrow> w = v"
      by (auto simp: s' s1_def split: if_splits)
    moreover have "v < N div 2 \<Longrightarrow> absent N s v = {}" using ok TRelease vs by simp
    ultimately show ?thesis by (intro tb_inv_step [OF inv even t]) (auto simp: ab counts)
  next
    case TLeft
    then show ?thesis using step by (simp add: tb_exec_def)
  qed
qed

lemma tb_run_inv: "tb_run N s \<Longrightarrow> even N \<Longrightarrow> tb_inv N s"
proof (induction rule: tb_run.induct)
  case start
  have "absent N tb_start v = {2 * v, 2 * v + 1}" if "0 \<le> v" "v < N div 2" for v
    using that start by (auto simp: absent_def tb_start_def team_def elim!: evenE)
  then show ?case by (auto simp: tb_inv_def tb_start_def stack_ok_def)
next
  case (step s t s')
  then show ?case using tb_exec_inv by blast
qed

section \<open>Properties\<close>

text \<open>In the combining tree the two threads of a leaf wait for each other: with an even number of threads,
  when a thread has left the barrier, its neighbour at the same leaf has arrived.\<close>

theorem tree_neighbours_wait:
  assumes "tb_run N s" and "even N" and "t \<in> team N" and "u \<in> team N" and "t div 2 = u div 2" and "tb_pc s t = TLeft"
  shows "tb_pc s u \<noteq> TDec (u div 2) []"
proof -
  have "pc_ok N s t (tb_pc s t)" using tb_run_inv [OF assms(1,2)] assms(3) by (simp add: tb_inv_def)
  then show ?thesis using assms(4-6) by (auto simp: absent_def)
qed

fun tb_execs :: "int \<Rightarrow> int list \<Rightarrow> tb \<Rightarrow> tb option" where
  "tb_execs N [] s = Some s"
| "tb_execs N (t # ts) s = (case tb_exec N t s of None \<Rightarrow> None | Some s' \<Rightarrow> tb_execs N ts s')"

lemma tb_execs_run: "tb_run N s \<Longrightarrow> set ts \<subseteq> team N \<Longrightarrow> tb_execs N ts s = Some s' \<Longrightarrow> tb_run N s'"
  by (induction N ts s rule: tb_execs.induct) (auto split: option.splits intro: tb_run.step)

lemma demo_race: "\<exists>s. tb_execs 4 [0, 1, 0, 1, 0, 1, 0, 0, 0] tb_start = Some s \<and>
    tb_pc s 0 = TLeft \<and> tb_pc s 1 = TTest 2 [0] \<and> tb_pc s 2 = TDec 1 [] \<and> tb_pc s 3 = TDec 1 []"
  by (simp add: tb_exec_def tb_start_def recurse_def tb_parent_def tb_return_def)

theorem tree_neighbours_wait_witness:
  "\<exists>s. tb_run 4 s \<and> tb_pc s 0 = TLeft \<and> tb_pc s 1 \<noteq> TDec (1 div 2) []"
proof -
  obtain s where run: "tb_execs 4 [0, 1, 0, 1, 0, 1, 0, 0, 0] tb_start = Some s" and pc: "tb_pc s 0 = TLeft"
    using demo_race by blast
  have "tb_run 4 s" using tb_execs_run [OF tb_run.start _ run] by (simp add: team_def)
  then show ?thesis using tree_neighbours_wait [of 4 s 0 1] pc by (auto simp: team_def)
qed

text \<open>The combining tree does not hold the team back: with four threads there is an execution of the
  first region in which thread 0 has left the barrier while threads 2 and 3 have not arrived at it;
  threads 0 and 1 both find the count of their leaf zero and both report to the root.\<close>

theorem tree_barrier_race:
  "\<exists>s. tb_run 4 s \<and> tb_pc s 0 = TLeft \<and> tb_pc s 2 = TDec 1 [] \<and> tb_pc s 3 = TDec 1 []"
proof -
  obtain s where run: "tb_execs 4 [0, 1, 0, 1, 0, 1, 0, 0, 0] tb_start = Some s"
    and pc: "tb_pc s 0 = TLeft" "tb_pc s 2 = TDec 1 []" "tb_pc s 3 = TDec 1 []"
    using demo_race by blast
  have "tb_run 4 s" using tb_execs_run [OF tb_run.start _ run] by (simp add: team_def)
  then show ?thesis using pc by blast
qed

end
