(* ===== verification/Gtthread.thy ===== *)
theory Gtthread
  imports Prelude
begin

text \<open>
  The user-level threads of \<open>src/aos/gthreads\<close>: \<open>gtthread.c\<close>, the scheduler of \<open>gtthread_sched.c\<close> and
  the mutexes of \<open>gtthread_mutex.c\<close>. A saved \<open>ucontext_t\<close> is the place where a thread goes on: inside
  \<open>gtthread_init\<close> after \<open>getcontext\<close>, at the start of \<open>threadcore\<close>, or at a place of the user's
  program (of an arbitrary type). \<open>swapcontext\<close> stores the caller's place, which is an argument of the
  operations, and enters the scheduler.

  The theorems: the thread counts are accurate and the scheduler is round robin and always finds a
  live thread; mutexes exclude each other under every interleaving and preemption; and
  \<open>gtthread_cancel\<close> loses the place of its caller.
\<close>

section \<open>State\<close>

definition MAXTHREADS :: int where "MAXTHREADS = 200"

text \<open>
  Where a saved context goes on: nowhere yet, after a \<open>getcontext\<close> inside \<open>gtthread_init\<close> or
  \<open>gtthread_create\<close>, at the start of \<open>threadcore\<close>, or at a place of the program.
\<close>

datatype 'c uctx = Unset | In_init | In_create | Fresh | User 'c

record 'c gthread =
  active :: bool
  done_flag :: bool
  exited :: bool
  user_context :: "'c uctx"
  threadid :: int
  ret :: int
  stack_freed :: bool

text \<open>\<open>In_Scheduler\<close> is the beginning of the loop of \<open>scheduler\<close>; \<open>Halted\<close> is after its end.\<close>

datatype 'c control = Running "'c uctx" | In_Scheduler | Halted

record 'c gt =
  mythread :: "int \<Rightarrow> 'c gthread"
  curr_thread :: int
  nTotalThreads :: int
  tail_index :: int
  nActiveThreads :: int
  initialized :: bool
  unique_id :: bool
  sched_resumed :: bool
  mutex :: "int \<Rightarrow> int"
  control :: "'c control"

definition upd_thread :: "int \<Rightarrow> ('c gthread \<Rightarrow> 'c gthread) \<Rightarrow> 'c gt \<Rightarrow> 'c gt" where
  "upd_thread i f s = s\<lparr>mythread := (mythread s)(i := f (mythread s i))\<rparr>"

section \<open>The scheduler\<close>

text \<open>
  \<open>ctx_sched\<close> is first at the beginning of \<open>scheduler\<close> and later after the \<open>swapcontext\<close> in its loop,
  before the test of \<open>nActiveThreads\<close>.
\<close>

definition enter_sched :: "'c gt \<Rightarrow> 'c gt" where
  "enter_sched s = s\<lparr>control := (if sched_resumed s \<and> nActiveThreads s = 0 then Halted else In_Scheduler)\<rparr>"

definition next_thread :: "'c gt \<Rightarrow> int" where
  "next_thread s =
     (if nTotalThreads s > 0 then
        (let c = curr_thread s + 1 in if c \<ge> nTotalThreads s then c smod nTotalThreads s else c)
      else curr_thread s)"

definition sched_iter :: "'c gt \<Rightarrow> 'c gt" where
  "sched_iter s =
     (let s = s\<lparr>curr_thread := next_thread s\<rparr>; th = mythread s (curr_thread s) in
      if \<not> exited th then s\<lparr>control := Running (user_context th), sched_resumed := True\<rparr>
      else s\<lparr>control := (if nActiveThreads s = 0 then Halted else In_Scheduler)\<rparr>)"

text \<open>\<open>swapcontext (&mythread[curr_thread].user_context, &ctx_sched)\<close> at the place \<open>here\<close>.\<close>

definition swap_to_sched :: "'c uctx \<Rightarrow> 'c gt \<Rightarrow> 'c gt" where
  "swap_to_sched here s = enter_sched (upd_thread (curr_thread s) (\<lambda>th. th\<lparr>user_context := here\<rparr>) s)"

section \<open>Threads\<close>

definition ULONG_MAX :: int where "ULONG_MAX = 2 ^ 64 - 1"

text \<open>\<open>gtthread_init\<close> up to the \<open>getcontext\<close> of the main thread, and what follows it.\<close>

definition gtthread_init :: "'c gt \<Rightarrow> 'c gt" where
  "gtthread_init s =
     upd_thread 0 (\<lambda>th. th\<lparr>user_context := In_init\<rparr>)
       (fold (\<lambda>i. upd_thread i (\<lambda>th. th\<lparr>active := False, done_flag := False, exited := False, threadid := ULONG_MAX\<rparr>))
         (below MAXTHREADS) s)\<lparr>control := Running In_init\<rparr>"

definition init_tail :: "'c \<Rightarrow> 'c gt \<Rightarrow> 'c gt" where
  "init_tail c s = upd_thread 0 (\<lambda>th. th\<lparr>threadid := 0\<rparr>) s\<lparr>nTotalThreads := nTotalThreads s + 1, nActiveThreads := nActiveThreads s + 1, initialized := True,
     control := Running (User c)\<rparr>"

definition gtthread_equal :: "int \<Rightarrow> int \<Rightarrow> bool" where
  "gtthread_equal t1 t2 \<longleftrightarrow> t1 = t2"

text \<open>The loop over the table sets the static \<open>unique\<close> (here \<open>unique_id\<close>) unless it stops at its first entry.\<close>

fun id_loop :: "'c gt \<Rightarrow> int \<Rightarrow> int list \<Rightarrow> bool \<Rightarrow> bool" where
  "id_loop s r [] u = u"
| "id_loop s r (i # is) u = (if gtthread_equal (threadid (mythread s i)) r \<and> r = 0 then u else id_loop s r is True)"

text \<open>The \<open>do ... while\<close> loop on the values \<open>rand\<close> returns.\<close>

fun generate_thread_id :: "int list \<Rightarrow> 'c gt \<Rightarrow> (int \<times> 'c gt) option" where
  "generate_thread_id [] s = None"
| "generate_thread_id (r # rs) s =
     (let u = id_loop s r [1..MAXTHREADS - 1] (unique_id s); s = s\<lparr>unique_id := u\<rparr>
      in if u then Some (r, s) else generate_thread_id rs s)"

text \<open>\<open>gtthread_create\<close> with its return value; \<open>stack\<close> says whether \<open>malloc\<close> succeeded.\<close>

definition gtthread_create :: "int list \<Rightarrow> bool \<Rightarrow> 'c gt \<Rightarrow> (int \<times> 'c gt) option res" where
  "gtthread_create rs stack s =
     (if \<not> initialized s then Inl (Exits (- 1))
      else if nTotalThreads s \<ge> MAXTHREADS then Inr (Some (- 1, s))
      else case generate_thread_id rs s of
        None \<Rightarrow> Inr None
      | Some (tid, s) \<Rightarrow>
          let s = upd_thread (tail_index s) (\<lambda>th. th\<lparr>user_context := In_create, threadid := tid\<rparr>) s in
          if \<not> stack then Inr (Some (- 1, s))
          else Inr (Some (0, upd_thread (tail_index s) (\<lambda>th. th\<lparr>user_context := Fresh, stack_freed := False\<rparr>)
                 s\<lparr>tail_index := tail_index s + 1, nTotalThreads := nTotalThreads s + 1,
                   nActiveThreads := nActiveThreads s + 1\<rparr>)))"

definition find_thread :: "int \<Rightarrow> 'c gt \<Rightarrow> int option" where
  "find_thread thread s = List.find (\<lambda>i. threadid (mythread s i) = thread) [1..nTotalThreads s - 1]"

text \<open>
  One pass of \<open>gtthread_join\<close>: \<open>None\<close> while it waits (it yields at the place \<open>here\<close>), otherwise its
  return value and the status. The stack is freed and the pointer to it kept.
\<close>

definition gtthread_join :: "int \<Rightarrow> 'c uctx \<Rightarrow> 'c gt \<Rightarrow> ((int \<times> int option) option \<times> 'c gt) res" where
  "gtthread_join thread here s =
     (case find_thread thread s of
        None \<Rightarrow> Inr (Some (- 1, None), s)
      | Some i \<Rightarrow>
          if \<not> exited (mythread s i) then Inr (None, swap_to_sched here s)
          else if stack_freed (mythread s i) then Inl Invalid_pointer
          else Inr (Some (0, Some (ret (mythread s i))), upd_thread i (\<lambda>th. th\<lparr>stack_freed := True\<rparr>) s))"

definition gtthread_exit :: "int \<Rightarrow> 'c uctx \<Rightarrow> 'c gt \<Rightarrow> 'c gt" where
  "gtthread_exit retval here s =
     (let s = upd_thread (curr_thread s) (\<lambda>th. th\<lparr>ret := retval, exited := True, active := False, done_flag := True\<rparr>) s
      in swap_to_sched here (s\<lparr>nActiveThreads := nActiveThreads s - 1\<rparr>))"

text \<open>
  \<open>gtthread_cancel\<close>: at the first live thread with this id it enters the scheduler, and the place it
  saves is in the local \<open>dummyctx\<close>, which nothing restores. It returns only if there is no such thread.
\<close>

definition gtthread_cancel :: "int \<Rightarrow> 'c gt \<Rightarrow> 'c gt" where
  "gtthread_cancel thread s =
     (case List.find (\<lambda>i. gtthread_equal (threadid (mythread s i)) thread \<and> \<not> exited (mythread s i)) [1..nTotalThreads s - 1] of
        None \<Rightarrow> s
      | Some i \<Rightarrow>
          enter_sched (upd_thread i (\<lambda>th. th\<lparr>exited := True, active := False\<rparr>) s\<lparr>nActiveThreads := nActiveThreads s - 1\<rparr>))"

definition gtthread_yield :: "'c uctx \<Rightarrow> 'c gt \<Rightarrow> 'c gt" where
  "gtthread_yield here s = swap_to_sched here s"

text \<open>The preemption by the timer.\<close>

definition sighandler :: "'c uctx \<Rightarrow> 'c gt \<Rightarrow> 'c gt" where
  "sighandler here s = swap_to_sched here s"

text \<open>\<open>threadcore\<close> before the user's function and after it has returned \<open>v\<close>.\<close>

definition threadcore_begin :: "'c \<Rightarrow> 'c gt \<Rightarrow> 'c gt" where
  "threadcore_begin c s = (upd_thread (curr_thread s) (\<lambda>th. th\<lparr>active := True\<rparr>) s)\<lparr>control := Running (User c)\<rparr>"

definition threadcore_end :: "int \<Rightarrow> 'c uctx \<Rightarrow> 'c gt \<Rightarrow> 'c gt" where
  "threadcore_end v here s =
     (let s = upd_thread (curr_thread s) (\<lambda>th. th\<lparr>ret := v, done_flag := True\<rparr>) s in
      if \<not> exited (mythread s (curr_thread s)) then
        gtthread_exit (ret (mythread s (curr_thread s))) here
          (upd_thread (curr_thread s) (\<lambda>th. th\<lparr>active := False\<rparr>) s)
      else enter_sched s)"

definition gtthread_self :: "'c gt \<Rightarrow> int" where
  "gtthread_self s = threadid (mythread s (curr_thread s))"

section \<open>Mutexes\<close>

definition gtthread_mutex_init :: "int \<Rightarrow> 'c gt \<Rightarrow> 'c gt" where
  "gtthread_mutex_init m s = s\<lparr>mutex := (mutex s)(m := 0)\<rparr>"

text \<open>One pass of the loop of \<open>gtthread_mutex_lock\<close>: whether it has the lock; otherwise it yields.\<close>

definition gtthread_mutex_lock :: "int \<Rightarrow> 'c uctx \<Rightarrow> 'c gt \<Rightarrow> bool \<times> 'c gt" where
  "gtthread_mutex_lock m here s =
     (let old = mutex s m; s = s\<lparr>mutex := (mutex s)(m := 1)\<rparr>
      in if old \<noteq> 0 then (False, gtthread_yield here s) else (True, s))"

definition gtthread_mutex_unlock :: "int \<Rightarrow> 'c gt \<Rightarrow> 'c gt" where
  "gtthread_mutex_unlock m s = s\<lparr>mutex := (mutex s)(m := 0)\<rparr>"

section \<open>Executions\<close>

text \<open>
  The library with an arbitrary program: the running thread moves on, calls an operation or is
  preempted; the scheduler takes its turns. A timer signal in the midst of a library call is not
  modelled. Beside the state goes the set of the pairs of a thread and a mutex it holds; the
  program unlocks only what it holds and does not initialise a mutex that is held. With \<open>strict\<close>,
  the main thread does not cancel a thread before the scheduler has saved its place for the first
  time.
\<close>

type_synonym 'c gtm = "'c gt \<times> (int \<times> int) set"

inductive gt_step :: "bool \<Rightarrow> 'c gtm \<Rightarrow> 'c gtm \<Rightarrow> bool" for strict where
  finish_init: "control s = Running In_init \<Longrightarrow> gt_step strict (s, H) (init_tail c s, H)"
| begin_thread: "control s = Running Fresh \<Longrightarrow> gt_step strict (s, H) (threadcore_begin c s, H)"
| local: "control s = Running (User c) \<Longrightarrow> gt_step strict (s, H) (s\<lparr>control := Running (User c')\<rparr>, H)"
| create: "control s = Running (User c) \<Longrightarrow> gtthread_create rs stack s = Inr (Some (v, s')) \<Longrightarrow> gt_step strict (s, H) (s', H)"
| join: "control s = Running (User c) \<Longrightarrow> gtthread_join tid (User c') s = Inr (r, s') \<Longrightarrow> gt_step strict (s, H) (s', H)"
| exit: "control s = Running (User c) \<Longrightarrow> gt_step strict (s, H) (gtthread_exit v (User c') s, H)"
| cancel: "control s = Running (User c) \<Longrightarrow> strict \<longrightarrow> user_context (mythread s 0) \<noteq> In_init \<Longrightarrow>
     gt_step strict (s, H) (gtthread_cancel tid s, H)"
| yield: "control s = Running (User c) \<Longrightarrow> gt_step strict (s, H) (gtthread_yield (User c') s, H)"
| preempt: "control s = Running (User c) \<Longrightarrow> gt_step strict (s, H) (sighandler (User c) s, H)"
| end_thread: "control s = Running (User c) \<Longrightarrow> curr_thread s \<noteq> 0 \<Longrightarrow> gt_step strict (s, H) (threadcore_end v (User c') s, H)"
| mutex_init: "control s = Running (User c) \<Longrightarrow> \<forall>t. (t, m) \<notin> H \<Longrightarrow> gt_step strict (s, H) (gtthread_mutex_init m s, H)"
| lock: "control s = Running (User c) \<Longrightarrow> gtthread_mutex_lock m (User c') s = (got, s') \<Longrightarrow>
     gt_step strict (s, H) (s', if got then insert (curr_thread s, m) H else H)"
| unlock: "control s = Running (User c) \<Longrightarrow> (curr_thread s, m) \<in> H \<Longrightarrow>
     gt_step strict (s, H) (gtthread_mutex_unlock m s, H - {(curr_thread s, m)})"
| schedule: "control s = In_Scheduler \<Longrightarrow> gt_step strict (s, H) (sched_iter s, H)"

text \<open>The static variables before \<open>gtthread_init\<close>; the mutexes are not initialised.\<close>

definition gt_zero :: "(int \<Rightarrow> int) \<Rightarrow> 'c gt" where
  "gt_zero mx = \<lparr>mythread = (\<lambda>_. \<lparr>active = False, done_flag = False, exited = False, user_context = Unset, threadid = 0, ret = 0, stack_freed = False\<rparr>),
     curr_thread = 0, nTotalThreads = 0, tail_index = 1, nActiveThreads = 0, initialized = False, unique_id = False,
     sched_resumed = False, mutex = mx, control = Halted\<rparr>"

inductive gt_run :: "bool \<Rightarrow> 'c gt \<Rightarrow> (int \<times> int) set \<Rightarrow> bool" for strict where
  start: "gt_run strict (gtthread_init (gt_zero mx)) {}"
| step: "gt_run strict s H \<Longrightarrow> gt_step strict (s, H) (s', H') \<Longrightarrow> gt_run strict s' H'"

section \<open>Fields\<close>

named_theorems gt_simps

lemma upd_thread_fields [simp, gt_simps]:
  "mythread (upd_thread i f s) = (mythread s)(i := f (mythread s i))" "curr_thread (upd_thread i f s) = curr_thread s"
  "nTotalThreads (upd_thread i f s) = nTotalThreads s" "tail_index (upd_thread i f s) = tail_index s"
  "nActiveThreads (upd_thread i f s) = nActiveThreads s" "initialized (upd_thread i f s) = initialized s"
  "sched_resumed (upd_thread i f s) = sched_resumed s" "mutex (upd_thread i f s) = mutex s" "control (upd_thread i f s) = control s"
  by (simp_all add: upd_thread_def)

lemma enter_sched_fields [simp, gt_simps]:
  "mythread (enter_sched s) = mythread s" "curr_thread (enter_sched s) = curr_thread s"
  "nTotalThreads (enter_sched s) = nTotalThreads s" "tail_index (enter_sched s) = tail_index s"
  "nActiveThreads (enter_sched s) = nActiveThreads s" "initialized (enter_sched s) = initialized s"
  "sched_resumed (enter_sched s) = sched_resumed s" "mutex (enter_sched s) = mutex s"
  "control (enter_sched s) = (if sched_resumed s \<and> nActiveThreads s = 0 then Halted else In_Scheduler)"
  by (simp_all add: enter_sched_def)

lemma sched_iter_fields [simp, gt_simps]:
  "mythread (sched_iter s) = mythread s" "curr_thread (sched_iter s) = next_thread s"
  "nTotalThreads (sched_iter s) = nTotalThreads s" "tail_index (sched_iter s) = tail_index s"
  "nActiveThreads (sched_iter s) = nActiveThreads s" "initialized (sched_iter s) = initialized s" "mutex (sched_iter s) = mutex s"
  by (simp_all add: sched_iter_def Let_def)

lemma sched_iter_control:
  "control (sched_iter s) =
     (if \<not> exited (mythread s (next_thread s)) then Running (user_context (mythread s (next_thread s)))
      else if nActiveThreads s = 0 then Halted else In_Scheduler)"
  "sched_resumed (sched_iter s) \<longleftrightarrow> sched_resumed s \<or> \<not> exited (mythread s (next_thread s))"
  by (auto simp: sched_iter_def Let_def)

lemma next_thread_mod:
  assumes "0 \<le> curr_thread s" and "curr_thread s < nTotalThreads s"
  shows "next_thread s = (curr_thread s + 1) mod nTotalThreads s"
  using assms by (auto simp: next_thread_def Let_def smod_nonneg)

lemma next_thread_bounds:
  assumes "0 \<le> curr_thread s" and "curr_thread s < nTotalThreads s"
  shows "0 \<le> next_thread s" "next_thread s < nTotalThreads s"
  using assms by (simp_all add: next_thread_mod)

section \<open>The invariant\<close>

definition live :: "'c gt \<Rightarrow> int set" where
  "live s = {i \<in> {0..<nTotalThreads s}. \<not> exited (mythread s i)}"

definition runnable :: "'c gt \<Rightarrow> bool" where
  "runnable s \<longleftrightarrow> (\<forall>i. 1 \<le> i \<longrightarrow> i < nTotalThreads s \<longrightarrow> user_context (mythread s i) = Fresh \<or> (\<exists>c. user_context (mythread s i) = User c)) \<and>
     (user_context (mythread s 0) = In_init \<and> curr_thread s = 0 \<and> (\<exists>c. control s = Running (User c)) \<or>
      (\<exists>c. user_context (mythread s 0) = User c))"

definition counts_ok :: "'c gt \<Rightarrow> bool" where
  "counts_ok s \<longleftrightarrow> tail_index s = nTotalThreads s \<and> 0 \<le> curr_thread s \<and> curr_thread s < nTotalThreads s \<and>
     nTotalThreads s \<le> MAXTHREADS \<and> nActiveThreads s = int (card (live s)) \<and> initialized s \<and>
     (\<forall>i \<ge> nTotalThreads s. \<not> exited (mythread s i) \<and> user_context (mythread s i) \<in> {Unset, In_create})"

definition control_ok :: "'c gt \<Rightarrow> bool" where
  "control_ok s \<longleftrightarrow>
     (case control s of
        Running u \<Rightarrow> \<not> exited (mythread s (curr_thread s)) \<and> (u = Fresh \<or> (\<exists>c. u = User c))
      | In_Scheduler \<Rightarrow> True
      | Halted \<Rightarrow> nActiveThreads s = 0)"

text \<open>\<open>gtthread_init\<close> has not finished yet.\<close>

definition starting :: "'c gt \<Rightarrow> bool" where
  "starting s \<longleftrightarrow> control s = Running In_init \<and> curr_thread s = 0 \<and> nTotalThreads s = 0 \<and> tail_index s = 1 \<and> nActiveThreads s = 0 \<and>
     user_context (mythread s 0) = In_init \<and> (\<forall>i \<ge> 0. \<not> exited (mythread s i)) \<and>
     (\<forall>i \<ge> 1. user_context (mythread s i) = Unset) \<and> \<not> initialized s"

definition gt_inv :: "'c gt \<Rightarrow> bool" where
  "gt_inv s \<longleftrightarrow> starting s \<or> counts_ok s \<and> control_ok s \<and> runnable s"

lemma live_finite [simp]: "finite (live s)"
  by (rule finite_subset [of _ "{0..<nTotalThreads s}"]) (auto simp: live_def)

lemma live_cong:
  "nTotalThreads s' = nTotalThreads s \<Longrightarrow> (\<And>i. exited (mythread s' i) = exited (mythread s i)) \<Longrightarrow> live s' = live s"
  by (simp add: live_def)

text \<open>A thread that exits or is cancelled is counted off.\<close>

lemma retire_counts:
  assumes "counts_ok s" and "i \<in> live s" and exits: "\<And>th. exited (f th)"
  shows "counts_ok (upd_thread i f s\<lparr>nActiveThreads := nActiveThreads s - 1\<rparr>)"
proof -
  let ?s = "upd_thread i f s\<lparr>nActiveThreads := nActiveThreads s - 1\<rparr>"
  have "live ?s = live s - {i}" using exits by (auto simp: live_def split: if_splits)
  moreover have "int (card (live s)) - 1 = int (card (live s - {i}))"
    using card.remove [OF live_finite assms(2)] by simp
  ultimately have "nActiveThreads ?s = int (card (live ?s))" using assms(1) by (simp add: counts_ok_def)
  moreover have "i < nTotalThreads s" using assms(2) by (simp add: live_def)
  ultimately show ?thesis using assms(1) by (auto simp: counts_ok_def)
qed

lemma swap_inv:
  assumes "counts_ok s" and "runnable s"
  shows "counts_ok (swap_to_sched (User c) s) \<and> control_ok (swap_to_sched (User c) s) \<and> runnable (swap_to_sched (User c) s)"
proof (intro conjI)
  have "live (swap_to_sched (User c) s) = live s" by (rule live_cong) (simp_all add: swap_to_sched_def)
  then show "counts_ok (swap_to_sched (User c) s)" using assms(1) by (auto simp: counts_ok_def swap_to_sched_def)
  show "control_ok (swap_to_sched (User c) s)" by (simp add: control_ok_def swap_to_sched_def)
  show "runnable (swap_to_sched (User c) s)" using assms(2) by (auto simp: runnable_def swap_to_sched_def)
qed

lemma runnable_upd:
  assumes "runnable s" and "\<And>th. user_context (f th) = user_context th"
  shows "runnable (upd_thread i f s)"
  using assms by (auto simp: runnable_def)

lemma exit_inv:
  assumes ok: "counts_ok s" "runnable s" and "control s = Running u" and "\<not> exited (mythread s (curr_thread s))"
  shows "counts_ok (gtthread_exit v (User c) s) \<and> control_ok (gtthread_exit v (User c) s) \<and> runnable (gtthread_exit v (User c) s)"
proof -
  let ?f = "\<lambda>th. th\<lparr>ret := v, exited := True, active := False, done_flag := True\<rparr>"
  let ?s = "upd_thread (curr_thread s) ?f s\<lparr>nActiveThreads := nActiveThreads s - 1\<rparr>"
  have "curr_thread s \<in> live s" using ok(1) assms(4) by (simp add: live_def counts_ok_def)
  then have "counts_ok ?s" by (intro retire_counts) (use ok in simp_all)
  moreover have "runnable (upd_thread (curr_thread s) ?f s)" by (rule runnable_upd) (use ok in simp_all)
  then have "runnable ?s" by (simp add: runnable_def)
  moreover have "gtthread_exit v (User c) s = swap_to_sched (User c) ?s"
    by (simp add: gtthread_exit_def Let_def upd_thread_def)
  ultimately show ?thesis using swap_inv [of ?s c] by simp
qed

lemma cancel_inv:
  assumes ok: "counts_ok s" "runnable s" "control_ok s" and "control s = Running (User c)" and "user_context (mythread s 0) \<noteq> In_init"
  shows "counts_ok (gtthread_cancel tid s) \<and> control_ok (gtthread_cancel tid s) \<and> runnable (gtthread_cancel tid s)"
proof (cases "List.find (\<lambda>i. gtthread_equal (threadid (mythread s i)) tid \<and> \<not> exited (mythread s i)) [1..nTotalThreads s - 1]")
  case None
  then show ?thesis using ok by (simp add: gtthread_cancel_def)
next
  case (Some i)
  let ?s = "upd_thread i (\<lambda>th. th\<lparr>exited := True, active := False\<rparr>) s\<lparr>nActiveThreads := nActiveThreads s - 1\<rparr>"
  have "i \<in> live s" using Some by (auto simp: find_Some_iff live_def)
  then have c: "counts_ok ?s" by (intro retire_counts) (use ok in simp_all)
  have eq: "gtthread_cancel tid s = enter_sched ?s" using Some by (simp add: gtthread_cancel_def)
  have "live (enter_sched ?s) = live ?s" by (rule live_cong) simp_all
  then have "counts_ok (enter_sched ?s)" using c by (auto simp: counts_ok_def)
  moreover have "runnable (enter_sched ?s)" using ok(2) assms(5) by (auto simp: runnable_def)
  ultimately show ?thesis unfolding eq by (simp add: control_ok_def)
qed

lemma generate_keeps: "generate_thread_id rs s = Some (tid, s') \<Longrightarrow> \<exists>u. s' = s\<lparr>unique_id := u\<rparr>"
  by (induction rs s rule: generate_thread_id.induct) (auto simp: Let_def split: if_splits)

lemma create_inv:
  assumes ok: "counts_ok s" "runnable s" "control_ok s" and u: "control s = Running (User c)"
    and eq: "gtthread_create rs stack s = Inr (Some (v, s'))"
  shows "counts_ok s' \<and> control_ok s' \<and> runnable s'"
proof (cases "nTotalThreads s \<ge> MAXTHREADS")
  case True
  then have "s' = s" using eq ok(1) by (simp add: gtthread_create_def counts_ok_def)
  then show ?thesis using ok by simp
next
  case False
  obtain tid u' where g: "generate_thread_id rs s = Some (tid, s\<lparr>unique_id := u'\<rparr>)"
    using eq ok(1) False generate_keeps by (fastforce simp: gtthread_create_def counts_ok_def split: option.splits)
  let ?n = "nTotalThreads s"
  have n: "tail_index s = ?n" "1 \<le> ?n" using ok(1) by (auto simp: counts_ok_def)
  have e: "exited (mythread s' i) = exited (mythread s i)"
    and same: "i \<noteq> ?n \<Longrightarrow> user_context (mythread s' i) = user_context (mythread s i)"
    and r: "curr_thread s' = curr_thread s" "control s' = control s" "initialized s' = initialized s" for i
    using eq g False ok(1) n by (auto simp: gtthread_create_def counts_ok_def Let_def split: if_splits)
  have grow: "if stack then nTotalThreads s' = ?n + 1 \<and> tail_index s' = ?n + 1 \<and> nActiveThreads s' = nActiveThreads s + 1 \<and>
        user_context (mythread s' ?n) = Fresh
      else nTotalThreads s' = ?n \<and> tail_index s' = ?n \<and> nActiveThreads s' = nActiveThreads s \<and>
        user_context (mythread s' ?n) = In_create"
    using eq g False ok(1) n by (auto simp: gtthread_create_def counts_ok_def Let_def split: if_splits)
  have "live s' = (if stack then insert ?n (live s) else live s)"
    using grow e ok(1) n by (auto simp: live_def counts_ok_def)
  moreover have "?n \<notin> live s" by (simp add: live_def)
  ultimately have "nActiveThreads s' = int (card (live s'))" using grow ok(1) by (auto simp: counts_ok_def)
  moreover have "\<forall>i \<ge> nTotalThreads s'. \<not> exited (mythread s' i) \<and> user_context (mythread s' i) \<in> {Unset, In_create}"
  proof (intro allI impI)
    fix i assume "nTotalThreads s' \<le> i"
    then show "\<not> exited (mythread s' i) \<and> user_context (mythread s' i) \<in> {Unset, In_create}"
      using grow e [of i] same [of i] ok(1) by (cases "i = ?n") (auto simp: counts_ok_def split: if_splits)
  qed
  ultimately have "counts_ok s'" using grow r ok(1) False unfolding counts_ok_def by (auto split: if_splits)
  moreover have "control_ok s'" using ok(3) e r u by (simp add: control_ok_def)
  moreover have "runnable s'"
  proof -
    have "user_context (mythread s' i) = Fresh \<or> (\<exists>c. user_context (mythread s' i) = User c)"
      if "1 \<le> i" "i < nTotalThreads s'" for i
      using that grow same [of i] ok(2) by (cases "i = ?n") (auto simp: runnable_def split: if_splits)
    then show ?thesis using same [of 0] r ok(2) n unfolding runnable_def by simp
  qed
  ultimately show ?thesis by simp
qed

lemma join_inv:
  assumes ok: "counts_ok s" "runnable s" "control_ok s" and "control s = Running (User c)"
    and eq: "gtthread_join tid (User c') s = Inr (r, s')"
  shows "counts_ok s' \<and> control_ok s' \<and> runnable s'"
proof -
  consider "s' = s" | "s' = swap_to_sched (User c') s" | i where "s' = upd_thread i (\<lambda>th. th\<lparr>stack_freed := True\<rparr>) s"
    using eq by (auto simp: gtthread_join_def split: option.splits if_splits)
  then show ?thesis
  proof cases
    case 1
    then show ?thesis using ok by simp
  next
    case 2
    then show ?thesis using swap_inv [OF ok(1,2), of c'] by simp
  next
    case 3
    have "live s' = live s" unfolding 3 by (rule live_cong) simp_all
    then have "counts_ok s'" using ok(1) by (auto simp: 3 counts_ok_def)
    moreover have "runnable s'" unfolding 3 by (rule runnable_upd) (use ok in simp_all)
    ultimately show ?thesis using ok(3) assms(4) by (auto simp: 3 control_ok_def)
  qed
qed

lemma end_inv:
  assumes ok: "counts_ok s" "runnable s" "control_ok s" and u: "control s = Running (User c)"
  shows "counts_ok (threadcore_end v (User c') s) \<and> control_ok (threadcore_end v (User c') s) \<and> runnable (threadcore_end v (User c') s)"
proof -
  let ?s = "upd_thread (curr_thread s) (\<lambda>th. th\<lparr>active := False\<rparr>) (upd_thread (curr_thread s) (\<lambda>th. th\<lparr>ret := v, done_flag := True\<rparr>) s)"
  have "\<not> exited (mythread s (curr_thread s))" using ok(3) u by (simp add: control_ok_def)
  then have eq: "threadcore_end v (User c') s = gtthread_exit v (User c') ?s" by (simp add: threadcore_end_def Let_def)
  have "live ?s = live s" by (rule live_cong) simp_all
  then have "counts_ok ?s" using ok(1) by (auto simp: counts_ok_def)
  moreover have "runnable ?s" by (intro runnable_upd) (use ok in simp_all)
  ultimately show ?thesis unfolding eq by (rule exit_inv) (use ok(3) u in \<open>simp_all add: control_ok_def\<close>)
qed

lemma sched_inv:
  assumes ok: "counts_ok s" "runnable s" "control_ok s" and c: "control s = In_Scheduler"
  shows "counts_ok (sched_iter s) \<and> control_ok (sched_iter s) \<and> runnable (sched_iter s)"
proof (intro conjI)
  have b: "0 \<le> next_thread s" "next_thread s < nTotalThreads s" using next_thread_bounds [of s] ok(1) by (auto simp: counts_ok_def)
  have "live (sched_iter s) = live s" by (rule live_cong) simp_all
  then show "counts_ok (sched_iter s)" using ok(1) b by (auto simp: counts_ok_def)
  have ctx: "user_context (mythread s i) = Fresh \<or> (\<exists>c. user_context (mythread s i) = User c)" if "0 \<le> i" "i < nTotalThreads s" for i
    using ok(2) that c by (cases "i = 0") (auto simp: runnable_def)
  show "control_ok (sched_iter s)" using ctx [OF b] by (simp add: control_ok_def sched_iter_control)
  show "runnable (sched_iter s)" using ok(2) c by (simp add: runnable_def)
qed

lemma step_inv:
  assumes step: "gt_step True (s, H) (s', H')" and inv: "gt_inv s"
  shows "gt_inv s'"
proof -
  have ready: "counts_ok s \<and> control_ok s \<and> runnable s" if "control s \<noteq> Running In_init"
    using that inv by (auto simp: gt_inv_def starting_def)
  have same: "gt_inv s1" if "control s = Running (User c)" "mythread s1 = mythread s" "curr_thread s1 = curr_thread s"
      "nTotalThreads s1 = nTotalThreads s" "tail_index s1 = tail_index s" "nActiveThreads s1 = nActiveThreads s"
      "initialized s1 = initialized s" "control s1 = Running (User c')" for c c' s1
  proof -
    have "live s1 = live s" by (rule live_cong) (use that in simp_all)
    then show ?thesis using that ready by (auto simp: gt_inv_def counts_ok_def control_ok_def runnable_def)
  qed
  have swap: "gt_inv (swap_to_sched (User c) s1)" if "counts_ok s1" "runnable s1" for c and s1 :: "'a gt"
    using swap_inv [OF that] by (simp add: gt_inv_def)
  from step show ?thesis
  proof cases
    case (finish_init c)
    have "starting s" using inv finish_init by (auto simp: gt_inv_def control_ok_def)
    moreover from this have "live (init_tail c s) = {0}" by (auto simp: live_def init_tail_def starting_def)
    ultimately show ?thesis unfolding finish_init
      by (auto simp: gt_inv_def starting_def counts_ok_def control_ok_def runnable_def init_tail_def MAXTHREADS_def)
  next
    case (begin_thread c)
    have "live (threadcore_begin c s) = live s" by (rule live_cong) (simp_all add: threadcore_begin_def)
    then show ?thesis using ready begin_thread
      by (auto simp: gt_inv_def counts_ok_def control_ok_def runnable_def threadcore_begin_def)
  next
    case (create c rs stack v)
    then show ?thesis using create_inv [OF _ _ _ create(2,3)] ready by (simp add: gt_inv_def)
  next
    case (join c tid c' r)
    then show ?thesis using join_inv [OF _ _ _ join(2,3)] ready by (simp add: gt_inv_def)
  next
    case (exit c v c')
    then have "\<not> exited (mythread s (curr_thread s))" using ready by (simp add: control_ok_def)
    then show ?thesis using exit_inv [of s "User c" v c'] ready exit by (simp add: gt_inv_def)
  next
    case (cancel c tid)
    then show ?thesis using cancel_inv [of s c tid] ready by (simp add: gt_inv_def)
  next
    case (end_thread c v c')
    then show ?thesis using end_inv [of s c v c'] ready by (simp add: gt_inv_def)
  next
    case (lock c m c' got)
    have "counts_ok (s\<lparr>mutex := (mutex s)(m := 1)\<rparr>)" "runnable (s\<lparr>mutex := (mutex s)(m := 1)\<rparr>)"
      using ready lock by (simp_all add: counts_ok_def runnable_def live_def)
    then show ?thesis using lock swap same [of c "s\<lparr>mutex := (mutex s)(m := 1)\<rparr>" c]
      by (auto simp: gtthread_mutex_lock_def gtthread_yield_def Let_def split: if_splits)
  next
    case schedule
    then show ?thesis using sched_inv [of s] ready by (simp add: gt_inv_def)
  qed (auto simp: ready swap same gtthread_yield_def sighandler_def gtthread_mutex_init_def gtthread_mutex_unlock_def)
qed

lemma fold_upd_thread:
  assumes "\<And>th. f (f th) = f th"
  shows "mythread (fold (\<lambda>i. upd_thread i f) xs s) i = (if i \<in> set xs then f (mythread s i) else mythread s i)"
    and "curr_thread (fold (\<lambda>i. upd_thread i f) xs s) = curr_thread s \<and> nTotalThreads (fold (\<lambda>i. upd_thread i f) xs s) = nTotalThreads s \<and>
      tail_index (fold (\<lambda>i. upd_thread i f) xs s) = tail_index s \<and> nActiveThreads (fold (\<lambda>i. upd_thread i f) xs s) = nActiveThreads s \<and>
      initialized (fold (\<lambda>i. upd_thread i f) xs s) = initialized s \<and> sched_resumed (fold (\<lambda>i. upd_thread i f) xs s) = sched_resumed s \<and>
      mutex (fold (\<lambda>i. upd_thread i f) xs s) = mutex s"
  by (induction xs arbitrary: s) (auto simp: assms)

lemma init_state:
  "mythread (gtthread_init (gt_zero mx)) i =
     \<lparr>active = False, done_flag = False, exited = False, user_context = (if i = 0 then In_init else Unset),
      threadid = (if 0 \<le> i \<and> i < MAXTHREADS then ULONG_MAX else 0), ret = 0, stack_freed = False\<rparr>"
  "curr_thread (gtthread_init (gt_zero mx)) = 0" "nTotalThreads (gtthread_init (gt_zero mx)) = 0" "tail_index (gtthread_init (gt_zero mx)) = 1"
  "nActiveThreads (gtthread_init (gt_zero mx)) = 0" "initialized (gtthread_init (gt_zero mx)) = False"
  "sched_resumed (gtthread_init (gt_zero mx)) = False" "mutex (gtthread_init (gt_zero mx)) = mx"
  "control (gtthread_init (gt_zero mx)) = Running In_init"
  by (simp_all add: gtthread_init_def fold_upd_thread) (auto simp: gt_zero_def)

lemma run_inv: "gt_run True s H \<Longrightarrow> gt_inv s"
proof (induction rule: gt_run.induct)
  case (start mx)
  show ?case by (simp add: gt_inv_def starting_def init_state)
next
  case step
  then show ?case using step_inv by blast
qed

section \<open>Theorems\<close>

text \<open>C27. The library's books are accurate in every execution in which the main thread does not cancel
  too early: \<open>nActiveThreads\<close> is the number of created threads that have not exited, \<open>tail_index\<close> is
  \<open>nTotalThreads\<close> and at most \<open>MAXTHREADS\<close>, the scheduler never switches to a context that was not
  made or has exited, and it ends only when every thread has exited.\<close>

theorem threads_accounted:
  assumes "gt_run True s H" and "initialized s"
  shows "nActiveThreads s = int (card {i \<in> {0..<nTotalThreads s}. \<not> exited (mythread s i)}) \<and>
    tail_index s = nTotalThreads s \<and> nTotalThreads s \<le> MAXTHREADS \<and> 0 \<le> curr_thread s \<and> curr_thread s < nTotalThreads s \<and>
    (\<forall>u. control s = Running u \<longrightarrow> \<not> exited (mythread s (curr_thread s)) \<and> u \<noteq> Unset \<and> u \<noteq> In_init \<and> u \<noteq> In_create) \<and>
    (control s = Halted \<longrightarrow> (\<forall>i \<in> {0..<nTotalThreads s}. exited (mythread s i)))"
proof -
  have inv: "counts_ok s" "control_ok s" using run_inv [OF assms(1)] assms(2) by (auto simp: gt_inv_def starting_def)
  have "\<forall>i \<in> {0..<nTotalThreads s}. exited (mythread s i)" if "control s = Halted"
  proof -
    have "live s = {}" using inv that by (simp add: counts_ok_def control_ok_def)
    then show ?thesis by (auto simp: live_def)
  qed
  then show ?thesis using inv by (auto simp: counts_ok_def control_ok_def live_def)
qed

text \<open>The loop of \<open>scheduler\<close> until it switches to a thread or ends.\<close>

fun sched_iters :: "nat \<Rightarrow> 'c gt \<Rightarrow> 'c gt" where
  "sched_iters 0 s = s"
| "sched_iters (Suc k) s = (if control s = In_Scheduler then sched_iters k (sched_iter s) else s)"

lemma sched_iter_skip:
  assumes "0 \<le> curr_thread s" "curr_thread s < nTotalThreads s" "nActiveThreads s \<noteq> 0" "control s = In_Scheduler"
    and "exited (mythread s ((curr_thread s + 1) mod nTotalThreads s))"
  shows "sched_iter s = s\<lparr>curr_thread := (curr_thread s + 1) mod nTotalThreads s\<rparr>"
  using assms by (simp add: sched_iter_def next_thread_mod Let_def)

lemma sched_iters_skip:
  assumes "0 \<le> curr_thread s" "curr_thread s < nTotalThreads s" "nActiveThreads s \<noteq> 0" "control s = In_Scheduler"
    and "\<And>j. 1 \<le> j \<Longrightarrow> j \<le> int k \<Longrightarrow> exited (mythread s ((curr_thread s + j) mod nTotalThreads s))"
  shows "sched_iters (k + m) s = sched_iters m (s\<lparr>curr_thread := (curr_thread s + int k) mod nTotalThreads s\<rparr>)"
  using assms
proof (induction k arbitrary: s)
  case 0
  then show ?case by simp
next
  case (Suc k)
  let ?n = "nTotalThreads s"
  let ?s = "s\<lparr>curr_thread := (curr_thread s + 1) mod ?n\<rparr>"
  have step: "sched_iter s = ?s" by (rule sched_iter_skip) (use Suc.prems(1-4) Suc.prems(5) [of 1] in simp_all)
  have eq: "(curr_thread ?s + j) mod ?n = (curr_thread s + (1 + j)) mod ?n" for j
    by (simp add: mod_add_left_eq add.assoc)
  have "sched_iters (k + m) ?s = sched_iters m (?s\<lparr>curr_thread := (curr_thread ?s + int k) mod nTotalThreads ?s\<rparr>)"
  proof (rule Suc.IH)
    fix j :: int assume "1 \<le> j" "j \<le> int k"
    then show "exited (mythread ?s ((curr_thread ?s + j) mod nTotalThreads ?s))"
      using Suc.prems(5) [of "1 + j"] eq [of j] by simp
  qed (use Suc.prems(1-4) in simp_all)
  then show ?case using step Suc.prems(4) eq [of "int k"] by (simp add: ac_simps)
qed

text \<open>C28. The scheduler is round robin and terminates: entered with \<open>n\<close> threads of which one lives, its
  loop switches after at most \<open>n\<close> turns to the first thread in cyclic order after the current one that
  has not exited, at the place where that thread was left, and changes nothing else; with no
  live thread it ends.\<close>

theorem scheduler_round_robin:
  assumes "gt_run True s H" and "initialized s" and "control s = In_Scheduler"
  shows "if nActiveThreads s = 0 then control (sched_iters (nat (nTotalThreads s)) s) = Halted
    else \<exists>k t. 1 \<le> k \<and> k \<le> nTotalThreads s \<and> t = (curr_thread s + k) mod nTotalThreads s \<and> \<not> exited (mythread s t) \<and>
      (\<forall>j. 1 \<le> j \<longrightarrow> j < k \<longrightarrow> exited (mythread s ((curr_thread s + j) mod nTotalThreads s))) \<and>
      sched_iters (nat (nTotalThreads s)) s = s\<lparr>curr_thread := t, control := Running (user_context (mythread s t)), sched_resumed := True\<rparr>"
proof -
  let ?n = "nTotalThreads s"
  have ok: "counts_ok s" using run_inv [OF assms(1)] assms(2) by (auto simp: gt_inv_def starting_def)
  then have b: "0 \<le> curr_thread s" "curr_thread s < ?n" by (auto simp: counts_ok_def)
  show ?thesis
  proof (cases "nActiveThreads s = 0")
    case True
    then have "live s = {}" using ok by (simp add: counts_ok_def)
    then have "exited (mythread s (next_thread s))" using next_thread_bounds [OF b] by (auto simp: live_def)
    then have halt: "control (sched_iter s) = Halted" using True by (simp add: sched_iter_control)
    obtain m where "nat ?n = Suc m" using b by (cases "nat ?n") auto
    moreover have "sched_iters m (sched_iter s) = sched_iter s" by (cases m) (simp_all add: halt)
    ultimately show ?thesis using True assms(3) halt by simp
  next
    case False
    then obtain i where i: "i \<in> live s" using ok by (fastforce simp: counts_ok_def)
    let ?P = "\<lambda>k::nat. \<not> exited (mythread s ((curr_thread s + 1 + int k) mod ?n))"
    define d where "d = nat ((i - curr_thread s - 1) mod ?n)"
    have "(curr_thread s + 1 + int d) mod ?n = i" and d: "int d < ?n"
      using i b by (simp_all add: d_def live_def mod_add_right_eq)
    then have P: "?P d" using i by (simp add: live_def)
    define k where "k = (LEAST k. ?P k)"
    have k: "?P k" "k \<le> d" unfolding k_def by (rule LeastI [of ?P, OF P], rule Least_le [of ?P, OF P])
    have less: "exited (mythread s ((curr_thread s + j) mod ?n))" if "1 \<le> j" "j \<le> int k" for j
      using not_less_Least [of "nat (j - 1)" ?P] that unfolding k_def [symmetric] by (simp add: add.assoc)
    define t where "t = (curr_thread s + (1 + int k)) mod ?n"
    have t: "\<not> exited (mythread s t)" using k(1) by (simp add: t_def add.assoc)
    obtain m where m: "nat ?n = k + Suc m" using k(2) d by (metis add_Suc_right less_natE nat_less_iff le_less_trans of_nat_0_le_iff zless_nat_eq_int_zless)
    let ?s = "s\<lparr>curr_thread := (curr_thread s + int k) mod ?n\<rparr>"
    have "sched_iters (nat ?n) s = sched_iters (Suc m) ?s"
      unfolding m by (rule sched_iters_skip) (use b False assms(3) less in simp_all)
    also have "next_thread ?s = t" using b by (simp add: next_thread_mod t_def mod_add_right_eq ac_simps)
    then have "sched_iter ?s = s\<lparr>curr_thread := t, control := Running (user_context (mythread s t)), sched_resumed := True\<rparr>"
      using t by (simp add: sched_iter_def Let_def)
    then have "sched_iters (Suc m) ?s = s\<lparr>curr_thread := t, control := Running (user_context (mythread s t)), sched_resumed := True\<rparr>"
      using assms(3) by (cases m) simp_all
    finally show ?thesis using False t less k d
      by (auto simp: t_def intro!: exI [of _ "1 + int k"])
  qed
qed

text \<open>An exited thread stays exited, and its result stays.\<close>

definition retired :: "int \<Rightarrow> int \<Rightarrow> 'c gt \<Rightarrow> bool" where
  "retired i v s \<longleftrightarrow> 0 \<le> i \<and> i < nTotalThreads s \<and> exited (mythread s i) \<and> ret (mythread s i) = v"

lemma step_retired:
  assumes "gt_step True (s, H) (s', H')" and "gt_inv s" and "retired i v s"
  shows "retired i v s'"
proof -
  have ok: "counts_ok s" "control_ok s" using assms(2,3) by (auto simp: gt_inv_def starting_def retired_def)
  have other: "i \<noteq> curr_thread s" if "control s = Running u" for u
    using that ok(2) assms(3) by (auto simp: control_ok_def retired_def)
  from assms(1) show ?thesis
  proof cases
    case (finish_init c)
    then show ?thesis using ok(2) by (simp add: control_ok_def)
  next
    case (create c rs stack w)
    show ?thesis using create(3) ok(1) assms(3) generate_keeps
      by (fastforce simp: gtthread_create_def counts_ok_def retired_def Let_def split: if_splits option.splits)
  next
    case (join c tid c' r)
    then show ?thesis using other [OF join(2)] assms(3)
      by (auto simp: gtthread_join_def retired_def swap_to_sched_def split: option.splits if_splits)
  next
    case (cancel c tid)
    then show ?thesis using assms(3) by (auto simp: gtthread_cancel_def retired_def split: option.splits)
  next
    case (lock c m c' got)
    then show ?thesis using other [of "User c"] assms(3)
      by (auto simp: gtthread_mutex_lock_def gtthread_yield_def swap_to_sched_def retired_def Let_def split: if_splits)
  qed (use assms(3) in \<open>auto simp: retired_def other threadcore_begin_def gtthread_exit_def gtthread_yield_def sighandler_def swap_to_sched_def
         threadcore_end_def gtthread_mutex_init_def gtthread_mutex_unlock_def Let_def\<close>)
qed

lemma steps_retired:
  assumes "(gt_step True)\<^sup>*\<^sup>* x y" and "gt_inv (fst x)" and "retired i v (fst x)"
  shows "gt_inv (fst y) \<and> retired i v (fst y)"
  using assms
proof (induction rule: rtranclp_induct)
  case base
  then show ?case by simp
next
  case (step y z)
  then show ?case using step_inv [of "fst y" "snd y" "fst z" "snd z"] step_retired [of "fst y" "snd y" "fst z" "snd z"] by simp
qed

text \<open>The value a thread passes to \<open>gtthread_exit\<close> is the one that \<open>gtthread_join\<close> hands out, whatever
  happens in between: the thread is never run again, and a join that finds its entry in the table
  returns 0 and the value and frees the stack, unless an earlier join has freed it already, in
  which case the stack is freed twice.\<close>

theorem join_returns_exit_value:
  assumes "gt_run True s H" and "control s = Running (User c)" and "(gt_step True)\<^sup>*\<^sup>* (gtthread_exit v (User c') s, H) (s', H')"
    and "find_thread tid s' = Some (curr_thread s)"
  shows "gtthread_join tid here s' =
    (if stack_freed (mythread s' (curr_thread s)) then Inl Invalid_pointer
     else Inr (Some (0, Some v), upd_thread (curr_thread s) (\<lambda>th. th\<lparr>stack_freed := True\<rparr>) s')) \<and>
    \<not> (\<exists>u. control s' = Running u \<and> curr_thread s' = curr_thread s)"
proof -
  have inv: "gt_inv s" "counts_ok s" using run_inv [OF assms(1)] assms(2) by (auto simp: gt_inv_def starting_def)
  have "gt_inv (gtthread_exit v (User c') s)" using step_inv [OF gt_step.exit [OF assms(2)] inv(1)] .
  moreover have "retired (curr_thread s) v (gtthread_exit v (User c') s)"
    using inv(2) by (simp add: retired_def gtthread_exit_def swap_to_sched_def counts_ok_def Let_def)
  ultimately have fin: "gt_inv s'" "retired (curr_thread s) v s'" using steps_retired [OF assms(3)] by simp_all
  then have "control_ok s'" by (auto simp: gt_inv_def starting_def retired_def)
  then show ?thesis using fin(2) assms(4) by (auto simp: gtthread_join_def retired_def control_ok_def)
qed

text \<open>C29. The mutexes exclude: in every execution, with any preemptions and cancellations, no two threads
  hold the same mutex, and a mutex that is held is marked.\<close>

theorem mutex_exclusion:
  assumes "gt_run strict s H" and "(t, m) \<in> H"
  shows "mutex s m = 1 \<and> (\<forall>t'. (t', m) \<in> H \<longrightarrow> t' = t)"
proof -
  have "\<forall>t m. (t, m) \<in> H \<longrightarrow> mutex s m = 1 \<and> (\<forall>t'. (t', m) \<in> H \<longrightarrow> t' = t)"
    using assms(1)
  proof (induction rule: gt_run.induct)
    case start
    show ?case by simp
  next
    case (step s H s' H')
    from step.hyps(2) show ?case
    proof cases
      case (create c rs stack w)
      have "mutex s' = mutex s" using create(3) generate_keeps
        by (fastforce simp: gtthread_create_def Let_def split: if_splits option.splits)
      then show ?thesis using step.IH create by simp
    next
      case (join c tid c' r)
      then have "mutex s' = mutex s"
        by (auto simp: gtthread_join_def swap_to_sched_def split: option.splits if_splits)
      then show ?thesis using step.IH join by simp
    next
      case (cancel c tid)
      then have "mutex s' = mutex s" by (simp add: gtthread_cancel_def split: option.split)
      then show ?thesis using step.IH cancel by simp
    next
      case (lock c m c' got)
      then have "mutex s' = (mutex s)(m := 1)" "got \<longleftrightarrow> mutex s m = 0"
        by (auto simp: gtthread_mutex_lock_def gtthread_yield_def swap_to_sched_def Let_def split: if_splits)
      moreover from this have "(t', m) \<notin> H" if got for t' using that step.IH by force
      ultimately show ?thesis using step.IH unfolding lock(1) by (cases got) auto
    next
      case (mutex_init c m)
      then show ?thesis using step.IH by (auto simp: gtthread_mutex_init_def)
    next
      case (unlock c m)
      have "m' \<noteq> m" if "(t', m') \<in> H'" for t' m' using that step.IH unlock(4) unfolding unlock(2) by blast
      then show ?thesis using step.IH unfolding unlock(1,2) by (auto simp: gtthread_mutex_unlock_def)
    qed (use step.IH in \<open>auto simp: init_tail_def threadcore_begin_def gtthread_exit_def gtthread_yield_def sighandler_def
           swap_to_sched_def threadcore_end_def Let_def\<close>)
  qed
  then show ?thesis using assms(2) by auto
qed

text \<open>C30. \<open>gtthread_cancel\<close> saves the place of its caller in a local variable that nothing restores. When
  the main thread cancels the only other thread before it has been switched out once, the scheduler
  resumes it inside \<open>gtthread_init\<close>: the tail of \<open>gtthread_init\<close> runs again and counts a thread
  that was never created, and when the main thread then yields, the scheduler switches to the entry
  of that thread, whose context was never made.\<close>

theorem early_cancel_runs_phantom:
  fixes s :: "'c gt" and c c' :: 'c
  assumes "gt_run True s H" and "control s = Running (User c)" and "user_context (mythread s 0) = In_init"
    and "nTotalThreads s = 2" and "\<not> exited (mythread s 1)"
  defines "s1 \<equiv> sched_iters 2 (gtthread_cancel (threadid (mythread s 1)) s)"
  defines "s2 \<equiv> sched_iters 2 (gtthread_yield (User c') (init_tail c s1))"
  shows "control s1 = Running In_init \<and> nTotalThreads (init_tail c s1) = 3 \<and> tail_index (init_tail c s1) = 2 \<and>
    nActiveThreads (init_tail c s1) = 2 \<and> {i \<in> {0..<3}. \<not> exited (mythread (init_tail c s1) i)} = {0, 2} \<and>
    control s2 \<in> {Running Unset, Running In_create}"
proof -
  have ok: "counts_ok s" "control_ok s" "runnable s" using run_inv [OF assms(1)] assms(2) by (auto simp: gt_inv_def starting_def)
  have c0: "curr_thread s = 0" using ok(3) assms(3) by (auto simp: runnable_def)
  have e0: "\<not> exited (mythread s 0)" using ok(2) assms(2) c0 by (simp add: control_ok_def)
  have new: "\<not> exited (mythread s 2)" "user_context (mythread s 2) \<in> {Unset, In_create}" "tail_index s = 2"
    using ok(1) assms(4) by (auto simp: counts_ok_def)
  have "live s = {0, 1}" using assms(4,5) e0 by (auto simp: live_def)
  then have n: "nActiveThreads s = 2" using ok(1) by (simp add: counts_ok_def)
  let ?f = "\<lambda>th. th\<lparr>exited := True, active := False\<rparr>"
  let ?s = "enter_sched (upd_thread 1 ?f s\<lparr>nActiveThreads := 1\<rparr>)"
  have "gtthread_cancel (threadid (mythread s 1)) s = ?s"
    using assms(4,5) n by (simp add: gtthread_cancel_def gtthread_equal_def)
  then have s1: "s1 = sched_iters 2 ?s" by (simp add: s1_def)
  have n1: "next_thread ?s = 1" using c0 assms(4) by (simp add: next_thread_def)
  have i1: "sched_iter ?s = ?s\<lparr>curr_thread := 1\<rparr>" using n1 by (simp add: sched_iter_def Let_def enter_sched_def)
  have n2: "next_thread (sched_iter ?s) = 0" using i1 assms(4) by (simp add: next_thread_mod)
  have ctl: "control ?s = In_Scheduler" by simp
  have s1_eq: "s1 = sched_iter (sched_iter ?s)" using ctl i1 by (simp add: s1 numeral_2_eq_2)
  have one: "control s1 = Running In_init" "curr_thread s1 = 0" "nTotalThreads s1 = 2" "tail_index s1 = 2" "nActiveThreads s1 = 1"
    "mythread s1 = (mythread s)(1 := ?f (mythread s 1))" "sched_resumed s1"
    using n2 e0 assms(3,4) new(3) by (simp_all add: s1_eq sched_iter_control)
  let ?t = "gtthread_yield (User c') (init_tail c s1)"
  have t: "control ?t = In_Scheduler" "curr_thread ?t = 0" "nTotalThreads ?t = 3" "nActiveThreads ?t = 2"
    "exited (mythread ?t 1)" "mythread ?t 2 = mythread s 2"
    using one by (simp_all add: gtthread_yield_def swap_to_sched_def init_tail_def)
  have "next_thread ?t = 1" using t by (simp add: next_thread_def)
  moreover from this have "next_thread (sched_iter ?t) = 2" using t by (simp add: next_thread_def)
  ultimately have "control s2 = Running (user_context (mythread s 2))"
    using t new(1) by (simp add: s2_def numeral_2_eq_2 sched_iter_control)
  moreover have "{i \<in> {0..<3}. \<not> exited (mythread (init_tail c s1) i)} = {0, 2}"
    using one(6) e0 new(1) by (auto simp: init_tail_def)
  ultimately show ?thesis using one new(2) by (auto simp: init_tail_def)
qed

section \<open>A concrete execution\<close>

text \<open>The main thread creates a thread and locks a mutex, yields, and the thread exits with 7.\<close>

definition demo_gt1 :: "unit gt" where
  "demo_gt1 = init_tail () (gtthread_init (gt_zero (\<lambda>_. 0)))"

definition demo_gt2 :: "unit gt" where
  "demo_gt2 = (upd_thread 1 (\<lambda>th. th\<lparr>threadid := 5, user_context := Fresh, stack_freed := False\<rparr>) (demo_gt1\<lparr>unique_id := True\<rparr>))
     \<lparr>tail_index := 2, nTotalThreads := 2, nActiveThreads := 2\<rparr>"

lemma demo_gt1_run: "gt_run True demo_gt1 {}"
  unfolding demo_gt1_def by (rule gt_run.step [OF gt_run.start gt_step.finish_init]) (simp add: init_state)

text \<open>Any number but 0 is accepted as an id, whether or not a thread has it already.\<close>

lemma id_loop_nonzero: "r \<noteq> 0 \<Longrightarrow> id_loop s r is u \<longleftrightarrow> u \<or> is \<noteq> []"
  by (induction "is" arbitrary: u) auto

lemma generate_thread_id_nonzero: "r \<noteq> 0 \<Longrightarrow> generate_thread_id (r # rs) s = Some (r, s\<lparr>unique_id := True\<rparr>)"
  by (simp add: id_loop_nonzero Let_def MAXTHREADS_def)

lemma demo_gt1_fields:
  "control demo_gt1 = Running (User ())" "curr_thread demo_gt1 = 0" "nTotalThreads demo_gt1 = 1" "tail_index demo_gt1 = 1"
  "nActiveThreads demo_gt1 = 1" "initialized demo_gt1" "\<not> exited (mythread demo_gt1 i)" "\<not> stack_freed (mythread demo_gt1 i)"
  "user_context (mythread demo_gt1 0) = In_init" "mutex demo_gt1 = (\<lambda>_. 0)" "\<not> sched_resumed demo_gt1"
  by (simp_all add: demo_gt1_def init_tail_def init_state)

lemma demo_create: "gtthread_create [5] True demo_gt1 = Inr (Some (0, demo_gt2))"
  by (simp add: gtthread_create_def demo_gt1_fields generate_thread_id_nonzero MAXTHREADS_def demo_gt2_def upd_thread_def Let_def
      del: generate_thread_id.simps)

lemma demo_gt2_run: "gt_run True demo_gt2 {}"
  by (rule gt_run.step [OF demo_gt1_run gt_step.create [OF demo_gt1_fields(1) demo_create]])

lemma demo_gt2_fields:
  "control demo_gt2 = Running (User ())" "curr_thread demo_gt2 = 0" "nTotalThreads demo_gt2 = 2" "tail_index demo_gt2 = 2"
  "nActiveThreads demo_gt2 = 2" "initialized demo_gt2" "\<not> exited (mythread demo_gt2 i)" "\<not> stack_freed (mythread demo_gt2 i)"
  "user_context (mythread demo_gt2 0) = In_init" "user_context (mythread demo_gt2 1) = Fresh" "threadid (mythread demo_gt2 1) = 5"
  "mutex demo_gt2 = (\<lambda>_. 0)" "\<not> sched_resumed demo_gt2"
  by (simp_all add: demo_gt2_def demo_gt1_fields)

theorem threads_accounted_witness:
  "nActiveThreads demo_gt2 = int (card {i \<in> {0..<2}. \<not> exited (mythread demo_gt2 i)}) \<and> tail_index demo_gt2 = 2"
  using threads_accounted [OF demo_gt2_run demo_gt2_fields(6)] by (simp add: demo_gt2_fields)

definition demo_gt3 :: "unit gt" where
  "demo_gt3 = gtthread_yield (User ()) demo_gt2"

lemma demo_gt3_run: "gt_run True demo_gt3 {}"
  unfolding demo_gt3_def by (rule gt_run.step [OF demo_gt2_run gt_step.yield [OF demo_gt2_fields(1)]])

lemma demo_gt3_fields:
  "control demo_gt3 = In_Scheduler" "curr_thread demo_gt3 = 0" "nTotalThreads demo_gt3 = 2" "nActiveThreads demo_gt3 = 2"
  "initialized demo_gt3" "\<not> exited (mythread demo_gt3 i)" "\<not> stack_freed (mythread demo_gt3 i)"
  "user_context (mythread demo_gt3 0) = User ()" "user_context (mythread demo_gt3 1) = Fresh" "threadid (mythread demo_gt3 1) = 5"
  by (simp_all add: demo_gt3_def gtthread_yield_def swap_to_sched_def demo_gt2_fields)

theorem scheduler_round_robin_witness:
  "\<exists>k t. 1 \<le> k \<and> k \<le> 2 \<and> t = k mod 2 \<and>
     sched_iters 2 demo_gt3 = demo_gt3\<lparr>curr_thread := t, control := Running (user_context (mythread demo_gt3 t)), sched_resumed := True\<rparr>"
  using scheduler_round_robin [OF demo_gt3_run demo_gt3_fields(5,1)] by (auto simp: demo_gt3_fields)

theorem mutex_exclusion_witness:
  "\<exists>s :: unit gt. gt_run True s {(0, 3)} \<and> mutex s 3 = 1"
proof -
  let ?s = "demo_gt2\<lparr>mutex := (mutex demo_gt2)(3 := 1)\<rparr>"
  have "gtthread_mutex_lock 3 (User ()) demo_gt2 = (True, ?s)" by (simp add: gtthread_mutex_lock_def demo_gt2_fields)
  from gt_run.step [OF demo_gt2_run gt_step.lock [OF demo_gt2_fields(1) this]]
  have "gt_run True ?s {(0, 3)}" by (simp add: demo_gt2_fields)
  from this mutex_exclusion [OF this, of 0 3] show ?thesis by blast
qed

theorem early_cancel_runs_phantom_witness:
  "control (sched_iters 2 (gtthread_yield (User ()) (init_tail () (sched_iters 2 (gtthread_cancel 5 demo_gt2)))))
     \<in> {Running Unset, Running In_create}"
  using early_cancel_runs_phantom [OF demo_gt2_run demo_gt2_fields(1,9,3,7), of "()"] by (simp add: demo_gt2_fields)

text \<open>The scheduler switches to the new thread, which begins and exits; the main thread is next.\<close>

definition demo_gt4 :: "unit gt" where
  "demo_gt4 = threadcore_begin () (sched_iter demo_gt3)"

definition demo_gt5 :: "unit gt" where
  "demo_gt5 = sched_iter (gtthread_exit 7 (User ()) demo_gt4)"

lemma demo_next: "next_thread demo_gt3 = 1"
  by (simp add: next_thread_def demo_gt3_fields)

lemma demo_gt4_run: "gt_run True demo_gt4 {}"
  unfolding demo_gt4_def
  by (rule gt_run.step [OF gt_run.step [OF demo_gt3_run gt_step.schedule [OF demo_gt3_fields(1)]] gt_step.begin_thread])
    (simp add: sched_iter_control demo_next demo_gt3_fields)

lemma demo_gt4_fields:
  "control demo_gt4 = Running (User ())" "curr_thread demo_gt4 = 1" "nTotalThreads demo_gt4 = 2" "nActiveThreads demo_gt4 = 2"
  "\<not> exited (mythread demo_gt4 i)" "\<not> stack_freed (mythread demo_gt4 i)" "threadid (mythread demo_gt4 1) = 5"
  by (simp_all add: demo_gt4_def threadcore_begin_def demo_gt3_fields demo_next)

lemma demo_gt5_steps: "(gt_step True)\<^sup>*\<^sup>* (gtthread_exit 7 (User ()) demo_gt4, {}) (demo_gt5, {})"
  unfolding demo_gt5_def
  by (rule r_into_rtranclp, rule gt_step.schedule) (simp add: gtthread_exit_def swap_to_sched_def demo_gt4_fields Let_def)

theorem join_returns_exit_value_witness:
  "\<exists>s'. gtthread_join 5 (User ()) demo_gt5 = Inr (Some (0, Some 7), s')"
proof -
  have f: "threadid (mythread demo_gt5 1) = 5" "\<not> stack_freed (mythread demo_gt5 1)" "nTotalThreads demo_gt5 = 2"
    by (simp_all add: demo_gt5_def gtthread_exit_def swap_to_sched_def demo_gt4_fields Let_def)
  then have "find_thread 5 demo_gt5 = Some (curr_thread demo_gt4)" by (simp add: find_thread_def demo_gt4_fields)
  from join_returns_exit_value [OF demo_gt4_run demo_gt4_fields(1) demo_gt5_steps this, of "User ()"]
  show ?thesis using f by (simp add: demo_gt4_fields)
qed

end
