(* ===== verification/Producer_Consumer.thy ===== *)
theory Producer_Consumer
  imports Prelude "HOL-Library.Multiset"
begin

text \<open>
  The threads of \<open>src/aos/prelab/producer_consumer.c\<close>: a producer puts the letters a to z into a
  doubly linked queue, two consumers print them, the main thread joins and prints the number of
  printed letters. The threads are interleaved one access to the shared variables at a time; the
  changes of the linked list inside a critical section are one step. The heap holds the allocated
  nodes; following a null or freed pointer and a failing \<open>assert\<close> are faults.

  Both \<open>g_num_prod_lock\<close> and the queue's lock are also unlocked by threads that do not hold them.
  POSIX leaves that undefined; in the model the mutex is then free, as with mutexes that do not
  check their owner.

  The theorems: the critical sections exclude each other all the same, nothing faults, nothing
  deadlocks, every letter is at any time in exactly one place and the total is right; but the
  consumers may leave before the queue is empty, and the letters in it are lost.
\<close>

section \<open>State\<close>

record queue_node =
  nxt :: "nat option"
  prv :: "nat option"
  letter :: int

datatype tid = Main | Producer | Consumer nat

datatype main_pc = M_create_producer | M_create_consumer | M_join_producer | M_join_consumer int | M_printed int

datatype prod_pc =
    P_absent
  | P_create
  | P_malloc int
  | P_lock int nat
  | P_add int nat
  | P_unlock int
  | P_decrement
  | P_join
  | P_return int

datatype cons_pc =
    C_absent
  | C_lock_num
  | C_test_front
  | C_test_num
  | C_unlock_num
  | C_lock_queue
  | C_take
  | C_unlock_taken nat
  | C_print nat
  | C_free nat
  | C_unlock_empty
  | C_exit_num
  | C_exit_queue
  | C_return

record pcq =
  heap :: "nat \<Rightarrow> queue_node option"
  q_front :: "nat option"
  q_back :: "nat option"
  queue_lock :: "tid option"
  num_lock :: "tid option"
  g_num_prod :: int
  main_at :: main_pc
  prod_at :: prod_pc
  cons_at :: "nat \<Rightarrow> cons_pc"
  cons_count :: "nat \<Rightarrow> int"
  printed :: "int list"

section \<open>The threads\<close>

text \<open>A step is \<open>None\<close> if the thread has to wait or has ended. The consumer of the main thread is
  number 0, that of the producer number 1. \<open>a\<close> is the address \<open>malloc\<close> returns.\<close>

definition main_exec :: "pcq \<Rightarrow> pcq option" where
  "main_exec s =
     (case main_at s of
        M_create_producer \<Rightarrow> Some (s\<lparr>g_num_prod := 1, prod_at := P_create, main_at := M_create_consumer\<rparr>)
      | M_create_consumer \<Rightarrow> Some (s\<lparr>cons_at := (cons_at s)(0 := C_lock_num), main_at := M_join_producer\<rparr>)
      | M_join_producer \<Rightarrow> (case prod_at s of P_return v \<Rightarrow> Some (s\<lparr>main_at := M_join_consumer v\<rparr>) | _ \<Rightarrow> None)
      | M_join_consumer v \<Rightarrow> if cons_at s 0 = C_return then Some (s\<lparr>main_at := M_printed (cons_count s 0 + v)\<rparr>) else None
      | M_printed _ \<Rightarrow> None)"

definition ord_a :: int where "ord_a = 97"

definition ord_z :: int where "ord_z = 122"

definition add_node :: "nat \<Rightarrow> pcq \<Rightarrow> pcq res" where
  "add_node n s =
     (case heap s n of
        None \<Rightarrow> Inl Invalid_pointer
      | Some new \<Rightarrow>
          (case q_back s of
             None \<Rightarrow>
               if q_front s \<noteq> None then Inl (Assertion_failed ''queue_p->front == NULL'')
               else Inr (s\<lparr>heap := (heap s)(n \<mapsto> new\<lparr>prv := None\<rparr>), q_front := Some n, q_back := Some n\<rparr>)
           | Some b \<Rightarrow>
               if q_front s = None then Inl (Assertion_failed ''queue_p->front != NULL'')
               else (case heap s b of
                       None \<Rightarrow> Inl Invalid_pointer
                     | Some old \<Rightarrow>
                         Inr (s\<lparr>heap := (heap s)(n \<mapsto> new\<lparr>prv := Some b\<rparr>, b \<mapsto> old\<lparr>nxt := Some n\<rparr>), q_back := Some n\<rparr>))))"

definition prod_exec :: "nat \<Rightarrow> pcq \<Rightarrow> pcq res option" where
  "prod_exec a s =
     (case prod_at s of
        P_absent \<Rightarrow> None
      | P_create \<Rightarrow> Some (Inr (s\<lparr>cons_at := (cons_at s)(1 := C_lock_num), prod_at := P_malloc ord_a\<rparr>))
      | P_malloc c \<Rightarrow> Some (Inr (s\<lparr>heap := (heap s)(a \<mapsto> \<lparr>nxt = None, prv = None, letter = c\<rparr>), prod_at := P_lock c a\<rparr>))
      | P_lock c n \<Rightarrow> if queue_lock s = None then Some (Inr (s\<lparr>queue_lock := Some Producer, prod_at := P_add c n\<rparr>)) else None
      | P_add c n \<Rightarrow> Some (bindE (add_node n s) (\<lambda>s. Inr (s\<lparr>prod_at := P_unlock c\<rparr>)))
      | P_unlock c \<Rightarrow> Some (Inr (s\<lparr>queue_lock := None, prod_at := (if c + 1 \<le> ord_z then P_malloc (c + 1) else P_decrement)\<rparr>))
      | P_decrement \<Rightarrow>
          Some (Inr (s\<lparr>g_num_prod := g_num_prod s - 1, prod_at := (if g_num_prod s - 1 = 0 then P_join else P_return 0)\<rparr>))
      | P_join \<Rightarrow> if cons_at s 1 = C_return then Some (Inr (s\<lparr>prod_at := P_return (cons_count s 1)\<rparr>)) else None
      | P_return _ \<Rightarrow> None)"

definition cons_goto :: "nat \<Rightarrow> cons_pc \<Rightarrow> pcq \<Rightarrow> pcq" where
  "cons_goto i l s = s\<lparr>cons_at := (cons_at s)(i := l)\<rparr>"

definition take_node :: "nat \<Rightarrow> nat \<Rightarrow> pcq \<Rightarrow> pcq res" where
  "take_node i f s =
     (case heap s f of
        None \<Rightarrow> Inl Invalid_pointer
      | Some nd \<Rightarrow>
          (case nxt nd of
             None \<Rightarrow> Inr (cons_goto i (C_unlock_taken f) (s\<lparr>q_back := None, q_front := None\<rparr>))
           | Some g \<Rightarrow>
               (case heap s g of
                  None \<Rightarrow> Inl Invalid_pointer
                | Some gd \<Rightarrow>
                    Inr (cons_goto i (C_unlock_taken f) (s\<lparr>heap := (heap s)(g \<mapsto> gd\<lparr>prv := None\<rparr>), q_front := Some g\<rparr>)))))"

definition cons_exec :: "nat \<Rightarrow> pcq \<Rightarrow> pcq res option" where
  "cons_exec i s =
     (case cons_at s i of
        C_absent \<Rightarrow> None
      | C_lock_num \<Rightarrow>
          if num_lock s = None then Some (Inr (cons_goto i C_test_front (s\<lparr>num_lock := Some (Consumer i)\<rparr>))) else None
      | C_test_front \<Rightarrow> Some (Inr (cons_goto i (if q_front s \<noteq> None then C_unlock_num else C_test_num) s))
      | C_test_num \<Rightarrow> Some (Inr (cons_goto i (if g_num_prod s > 0 then C_unlock_num else C_exit_num) s))
      | C_unlock_num \<Rightarrow> Some (Inr (cons_goto i C_lock_queue (s\<lparr>num_lock := None\<rparr>)))
      | C_lock_queue \<Rightarrow>
          if queue_lock s = None then Some (Inr (cons_goto i C_take (s\<lparr>queue_lock := Some (Consumer i)\<rparr>))) else None
      | C_take \<Rightarrow> Some (case q_front s of None \<Rightarrow> Inr (cons_goto i C_unlock_empty s) | Some f \<Rightarrow> take_node i f s)
      | C_unlock_taken f \<Rightarrow> Some (Inr (cons_goto i (C_print f) (s\<lparr>queue_lock := None\<rparr>)))
      | C_print f \<Rightarrow>
          Some (case heap s f of
                  None \<Rightarrow> Inl Invalid_pointer
                | Some nd \<Rightarrow> Inr (cons_goto i (C_free f) (s\<lparr>printed := printed s @ [letter nd]\<rparr>)))
      | C_free f \<Rightarrow>
          Some (if heap s f = None then Inl Invalid_pointer
                else Inr (cons_goto i C_test_front
                       (s\<lparr>heap := (heap s)(f := None), cons_count := (cons_count s)(i := cons_count s i + 1)\<rparr>)))
      | C_unlock_empty \<Rightarrow> Some (Inr (cons_goto i C_test_front (s\<lparr>queue_lock := None\<rparr>)))
      | C_exit_num \<Rightarrow> Some (Inr (cons_goto i C_exit_queue (s\<lparr>num_lock := None\<rparr>)))
      | C_exit_queue \<Rightarrow> Some (Inr (cons_goto i C_return (s\<lparr>queue_lock := None\<rparr>)))
      | C_return \<Rightarrow> None)"

definition pc_init :: pcq where
  "pc_init = \<lparr>heap = (\<lambda>_. None), q_front = None, q_back = None, queue_lock = None, num_lock = None, g_num_prod = 0,
     main_at = M_create_producer, prod_at = P_absent, cons_at = (\<lambda>_. C_absent), cons_count = (\<lambda>_. 0), printed = []\<rparr>"

inductive pc_run :: "pcq \<Rightarrow> bool" where
  start: "pc_run pc_init"
| main_step: "pc_run s \<Longrightarrow> main_exec s = Some s' \<Longrightarrow> pc_run s'"
| prod_step: "pc_run s \<Longrightarrow> heap s a = None \<Longrightarrow> prod_exec a s = Some (Inr s') \<Longrightarrow> pc_run s'"
| cons_step: "pc_run s \<Longrightarrow> i < 2 \<Longrightarrow> cons_exec i s = Some (Inr s') \<Longrightarrow> pc_run s'"

lemma cons_goto_fields [simp]:
  "heap (cons_goto i l s) = heap s" "q_front (cons_goto i l s) = q_front s" "q_back (cons_goto i l s) = q_back s"
  "queue_lock (cons_goto i l s) = queue_lock s" "num_lock (cons_goto i l s) = num_lock s" "g_num_prod (cons_goto i l s) = g_num_prod s"
  "main_at (cons_goto i l s) = main_at s" "prod_at (cons_goto i l s) = prod_at s" "cons_at (cons_goto i l s) = (cons_at s)(i := l)"
  "cons_count (cons_goto i l s) = cons_count s" "printed (cons_goto i l s) = printed s"
  by (simp_all add: cons_goto_def)

section \<open>Control\<close>

fun prod_critical :: "prod_pc \<Rightarrow> bool" where
  "prod_critical (P_add c n) = True"
| "prod_critical (P_unlock c) = True"
| "prod_critical _ = False"

fun prod_ended :: "prod_pc \<Rightarrow> bool" where
  "prod_ended P_join = True"
| "prod_ended (P_return v) = True"
| "prod_ended _ = False"

fun cons_critical :: "cons_pc \<Rightarrow> bool" where
  "cons_critical C_take = True"
| "cons_critical (C_unlock_taken f) = True"
| "cons_critical C_unlock_empty = True"
| "cons_critical _ = False"

fun cons_leaving :: "cons_pc \<Rightarrow> bool" where
  "cons_leaving C_exit_num = True"
| "cons_leaving C_exit_queue = True"
| "cons_leaving C_return = True"
| "cons_leaving _ = False"

fun cons_testing :: "cons_pc \<Rightarrow> bool" where
  "cons_testing C_test_front = True"
| "cons_testing C_test_num = True"
| "cons_testing C_unlock_num = True"
| "cons_testing C_exit_num = True"
| "cons_testing _ = False"

text \<open>The thread is in a critical section of the queue.\<close>

fun critical :: "pcq \<Rightarrow> tid \<Rightarrow> bool" where
  "critical s Main = False"
| "critical s Producer = prod_critical (prod_at s)"
| "critical s (Consumer i) = cons_critical (cons_at s i)"

text \<open>
  What the program counters say of the shared variables. A consumer in its critical section holds
  the lock, or the other consumer has returned and may have unlocked it; then the producer has
  ended too and nobody is left who could enter.
\<close>

definition producer_ok :: "main_pc \<Rightarrow> prod_pc \<Rightarrow> int \<Rightarrow> tid option \<Rightarrow> bool" where
  "producer_ok m p g ql \<longleftrightarrow> (p = P_absent \<longleftrightarrow> m = M_create_producer) \<and>
     g = (if p = P_absent \<or> prod_ended p then 0 else 1) \<and> (prod_critical p \<longrightarrow> ql = Some Producer)"

definition joins_ok :: "main_pc \<Rightarrow> prod_pc \<Rightarrow> cons_pc \<Rightarrow> cons_pc \<Rightarrow> int \<Rightarrow> int \<Rightarrow> bool" where
  "joins_ok m p c0 c1 k0 k1 \<longleftrightarrow> (\<forall>v. p = P_return v \<longrightarrow> v = k1 \<and> c1 = C_return) \<and>
     (\<forall>v. m = M_join_consumer v \<longrightarrow> p = P_return v) \<and>
     (\<forall>v. m = M_printed v \<longrightarrow> v = k0 + k1 \<and> c0 = C_return \<and> p = P_return k1)"

definition created_ok :: "main_pc \<Rightarrow> prod_pc \<Rightarrow> cons_pc \<Rightarrow> cons_pc \<Rightarrow> bool" where
  "created_ok m p c0 c1 \<longleftrightarrow> (c0 = C_absent \<longleftrightarrow> m = M_create_producer \<or> m = M_create_consumer) \<and>
     (c1 = C_absent \<longleftrightarrow> p = P_absent \<or> p = P_create)"

definition queue_lock_ok :: "tid option \<Rightarrow> prod_pc \<Rightarrow> cons_pc \<Rightarrow> cons_pc \<Rightarrow> bool" where
  "queue_lock_ok ql p c0 c1 \<longleftrightarrow> ql = None \<or> ql = Some Producer \<and> prod_critical p \<or>
     ql = Some (Consumer 0) \<and> cons_critical c0 \<or> ql = Some (Consumer 1) \<and> cons_critical c1"

definition num_lock_ok :: "tid option \<Rightarrow> cons_pc \<Rightarrow> cons_pc \<Rightarrow> bool" where
  "num_lock_ok nl c0 c1 \<longleftrightarrow> nl = None \<or> nl = Some (Consumer 0) \<and> cons_testing c0 \<or> nl = Some (Consumer 1) \<and> cons_testing c1"

definition consumer_ok :: "nat \<Rightarrow> prod_pc \<Rightarrow> cons_pc \<Rightarrow> cons_pc \<Rightarrow> tid option \<Rightarrow> bool" where
  "consumer_ok i p ci cj ql \<longleftrightarrow> (cons_leaving ci \<longrightarrow> prod_ended p) \<and>
     (cons_critical ci \<longrightarrow> \<not> prod_critical p \<and> \<not> cons_critical cj \<and> (ql = Some (Consumer i) \<or> cj = C_return))"

definition control_inv :: "pcq \<Rightarrow> bool" where
  "control_inv s \<longleftrightarrow> producer_ok (main_at s) (prod_at s) (g_num_prod s) (queue_lock s) \<and>
     joins_ok (main_at s) (prod_at s) (cons_at s 0) (cons_at s 1) (cons_count s 0) (cons_count s 1) \<and>
     created_ok (main_at s) (prod_at s) (cons_at s 0) (cons_at s 1) \<and>
     queue_lock_ok (queue_lock s) (prod_at s) (cons_at s 0) (cons_at s 1) \<and> num_lock_ok (num_lock s) (cons_at s 0) (cons_at s 1) \<and>
     consumer_ok 0 (prod_at s) (cons_at s 0) (cons_at s 1) (queue_lock s) \<and>
     consumer_ok 1 (prod_at s) (cons_at s 1) (cons_at s 0) (queue_lock s)"

lemmas control_defs = producer_ok_def joins_ok_def created_ok_def queue_lock_ok_def num_lock_ok_def consumer_ok_def

lemma critical_consumer:
  "consumer_ok i p ci cj ql \<Longrightarrow> consumer_ok j p cj ci ql \<Longrightarrow> cons_critical ci \<Longrightarrow> ql = Some (Consumer i) \<or> prod_ended p \<and> cj = C_return"
  by (cases "cj = C_return") (simp_all add: consumer_ok_def)

lemma main_moves:
  assumes "main_exec s = Some s'"
  obtains (prod) "main_at s = M_create_producer" "s' = s\<lparr>g_num_prod := 1, prod_at := P_create, main_at := M_create_consumer\<rparr>"
  | (cons) "main_at s = M_create_consumer" "s' = s\<lparr>cons_at := (cons_at s)(0 := C_lock_num), main_at := M_join_producer\<rparr>"
  | (join) v where "main_at s = M_join_producer" "prod_at s = P_return v" "s' = s\<lparr>main_at := M_join_consumer v\<rparr>"
  | (print) v where "main_at s = M_join_consumer v" "cons_at s 0 = C_return" "s' = s\<lparr>main_at := M_printed (cons_count s 0 + v)\<rparr>"
  using assms by (auto simp: main_exec_def split: main_pc.splits prod_pc.splits if_splits)

lemma main_control:
  assumes inv: "control_inv s" and step: "main_exec s = Some s'"
  shows "control_inv s'"
proof -
  from step show ?thesis
  proof (cases rule: main_moves)
    case prod
    then have "prod_at s = P_absent" "cons_at s 0 = C_absent" "cons_at s 1 = C_absent"
      using inv by (simp_all add: control_inv_def producer_ok_def created_ok_def)
    then show ?thesis using prod inv by (simp add: control_inv_def control_defs)
  next
    case cons
    then have "cons_at s 0 = C_absent" "prod_at s \<noteq> P_absent" using inv by (simp_all add: control_inv_def producer_ok_def created_ok_def)
    then show ?thesis using cons inv by (simp add: control_inv_def control_defs)
  next
    case join
    then have "cons_at s 1 = C_return" using inv by (simp add: control_inv_def joins_ok_def)
    then show ?thesis using join inv by (simp add: control_inv_def control_defs)
  next
    case (print v)
    then have "prod_at s = P_return v" "v = cons_count s 1" "cons_at s 1 = C_return" using inv by (simp_all add: control_inv_def joins_ok_def)
    then show ?thesis using print inv by (simp add: control_inv_def control_defs)
  qed
qed

lemma add_node_control:
  assumes "add_node n s = Inr s'"
  shows "main_at s' = main_at s" "prod_at s' = prod_at s" "cons_at s' = cons_at s" "cons_count s' = cons_count s"
    "queue_lock s' = queue_lock s" "num_lock s' = num_lock s" "g_num_prod s' = g_num_prod s" "printed s' = printed s"
  using assms by (auto simp: add_node_def split: option.splits if_splits)

lemma take_node_control:
  assumes "take_node i f s = Inr s'"
  shows "main_at s' = main_at s" "prod_at s' = prod_at s" "cons_at s' = (cons_at s)(i := C_unlock_taken f)" "cons_count s' = cons_count s"
    "queue_lock s' = queue_lock s" "num_lock s' = num_lock s" "g_num_prod s' = g_num_prod s" "printed s' = printed s"
  using assms by (auto simp: take_node_def split: option.splits if_splits)

lemma prod_control:
  assumes inv: "control_inv s" and step: "prod_exec a s = Some (Inr s')"
  shows "control_inv s'"
proof -
  have free: "\<not> cons_critical (cons_at s 0) \<and> \<not> cons_critical (cons_at s 1)" if "queue_lock s = None" "\<not> prod_ended (prod_at s)"
    using that inv critical_consumer [of 0 "prod_at s"] critical_consumer [of 1 "prod_at s"] by (simp add: control_inv_def) blast
  show ?thesis
  proof (cases "prod_at s")
    case (P_add c n)
    then obtain s1 where s1: "add_node n s = Inr s1" "s' = s1\<lparr>prod_at := P_unlock c\<rparr>" using step by (auto simp: prod_exec_def)
    have "prod_at s' = P_unlock c" "main_at s' = main_at s" "cons_at s' = cons_at s" "cons_count s' = cons_count s"
      "queue_lock s' = queue_lock s" "num_lock s' = num_lock s" "g_num_prod s' = g_num_prod s"
      using add_node_control [OF s1(1)] by (simp_all add: s1(2))
    then show ?thesis using inv P_add by (simp add: control_inv_def control_defs)
  next
    case (P_lock c n)
    then have "queue_lock s = None" "s' = s\<lparr>queue_lock := Some Producer, prod_at := P_add c n\<rparr>"
      using step by (auto simp: prod_exec_def split: if_splits)
    then show ?thesis using P_lock free inv by (simp add: control_inv_def control_defs)
  next
    case (P_unlock c)
    then have s': "s' = s\<lparr>queue_lock := None, prod_at := (if c + 1 \<le> ord_z then P_malloc (c + 1) else P_decrement)\<rparr>"
      using step by (simp add: prod_exec_def)
    show ?thesis using P_unlock inv by (simp add: s' control_inv_def control_defs)
  next
    case P_create
    then have "cons_at s 1 = C_absent" using inv by (simp add: control_inv_def created_ok_def)
    moreover have s': "s' = s\<lparr>cons_at := (cons_at s)(1 := C_lock_num), prod_at := P_malloc ord_a\<rparr>"
      using P_create step by (simp add: prod_exec_def)
    ultimately show ?thesis using P_create inv by (simp add: s' control_inv_def control_defs)
  next
    case P_join
    then have "cons_at s 1 = C_return" and s': "s' = s\<lparr>prod_at := P_return (cons_count s 1)\<rparr>"
      using step by (auto simp: prod_exec_def split: if_splits)
    then show ?thesis using P_join inv by (simp add: s' control_inv_def control_defs)
  next
    case P_decrement
    then have s': "s' = s\<lparr>g_num_prod := 0, prod_at := P_join\<rparr>" using step inv by (simp add: prod_exec_def control_inv_def producer_ok_def)
    show ?thesis using P_decrement inv by (simp add: s' control_inv_def control_defs)
  next
    case (P_malloc c)
    then have "prod_at s' = P_lock c a" "main_at s' = main_at s" "cons_at s' = cons_at s" "cons_count s' = cons_count s"
      "queue_lock s' = queue_lock s" "num_lock s' = num_lock s" "g_num_prod s' = g_num_prod s" using step by (auto simp: prod_exec_def)
    then show ?thesis using P_malloc inv by (simp add: control_inv_def control_defs)
  qed (use step in \<open>simp_all add: prod_exec_def\<close>)
qed

text \<open>What a step of a consumer may do to the locks.\<close>

lemma cons_moves:
  assumes "cons_exec i s = Some (Inr s')"
  shows "main_at s' = main_at s" "prod_at s' = prod_at s" "g_num_prod s' = g_num_prod s" "\<And>j. j \<noteq> i \<Longrightarrow> cons_at s' j = cons_at s j"
    "\<And>j. j \<noteq> i \<Longrightarrow> cons_count s' j = cons_count s j"
    "cons_at s i \<noteq> C_absent \<and> cons_at s i \<noteq> C_return \<and> cons_at s' i \<noteq> C_absent"
    "cons_leaving (cons_at s' i) \<Longrightarrow> cons_leaving (cons_at s i) \<or> g_num_prod s \<le> 0"
  using assms by (auto simp: cons_exec_def take_node_control split: cons_pc.splits if_splits option.splits)

lemma cons_queue_lock:
  assumes "cons_exec i s = Some (Inr s')"
  obtains (same) "queue_lock s' = queue_lock s" "cons_critical (cons_at s' i) = cons_critical (cons_at s i)"
  | (lock) "queue_lock s = None" "queue_lock s' = Some (Consumer i)" "cons_at s i = C_lock_queue" "cons_critical (cons_at s' i)"
  | (unlock) "queue_lock s' = None" "cons_critical (cons_at s i)" "\<not> cons_critical (cons_at s' i)"
  | (stray) "queue_lock s' = None" "cons_at s i = C_exit_queue" "cons_at s' i = C_return"
  using assms by (auto simp: cons_exec_def take_node_control split: cons_pc.splits if_splits option.splits)

lemma cons_num_lock:
  assumes "cons_exec i s = Some (Inr s')"
  obtains (same) "num_lock s' = num_lock s" "cons_testing (cons_at s i) \<Longrightarrow> cons_testing (cons_at s' i)"
  | (lock) "num_lock s' = Some (Consumer i)" "cons_testing (cons_at s' i)"
  | (unlock) "num_lock s' = None"
  using assms by (auto simp: cons_exec_def take_node_control split: cons_pc.splits if_splits option.splits)

lemma cons_control:
  assumes inv: "control_inv s" and i: "i = 0 \<and> j = 1 \<or> i = 1 \<and> j = (0 :: nat)" and step: "cons_exec i s = Some (Inr s')"
  shows "control_inv s'"
proof -
  let ?p = "prod_at s" and ?ci = "cons_at s i" and ?cj = "cons_at s j" and ?ci' = "cons_at s' i"
  note moves = cons_moves [OF step]
  have ij: "cons_at s' j = ?cj" "cons_count s' j = cons_count s j" using moves(4,5) [of j] i by auto
  have ok: "consumer_ok i ?p ?ci ?cj (queue_lock s)" "consumer_ok j ?p ?cj ?ci (queue_lock s)" "producer_ok (main_at s) ?p (g_num_prod s) (queue_lock s)"
    using inv i by (auto simp: control_inv_def)
  have new: "consumer_ok i ?p ?ci' ?cj (queue_lock s') \<and> consumer_ok j ?p ?cj ?ci' (queue_lock s') \<and> producer_ok (main_at s) ?p (g_num_prod s) (queue_lock s')"
  proof -
    have "created_ok (main_at s) ?p (cons_at s 0) (cons_at s 1)" using inv by (simp add: control_inv_def)
    then have "?p \<noteq> P_absent" using i moves(6) ok(3) by (elim disjE) (simp_all add: created_ok_def producer_ok_def)
    then have "g_num_prod s \<le> 0 \<longrightarrow> prod_ended ?p" using ok(3) by (simp add: producer_ok_def)
    moreover have "cons_leaving ?ci \<longrightarrow> prod_ended ?p" using ok(1) by (simp add: consumer_ok_def)
    ultimately have ended: "cons_leaving ?ci' \<longrightarrow> prod_ended ?p" using moves(7) by blast
    from step show ?thesis
    proof (cases rule: cons_queue_lock)
      case same
      then show ?thesis using ok ended moves(6) by (auto simp: consumer_ok_def)
    next
      case lock
      have "\<not> cons_critical ?cj" using critical_consumer [OF ok(2,1)] lock by auto
      then show ?thesis using ok lock ended by (auto simp: consumer_ok_def producer_ok_def)
    next
      case unlock
      then show ?thesis using ok ended by (auto simp: consumer_ok_def producer_ok_def)
    next
      case stray
      have "prod_ended ?p" using ended stray by simp
      then show ?thesis using ok stray by (cases ?p) (auto simp: consumer_ok_def producer_ok_def)
    qed
  qed
  have "queue_lock_ok (queue_lock s') ?p (cons_at s' 0) (cons_at s' 1)"
  proof -
    have old: "queue_lock_ok (queue_lock s) ?p (cons_at s 0) (cons_at s 1)" using inv by (simp add: control_inv_def)
    from step show ?thesis
    proof (cases rule: cons_queue_lock)
      case same
      then show ?thesis using old i ij(1) by (elim disjE) (simp_all add: queue_lock_ok_def)
    qed (use i in \<open>auto simp: queue_lock_ok_def\<close>)
  qed
  moreover have "num_lock_ok (num_lock s') (cons_at s' 0) (cons_at s' 1)"
  proof -
    have old: "num_lock_ok (num_lock s) (cons_at s 0) (cons_at s 1)" using inv by (simp add: control_inv_def)
    from step show ?thesis
    proof (cases rule: cons_num_lock)
      case same
      then show ?thesis using old i ij(1) unfolding num_lock_ok_def by (elim disjE conjE) simp_all
    qed (use i in \<open>auto simp: num_lock_ok_def\<close>)
  qed
  moreover have "created_ok (main_at s) ?p (cons_at s' 0) (cons_at s' 1)"
    using inv i ij(1) moves(6) by (elim disjE) (simp_all add: control_inv_def created_ok_def)
  moreover have "joins_ok (main_at s) ?p (cons_at s' 0) (cons_at s' 1) (cons_count s' 0) (cons_count s' 1)"
  proof -
    have "joins_ok (main_at s) ?p (cons_at s 0) (cons_at s 1) (cons_count s 0) (cons_count s 1)" using inv by (simp add: control_inv_def)
    then show ?thesis using i ij moves(6) by (elim disjE) (simp_all add: joins_ok_def, blast)
  qed
  ultimately show ?thesis using new i ij(1) moves(1-3) unfolding control_inv_def by (elim disjE) simp_all
qed

lemma run_control: "pc_run s \<Longrightarrow> control_inv s"
proof (induction rule: pc_run.induct)
  case start
  show ?case by (simp add: pc_init_def control_inv_def control_defs)
next
  case (main_step s s')
  show ?case by (rule main_control [OF main_step.IH main_step.hyps(2)])
next
  case (prod_step s a s')
  show ?case by (rule prod_control [OF prod_step.IH prod_step.hyps(3)])
next
  case (cons_step s i s')
  have "i = 0 \<and> 1 - i = 1 \<or> i = 1 \<and> 1 - i = 0" using cons_step.hyps(2) by auto
  then show ?case by (rule cons_control [OF cons_step.IH _ cons_step.hyps(3)])
qed

text \<open>The critical sections of the queue exclude each other: in every execution, of the producer and
  the two consumers at most one is between \<open>pthread_mutex_lock\<close> and \<open>pthread_mutex_unlock\<close> of
  \<open>queue.lock\<close>, although each consumer also unlocks that mutex without holding it when it leaves.\<close>

theorem queue_exclusion:
  assumes "pc_run s" and "critical s x" and "critical s y" and "{x, y} \<subseteq> {Main, Producer, Consumer 0, Consumer 1}"
  shows "x = y"
  using run_control [OF assms(1)] assms(2-4) by (cases x; cases y) (auto simp: control_inv_def consumer_ok_def)

text \<open>C33. The program does not deadlock: in every reachable state, until the main thread has printed the
  total, some thread can take a step.\<close>

theorem producer_consumer_progress:
  assumes "pc_run s"
  shows "(\<exists>total. main_at s = M_printed total) \<or> (\<exists>s'. main_exec s = Some s') \<or> (\<exists>r. prod_exec a s = Some r) \<or>
    (\<exists>i < 2. \<exists>r. cons_exec i s = Some r)"
proof (rule ccontr)
  assume "\<not> ?thesis"
  then have stuck: "\<And>v. main_at s \<noteq> M_printed v" "main_exec s = None" "prod_exec a s = None" "\<And>i. i < 2 \<Longrightarrow> cons_exec i s = None"
    by (simp, meson not_None_eq, meson not_None_eq, meson not_None_eq)
  note inv = run_control [OF assms]
  have idle: "cons_at s i \<in> {C_absent, C_return} \<or> cons_at s i = C_lock_num \<and> num_lock s \<noteq> None \<or>
      cons_at s i = C_lock_queue \<and> queue_lock s \<noteq> None" if "i < 2" for i
    using stuck(4) [OF that] by (auto simp: cons_exec_def split: cons_pc.splits if_splits)
  have busy: "\<not> cons_testing (cons_at s i)" "\<not> cons_critical (cons_at s i)" if "i < 2" for i using idle [OF that] by auto
  have "\<not> prod_critical (prod_at s)" using stuck(3) by (cases "prod_at s") (simp_all add: prod_exec_def)
  then have free: "num_lock s = None" "queue_lock s = None"
    using inv busy by (auto simp: control_inv_def num_lock_ok_def queue_lock_ok_def)
  have ended: "cons_at s i = C_absent \<or> cons_at s i = C_return" if "i < 2" for i using idle [OF that] free by simp
  have created: "created_ok (main_at s) (prod_at s) (cons_at s 0) (cons_at s 1)" using inv by (simp add: control_inv_def)
  have p: "prod_at s = P_absent \<or> (\<exists>v. prod_at s = P_return v)"
    using stuck(3) free ended [of 1] created by (cases "prod_at s") (auto simp: prod_exec_def created_ok_def)
  have "main_at s \<noteq> M_create_producer" "main_at s \<noteq> M_create_consumer" using stuck(2) by (auto simp: main_exec_def)
  then have "cons_at s 0 = C_return" "\<exists>v. prod_at s = P_return v"
    using ended [of 0] created p inv by (auto simp: created_ok_def control_inv_def producer_ok_def)
  then show False using stuck(1,2) by (cases "main_at s") (auto simp: main_exec_def)
qed

section \<open>The queue\<close>

text \<open>The nodes \<open>ns\<close> are a doubly linked list in the heap.\<close>

fun dll :: "(nat \<Rightarrow> queue_node option) \<Rightarrow> nat option \<Rightarrow> nat list \<Rightarrow> bool" where
  "dll h p [] = True"
| "dll h p (n # ns) =
     (case h n of
        None \<Rightarrow> False
      | Some nd \<Rightarrow> prv nd = p \<and> nxt nd = (case ns of [] \<Rightarrow> None | m # _ \<Rightarrow> Some m) \<and> dll h (Some n) ns)"

definition letter_at :: "(nat \<Rightarrow> queue_node option) \<Rightarrow> nat \<Rightarrow> int" where
  "letter_at h n = (case h n of None \<Rightarrow> 0 | Some nd \<Rightarrow> letter nd)"

definition queue_rep :: "pcq \<Rightarrow> nat list \<Rightarrow> bool" where
  "queue_rep s ns \<longleftrightarrow> dll (heap s) None ns \<and> distinct ns \<and>
     q_front s = (if ns = [] then None else Some (hd ns)) \<and> q_back s = (if ns = [] then None else Some (last ns))"

lemma dll_alloc: "dll h p ns \<Longrightarrow> n \<in> set ns \<Longrightarrow> \<exists>nd. h n = Some nd"
  by (induction ns arbitrary: p) (auto split: option.splits)

lemma dll_frame: "n \<notin> set ns \<Longrightarrow> dll (h(n := x)) p ns = dll h p ns"
  by (induction ns arbitrary: p) (auto split: option.splits)

lemma dll_snoc:
  assumes "dll h p ns" "distinct ns" "ns \<noteq> []" "n \<notin> set ns" "nxt nd = None" "h (last ns) = Some old"
  shows "dll (h(n \<mapsto> nd\<lparr>prv := Some (last ns)\<rparr>, last ns \<mapsto> old\<lparr>nxt := Some n\<rparr>)) p (ns @ [n])"
  using assms
proof (induction ns arbitrary: p)
  case Nil
  then show ?case by simp
next
  case (Cons m ms)
  show ?case
  proof (cases "ms = []")
    case True
    then show ?thesis using Cons.prems by auto
  next
    case False
    obtain md where md: "h m = Some md" "prv md = p" "nxt md = Some (hd ms)" "dll h (Some m) ms"
      using Cons.prems(1) False by (auto split: option.splits list.splits)
    define H where "H = h(n \<mapsto> nd\<lparr>prv := Some (last ms)\<rparr>, last ms \<mapsto> old\<lparr>nxt := Some n\<rparr>)"
    have tail: "dll H (Some m) (ms @ [n])" unfolding H_def by (rule Cons.IH) (use md(4) Cons.prems False in simp_all)
    have "m \<noteq> n" "m \<noteq> last ms" using Cons.prems False by auto
    then have "H m = Some md" using md(1) by (simp add: H_def)
    moreover have "(case ms @ [n] of [] \<Rightarrow> None | k # _ \<Rightarrow> Some k) = Some (hd ms)" using False by (cases ms) simp_all
    ultimately have "dll H p (m # ms @ [n])" using tail md(2,3) by simp
    then show ?thesis using False by (simp add: H_def del: fun_upd_apply)
  qed
qed

lemma dll_uncons:
  assumes "dll h None (f # ns)" and "distinct (f # ns)"
  obtains (last) nd where "ns = []" "h f = Some nd" "nxt nd = None"
  | (more_nodes) nd g gs gd where "ns = g # gs" "h f = Some nd" "nxt nd = Some g" "h g = Some gd" "dll (h(g \<mapsto> gd\<lparr>prv := None\<rparr>)) None ns"
proof (cases ns)
  case Nil
  then show ?thesis using assms last by (auto split: option.splits)
next
  case (Cons g gs)
  obtain nd gd where nd: "h f = Some nd" "nxt nd = Some g" "h g = Some gd" "nxt gd = (case gs of [] \<Rightarrow> None | m # _ \<Rightarrow> Some m)" "dll h (Some g) gs"
    using assms(1) Cons by (auto split: option.splits)
  moreover have "dll (h(g \<mapsto> gd\<lparr>prv := None\<rparr>)) None ns" using nd(4,5) assms(2) Cons by (simp add: dll_frame)
  ultimately show ?thesis using more_nodes Cons by blast
qed

lemma letter_at_upd: "letter_at (h(n \<mapsto> nd)) m = (if m = n then letter nd else letter_at h m)"
  by (simp add: letter_at_def)

lemma letter_at_link [simp]:
  "h n = Some nd \<Longrightarrow> letter_at (h(n \<mapsto> nd\<lparr>prv := p\<rparr>)) = letter_at h" "h n = Some nd \<Longrightarrow> letter_at (h(n \<mapsto> nd\<lparr>nxt := p\<rparr>)) = letter_at h"
  by (auto simp: letter_at_def fun_eq_iff)

text \<open>A node is added at the back and taken from the front.\<close>

lemma add_node_rep:
  assumes "queue_rep s ns" and "heap s n = Some nd" and "nxt nd = None" and "n \<notin> set ns"
  obtains s' where "add_node n s = Inr s'" "queue_rep s' (ns @ [n])" "letter_at (heap s') = letter_at (heap s)"
    "\<And>m. heap s' m = None \<longleftrightarrow> heap s m = None"
proof (cases "ns = []")
  case True
  then show ?thesis using that assms by (auto simp: queue_rep_def add_node_def)
next
  case False
  then have b: "q_back s = Some (last ns)" "q_front s \<noteq> None" using assms(1) by (auto simp: queue_rep_def)
  obtain old where old: "heap s (last ns) = Some old" using dll_alloc [of "heap s" None ns "last ns"] assms(1) False by (auto simp: queue_rep_def)
  have neq: "last ns \<noteq> n" using assms(4) False last_in_set by blast
  let ?h = "(heap s)(n \<mapsto> nd\<lparr>prv := Some (last ns)\<rparr>, last ns \<mapsto> old\<lparr>nxt := Some n\<rparr>)"
  have "add_node n s = Inr (s\<lparr>heap := ?h, q_back := Some n\<rparr>)" using b old assms(2) by (simp add: add_node_def)
  moreover have "dll ?h None (ns @ [n])" using dll_snoc [of "heap s" None ns n nd old] assms False old by (simp add: queue_rep_def)
  then have "queue_rep (s\<lparr>heap := ?h, q_back := Some n\<rparr>) (ns @ [n])" using assms(1,4) False by (simp add: queue_rep_def)
  moreover have "letter_at ?h = letter_at (heap s)" using assms(2) old neq by (auto simp: letter_at_def fun_eq_iff)
  ultimately show ?thesis using that assms(2) old by auto
qed

lemma take_node_rep:
  assumes "queue_rep s (f # ns)"
  obtains s' where "take_node i f s = Inr s'" "queue_rep s' ns" "letter_at (heap s') = letter_at (heap s)"
    "\<And>m. m \<notin> set ns \<Longrightarrow> heap s' m = heap s m"
proof -
  have q: "dll (heap s) None (f # ns)" "distinct (f # ns)" using assms by (simp_all add: queue_rep_def)
  then show ?thesis
  proof (cases rule: dll_uncons)
    case (last nd)
    then show ?thesis using that by (auto simp: take_node_def queue_rep_def)
  next
    case (more_nodes nd g gs gd)
    let ?s = "cons_goto i (C_unlock_taken f) (s\<lparr>heap := (heap s)(g \<mapsto> gd\<lparr>prv := None\<rparr>), q_front := Some g\<rparr>)"
    have "take_node i f s = Inr ?s" using more_nodes by (simp add: take_node_def)
    moreover have "queue_rep ?s ns" using more_nodes assms by (simp add: queue_rep_def)
    moreover have "letter_at (heap ?s) = letter_at (heap s)" using more_nodes by simp
    ultimately show ?thesis using that more_nodes by auto
  qed
qed

section \<open>The letters\<close>

text \<open>The letter the producer adds next, and the node it is about to add.\<close>

fun prod_next :: "prod_pc \<Rightarrow> int" where
  "prod_next P_absent = ord_a"
| "prod_next P_create = ord_a"
| "prod_next (P_malloc c) = c"
| "prod_next (P_lock c n) = c"
| "prod_next (P_add c n) = c"
| "prod_next (P_unlock c) = c + 1"
| "prod_next _ = ord_z + 1"

fun prod_node :: "prod_pc \<Rightarrow> nat option" where
  "prod_node (P_lock c n) = Some n"
| "prod_node (P_add c n) = Some n"
| "prod_node _ = None"

fun in_alphabet :: "prod_pc \<Rightarrow> bool" where
  "in_alphabet (P_malloc c) = (c \<le> ord_z)"
| "in_alphabet (P_lock c n) = (c \<le> ord_z)"
| "in_alphabet (P_add c n) = (c \<le> ord_z)"
| "in_alphabet (P_unlock c) = (c \<le> ord_z)"
| "in_alphabet _ = True"

text \<open>The node a consumer has taken, its letter while it is not printed, and whether it is not yet counted.\<close>

fun cons_node :: "cons_pc \<Rightarrow> nat option" where
  "cons_node (C_unlock_taken f) = Some f"
| "cons_node (C_print f) = Some f"
| "cons_node (C_free f) = Some f"
| "cons_node _ = None"

fun in_transit :: "(nat \<Rightarrow> queue_node option) \<Rightarrow> cons_pc \<Rightarrow> int list" where
  "in_transit h (C_unlock_taken f) = [letter_at h f]"
| "in_transit h (C_print f) = [letter_at h f]"
| "in_transit h _ = []"

fun uncounted :: "cons_pc \<Rightarrow> int" where
  "uncounted (C_free f) = 1"
| "uncounted _ = 0"

definition prod_node_ok :: "pcq \<Rightarrow> nat list \<Rightarrow> bool" where
  "prod_node_ok s ns \<longleftrightarrow> in_alphabet (prod_at s) \<and>
     (\<forall>n. prod_node (prod_at s) = Some n \<longrightarrow> n \<notin> set ns \<and> letter_at (heap s) n = prod_next (prod_at s) \<and> (\<exists>nd. heap s n = Some nd \<and> nxt nd = None))"

definition cons_node_ok :: "pcq \<Rightarrow> nat list \<Rightarrow> nat \<Rightarrow> nat \<Rightarrow> bool" where
  "cons_node_ok s ns i j \<longleftrightarrow> (\<forall>f. cons_node (cons_at s i) = Some f \<longrightarrow>
     f \<notin> set ns \<and> heap s f \<noteq> None \<and> prod_node (prod_at s) \<noteq> Some f \<and> cons_node (cons_at s j) \<noteq> Some f)"

definition letters_ok :: "pcq \<Rightarrow> nat list \<Rightarrow> int \<Rightarrow> bool" where
  "letters_ok s ns d \<longleftrightarrow> map (letter_at (heap s)) ns = [d..prod_next (prod_at s) - 1] \<and> ord_a \<le> d \<and> d \<le> prod_next (prod_at s) \<and>
     mset (printed s) + mset (in_transit (heap s) (cons_at s 0)) + mset (in_transit (heap s) (cons_at s 1)) = mset [ord_a..d - 1]"

definition count_ok :: "pcq \<Rightarrow> bool" where
  "count_ok s \<longleftrightarrow> cons_count s 0 + cons_count s 1 + uncounted (cons_at s 0) + uncounted (cons_at s 1) = int (length (printed s))"

definition data_ok :: "pcq \<Rightarrow> nat list \<Rightarrow> int \<Rightarrow> bool" where
  "data_ok s ns d \<longleftrightarrow> queue_rep s ns \<and> prod_node_ok s ns \<and> cons_node_ok s ns 0 1 \<and> cons_node_ok s ns 1 0 \<and> letters_ok s ns d \<and> count_ok s"

lemma data_frame:
  assumes "data_ok s ns d" and "heap s' = heap s" "q_front s' = q_front s" "q_back s' = q_back s" "printed s' = printed s" "cons_count s' = cons_count s"
    and "prod_node (prod_at s') = prod_node (prod_at s)" "prod_next (prod_at s') = prod_next (prod_at s)" "in_alphabet (prod_at s) \<Longrightarrow> in_alphabet (prod_at s')"
    and "\<And>i. i < 2 \<Longrightarrow> cons_node (cons_at s' i) = cons_node (cons_at s i)" "\<And>i h. i < 2 \<Longrightarrow> in_transit h (cons_at s' i) = in_transit h (cons_at s i)"
    and "\<And>i. i < 2 \<Longrightarrow> uncounted (cons_at s' i) = uncounted (cons_at s i)"
  shows "data_ok s' ns d"
  using assms by (simp add: data_ok_def queue_rep_def prod_node_ok_def cons_node_ok_def letters_ok_def count_ok_def)

lemma main_data:
  assumes "data_ok s ns d" and "control_inv s" and step: "main_exec s = Some s'"
  shows "data_ok s' ns d"
proof -
  have created: "created_ok (main_at s) (prod_at s) (cons_at s 0) (cons_at s 1)" "prod_at s = P_absent \<longleftrightarrow> main_at s = M_create_producer"
    using assms(2) by (simp_all add: control_inv_def producer_ok_def)
  from step show ?thesis
  proof (cases rule: main_moves)
    case prod
    show ?thesis by (rule data_frame [OF assms(1)]) (use prod created in simp_all)
  next
    case cons
    show ?thesis by (rule data_frame [OF assms(1)]) (use cons created in \<open>simp_all add: created_ok_def\<close>)
  next
    case join
    show ?thesis by (rule data_frame [OF assms(1)]) (use join in simp_all)
  next
    case print
    show ?thesis by (rule data_frame [OF assms(1)]) (use print in simp_all)
  qed
qed

lemma prod_data:
  assumes ok: "data_ok s ns d" and ctl: "control_inv s" and a: "heap s a = None"
    and step: "prod_exec a s = Some r"
  shows "\<exists>s' ns'. r = Inr s' \<and> data_ok s' ns' d"
proof -
  have frame: "data_ok s' ns d"
    if "heap s' = heap s" "q_front s' = q_front s" "q_back s' = q_back s" "printed s' = printed s" "cons_count s' = cons_count s"
      "cons_at s' = cons_at s \<or> cons_at s 1 = C_absent \<and> cons_at s' = (cons_at s)(1 := C_lock_num)"
      "prod_node (prod_at s') = prod_node (prod_at s)" "prod_next (prod_at s') = prod_next (prod_at s)"
      "in_alphabet (prod_at s) \<Longrightarrow> in_alphabet (prod_at s')" for s'
    by (rule data_frame [OF ok]) (use that in \<open>auto split: if_splits\<close>)
  show ?thesis
  proof (cases "prod_at s")
    case P_create
    then have "cons_at s 1 = C_absent" using ctl by (simp add: control_inv_def created_ok_def)
    then show ?thesis using step P_create by (intro exI [of _ "projr r"] exI [of _ ns]) (auto simp: prod_exec_def ord_a_def ord_z_def intro!: frame)
  next
    case (P_malloc c)
    let ?s = "s\<lparr>heap := (heap s)(a \<mapsto> \<lparr>nxt = None, prv = None, letter = c\<rparr>), prod_at := P_lock c a\<rparr>"
    have r: "r = Inr ?s" using step P_malloc by (simp add: prod_exec_def)
    have new: "a \<notin> set ns" using dll_alloc [of "heap s" None ns a] a ok by (auto simp: data_ok_def queue_rep_def)
    have node: "cons_node (cons_at s i) \<noteq> Some a" if "i < 2" for i
      using ok a that by (auto simp: data_ok_def cons_node_ok_def less_2_cases_iff)
    have tr: "in_transit (heap ?s) (cons_at s i) = in_transit (heap s) (cons_at s i)" if "i < 2" for i
      using node [OF that] by (cases "cons_at s i") (auto simp: letter_at_def)
    have "queue_rep ?s ns" using ok new by (simp add: data_ok_def queue_rep_def dll_frame)
    moreover have "prod_node_ok ?s ns" using ok P_malloc new by (simp add: data_ok_def prod_node_ok_def letter_at_def)
    moreover have "cons_node_ok ?s ns 0 1" "cons_node_ok ?s ns 1 0" using ok node [of 0] node [of 1]
      by (auto simp: data_ok_def cons_node_ok_def)
    moreover have "letter_at (heap ?s) n = letter_at (heap s) n" if "n \<in> set ns" for n using new that by (auto simp: letter_at_def)
    then have "letters_ok ?s ns d" using ok P_malloc tr [of 0] tr [of 1] by (simp add: data_ok_def letters_ok_def cong: map_cong)
    moreover have "count_ok ?s" using ok by (simp add: data_ok_def count_ok_def)
    ultimately show ?thesis using r by (auto simp: data_ok_def)
  next
    case (P_lock c n)
    then show ?thesis using step by (intro exI [of _ "projr r"] exI [of _ ns]) (auto simp: prod_exec_def intro!: frame split: if_splits)
  next
    case (P_add c n)
    obtain nd where nd: "heap s n = Some nd" "nxt nd = None" "n \<notin> set ns" "letter_at (heap s) n = c"
      using ok P_add by (auto simp: data_ok_def prod_node_ok_def)
    obtain s1 where s1: "add_node n s = Inr s1" "queue_rep s1 (ns @ [n])" "letter_at (heap s1) = letter_at (heap s)"
      "\<And>m. heap s1 m = None \<longleftrightarrow> heap s m = None"
      using add_node_rep [OF _ nd(1-3)] ok by (auto simp: data_ok_def)
    let ?s = "s1\<lparr>prod_at := P_unlock c\<rparr>"
    have r: "r = Inr ?s" using step P_add s1(1) by (simp add: prod_exec_def)
    note same = add_node_control [OF s1(1)]
    have tr: "in_transit (heap s1) c' = in_transit (heap s) c'" for c' using s1(3) by (cases c') simp_all
    have "d \<le> c" "map (letter_at (heap s)) ns = [d..c - 1]" using ok P_add by (simp_all add: data_ok_def letters_ok_def)
    moreover from this have "[d..c] = [d..c - 1] @ [c]" by (simp add: upto_rec2)
    ultimately have "letters_ok ?s (ns @ [n]) d" using ok P_add nd(4) tr by (simp add: data_ok_def letters_ok_def s1(3) same)
    moreover have "queue_rep ?s (ns @ [n])" using s1(2) by (simp add: queue_rep_def)
    moreover have "prod_node_ok ?s (ns @ [n])" using ok P_add by (simp add: data_ok_def prod_node_ok_def)
    moreover have "cons_node_ok ?s (ns @ [n]) 0 1" "cons_node_ok ?s (ns @ [n]) 1 0"
      using ok P_add s1(4) by (auto simp: data_ok_def cons_node_ok_def same)
    moreover have "count_ok ?s" using ok by (simp add: data_ok_def count_ok_def same)
    ultimately show ?thesis using r by (auto simp: data_ok_def)
  next
    case (P_unlock c)
    then have "in_alphabet (P_unlock c)" using ok by (simp add: data_ok_def prod_node_ok_def)
    then show ?thesis using step P_unlock
      by (intro exI [of _ "projr r"] exI [of _ ns]) (auto simp: prod_exec_def intro!: frame)
  next
    case P_decrement
    then have "g_num_prod s = 1" using ctl by (simp add: control_inv_def producer_ok_def)
    then show ?thesis using step P_decrement by (intro exI [of _ "projr r"] exI [of _ ns]) (auto simp: prod_exec_def intro!: frame)
  next
    case P_join
    then show ?thesis using step by (intro exI [of _ "projr r"] exI [of _ ns]) (auto simp: prod_exec_def intro!: frame split: if_splits)
  qed (use step in \<open>simp_all add: prod_exec_def\<close>)
qed

text \<open>The same for a consumer and its peer.\<close>

lemma data_ok_pair:
  assumes "i = 0 \<and> j = 1 \<or> i = 1 \<and> j = (0 :: nat)"
  shows "data_ok s ns d \<longleftrightarrow> queue_rep s ns \<and> prod_node_ok s ns \<and> cons_node_ok s ns i j \<and> cons_node_ok s ns j i \<and>
    map (letter_at (heap s)) ns = [d..prod_next (prod_at s) - 1] \<and> ord_a \<le> d \<and> d \<le> prod_next (prod_at s) \<and>
    mset (printed s) + mset (in_transit (heap s) (cons_at s i)) + mset (in_transit (heap s) (cons_at s j)) = mset [ord_a..d - 1] \<and>
    cons_count s i + cons_count s j + uncounted (cons_at s i) + uncounted (cons_at s j) = int (length (printed s))"
  using assms unfolding data_ok_def letters_ok_def count_ok_def by (elim disjE) (auto simp: ac_simps)

lemma cons_data:
  assumes ok: "data_ok s ns d" and i: "i = 0 \<and> j = 1 \<or> i = 1 \<and> j = (0 :: nat)" and step: "cons_exec i s = Some r"
  shows "\<exists>s' ns' d'. r = Inr s' \<and> data_ok s' ns' d'"
proof -
  note pair = data_ok_pair [OF i]
  have ij: "i \<noteq> j" using i by auto
  have frame: "\<exists>s' ns' d'. r = Inr s' \<and> data_ok s' ns' d'"
    if "r = Inr (cons_goto i l t)" "heap t = heap s" "q_front t = q_front s" "q_back t = q_back s" "printed t = printed s" "cons_count t = cons_count s"
      "prod_at t = prod_at s" "cons_at t = cons_at s" "cons_node l = cons_node (cons_at s i)"
      "\<And>h. in_transit h l = in_transit h (cons_at s i)" "uncounted l = uncounted (cons_at s i)" for l t
  proof -
    have "data_ok (cons_goto i l t) ns d" by (rule data_frame [OF ok]) (use that in auto)
    then show ?thesis using that(1) by blast
  qed
  show ?thesis
  proof (cases "cons_at s i")
    case C_take
    show ?thesis
    proof (cases ns)
      case Nil
      then have "q_front s = None" using ok by (simp add: data_ok_def queue_rep_def)
      then have "r = Inr (cons_goto i C_unlock_empty s)" using step C_take by (simp add: cons_exec_def)
      then show ?thesis using C_take by (intro frame [where l = C_unlock_empty and t = s]) simp_all
    next
      case (Cons f fs)
      then have f: "q_front s = Some f" "distinct ns" and rep: "queue_rep s (f # fs)" using ok by (auto simp: data_ok_def queue_rep_def)
      obtain s1 where s1: "take_node i f s = Inr s1" "queue_rep s1 fs" "letter_at (heap s1) = letter_at (heap s)"
        "\<And>m. m \<notin> set fs \<Longrightarrow> heap s1 m = heap s m" using take_node_rep [OF rep, of i] by blast
      note same = take_node_control [OF s1(1)]
      have r: "r = Inr s1" using step C_take f s1(1) by (simp add: cons_exec_def)
      have tr: "in_transit (heap s1) c' = in_transit (heap s) c'" for c' using s1(3) by (cases c') simp_all
      have lt: "map (letter_at (heap s)) (f # fs) = [d..prod_next (prod_at s) - 1]" "ord_a \<le> d" "d \<le> prod_next (prod_at s)"
        using ok Cons by (simp_all add: data_ok_def letters_ok_def)
      then have less: "d < prod_next (prod_at s)" by (metis list.distinct(1) list.simps(9) upto_empty zle_diff1_eq not_less)
      then have split: "letter_at (heap s) f = d" "map (letter_at (heap s)) fs = [d + 1..prod_next (prod_at s) - 1]"
        using lt(1) by (simp_all add: upto_rec1)
      have more_letters: "mset [ord_a..d] = mset [ord_a..d - 1] + {#d#}" using lt(2) by (simp add: upto_rec2)
      have "prod_node_ok s1 fs" using ok Cons s1(4) by (simp add: data_ok_def prod_node_ok_def same s1(3))
      moreover have "heap s f \<noteq> None" using dll_alloc [of "heap s" None ns f] ok Cons by (auto simp: data_ok_def queue_rep_def)
      then have "cons_node_ok s1 fs i j" "cons_node_ok s1 fs j i"
        using ok f Cons s1(4) ij unfolding pair by (auto simp: cons_node_ok_def prod_node_ok_def same)
      moreover have "mset (printed s1) + mset (in_transit (heap s1) (cons_at s1 i)) + mset (in_transit (heap s1) (cons_at s1 j)) = mset [ord_a..d]"
        using ok C_take split(1) more_letters ij tr unfolding pair by (simp add: same s1(3))
      ultimately have "data_ok s1 fs (d + 1)" unfolding pair
        using ok C_take s1(2,3) split(2) lt(2) less ij unfolding pair by (simp add: same)
      then show ?thesis using r by blast
    qed
  next
    case (C_print f)
    then obtain nd where nd: "heap s f = Some nd" using ok ij unfolding pair by (auto simp: cons_node_ok_def)
    let ?s = "cons_goto i (C_free f) (s\<lparr>printed := printed s @ [letter nd]\<rparr>)"
    have r: "r = Inr ?s" using step C_print nd by (simp add: cons_exec_def)
    have "letter_at (heap s) f = letter nd" using nd by (simp add: letter_at_def)
    then have "data_ok ?s ns d" using ok ij C_print unfolding pair
      by (simp add: queue_rep_def prod_node_ok_def cons_node_ok_def)
    then show ?thesis using r by blast
  next
    case (C_free f)
    let ?s = "cons_goto i C_test_front (s\<lparr>heap := (heap s)(f := None), cons_count := (cons_count s)(i := cons_count s i + 1)\<rparr>)"
    have node: "f \<notin> set ns" "heap s f \<noteq> None" "prod_node (prod_at s) \<noteq> Some f" "cons_node (cons_at s j) \<noteq> Some f"
      using ok C_free unfolding pair by (auto simp: cons_node_ok_def)
    have r: "r = Inr ?s" using step C_free node(2) by (simp add: cons_exec_def)
    have at: "letter_at ((heap s)(f := None)) m = letter_at (heap s) m" if "m \<noteq> f" for m using that by (simp add: letter_at_def)
    have "map (letter_at ((heap s)(f := None))) ns = map (letter_at (heap s)) ns" using at node(1) by (metis map_cong)
    moreover have "in_transit ((heap s)(f := None)) (cons_at s j) = in_transit (heap s) (cons_at s j)"
      using node(4) at by (cases "cons_at s j") auto
    moreover have "queue_rep ?s ns" using ok node(1) by (simp add: data_ok_def queue_rep_def dll_frame)
    moreover have "prod_node_ok ?s ns" using ok node(3) at by (auto simp: data_ok_def prod_node_ok_def)
    moreover have "cons_node_ok ?s ns i j" "cons_node_ok ?s ns j i" using ok node(4) ij unfolding pair by (auto simp: cons_node_ok_def)
    ultimately have "data_ok ?s ns d" using ok ij C_free unfolding pair by simp
    then show ?thesis using r by blast
  next
    case C_lock_num
    show ?thesis by (rule frame [where l = "C_test_front" and t = "s\<lparr>num_lock := Some (Consumer i)\<rparr>"]) (use C_lock_num step in \<open>auto simp: cons_exec_def split: if_splits\<close>)
  next
    case C_test_front
    show ?thesis by (rule frame [where l = "if q_front s \<noteq> None then C_unlock_num else C_test_num" and t = "s"]) (use C_test_front step in \<open>auto simp: cons_exec_def split: if_splits\<close>)
  next
    case C_test_num
    show ?thesis by (rule frame [where l = "if g_num_prod s > 0 then C_unlock_num else C_exit_num" and t = "s"]) (use C_test_num step in \<open>auto simp: cons_exec_def split: if_splits\<close>)
  next
    case C_unlock_num
    show ?thesis by (rule frame [where l = "C_lock_queue" and t = "s\<lparr>num_lock := None\<rparr>"]) (use C_unlock_num step in \<open>auto simp: cons_exec_def split: if_splits\<close>)
  next
    case C_lock_queue
    show ?thesis by (rule frame [where l = "C_take" and t = "s\<lparr>queue_lock := Some (Consumer i)\<rparr>"]) (use C_lock_queue step in \<open>auto simp: cons_exec_def split: if_splits\<close>)
  next
    case (C_unlock_taken f)
    show ?thesis by (rule frame [where l = "C_print f" and t = "s\<lparr>queue_lock := None\<rparr>"]) (use C_unlock_taken step in \<open>auto simp: cons_exec_def split: if_splits\<close>)
  next
    case C_unlock_empty
    show ?thesis by (rule frame [where l = "C_test_front" and t = "s\<lparr>queue_lock := None\<rparr>"]) (use C_unlock_empty step in \<open>auto simp: cons_exec_def split: if_splits\<close>)
  next
    case C_exit_num
    show ?thesis by (rule frame [where l = "C_exit_queue" and t = "s\<lparr>num_lock := None\<rparr>"]) (use C_exit_num step in \<open>auto simp: cons_exec_def split: if_splits\<close>)
  next
    case C_exit_queue
    show ?thesis by (rule frame [where l = "C_return" and t = "s\<lparr>queue_lock := None\<rparr>"]) (use C_exit_queue step in \<open>auto simp: cons_exec_def split: if_splits\<close>)
  qed (use step in \<open>simp_all add: cons_exec_def\<close>)
qed

lemma run_data: "pc_run s \<Longrightarrow> \<exists>ns d. data_ok s ns d"
proof (induction rule: pc_run.induct)
  case start
  have "data_ok pc_init [] ord_a"
    by (simp add: data_ok_def pc_init_def queue_rep_def prod_node_ok_def cons_node_ok_def letters_ok_def count_ok_def ord_a_def)
  then show ?case by blast
next
  case (main_step s s')
  then show ?case using main_data run_control by blast
next
  case (prod_step s a s')
  obtain ns d where "data_ok s ns d" using prod_step.IH by blast
  from prod_data [OF this run_control [OF prod_step.hyps(1)] prod_step.hyps(2,3)] show ?case by auto
next
  case (cons_step s i s')
  have "i = 0 \<and> 1 - i = 1 \<or> i = 1 \<and> 1 - i = 0" using cons_step.hyps(2) by auto
  moreover obtain ns d where "data_ok s ns d" using cons_step.IH by blast
  ultimately show ?case using cons_data [OF _ _ cons_step.hyps(3)] by fastforce
qed

lemma run_no_fault:
  assumes "pc_run s" and "heap s a = None" and "i < 2"
  shows "prod_exec a s \<noteq> Some (Inl e) \<and> cons_exec i s \<noteq> Some (Inl e)"
proof -
  obtain ns d where ok: "data_ok s ns d" using run_data [OF assms(1)] by blast
  have ij: "i = 0 \<and> 1 - i = 1 \<or> i = 1 \<and> 1 - i = 0" using assms(3) by auto
  show ?thesis using prod_data [OF ok run_control [OF assms(1)] assms(2)] cons_data [OF ok ij] by blast
qed

section \<open>Theorems\<close>

text \<open>C32. No thread of the program ever faults: the assertions of the producer hold, and no step follows a
  null pointer or a pointer to a freed node, or frees a node twice.\<close>

theorem producer_consumer_no_fault:
  assumes "pc_run s" and "heap s a = None" and "i < 2"
  shows "prod_exec a s \<noteq> Some (Inl e) \<and> cons_exec i s \<noteq> Some (Inl e)"
  using run_no_fault [OF assms] .

text \<open>C31. First in, first out, with nothing lost on the way: at any time the queue in the heap is a doubly
  linked list that holds consecutive letters, up to the last one added; the letters before them
  are printed or in the hands of a consumer, each exactly once.\<close>

theorem letters_fifo:
  assumes "pc_run s"
  shows "\<exists>ns d. dll (heap s) None ns \<and> q_front s = (if ns = [] then None else Some (hd ns)) \<and>
    map (letter_at (heap s)) ns = [d..prod_next (prod_at s) - 1] \<and> d \<le> prod_next (prod_at s) \<and>
    mset (printed s) + mset (in_transit (heap s) (cons_at s 0)) + mset (in_transit (heap s) (cons_at s 1)) = mset [ord_a..d - 1]"
proof -
  obtain ns d where "data_ok s ns d" using run_data [OF assms] by blast
  then show ?thesis unfolding data_ok_def queue_rep_def letters_ok_def by blast
qed

text \<open>When the main thread prints the total, both consumers have returned and the total is the number
  of letters printed, which are an initial part of the alphabet, each printed once.\<close>

theorem total_is_printed:
  assumes "pc_run s" and "main_at s = M_printed n"
  shows "n = int (length (printed s)) \<and> cons_at s 0 = C_return \<and> cons_at s 1 = C_return \<and>
    (\<exists>d. ord_a \<le> d \<and> d \<le> ord_z + 1 \<and> mset (printed s) = mset [ord_a..d - 1])"
proof -
  obtain ns d where ok: "data_ok s ns d" using run_data [OF assms(1)] by blast
  have j: "joins_ok (main_at s) (prod_at s) (cons_at s 0) (cons_at s 1) (cons_count s 0) (cons_count s 1)"
    using run_control [OF assms(1)] by (simp add: control_inv_def)
  then have f: "n = cons_count s 0 + cons_count s 1" "cons_at s 0 = C_return" "prod_at s = P_return (cons_count s 1)"
    using assms(2) unfolding joins_ok_def by blast+
  then have "cons_at s 1 = C_return" using j unfolding joins_ok_def by blast
  moreover from this have "n = int (length (printed s))" "ord_a \<le> d" "d \<le> ord_z + 1" "mset (printed s) = mset [ord_a..d - 1]"
    using ok f by (simp_all add: data_ok_def count_ok_def letters_ok_def)
  ultimately show ?thesis using f(2) by blast
qed

text \<open>The producer adds a letter while the others wait.\<close>

lemma produce_one:
  assumes "pc_run s" and "prod_at s = P_malloc c" and "queue_lock s = None" and "finite {a. heap s a \<noteq> None}"
  obtains s' where "pc_run s'" "prod_at s' = (if c + 1 \<le> ord_z then P_malloc (c + 1) else P_decrement)" "queue_lock s' = None"
    "finite {a. heap s' a \<noteq> None}" "cons_at s' = cons_at s" "main_at s' = main_at s" "cons_count s' = cons_count s" "printed s' = printed s"
proof -
  obtain a where a: "heap s a = None" using assms(4) ex_new_if_finite [OF infinite_UNIV_nat, of "{a. heap s a \<noteq> None}"] by auto
  let ?s1 = "s\<lparr>heap := (heap s)(a \<mapsto> \<lparr>nxt = None, prv = None, letter = c\<rparr>), prod_at := P_lock c a\<rparr>"
  let ?s2 = "?s1\<lparr>queue_lock := Some Producer, prod_at := P_add c a\<rparr>"
  have fin: "finite {b. heap ?s1 b \<noteq> None}" using assms(4) by (rule finite_subset [rotated, OF finite.insertI [of _ a]]) auto
  have s1: "pc_run ?s1" by (rule pc_run.prod_step [OF assms(1) a]) (simp add: prod_exec_def assms(2))
  obtain b where b: "heap ?s1 b = None" using fin ex_new_if_finite [OF infinite_UNIV_nat, of "{a. heap ?s1 a \<noteq> None}"] by auto
  have s2: "pc_run ?s2" by (rule pc_run.prod_step [OF s1 b]) (simp add: prod_exec_def assms(3))
  have b2: "heap ?s2 b = None" using b by simp
  have "prod_exec b ?s2 \<noteq> Some (Inl e)" for e using run_no_fault [OF s2 b2, of 0] by simp
  then obtain s3 where add: "add_node a ?s2 = Inr s3" by (cases "add_node a ?s2") (auto simp: prod_exec_def)
  note same = add_node_control [OF add]
  have s3: "pc_run (s3\<lparr>prod_at := P_unlock c\<rparr>)" by (rule pc_run.prod_step [OF s2 b2]) (use add in \<open>simp add: prod_exec_def\<close>)
  have eq: "{m. heap s3 m \<noteq> None} = {m. heap ?s1 m \<noteq> None}"
    using add by (auto simp: add_node_def split: option.splits if_splits)
  obtain e where e: "heap s3 e = None" using fin ex_new_if_finite [OF infinite_UNIV_nat, of "{a. heap s3 a \<noteq> None}"] eq by auto
  have "pc_run (s3\<lparr>prod_at := (if c + 1 \<le> ord_z then P_malloc (c + 1) else P_decrement), queue_lock := None\<rparr>)"
    by (rule pc_run.prod_step [OF s3, of e]) (simp_all add: prod_exec_def e)
  then show ?thesis using fin eq same
    by (intro that [of "s3\<lparr>prod_at := (if c + 1 \<le> ord_z then P_malloc (c + 1) else P_decrement), queue_lock := None\<rparr>"]) simp_all
qed

lemma produce_rest:
  assumes "pc_run s" and "prod_at s = P_malloc c" and "c \<le> ord_z" and "queue_lock s = None" and "finite {a. heap s a \<noteq> None}"
  shows "\<exists>s'. pc_run s' \<and> prod_at s' = P_decrement \<and> finite {a. heap s' a \<noteq> None} \<and> cons_at s' = cons_at s \<and> main_at s' = main_at s \<and>
    cons_count s' = cons_count s \<and> printed s' = printed s"
  using assms
proof (induction "nat (ord_z - c)" arbitrary: s c)
  case 0
  obtain s' where "pc_run s'" "prod_at s' = (if c + 1 \<le> ord_z then P_malloc (c + 1) else P_decrement)" "queue_lock s' = None"
    "finite {a. heap s' a \<noteq> None}" "cons_at s' = cons_at s" "main_at s' = main_at s" "cons_count s' = cons_count s" "printed s' = printed s"
    using produce_one [OF 0(2,3,5,6)] .
  then show ?case using 0(1) by auto
next
  case (Suc k)
  obtain s' where s': "pc_run s'" "prod_at s' = (if c + 1 \<le> ord_z then P_malloc (c + 1) else P_decrement)" "queue_lock s' = None"
    "finite {a. heap s' a \<noteq> None}" "cons_at s' = cons_at s" "main_at s' = main_at s" "cons_count s' = cons_count s" "printed s' = printed s"
    using produce_one [OF Suc.prems(1,2,4,5)] .
  have "k = nat (ord_z - (c + 1))" "c + 1 \<le> ord_z" using Suc.hyps(2) by auto
  then show ?case using Suc.hyps(1) [of "c + 1" s'] s' by auto
qed

lemma consumer_leaves:
  assumes "pc_run s" and "i < 2" and "cons_at s i = C_test_num" and "g_num_prod s = 0"
  obtains s' where "pc_run s'" "cons_at s' = (cons_at s)(i := C_return)" "heap s' = heap s" "main_at s' = main_at s" "prod_at s' = prod_at s"
    "g_num_prod s' = 0" "cons_count s' = cons_count s" "printed s' = printed s"
proof -
  let ?s1 = "cons_goto i C_exit_num s"
  let ?s2 = "cons_goto i C_exit_queue (?s1\<lparr>num_lock := None\<rparr>)"
  let ?s3 = "cons_goto i C_return (?s2\<lparr>queue_lock := None\<rparr>)"
  have s1: "pc_run ?s1" by (rule pc_run.cons_step [OF assms(1,2)]) (simp add: cons_exec_def assms)
  have s2: "pc_run ?s2" by (rule pc_run.cons_step [OF s1 assms(2)]) (simp add: cons_exec_def)
  have s3: "pc_run ?s3" by (rule pc_run.cons_step [OF s2 assms(2)]) (simp add: cons_exec_def)
  then show ?thesis using assms(4) by (intro that [of ?s3]) simp_all
qed

text \<open>Steps of the given threads, for concrete executions; \<open>malloc\<close> returns the address 0.\<close>

fun pc_script :: "tid list \<Rightarrow> pcq \<Rightarrow> pcq option" where
  "pc_script [] s = Some s"
| "pc_script (Main # ts) s = (case main_exec s of None \<Rightarrow> None | Some s' \<Rightarrow> pc_script ts s')"
| "pc_script (Producer # ts) s =
     (if heap s 0 \<noteq> None then None else case prod_exec 0 s of Some (Inr s') \<Rightarrow> pc_script ts s' | _ \<Rightarrow> None)"
| "pc_script (Consumer i # ts) s = (if i < 2 then case cons_exec i s of Some (Inr s') \<Rightarrow> pc_script ts s' | _ \<Rightarrow> None else None)"

lemma pc_script_run: "pc_run s \<Longrightarrow> pc_script ts s = Some s' \<Longrightarrow> pc_run s'"
  by (induction ts s rule: pc_script.induct) (auto split: option.splits sum.splits if_splits intro: pc_run.intros)

definition both_waiting :: pcq where
  "both_waiting = \<lparr>heap = (\<lambda>_. None), q_front = None, q_back = None, queue_lock = None, num_lock = Some (Consumer 1), g_num_prod = 1,
     main_at = M_join_producer, prod_at = P_malloc ord_a,
     cons_at = (\<lambda>_. C_absent)(1 := C_test_num, 0 := C_test_num), cons_count = (\<lambda>_. 0), printed = []\<rparr>"

lemma both_waiting_run: "pc_run both_waiting"
proof (rule pc_script_run [OF pc_run.start])
  show "pc_script ([Main, Producer, Main] @ replicate 8 (Consumer 0) @ [Consumer 1, Consumer 1]) pc_init = Some both_waiting"
    by (simp add: pc_init_def main_exec_def prod_exec_def cons_exec_def cons_goto_def both_waiting_def eval_nat_numeral fun_eq_iff)
qed

lemma letters_lost_run:
  "\<exists>s. pc_run s \<and> main_at s = M_printed 0 \<and> printed s = [] \<and>
     (\<exists>ns. dll (heap s) None ns \<and> map (letter_at (heap s)) ns = [ord_a..ord_z])"
proof -
  obtain s where s: "pc_run s" "prod_at s = P_decrement" "finite {a. heap s a \<noteq> None}" "cons_at s = cons_at both_waiting"
    "main_at s = M_join_producer" "cons_count s = (\<lambda>_. 0)" "printed s = []"
  proof -
    have "prod_at both_waiting = P_malloc ord_a" "ord_a \<le> ord_z" "queue_lock both_waiting = None" "finite {a. heap both_waiting a \<noteq> None}"
      by (simp_all add: both_waiting_def ord_a_def ord_z_def)
    from produce_rest [OF both_waiting_run this] obtain s where "pc_run s" "prod_at s = P_decrement" "finite {a. heap s a \<noteq> None}"
      "cons_at s = cons_at both_waiting" "main_at s = main_at both_waiting" "cons_count s = cons_count both_waiting" "printed s = printed both_waiting" by blast
    then show ?thesis using that by (simp add: both_waiting_def)
  qed
  have g: "g_num_prod s = 1" using run_control [OF s(1)] s(2) by (simp add: control_inv_def producer_ok_def)
  obtain a where a: "heap s a = None" using s(3) ex_new_if_finite [OF infinite_UNIV_nat, of "{a. heap s a \<noteq> None}"] by auto
  let ?s1 = "s\<lparr>g_num_prod := 0, prod_at := P_join\<rparr>"
  have "pc_run ?s1" by (rule pc_run.prod_step [OF s(1) a]) (simp add: prod_exec_def s(2) g)
  then obtain s2 where s2: "pc_run s2" "cons_at s2 = (cons_at s)(0 := C_return)" "heap s2 = heap s" "main_at s2 = M_join_producer"
      "prod_at s2 = P_join" "g_num_prod s2 = 0" "cons_count s2 = (\<lambda>_. 0)" "printed s2 = []"
    by (rule consumer_leaves [where i = 0]) (simp_all add: s both_waiting_def)
  have "cons_at s2 1 = C_test_num" by (simp add: s2(2) s(4) both_waiting_def)
  from consumer_leaves [OF s2(1) _ this s2(6)]
  obtain s3 where s3: "pc_run s3" "cons_at s3 = (cons_at s2)(1 := C_return)" "heap s3 = heap s" "main_at s3 = M_join_producer"
      "prod_at s3 = P_join" "cons_count s3 = (\<lambda>_. 0)" "printed s3 = []"
    unfolding s2 by auto
  let ?s4 = "s3\<lparr>prod_at := P_return 0\<rparr>" and ?s5 = "s3\<lparr>prod_at := P_return 0, main_at := M_join_consumer 0\<rparr>"
  let ?s6 = "s3\<lparr>prod_at := P_return 0, main_at := M_printed 0\<rparr>"
  have "pc_run ?s4" by (rule pc_run.prod_step [OF s3(1), of a]) (simp_all add: prod_exec_def s3 a)
  then have "pc_run ?s5" by (rule pc_run.main_step) (simp add: main_exec_def s3)
  then have s6: "pc_run ?s6" by (rule pc_run.main_step) (simp add: main_exec_def s3 s2)
  then obtain ns d where ok: "data_ok ?s6 ns d" using run_data by blast
  have "mset [ord_a..d - 1] = {#}" "ord_a \<le> d" using ok by (simp_all add: data_ok_def letters_ok_def s3 s2)
  then have "d = ord_a" by simp
  then have "dll (heap ?s6) None ns \<and> map (letter_at (heap ?s6)) ns = [ord_a..ord_z]"
    using ok by (simp add: data_ok_def letters_ok_def queue_rep_def)
  then show ?thesis using s6 s3(7) by (intro exI [of _ ?s6]) auto
qed

text \<open>C34. The consumers may leave too early: they test \<open>front\<close> and \<open>g_num_prod\<close> one after the other and, after the
  first pass of the loop, without \<open>g_num_prod_lock\<close>. There is an execution in which both read an empty
  queue, the producer then adds all letters and ends, and both leave: the program prints that 0
  characters were printed, and all 26 letters are left in the queue.\<close>

theorem all_letters_lost:
  "\<exists>s. pc_run s \<and> main_at s = M_printed 0 \<and> printed s = [] \<and>
     (\<exists>ns. dll (heap s) None ns \<and> map (letter_at (heap s)) ns = [ord_a..ord_z])"
  by (rule letters_lost_run)

section \<open>Witnesses\<close>

definition one_critical :: pcq where
  "one_critical = the (pc_script ([Main, Producer, Main] @ replicate 5 (Consumer 0)) pc_init)"

lemma one_critical_eq:
  "pc_script ([Main, Producer, Main] @ replicate 5 (Consumer 0)) pc_init = Some one_critical \<and>
   cons_at one_critical 0 = C_take \<and> cons_at one_critical 1 = C_lock_num \<and> heap one_critical 0 = None"
  by (simp add: one_critical_def pc_init_def main_exec_def prod_exec_def cons_exec_def cons_goto_def eval_nat_numeral)

lemma one_critical_run: "pc_run one_critical"
  using pc_script_run [OF pc_run.start] one_critical_eq by blast

theorem queue_exclusion_witness:
  "critical one_critical (Consumer 0) \<and> \<not> critical one_critical Producer \<and> \<not> critical one_critical (Consumer 1)"
  using queue_exclusion [OF one_critical_run, of "Consumer 0" Producer] queue_exclusion [OF one_critical_run, of "Consumer 0" "Consumer 1"]
  by (auto simp: one_critical_eq)

theorem producer_consumer_progress_witness:
  "(\<exists>s'. main_exec both_waiting = Some s') \<or> (\<exists>r. prod_exec 0 both_waiting = Some r) \<or> (\<exists>i < 2. \<exists>r. cons_exec i both_waiting = Some r)"
  using producer_consumer_progress [OF both_waiting_run, of 0] by (simp add: both_waiting_def)

theorem producer_consumer_no_fault_witness:
  "cons_exec 0 one_critical \<noteq> Some (Inl Invalid_pointer)"
  using producer_consumer_no_fault [OF one_critical_run, of 0 0] by (simp add: one_critical_eq)

theorem letters_fifo_witness:
  "\<exists>ns. dll (heap both_waiting) None ns \<and> map (letter_at (heap both_waiting)) ns = []"
  using letters_fifo [OF both_waiting_run] by (auto simp: both_waiting_def split: if_splits)

theorem total_is_printed_witness:
  "\<exists>s. pc_run s \<and> main_at s = M_printed 0 \<and> length (printed s) = 0 \<and> cons_at s 1 = C_return"
  using letters_lost_run total_is_printed [where n = 0] by (metis of_nat_eq_0_iff)

end
