(* ===== verification/Params.thy ===== *)
theory Params
  imports Prelude
begin

text \<open>
  The configuration of a simulation: the global variables of
  \<open>usimm-v1.3/src/params.h\<close> that the controller, the schedulers and the processor read,
  as one record the operations take as their first argument. \<open>read_config_file\<close> and
  \<open>main\<close> assign them before the simulation starts and nothing writes them afterwards.

  \<open>wf_params\<close> collects what the invariants need of a configuration. \<open>wf_params_ddr3\<close>
  shows that the shipped DDR3-1600 timings (the values in the comments of \<open>params.h\<close>
  scaled by the clock multiplier, as \<open>read_config_file\<close> scales them) satisfy it.
\<close>

record params =
  NUMCORES :: int
  PROCESSOR_CLK_MULTIPLIER :: int
  ROBSIZE :: int
  MAX_RETIRE :: int
  MAX_FETCH :: int
  PIPELINEDEPTH :: int
  NUM_CHANNELS :: int
  NUM_RANKS :: int
  NUM_BANKS :: int
  NUM_ROWS :: int
  NUM_COLUMNS :: int
  CACHE_LINE_SIZE :: int
  ADDRESS_BITS :: int
  DRAM_CLK_FREQUENCY :: int
  T_RCD :: int
  T_RP :: int
  T_CAS :: int
  T_RAS :: int
  T_RC :: int
  T_CWD :: int
  T_WR :: int
  T_WTR :: int
  T_RTRS :: int
  T_DATA_TRANS :: int
  T_RTP :: int
  T_CCD :: int
  T_XP :: int
  T_XP_DLL :: int
  T_CKE :: int
  T_PD_MIN :: int
  T_RRD :: int
  T_FAW :: int
  T_REFI :: int
  T_RFC :: int
  WQ_CAPACITY :: int
  ADDRESS_MAPPING :: int
  WQ_LOOKUP_LATENCY :: int

text \<open>Array bounds of \<open>memory_controller.h\<close> and the activation window of \<open>memory_controller.c\<close>.\<close>

definition MAX_NUM_CHANNELS :: int where "MAX_NUM_CHANNELS = 16"
definition MAX_NUM_RANKS :: int where "MAX_NUM_RANKS = 16"
definition MAX_NUM_BANKS :: int where "MAX_NUM_BANKS = 32"
definition BIG_ACTIVATION_WINDOW :: int where "BIG_ACTIVATION_WINDOW = 1000000"

definition wf_geometry :: "params \<Rightarrow> bool" where
  "wf_geometry P \<longleftrightarrow>
     1 \<le> NUMCORES P \<and> 1 \<le> NUM_CHANNELS P \<and> NUM_CHANNELS P \<le> MAX_NUM_CHANNELS \<and>
     1 \<le> NUM_RANKS P \<and> NUM_RANKS P \<le> MAX_NUM_RANKS \<and>
     1 \<le> NUM_BANKS P \<and> NUM_BANKS P \<le> MAX_NUM_BANKS \<and>
     1 \<le> NUM_ROWS P \<and> NUM_ROWS P < 2 ^ 31 \<and>
     1 \<le> NUM_COLUMNS P \<and> NUM_COLUMNS P < 2 ^ 31"

definition wf_timing :: "params \<Rightarrow> bool" where
  "wf_timing P \<longleftrightarrow>
     0 < PROCESSOR_CLK_MULTIPLIER P \<and>
     0 \<le> T_RCD P \<and> 0 \<le> T_RP P \<and> 0 \<le> T_CAS P \<and> 0 \<le> T_RAS P \<and> 0 \<le> T_RC P \<and>
     0 \<le> T_CWD P \<and> 0 \<le> T_WR P \<and> 0 \<le> T_WTR P \<and> 0 \<le> T_RTRS P \<and> 0 \<le> T_DATA_TRANS P \<and>
     0 \<le> T_RTP P \<and> 0 \<le> T_CCD P \<and> 0 \<le> T_XP P \<and> T_XP P \<le> T_XP_DLL P \<and>
     0 \<le> T_PD_MIN P \<and> 0 \<le> T_RRD P \<and> 0 \<le> T_FAW P \<and> 0 < T_RFC P \<and>
     T_RC P \<le> T_RAS P + T_RP P \<and> T_RRD P \<le> T_RAS P + T_RP P \<and>
     T_RCD P \<le> T_RAS P + T_RP P \<and> T_XP P \<le> T_RFC P \<and>
     T_RP P + 8 * T_RFC P < 8 * T_REFI P \<and>
     T_FAW P + PROCESSOR_CLK_MULTIPLIER P \<le> BIG_ACTIVATION_WINDOW"

text \<open>
  \<open>read_config_file\<close> multiplies every timing value it reads by the clock multiplier, so the
  deadlines the refresh logic compares with \<open>==\<close> fall on memory cycles.
\<close>

definition aligned_timing :: "params \<Rightarrow> bool" where
  "aligned_timing P \<longleftrightarrow>
     PROCESSOR_CLK_MULTIPLIER P dvd T_RP P \<and>
     PROCESSOR_CLK_MULTIPLIER P dvd T_RFC P \<and>
     PROCESSOR_CLK_MULTIPLIER P dvd T_REFI P \<and>
     PROCESSOR_CLK_MULTIPLIER P dvd T_FAW P"

definition wf_params :: "params \<Rightarrow> bool" where
  "wf_params P \<longleftrightarrow> wf_geometry P \<and> wf_timing P \<and> aligned_timing P"

lemmas wf_params_defs = wf_params_def wf_geometry_def wf_timing_def aligned_timing_def
  MAX_NUM_CHANNELS_def MAX_NUM_RANKS_def MAX_NUM_BANKS_def BIG_ACTIVATION_WINDOW_def

text \<open>A DDR3-1600 configuration with the values the comments of \<open>params.h\<close> list.\<close>

definition ddr3_params :: params where
  "ddr3_params = \<lparr>
     NUMCORES = 1, PROCESSOR_CLK_MULTIPLIER = 4, ROBSIZE = 128, MAX_RETIRE = 2, MAX_FETCH = 4,
     PIPELINEDEPTH = 5, NUM_CHANNELS = 1, NUM_RANKS = 2, NUM_BANKS = 8, NUM_ROWS = 32768,
     NUM_COLUMNS = 128, CACHE_LINE_SIZE = 64, ADDRESS_BITS = 32, DRAM_CLK_FREQUENCY = 800,
     T_RCD = 44, T_RP = 44, T_CAS = 44, T_RAS = 112, T_RC = 156, T_CWD = 20, T_WR = 48,
     T_WTR = 24, T_RTRS = 8, T_DATA_TRANS = 16, T_RTP = 24, T_CCD = 16, T_XP = 20,
     T_XP_DLL = 40, T_CKE = 16, T_PD_MIN = 16, T_RRD = 20, T_FAW = 128, T_REFI = 24960,
     T_RFC = 352, WQ_CAPACITY = 64, ADDRESS_MAPPING = 1, WQ_LOOKUP_LATENCY = 10\<rparr>"

lemma wf_params_ddr3: "wf_params ddr3_params"
  by (simp add: wf_params_defs ddr3_params_def)

lemma wf_geometryI [intro]: "wf_params P \<Longrightarrow> wf_geometry P"
  by (simp add: wf_params_def)

lemma wf_timingI [intro]: "wf_params P \<Longrightarrow> wf_timing P"
  by (simp add: wf_params_def)

end
