(* ===== verification/Dram_Address.thy ===== *)
theory Dram_Address
  imports Params
begin

text \<open>
  Address decomposition: \<open>log_base2\<close> and \<open>calc_dram_addr\<close> of
  \<open>usimm-v1.3/src/memory_controller.c\<close>, with the two address mappings of \<open>params.h\<close>.
  The theorems: \<open>log_base2\<close> is the floor of the binary logarithm on 32-bit values, every
  component \<open>calc_dram_addr\<close> returns is within its array, and the components together with
  the line offset determine the physical address.
\<close>

section \<open>log_base2\<close>

text \<open>The \<open>for (i = 0; i < 32; i++)\<close> loop; the result is the value of \<open>i\<close> when it stops.\<close>

function log_base2_loop :: "nat \<Rightarrow> 32 word \<Rightarrow> nat" where
  "log_base2_loop i v =
     (if i < 32 then
        let v' = drop_bit 1 v in
        if v' = 0 then i else log_base2_loop (Suc i) v'
      else i)"
  by pat_completeness auto
termination
  by (relation "measure (\<lambda>(i, v). 32 - i)") auto

declare log_base2_loop.simps [simp del]

definition log_base2 :: "32 word \<Rightarrow> nat" where
  "log_base2 new_value = log_base2_loop 0 new_value"

text \<open>
  \<open>calc_dram_addr\<close> passes \<open>int\<close> parameters for the \<open>unsigned int\<close>: the conversion keeps the
  32 bits.
\<close>

abbreviation bit_width :: "int \<Rightarrow> nat" where
  "bit_width n \<equiv> log_base2 (word_of_int n)"

section \<open>calc_dram_addr\<close>

record dram_address_t =
  actual_address :: int
  channel :: int
  rank :: int
  bank :: int
  row :: int
  column :: int

text \<open>
  The idiom the function repeats for each component: \<open>temp_b = input_a; input_a = input_a >> w;
  temp_a = input_a << w;\<close> and the component is \<open>temp_a ^ temp_b\<close>. It returns the component
  and the shifted input.
\<close>

definition strip :: "nat \<Rightarrow> int \<Rightarrow> int \<times> int" where
  "strip w input_a =
     (let temp_b = input_a;
          input_a' = drop_bit w input_a;
          temp_a = push_bit w input_a'
      in (temp_a XOR temp_b, input_a'))"

text \<open>
  The components but \<open>row\<close> are \<open>int\<close> fields, so each assignment converts the 64-bit value.
\<close>

definition calc_dram_addr :: "params \<Rightarrow> int \<Rightarrow> dram_address_t" where
  "calc_dram_addr P physical_address =
     (let channelBitWidth = bit_width (NUM_CHANNELS P);
          rankBitWidth = bit_width (NUM_RANKS P);
          bankBitWidth = bit_width (NUM_BANKS P);
          rowBitWidth = bit_width (NUM_ROWS P);
          colBitWidth = bit_width (NUM_COLUMNS P);
          byteOffsetWidth = bit_width (CACHE_LINE_SIZE P);
          input_a = drop_bit byteOffsetWidth physical_address
      in if ADDRESS_MAPPING P = 1 then
           (let (column, input_a) = strip colBitWidth input_a;
                (channel, input_a) = strip channelBitWidth input_a;
                (bank, input_a) = strip bankBitWidth input_a;
                (rank, input_a) = strip rankBitWidth input_a;
                (row, input_a) = strip rowBitWidth input_a
            in \<lparr>actual_address = physical_address, channel = c_int channel, rank = c_int rank,
                bank = c_int bank, row = row, column = c_int column\<rparr>)
         else
           (let (channel, input_a) = strip channelBitWidth input_a;
                (bank, input_a) = strip bankBitWidth input_a;
                (rank, input_a) = strip rankBitWidth input_a;
                (column, input_a) = strip colBitWidth input_a;
                (row, input_a) = strip rowBitWidth input_a
            in \<lparr>actual_address = physical_address, channel = c_int channel, rank = c_int rank,
                bank = c_int bank, row = row, column = c_int column\<rparr>))"

section \<open>log_base2 is the binary logarithm\<close>

lemma log_base2_loop_spec:
  assumes "i < 32" and "v \<noteq> 0" and "unat v < 2 ^ (32 - i)"
  shows "i \<le> log_base2_loop i v \<and> log_base2_loop i v < 32 \<and>
    2 ^ (log_base2_loop i v - i) \<le> unat v \<and> unat v < 2 ^ (Suc (log_base2_loop i v) - i)"
  using assms
proof (induction i v rule: log_base2_loop.induct)
  case (1 i v)
  define h where "h = drop_bit 1 v"
  have unat_h: "unat h = unat v div 2" unfolding h_def unat_drop_bit_eq by (simp add: drop_bit_eq_div)
  have pos: "0 < unat v" using "1.prems" by (simp add: unat_gt_0)
  show ?case
  proof (cases "h = 0")
    case True
    then have "log_base2_loop i v = i" using "1.prems" by (subst log_base2_loop.simps) (simp add: h_def)
    moreover have "unat v div 2 = 0" using True unat_h by simp
    then have "unat v < 2" by simp
    ultimately show ?thesis using pos "1.prems" by simp
  next
    case False
    have step: "log_base2_loop i v = log_base2_loop (Suc i) h"
      using False "1.prems" by (subst log_base2_loop.simps) (simp add: h_def)
    have "i \<noteq> 31"
    proof
      assume "i = 31"
      then have "unat h = 0" using "1.prems" unat_h by simp
      then show False using False by (simp add: unat_eq_0)
    qed
    then have si: "Suc i < 32" using "1.prems" by simp
    then have e: "32 - i = Suc (32 - Suc i)" by simp
    have "unat v < 2 * 2 ^ (32 - Suc i)" using "1.prems"(3) unfolding e by simp
    then have "unat h < 2 ^ (32 - Suc i)" using unat_h by (simp add: less_mult_imp_div_less mult.commute)
    then have IH: "Suc i \<le> log_base2_loop (Suc i) h" "log_base2_loop (Suc i) h < 32"
      "2 ^ (log_base2_loop (Suc i) h - Suc i) \<le> unat h"
      "unat h < 2 ^ (Suc (log_base2_loop (Suc i) h) - Suc i)"
      using "1.IH" [OF _ h_def False si False] "1.prems" by auto
    define r where "r = log_base2_loop (Suc i) h"
    from IH(1) obtain d where d: "r = Suc i + d" unfolding r_def using le_Suc_ex by blast
    have "2 ^ d \<le> unat v div 2" and "unat v div 2 < 2 ^ Suc d"
      using IH(3,4) d unat_h by (auto simp: r_def)
    then have "2 ^ Suc d \<le> unat v" and "unat v < 2 ^ Suc (Suc d)"
      by (auto simp: less_eq_div_iff_mult_less_eq div_less_iff_less_mult)
    then show ?thesis using IH(2) step d by (simp add: r_def)
  qed
qed

lemma log_base2_bounds:
  assumes "v \<noteq> 0"
  shows "2 ^ log_base2 v \<le> unat v" and "unat v < 2 ^ Suc (log_base2 v)" and "log_base2 v < 32"
proof -
  have "unat v < 2 ^ 32" using unsigned_less [of v, where ?'a = nat] by simp
  then show "2 ^ log_base2 v \<le> unat v" "unat v < 2 ^ Suc (log_base2 v)" "log_base2 v < 32"
    using log_base2_loop_spec [of 0 v] assms by (auto simp: log_base2_def)
qed

lemma log_base2_0: "log_base2 0 = 0"
  by (simp add: log_base2_def log_base2_loop.simps)

lemma bit_width_le:
  assumes "1 \<le> n" and "n < 2 ^ 31"
  shows "2 ^ bit_width n \<le> n" and "bit_width n < 31"
proof -
  have u: "unat (word_of_int n :: 32 word) = nat n"
    using assms by (simp add: unat_eq_nat_uint uint_word_of_int_eq take_bit_int_eq_self)
  have nz: "(word_of_int n :: 32 word) \<noteq> 0"
  proof
    assume "(word_of_int n :: 32 word) = 0"
    then have "nat n = 0" using u by simp
    then show False using assms by simp
  qed
  have "2 ^ bit_width n \<le> nat n" using log_base2_bounds(1) [OF nz] u by simp
  then have le: "(2::int) ^ bit_width n \<le> n" using assms by (simp add: le_nat_iff)
  then show "2 ^ bit_width n \<le> n" by simp
  have "(2::int) ^ bit_width n < 2 ^ 31" using le assms by linarith
  then show "bit_width n < 31" by (rule power_less_imp_less_exp [rotated]) simp
qed

section \<open>The components\<close>

lemma strip_eq: "strip w x = (take_bit w x, drop_bit w x)"
proof -
  have "push_bit w (drop_bit w x) XOR x = take_bit w x"
  proof (rule bit_eqI)
    fix n
    show "bit (push_bit w (drop_bit w x) XOR x) n \<longleftrightarrow> bit (take_bit w x) n"
      by (cases "n < w") (simp_all add: bit_simps)
  qed
  then show ?thesis by (simp add: strip_def)
qed

lemma c_int_take_bit:
  assumes "w < 31"
  shows "c_int (take_bit w x) = take_bit w x"
proof (rule c_int_id)
  show "- (2 ^ 31) \<le> take_bit w x" by (rule order_trans [OF _ take_bit_nonnegative]) simp
  have "take_bit w x < 2 ^ w" by (rule take_bit_int_less_exp)
  also have "(2::int) ^ w \<le> 2 ^ 31" using assms by (intro power_increasing) simp_all
  finally show "take_bit w x < 2 ^ 31" .
qed

text \<open>The number of rows is bounded so that the \<open>int row\<close> of the queue updates holds every row.\<close>

lemma take_bit_width:
  assumes "1 \<le> n" and "n < 2 ^ 31"
  shows "0 \<le> take_bit (bit_width n) x" and "take_bit (bit_width n) x < n"
proof -
  have "take_bit (bit_width n) x < 2 ^ bit_width n" by (rule take_bit_int_less_exp)
  also have "2 ^ bit_width n \<le> n" by (rule bit_width_le [OF assms])
  finally show "take_bit (bit_width n) x < n" .
qed simp

lemma calc_dram_addr_actual [simp]:
  "actual_address (calc_dram_addr P a) = a"
  by (simp add: calc_dram_addr_def strip_eq Let_def)

lemma wf_geometry_int:
  assumes "wf_geometry P"
  shows "1 \<le> NUM_CHANNELS P" "NUM_CHANNELS P < 2 ^ 31" "1 \<le> NUM_RANKS P" "NUM_RANKS P < 2 ^ 31"
    "1 \<le> NUM_BANKS P" "NUM_BANKS P < 2 ^ 31" "1 \<le> NUM_ROWS P" "NUM_ROWS P < 2 ^ 31"
    "1 \<le> NUM_COLUMNS P" "NUM_COLUMNS P < 2 ^ 31"
  using assms by (auto simp: wf_params_defs)

text \<open>The bit fields \<open>calc_dram_addr\<close> reads, for each mapping.\<close>

lemma calc_dram_addr_fields:
  fixes P :: params and a :: int
  assumes "wf_geometry P"
  defines "x \<equiv> drop_bit (bit_width (CACHE_LINE_SIZE P)) a"
    and "wc \<equiv> bit_width (NUM_CHANNELS P)" and "wr \<equiv> bit_width (NUM_RANKS P)"
    and "wb \<equiv> bit_width (NUM_BANKS P)" and "ww \<equiv> bit_width (NUM_ROWS P)"
    and "wl \<equiv> bit_width (NUM_COLUMNS P)"
  shows "ADDRESS_MAPPING P = 1 \<Longrightarrow> calc_dram_addr P a =
      \<lparr>actual_address = a,
       channel = take_bit wc (drop_bit wl x),
       rank = take_bit wr (drop_bit (wl + wc + wb) x),
       bank = take_bit wb (drop_bit (wl + wc) x),
       row = take_bit ww (drop_bit (wl + wc + wb + wr) x),
       column = take_bit wl x\<rparr>"
    and "ADDRESS_MAPPING P \<noteq> 1 \<Longrightarrow> calc_dram_addr P a =
      \<lparr>actual_address = a,
       channel = take_bit wc x,
       rank = take_bit wr (drop_bit (wc + wb) x),
       bank = take_bit wb (drop_bit wc x),
       row = take_bit ww (drop_bit (wc + wb + wr + wl) x),
       column = take_bit wl (drop_bit (wc + wb + wr) x)\<rparr>"
  using wf_geometry_int [OF assms(1)] bit_width_le(2)
  by (auto simp: calc_dram_addr_def strip_eq assms(2-) c_int_take_bit Let_def ac_simps)

definition addr_in_range :: "params \<Rightarrow> dram_address_t \<Rightarrow> bool" where
  "addr_in_range P d \<longleftrightarrow>
     0 \<le> channel d \<and> channel d < NUM_CHANNELS P \<and>
     0 \<le> rank d \<and> rank d < NUM_RANKS P \<and>
     0 \<le> bank d \<and> bank d < NUM_BANKS P \<and>
     0 \<le> row d \<and> row d < NUM_ROWS P \<and>
     0 \<le> column d \<and> column d < NUM_COLUMNS P"

lemma calc_dram_addr_in_range_aux:
  assumes "wf_geometry P"
  shows "addr_in_range P (calc_dram_addr P a)"
  using wf_geometry_int [OF assms]
  by (cases "ADDRESS_MAPPING P = 1")
    (simp_all add: calc_dram_addr_fields [OF assms] addr_in_range_def take_bit_width)

text \<open>
  The inverse map, written as a specification: the cache-line number put back together from
  the components, in the order of the mapping.
\<close>

definition line_width :: "params \<Rightarrow> nat" where
  "line_width P = bit_width (NUM_COLUMNS P) + bit_width (NUM_CHANNELS P) +
     bit_width (NUM_BANKS P) + bit_width (NUM_RANKS P) + bit_width (NUM_ROWS P)"

definition line_of_addr :: "params \<Rightarrow> dram_address_t \<Rightarrow> int" where
  "line_of_addr P d =
     (let wc = bit_width (NUM_CHANNELS P); wr = bit_width (NUM_RANKS P);
          wb = bit_width (NUM_BANKS P); wl = bit_width (NUM_COLUMNS P)
      in if ADDRESS_MAPPING P = 1 then
           column d + push_bit wl (channel d + push_bit wc (bank d + push_bit wb
             (rank d + push_bit wr (row d))))
         else
           channel d + push_bit wc (bank d + push_bit wb (rank d + push_bit wr
             (column d + push_bit wl (row d)))))"

lemma take_bit_split:
  "take_bit (m + n) x = take_bit m x + push_bit m (take_bit n (drop_bit m (x :: int)))"
proof -
  have "take_bit (m + n) x = push_bit m (take_bit n (drop_bit m x)) OR take_bit m x"
    by (rule bit_eqI) (auto simp: bit_simps)
  also have "\<dots> = push_bit m (take_bit n (drop_bit m x)) + take_bit m x"
    by (rule disjunctive_add [symmetric]) (auto simp: bit_simps)
  finally show ?thesis by (simp add: add.commute)
qed

lemma line_of_calc_dram_addr:
  assumes "wf_geometry P"
  shows "line_of_addr P (calc_dram_addr P a) =
    take_bit (line_width P) (drop_bit (bit_width (CACHE_LINE_SIZE P)) a)"
proof -
  define x where "x = drop_bit (bit_width (CACHE_LINE_SIZE P)) a"
  define wc wr wb wl ww where w: "wc = bit_width (NUM_CHANNELS P)" "wr = bit_width (NUM_RANKS P)"
    "wb = bit_width (NUM_BANKS P)" "wl = bit_width (NUM_COLUMNS P)" "ww = bit_width (NUM_ROWS P)"
  note f = calc_dram_addr_fields [OF assms, of a, folded x_def w]
  show ?thesis
  proof (cases "ADDRESS_MAPPING P = 1")
    case True
    have lw: "line_width P = wl + (wc + (wb + (wr + ww)))" by (simp add: line_width_def w)
    show ?thesis using True unfolding lw take_bit_split
      by (simp add: f line_of_addr_def Let_def ac_simps flip: x_def w)
  next
    case False
    have lw: "line_width P = wc + (wb + (wr + (wl + ww)))" by (simp add: line_width_def w)
    show ?thesis using False unfolding lw take_bit_split
      by (simp add: f line_of_addr_def Let_def ac_simps flip: x_def w)
  qed
qed

section \<open>Properties\<close>

text \<open>On every non-zero 32-bit value, \<open>log_base2\<close> returns the floor of the binary
  logarithm: the loop finds the position of the highest set bit.\<close>

theorem log_base2_floor:
  assumes "v \<noteq> 0"
  shows "2 ^ log_base2 v \<le> unat v \<and> unat v < 2 ^ Suc (log_base2 v) \<and> log_base2 v < 32"
  using log_base2_bounds [OF assms] by blast

theorem log_base2_floor_witness:
  "2 ^ log_base2 40000 \<le> unat (40000 :: 32 word) \<and>
   unat (40000 :: 32 word) < 2 ^ Suc (log_base2 40000) \<and> log_base2 40000 < 32"
  by (rule log_base2_floor) simp

text \<open>Whatever physical address a trace holds, also a negative or an out-of-range one, the
  channel, rank, bank, row and column \<open>calc_dram_addr\<close> returns are indices within the
  configured geometry, so every array access made with them is in bounds.\<close>

theorem calc_dram_addr_in_range:
  assumes "wf_geometry P"
  shows "addr_in_range P (calc_dram_addr P a)"
  using assms by (rule calc_dram_addr_in_range_aux)

theorem calc_dram_addr_in_range_witness:
  "addr_in_range ddr3_params (calc_dram_addr ddr3_params (- 1))"
  by (rule calc_dram_addr_in_range) (rule wf_geometryI [OF wf_params_ddr3])

text \<open>C39. The decomposition loses nothing: under either address mapping, the components
  determine the address of the cache line within the capacity the geometry spans, so two lines
  of the memory never share a channel, rank, bank, row and column.\<close>

theorem calc_dram_addr_round_trip:
  assumes "wf_geometry P" and "0 \<le> a"
    and "a < 2 ^ (bit_width (CACHE_LINE_SIZE P) + line_width P)"
  shows "line_of_addr P (calc_dram_addr P a) = a div 2 ^ bit_width (CACHE_LINE_SIZE P)"
proof -
  let ?w = "bit_width (CACHE_LINE_SIZE P)"
  have "a div 2 ^ ?w < 2 ^ line_width P"
    using assms(3) by (simp add: int_div_less power_add mult.commute)
  then have "take_bit (line_width P) (drop_bit ?w a) = a div 2 ^ ?w"
    using \<open>0 \<le> a\<close> by (simp add: drop_bit_eq_div take_bit_int_eq_self pos_imp_zdiv_nonneg_iff)
  then show ?thesis by (simp add: line_of_calc_dram_addr [OF assms(1)])
qed

theorem calc_dram_addr_round_trip_witness:
  "line_of_addr ddr3_params (calc_dram_addr ddr3_params 305419904) =
     305419904 div 2 ^ bit_width (CACHE_LINE_SIZE ddr3_params)"
proof (rule calc_dram_addr_round_trip)
  show "(305419904 :: int) < 2 ^ (bit_width (CACHE_LINE_SIZE ddr3_params) + line_width ddr3_params)"
    by code_simp
qed (simp_all add: wf_geometryI [OF wf_params_ddr3])

end
