(* ===== verification/Mc_State.thy ===== *)
theory Mc_State
  imports Dram_Address Complex_Main
begin

text \<open>
  The state of the memory controller: the types and global variables of
  \<open>usimm-v1.3/src/memory_controller.h\<close>, the activation record of
  \<open>memory_controller.c\<close>, the reorder buffers of \<open>processor.h\<close> and the simulation clock
  of \<open>main.c\<close>, as one record the operations thread through.

  Flags that only take the values 0 and 1 are booleans. The per-channel linked lists of
  requests (\<open>read_queue_head\<close>, \<open>write_queue_head\<close>) are lists in queue order, and a
  \<open>request_t *\<close> into one of them is its channel and position (\<open>req_ptr\<close>): the queues
  change shape only in \<open>insert_read\<close>, \<open>insert_write\<close> and \<open>clean_queues\<close>, never
  while a scheduler holds a pointer. The \<open>double\<close> averages are exact rationals: rounding is
  not modelled.
\<close>

section \<open>Types\<close>

datatype command_t =
    ACT_CMD | COL_READ_CMD | PRE_CMD | COL_WRITE_CMD | PWR_DN_SLOW_CMD | PWR_DN_FAST_CMD
  | PWR_UP_CMD | REF_CMD | NOP

datatype optype_t = READ | WRITE

datatype bankstate_t =
    IDLE | PRECHARGING | REFRESHING | ROW_ACTIVE | PRECHARGE_POWER_DOWN_FAST
  | PRECHARGE_POWER_DOWN_SLOW | ACTIVE_POWER_DOWN

record request_t =
  physical_address :: int
  dram_addr :: dram_address_t
  arrival_time :: int
  dispatch_time :: int
  completion_time :: int
  latency :: int
  thread_id :: int
  next_command :: command_t
  command_issuable :: bool
  operation_type :: optype_t
  request_served :: bool
  instruction_id :: int
  instruction_pc :: int
  user_ptr :: "int option"

record bank_t =
  state :: bankstate_t
  active_row :: int
  next_pre :: int
  next_act :: int
  next_read :: int
  next_write :: int
  next_powerdown :: int
  next_powerup :: int
  next_refresh :: int

record robstructure =
  head :: int
  tail :: int
  inflight :: int
  comptime :: "int arr1"
  mem_address :: "int arr1"
  optype :: "int arr1"
  instrpc :: "int arr1"
  tracedone :: bool

record mc_stats =
  num_read_merge :: int
  num_write_merge :: int
  stats_reads_merged_per_channel :: "int arr1"
  stats_writes_merged_per_channel :: "int arr1"
  stats_reads_seen :: "int arr1"
  stats_writes_seen :: "int arr1"
  stats_reads_completed :: "int arr1"
  stats_writes_completed :: "int arr1"
  stats_average_read_latency :: "rat arr1"
  stats_average_read_queue_latency :: "rat arr1"
  stats_average_write_latency :: "rat arr1"
  stats_average_write_queue_latency :: "rat arr1"
  stats_page_hits :: "int arr1"
  stats_read_row_hit_rate :: "rat arr1"
  stats_time_spent_in_active_standby :: "int arr2"
  stats_time_spent_in_active_power_down :: "int arr2"
  stats_time_spent_in_precharge_power_down_fast :: "int arr2"
  stats_time_spent_in_precharge_power_down_slow :: "int arr2"
  stats_time_spent_in_power_up :: "int arr2"
  last_activate :: "int arr2"
  average_gap_between_activates :: "rat arr2"
  stats_time_spent_terminating_reads_from_other_ranks :: "int arr2"
  stats_time_spent_terminating_writes_to_other_ranks :: "int arr2"
  stats_num_activate_read :: "int arr3"
  stats_num_activate_write :: "int arr3"
  stats_num_activate_spec :: "int arr3"
  stats_num_activate :: "int arr2"
  stats_num_precharge :: "int arr3"
  stats_num_read :: "int arr3"
  stats_num_write :: "int arr3"
  stats_num_powerdown_slow :: "int arr2"
  stats_num_powerdown_fast :: "int arr2"
  stats_num_powerup :: "int arr2"

record mc =
  CYCLE_VAL :: int
  dram_state :: "bank_t arr3"
  command_issued_current_cycle :: "bool arr1"
  cas_issued_current_cycle :: "int arr3"
  read_queue :: "request_t list arr1"
  write_queue :: "request_t list arr1"
  cmd_precharge_issuable :: "bool arr3"
  cmd_all_bank_precharge_issuable :: "bool arr2"
  cmd_powerdown_fast_issuable :: "bool arr2"
  cmd_powerdown_slow_issuable :: "bool arr2"
  cmd_powerup_issuable :: "bool arr2"
  cmd_refresh_issuable :: "bool arr2"
  next_refresh_completion_deadline :: "int arr2"
  last_refresh_completion_deadline :: "int arr2"
  forced_refresh_mode_on :: "bool arr2"
  refresh_issue_deadline :: "int arr2"
  issued_forced_refresh_commands :: "int arr2"
  num_issued_refreshes :: "int arr2"
  read_queue_length :: "int arr1"
  write_queue_length :: "int arr1"
  activation_record :: "int arr3"
  ROB :: "robstructure arr1"
  stats :: mc_stats

section \<open>Updates of one bank, of one statistic\<close>

definition upd_bank :: "int \<Rightarrow> int \<Rightarrow> int \<Rightarrow> (bank_t \<Rightarrow> bank_t) \<Rightarrow> mc \<Rightarrow> mc" where
  "upd_bank c r b f s = s\<lparr>dram_state := upd3 (dram_state s) c r b (f (dram_state s c r b))\<rparr>"

definition upd_stats :: "(mc_stats \<Rightarrow> mc_stats) \<Rightarrow> mc \<Rightarrow> mc" where
  "upd_stats f s = s\<lparr>stats := f (stats s)\<rparr>"

text \<open>A loop over the banks of a rank.\<close>

definition upd_banks :: "params \<Rightarrow> int \<Rightarrow> int \<Rightarrow> (int \<Rightarrow> bank_t \<Rightarrow> bank_t) \<Rightarrow> mc \<Rightarrow> mc" where
  "upd_banks P c r f s = fold (\<lambda>i. upd_bank c r i (f i)) (below (NUM_BANKS P)) s"

text \<open>A loop over the ranks of a channel and their banks.\<close>

definition upd_channel :: "params \<Rightarrow> int \<Rightarrow> (int \<Rightarrow> int \<Rightarrow> bank_t \<Rightarrow> bank_t) \<Rightarrow> mc \<Rightarrow> mc" where
  "upd_channel P c f s = fold (\<lambda>i. upd_banks P c i (f i)) (below (NUM_RANKS P)) s"

section \<open>Requests in the queues\<close>

datatype req_ptr = RdPtr int nat | WrPtr int nat

primrec ptr_channel :: "req_ptr \<Rightarrow> int" where
  "ptr_channel (RdPtr c i) = c"
| "ptr_channel (WrPtr c i) = c"

primrec get_req :: "mc \<Rightarrow> req_ptr \<Rightarrow> request_t option" where
  "get_req s (RdPtr c i) = (if i < length (read_queue s c) then Some (read_queue s c ! i) else None)"
| "get_req s (WrPtr c i) = (if i < length (write_queue s c) then Some (write_queue s c ! i) else None)"

primrec upd_req :: "req_ptr \<Rightarrow> (request_t \<Rightarrow> request_t) \<Rightarrow> mc \<Rightarrow> mc" where
  "upd_req (RdPtr c i) f s =
     s\<lparr>read_queue := (read_queue s)(c := (read_queue s c)[i := f (read_queue s c ! i)])\<rparr>"
| "upd_req (WrPtr c i) f s =
     s\<lparr>write_queue := (write_queue s)(c := (write_queue s c)[i := f (write_queue s c ! i)])\<rparr>"

section \<open>What the updates change\<close>

lemma upd_bank_dram [simp, bank_simps]:
  "dram_state (upd_bank c r b f s) c' r' b' =
     (if c' = c \<and> r' = r \<and> b' = b then f (dram_state s c r b) else dram_state s c' r' b')"
  by (simp add: upd_bank_def)

lemma upd_banks_dram [simp, bank_simps]:
  "dram_state (upd_banks P c r f s) c' r' b' =
     (if c' = c \<and> r' = r \<and> 0 \<le> b' \<and> b' < NUM_BANKS P
      then f b' (dram_state s c r b') else dram_state s c' r' b')"
proof (cases "c' = c \<and> r' = r")
  case True
  then show ?thesis unfolding upd_banks_def
    using fold_pointwise [of "\<lambda>k s. dram_state s c r k" "\<lambda>i. upd_bank c r i (f i)" f
        "below (NUM_BANKS P)" b' s]
    by auto
next
  case False
  then show ?thesis unfolding upd_banks_def
    by (auto intro!: fold_frame [where g = "\<lambda>s. dram_state s c' r' b'"])
qed

lemma upd_channel_dram [simp, bank_simps]:
  "dram_state (upd_channel P c f s) c' r' b' =
     (if c' = c \<and> 0 \<le> r' \<and> r' < NUM_RANKS P \<and> 0 \<le> b' \<and> b' < NUM_BANKS P
      then f r' b' (dram_state s c r' b') else dram_state s c' r' b')"
proof (cases "c' = c \<and> 0 \<le> b' \<and> b' < NUM_BANKS P")
  case True
  then show ?thesis unfolding upd_channel_def
    using fold_pointwise [of "\<lambda>k s. dram_state s c k b'" "\<lambda>i. upd_banks P c i (f i)"
        "\<lambda>i. f i b'" "below (NUM_RANKS P)" r' s]
    by auto
next
  case False
  then show ?thesis unfolding upd_channel_def
    by (auto intro!: fold_frame [where g = "\<lambda>s. dram_state s c' r' b'"])
qed

text \<open>The fields an update leaves alone.\<close>

lemma upd_bank_other:
  "dram_state_update (\<lambda>_. d) (upd_bank c r b f s) = dram_state_update (\<lambda>_. d) s"
  "dram_state_update (\<lambda>_. d) (upd_banks P c r g s) = dram_state_update (\<lambda>_. d) s"
  "dram_state_update (\<lambda>_. d) (upd_channel P c h s) = dram_state_update (\<lambda>_. d) s"
proof -
  show one: "dram_state_update (\<lambda>_. d) (upd_bank c r b f s) = dram_state_update (\<lambda>_. d) s"
    for c r b f s by (simp add: upd_bank_def)
  show all: "dram_state_update (\<lambda>_. d) (upd_banks P c r g s) = dram_state_update (\<lambda>_. d) s"
    for r g s unfolding upd_banks_def by (rule fold_frame) (rule one)
  show "dram_state_update (\<lambda>_. d) (upd_channel P c h s) = dram_state_update (\<lambda>_. d) s"
    unfolding upd_channel_def by (rule fold_frame) (rule all)
qed

lemma same_but_dram:
  assumes "\<And>d. dram_state_update (\<lambda>_. d) s = dram_state_update (\<lambda>_. d) s'"
  shows "s = s'\<lparr>dram_state := dram_state s\<rparr>"
proof -
  have "s = dram_state_update (\<lambda>_. dram_state s) s" by simp
  then show ?thesis using assms by metis
qed

lemma upd_bank_eq: "upd_bank c r b f s = s\<lparr>dram_state := dram_state (upd_bank c r b f s)\<rparr>"
  by (rule same_but_dram) (rule upd_bank_other)

lemma upd_banks_eq: "upd_banks P c r f s = s\<lparr>dram_state := dram_state (upd_banks P c r f s)\<rparr>"
  by (rule same_but_dram) (rule upd_bank_other)

lemma upd_channel_eq: "upd_channel P c f s = s\<lparr>dram_state := dram_state (upd_channel P c f s)\<rparr>"
  by (rule same_but_dram) (rule upd_bank_other)

lemma upd_bank_frame [simp, frame_simps]:
  "CYCLE_VAL (upd_bank c r b f s) = CYCLE_VAL s"
  "command_issued_current_cycle (upd_bank c r b f s) = command_issued_current_cycle s"
  "cas_issued_current_cycle (upd_bank c r b f s) = cas_issued_current_cycle s"
  "read_queue (upd_bank c r b f s) = read_queue s"
  "write_queue (upd_bank c r b f s) = write_queue s"
  "cmd_precharge_issuable (upd_bank c r b f s) = cmd_precharge_issuable s"
  "cmd_all_bank_precharge_issuable (upd_bank c r b f s) = cmd_all_bank_precharge_issuable s"
  "cmd_powerdown_fast_issuable (upd_bank c r b f s) = cmd_powerdown_fast_issuable s"
  "cmd_powerdown_slow_issuable (upd_bank c r b f s) = cmd_powerdown_slow_issuable s"
  "cmd_powerup_issuable (upd_bank c r b f s) = cmd_powerup_issuable s"
  "cmd_refresh_issuable (upd_bank c r b f s) = cmd_refresh_issuable s"
  "next_refresh_completion_deadline (upd_bank c r b f s) = next_refresh_completion_deadline s"
  "last_refresh_completion_deadline (upd_bank c r b f s) = last_refresh_completion_deadline s"
  "forced_refresh_mode_on (upd_bank c r b f s) = forced_refresh_mode_on s"
  "refresh_issue_deadline (upd_bank c r b f s) = refresh_issue_deadline s"
  "issued_forced_refresh_commands (upd_bank c r b f s) = issued_forced_refresh_commands s"
  "num_issued_refreshes (upd_bank c r b f s) = num_issued_refreshes s"
  "read_queue_length (upd_bank c r b f s) = read_queue_length s"
  "write_queue_length (upd_bank c r b f s) = write_queue_length s"
  "activation_record (upd_bank c r b f s) = activation_record s"
  "ROB (upd_bank c r b f s) = ROB s"
  "stats (upd_bank c r b f s) = stats s"
  by (simp_all add: upd_bank_def)

lemma upd_banks_frame [simp, frame_simps]:
  "CYCLE_VAL (upd_banks P c r f s) = CYCLE_VAL s"
  "command_issued_current_cycle (upd_banks P c r f s) = command_issued_current_cycle s"
  "cas_issued_current_cycle (upd_banks P c r f s) = cas_issued_current_cycle s"
  "read_queue (upd_banks P c r f s) = read_queue s"
  "write_queue (upd_banks P c r f s) = write_queue s"
  "cmd_precharge_issuable (upd_banks P c r f s) = cmd_precharge_issuable s"
  "cmd_all_bank_precharge_issuable (upd_banks P c r f s) = cmd_all_bank_precharge_issuable s"
  "cmd_powerdown_fast_issuable (upd_banks P c r f s) = cmd_powerdown_fast_issuable s"
  "cmd_powerdown_slow_issuable (upd_banks P c r f s) = cmd_powerdown_slow_issuable s"
  "cmd_powerup_issuable (upd_banks P c r f s) = cmd_powerup_issuable s"
  "cmd_refresh_issuable (upd_banks P c r f s) = cmd_refresh_issuable s"
  "next_refresh_completion_deadline (upd_banks P c r f s) = next_refresh_completion_deadline s"
  "last_refresh_completion_deadline (upd_banks P c r f s) = last_refresh_completion_deadline s"
  "forced_refresh_mode_on (upd_banks P c r f s) = forced_refresh_mode_on s"
  "refresh_issue_deadline (upd_banks P c r f s) = refresh_issue_deadline s"
  "issued_forced_refresh_commands (upd_banks P c r f s) = issued_forced_refresh_commands s"
  "num_issued_refreshes (upd_banks P c r f s) = num_issued_refreshes s"
  "read_queue_length (upd_banks P c r f s) = read_queue_length s"
  "write_queue_length (upd_banks P c r f s) = write_queue_length s"
  "activation_record (upd_banks P c r f s) = activation_record s"
  "ROB (upd_banks P c r f s) = ROB s"
  "stats (upd_banks P c r f s) = stats s"
  by (subst upd_banks_eq, simp)+

lemma upd_channel_frame [simp, frame_simps]:
  "CYCLE_VAL (upd_channel P c f s) = CYCLE_VAL s"
  "command_issued_current_cycle (upd_channel P c f s) = command_issued_current_cycle s"
  "cas_issued_current_cycle (upd_channel P c f s) = cas_issued_current_cycle s"
  "read_queue (upd_channel P c f s) = read_queue s"
  "write_queue (upd_channel P c f s) = write_queue s"
  "cmd_precharge_issuable (upd_channel P c f s) = cmd_precharge_issuable s"
  "cmd_all_bank_precharge_issuable (upd_channel P c f s) = cmd_all_bank_precharge_issuable s"
  "cmd_powerdown_fast_issuable (upd_channel P c f s) = cmd_powerdown_fast_issuable s"
  "cmd_powerdown_slow_issuable (upd_channel P c f s) = cmd_powerdown_slow_issuable s"
  "cmd_powerup_issuable (upd_channel P c f s) = cmd_powerup_issuable s"
  "cmd_refresh_issuable (upd_channel P c f s) = cmd_refresh_issuable s"
  "next_refresh_completion_deadline (upd_channel P c f s) = next_refresh_completion_deadline s"
  "last_refresh_completion_deadline (upd_channel P c f s) = last_refresh_completion_deadline s"
  "forced_refresh_mode_on (upd_channel P c f s) = forced_refresh_mode_on s"
  "refresh_issue_deadline (upd_channel P c f s) = refresh_issue_deadline s"
  "issued_forced_refresh_commands (upd_channel P c f s) = issued_forced_refresh_commands s"
  "num_issued_refreshes (upd_channel P c f s) = num_issued_refreshes s"
  "read_queue_length (upd_channel P c f s) = read_queue_length s"
  "write_queue_length (upd_channel P c f s) = write_queue_length s"
  "activation_record (upd_channel P c f s) = activation_record s"
  "ROB (upd_channel P c f s) = ROB s"
  "stats (upd_channel P c f s) = stats s"
  by (subst upd_channel_eq, simp)+

lemma upd_stats_frame [simp, frame_simps]:
  "CYCLE_VAL (upd_stats g s) = CYCLE_VAL s"
  "dram_state (upd_stats g s) = dram_state s"
  "command_issued_current_cycle (upd_stats g s) = command_issued_current_cycle s"
  "cas_issued_current_cycle (upd_stats g s) = cas_issued_current_cycle s"
  "read_queue (upd_stats g s) = read_queue s"
  "write_queue (upd_stats g s) = write_queue s"
  "cmd_precharge_issuable (upd_stats g s) = cmd_precharge_issuable s"
  "cmd_all_bank_precharge_issuable (upd_stats g s) = cmd_all_bank_precharge_issuable s"
  "cmd_powerdown_fast_issuable (upd_stats g s) = cmd_powerdown_fast_issuable s"
  "cmd_powerdown_slow_issuable (upd_stats g s) = cmd_powerdown_slow_issuable s"
  "cmd_powerup_issuable (upd_stats g s) = cmd_powerup_issuable s"
  "cmd_refresh_issuable (upd_stats g s) = cmd_refresh_issuable s"
  "next_refresh_completion_deadline (upd_stats g s) = next_refresh_completion_deadline s"
  "last_refresh_completion_deadline (upd_stats g s) = last_refresh_completion_deadline s"
  "forced_refresh_mode_on (upd_stats g s) = forced_refresh_mode_on s"
  "refresh_issue_deadline (upd_stats g s) = refresh_issue_deadline s"
  "issued_forced_refresh_commands (upd_stats g s) = issued_forced_refresh_commands s"
  "num_issued_refreshes (upd_stats g s) = num_issued_refreshes s"
  "read_queue_length (upd_stats g s) = read_queue_length s"
  "write_queue_length (upd_stats g s) = write_queue_length s"
  "activation_record (upd_stats g s) = activation_record s"
  "ROB (upd_stats g s) = ROB s"
  by (simp_all add: upd_stats_def)

lemma upd_req_frame [simp, frame_simps]:
  "CYCLE_VAL (upd_req p f s) = CYCLE_VAL s"
  "dram_state (upd_req p f s) = dram_state s"
  "command_issued_current_cycle (upd_req p f s) = command_issued_current_cycle s"
  "cas_issued_current_cycle (upd_req p f s) = cas_issued_current_cycle s"
  "cmd_precharge_issuable (upd_req p f s) = cmd_precharge_issuable s"
  "cmd_all_bank_precharge_issuable (upd_req p f s) = cmd_all_bank_precharge_issuable s"
  "cmd_powerdown_fast_issuable (upd_req p f s) = cmd_powerdown_fast_issuable s"
  "cmd_powerdown_slow_issuable (upd_req p f s) = cmd_powerdown_slow_issuable s"
  "cmd_powerup_issuable (upd_req p f s) = cmd_powerup_issuable s"
  "cmd_refresh_issuable (upd_req p f s) = cmd_refresh_issuable s"
  "next_refresh_completion_deadline (upd_req p f s) = next_refresh_completion_deadline s"
  "last_refresh_completion_deadline (upd_req p f s) = last_refresh_completion_deadline s"
  "forced_refresh_mode_on (upd_req p f s) = forced_refresh_mode_on s"
  "refresh_issue_deadline (upd_req p f s) = refresh_issue_deadline s"
  "issued_forced_refresh_commands (upd_req p f s) = issued_forced_refresh_commands s"
  "num_issued_refreshes (upd_req p f s) = num_issued_refreshes s"
  "read_queue_length (upd_req p f s) = read_queue_length s"
  "write_queue_length (upd_req p f s) = write_queue_length s"
  "activation_record (upd_req p f s) = activation_record s"
  "ROB (upd_req p f s) = ROB s"
  "stats (upd_req p f s) = stats s"
  by (cases p; simp)+

lemma upd_stats_stats [simp]: "stats (upd_stats f s) = f (stats s)"
  by (simp add: upd_stats_def)

text \<open>Writing a request back changes neither the shape of a queue nor its other entries.\<close>

lemma upd_req_length [simp]:
  "length (read_queue (upd_req p f s) c) = length (read_queue s c)"
  "length (write_queue (upd_req p f s) c) = length (write_queue s c)"
  by (cases p; simp)+

lemma get_req_upd_req:
  "get_req s p \<noteq> None \<Longrightarrow>
     get_req (upd_req p f s) q = (if q = p then map_option f (get_req s p) else get_req s q)"
  by (cases p; cases q) (auto split: if_splits)

text \<open>The requests of a channel, by pointer and as a set.\<close>

definition requests :: "mc \<Rightarrow> int \<Rightarrow> request_t set" where
  "requests s c = set (read_queue s c) \<union> set (write_queue s c)"

lemma get_req_in_requests: "get_req s p = Some q \<Longrightarrow> q \<in> requests s (ptr_channel p)"
  by (cases p) (auto simp: requests_def split: if_splits)

end
