(* ===== verification/Activation.thy ===== *)
theory Activation
  imports Mc_State
begin

text \<open>
  The moving window of activates (\<open>record_activate\<close>, \<open>is_T_FAW_met\<close>,
  \<open>flush_activate_record\<close>) and the initial state (\<open>init_memory_controller_vars\<close>), from
  \<open>usimm-v1.3/src/memory_controller.c\<close>.
\<close>

section \<open>The activation record\<close>

definition record_activate :: "int \<Rightarrow> int \<Rightarrow> int \<Rightarrow> mc \<Rightarrow> mc res" where
  "record_activate c r cycle s =
     bindE (assertE (activation_record s c r (cycle smod BIG_ACTIVATION_WINDOW) = 0)
              ''record_activate'')
       (\<lambda>_. Inr (s\<lparr>activation_record :=
          upd3 (activation_record s) c r (cycle smod BIG_ACTIVATION_WINDOW) 1\<rparr>))"

text \<open>The parameter \<open>cycle\<close> is an \<open>int\<close>: the 64-bit clock the callers pass is converted.\<close>

definition is_T_FAW_met :: "params \<Rightarrow> int \<Rightarrow> int \<Rightarrow> int \<Rightarrow> mc \<Rightarrow> bool" where
  "is_T_FAW_met P c r cycle s =
     (let start = c_int cycle;
          number_of_activates =
            (if start \<ge> T_FAW P then
               fold (\<lambda>i n. if activation_record s c r ((start - i) smod BIG_ACTIVATION_WINDOW) = 1
                           then n + 1 else n) [1..T_FAW P] 0
             else
               fold (\<lambda>i n. if activation_record s c r (start - i) smod BIG_ACTIVATION_WINDOW = 1
                           then n + 1 else n) [1..start] (0 :: int))
      in number_of_activates < 4)"

definition flush_activate_record :: "params \<Rightarrow> int \<Rightarrow> int \<Rightarrow> int \<Rightarrow> mc \<Rightarrow> mc" where
  "flush_activate_record P c r cycle s =
     (if cycle \<ge> T_FAW P + PROCESSOR_CLK_MULTIPLIER P then
        fold (\<lambda>i s. s\<lparr>activation_record := upd3 (activation_record s) c r
               ((cycle - T_FAW P - i) smod BIG_ACTIVATION_WINDOW) 0\<rparr>)
          [1..PROCESSOR_CLK_MULTIPLIER P] s
      else s)"

section \<open>Initialisation\<close>

text \<open>Static storage: every global variable of the sources is zero when \<open>main\<close> starts.\<close>

definition zero_bank :: bank_t where
  "zero_bank = \<lparr>state = IDLE, active_row = 0, next_pre = 0, next_act = 0, next_read = 0,
     next_write = 0, next_powerdown = 0, next_powerup = 0, next_refresh = 0\<rparr>"

definition zero_stats :: mc_stats where
  "zero_stats = \<lparr>num_read_merge = 0, num_write_merge = 0,
     stats_reads_merged_per_channel = (\<lambda>_. 0), stats_writes_merged_per_channel = (\<lambda>_. 0),
     stats_reads_seen = (\<lambda>_. 0), stats_writes_seen = (\<lambda>_. 0),
     stats_reads_completed = (\<lambda>_. 0), stats_writes_completed = (\<lambda>_. 0),
     stats_average_read_latency = (\<lambda>_. 0), stats_average_read_queue_latency = (\<lambda>_. 0),
     stats_average_write_latency = (\<lambda>_. 0), stats_average_write_queue_latency = (\<lambda>_. 0),
     stats_page_hits = (\<lambda>_. 0), stats_read_row_hit_rate = (\<lambda>_. 0),
     stats_time_spent_in_active_standby = (\<lambda>_ _. 0),
     stats_time_spent_in_active_power_down = (\<lambda>_ _. 0),
     stats_time_spent_in_precharge_power_down_fast = (\<lambda>_ _. 0),
     stats_time_spent_in_precharge_power_down_slow = (\<lambda>_ _. 0),
     stats_time_spent_in_power_up = (\<lambda>_ _. 0), last_activate = (\<lambda>_ _. 0),
     average_gap_between_activates = (\<lambda>_ _. 0),
     stats_time_spent_terminating_reads_from_other_ranks = (\<lambda>_ _. 0),
     stats_time_spent_terminating_writes_to_other_ranks = (\<lambda>_ _. 0),
     stats_num_activate_read = (\<lambda>_ _ _. 0), stats_num_activate_write = (\<lambda>_ _ _. 0),
     stats_num_activate_spec = (\<lambda>_ _ _. 0), stats_num_activate = (\<lambda>_ _. 0),
     stats_num_precharge = (\<lambda>_ _ _. 0), stats_num_read = (\<lambda>_ _ _. 0),
     stats_num_write = (\<lambda>_ _ _. 0), stats_num_powerdown_slow = (\<lambda>_ _. 0),
     stats_num_powerdown_fast = (\<lambda>_ _. 0), stats_num_powerup = (\<lambda>_ _. 0)\<rparr>"

definition zero_mc :: "robstructure arr1 \<Rightarrow> mc" where
  "zero_mc rob = \<lparr>CYCLE_VAL = 0, dram_state = (\<lambda>_ _ _. zero_bank),
     command_issued_current_cycle = (\<lambda>_. False), cas_issued_current_cycle = (\<lambda>_ _ _. 0),
     read_queue = (\<lambda>_. []), write_queue = (\<lambda>_. []),
     cmd_precharge_issuable = (\<lambda>_ _ _. False), cmd_all_bank_precharge_issuable = (\<lambda>_ _. False),
     cmd_powerdown_fast_issuable = (\<lambda>_ _. False), cmd_powerdown_slow_issuable = (\<lambda>_ _. False),
     cmd_powerup_issuable = (\<lambda>_ _. False), cmd_refresh_issuable = (\<lambda>_ _. False),
     next_refresh_completion_deadline = (\<lambda>_ _. 0), last_refresh_completion_deadline = (\<lambda>_ _. 0),
     forced_refresh_mode_on = (\<lambda>_ _. False), refresh_issue_deadline = (\<lambda>_ _. 0),
     issued_forced_refresh_commands = (\<lambda>_ _. 0), num_issued_refreshes = (\<lambda>_ _. 0),
     read_queue_length = (\<lambda>_. 0), write_queue_length = (\<lambda>_. 0),
     activation_record = (\<lambda>_ _ _. 0), ROB = rob, stats = zero_stats\<rparr>"

text \<open>The initialisation loops assign a constant to every cell they visit.\<close>

definition fill1 :: "int \<Rightarrow> 'a \<Rightarrow> 'a arr1 \<Rightarrow> 'a arr1" where
  "fill1 n v f = (\<lambda>i. if 0 \<le> i \<and> i < n then v else f i)"

definition fill2 :: "int \<Rightarrow> int \<Rightarrow> 'a \<Rightarrow> 'a arr2 \<Rightarrow> 'a arr2" where
  "fill2 n m v f = (\<lambda>i j. if 0 \<le> i \<and> i < n \<and> 0 \<le> j \<and> j < m then v else f i j)"

definition fill3 :: "int \<Rightarrow> int \<Rightarrow> int \<Rightarrow> 'a \<Rightarrow> 'a arr3 \<Rightarrow> 'a arr3" where
  "fill3 n m l v f = (\<lambda>i j k.
     if 0 \<le> i \<and> i < n \<and> 0 \<le> j \<and> j < m \<and> 0 \<le> k \<and> k < l then v else f i j k)"

text \<open>The statistics part of the initialisation.\<close>

definition init_stats :: "params \<Rightarrow> mc_stats \<Rightarrow> mc_stats" where
  "init_stats P t =
     (let C = NUM_CHANNELS P; R = NUM_RANKS P; B = NUM_BANKS P in
      t\<lparr>num_read_merge := 0, num_write_merge := 0,
        stats_num_activate_read := fill3 C R B 0 (stats_num_activate_read t),
        stats_num_activate_write := fill3 C R B 0 (stats_num_activate_write t),
        stats_num_activate_spec := fill3 C R B 0 (stats_num_activate_spec t),
        stats_num_precharge := fill3 C R B 0 (stats_num_precharge t),
        stats_num_read := fill3 C R B 0 (stats_num_read t),
        stats_num_write := fill3 C R B 0 (stats_num_write t),
        stats_time_spent_in_active_power_down :=
          fill2 C R 0 (stats_time_spent_in_active_power_down t),
        stats_time_spent_in_precharge_power_down_slow :=
          fill2 C R 0 (stats_time_spent_in_precharge_power_down_slow t),
        stats_time_spent_in_precharge_power_down_fast :=
          fill2 C R 0 (stats_time_spent_in_precharge_power_down_fast t),
        last_activate := fill2 C R 0 (last_activate t),
        average_gap_between_activates := fill2 C R 0 (average_gap_between_activates t),
        stats_num_powerdown_slow := fill2 C R 0 (stats_num_powerdown_slow t),
        stats_num_powerdown_fast := fill2 C R 0 (stats_num_powerdown_fast t),
        stats_num_powerup := fill2 C R 0 (stats_num_powerup t),
        stats_num_activate := fill2 C R 0 (stats_num_activate t),
        stats_reads_merged_per_channel := fill1 C 0 (stats_reads_merged_per_channel t),
        stats_writes_merged_per_channel := fill1 C 0 (stats_writes_merged_per_channel t),
        stats_reads_seen := fill1 C 0 (stats_reads_seen t),
        stats_writes_seen := fill1 C 0 (stats_writes_seen t),
        stats_reads_completed := fill1 C 0 (stats_reads_completed t),
        stats_writes_completed := fill1 C 0 (stats_writes_completed t),
        stats_average_read_latency := fill1 C 0 (stats_average_read_latency t),
        stats_average_read_queue_latency := fill1 C 0 (stats_average_read_queue_latency t),
        stats_average_write_latency := fill1 C 0 (stats_average_write_latency t),
        stats_average_write_queue_latency := fill1 C 0 (stats_average_write_queue_latency t),
        stats_page_hits := fill1 C 0 (stats_page_hits t),
        stats_read_row_hit_rate := fill1 C 0 (stats_read_row_hit_rate t)\<rparr>)"

text \<open>
  The bank loop writes \<open>state\<close>, \<open>active_row\<close> and, four times over, \<open>next_pre\<close>; the
  other \<open>next_\<close> fields keep their static zero. The deadline is an \<open>int\<close> array.
\<close>

definition init_memory_controller_vars :: "params \<Rightarrow> mc \<Rightarrow> mc" where
  "init_memory_controller_vars P s =
     (let C = NUM_CHANNELS P; R = NUM_RANKS P; B = NUM_BANKS P;
          s = upd_stats (init_stats P) s
      in s\<lparr>activation_record := fill3 C R BIG_ACTIVATION_WINDOW 0 (activation_record s),
           dram_state := (\<lambda>i j k. if 0 \<le> i \<and> i < C \<and> 0 \<le> j \<and> j < R \<and> 0 \<le> k \<and> k < B
             then (dram_state s i j k)\<lparr>state := IDLE, active_row := - 1, next_pre := - 1\<rparr>
             else dram_state s i j k),
           cmd_precharge_issuable := fill3 C R B False (cmd_precharge_issuable s),
           cas_issued_current_cycle := fill3 C R B 0 (cas_issued_current_cycle s),
           cmd_all_bank_precharge_issuable := fill2 C R False (cmd_all_bank_precharge_issuable s),
           cmd_powerdown_fast_issuable := fill2 C R False (cmd_powerdown_fast_issuable s),
           cmd_powerdown_slow_issuable := fill2 C R False (cmd_powerdown_slow_issuable s),
           cmd_powerup_issuable := fill2 C R False (cmd_powerup_issuable s),
           cmd_refresh_issuable := fill2 C R False (cmd_refresh_issuable s),
           next_refresh_completion_deadline :=
             fill2 C R (8 * T_REFI P) (next_refresh_completion_deadline s),
           last_refresh_completion_deadline := fill2 C R 0 (last_refresh_completion_deadline s),
           forced_refresh_mode_on := fill2 C R False (forced_refresh_mode_on s),
           refresh_issue_deadline :=
             fill2 C R (c_int (8 * T_REFI P - T_RP P - 8 * T_RFC P)) (refresh_issue_deadline s),
           num_issued_refreshes := fill2 C R 0 (num_issued_refreshes s),
           read_queue := fill1 C [] (read_queue s),
           write_queue := fill1 C [] (write_queue s),
           read_queue_length := fill1 C 0 (read_queue_length s),
           write_queue_length := fill1 C 0 (write_queue_length s),
           command_issued_current_cycle := fill1 C False (command_issued_current_cycle s)\<rparr>)"

section \<open>What the record operations change\<close>

lemma record_activate_Inr:
  "record_activate c r t s = Inr s' \<longleftrightarrow>
     activation_record s c r (t smod BIG_ACTIVATION_WINDOW) = 0 \<and>
     s' = s\<lparr>activation_record := upd3 (activation_record s) c r (t smod BIG_ACTIVATION_WINDOW) 1\<rparr>"
  by (auto simp: record_activate_def)

lemma flush_eq:
  "flush_activate_record P c r t s =
     s\<lparr>activation_record := activation_record (flush_activate_record P c r t s)\<rparr>"
proof -
  have same: "activation_record_update (\<lambda>_. a) (flush_activate_record P c r t s) =
      activation_record_update (\<lambda>_. a) s" for a
    by (auto simp: flush_activate_record_def intro!: fold_frame)
  have "flush_activate_record P c r t s =
      activation_record_update (\<lambda>_. activation_record (flush_activate_record P c r t s))
        (flush_activate_record P c r t s)" by simp
  then show ?thesis using same by metis
qed

lemma flush_record:
  "activation_record (flush_activate_record P c r t s) c' r' i =
     (if c' = c \<and> r' = r \<and> t \<ge> T_FAW P + PROCESSOR_CLK_MULTIPLIER P \<and>
         (\<exists>j\<in>{1..PROCESSOR_CLK_MULTIPLIER P}. i = (t - T_FAW P - j) smod BIG_ACTIVATION_WINDOW)
      then 0 else activation_record s c' r' i)"
proof -
  define g :: "int \<Rightarrow> mc \<Rightarrow> mc" where
    "g j s = s\<lparr>activation_record := upd3 (activation_record s) c r
       ((t - T_FAW P - j) smod BIG_ACTIVATION_WINDOW) 0\<rparr>" for j s
  have loop: "activation_record (fold g js s) c' r' i =
      (if c' = c \<and> r' = r \<and> (\<exists>j\<in>set js. i = (t - T_FAW P - j) smod BIG_ACTIVATION_WINDOW)
       then 0 else activation_record s c' r' i)" for js s c' r' i
    by (induction js arbitrary: s) (auto simp: g_def)
  have "flush_activate_record P c r t s =
      (if t \<ge> T_FAW P + PROCESSOR_CLK_MULTIPLIER P then fold g [1..PROCESSOR_CLK_MULTIPLIER P] s else s)"
    by (simp add: flush_activate_record_def g_def [abs_def])
  then show ?thesis by (auto simp: loop)
qed

end
