(* ===== verification/Queues.thy ===== *)
theory Queues
  imports Activation
begin

text \<open>
  The read and write queues of \<open>usimm-v1.3/src/memory_controller.c\<close>: new requests
  (\<open>init_new_node\<close>, \<open>insert_read\<close>, \<open>insert_write\<close>), merging
  (\<open>read_matches_write_or_read_queue\<close>, \<open>write_exists_in_write_queue\<close>), the per-cycle
  update of \<open>next_command\<close> and \<open>command_issuable\<close>, and \<open>clean_queues\<close>.
\<close>

section \<open>New requests\<close>

text \<open>\<open>physical_address\<close> is an \<open>unsigned long long\<close> field assigned from a \<open>long long\<close>.\<close>

definition init_new_node ::
  "params \<Rightarrow> int \<Rightarrow> int \<Rightarrow> optype_t \<Rightarrow> int \<Rightarrow> int \<Rightarrow> int \<Rightarrow> request_t" where
  "init_new_node P phys arrival type thread instr pc =
     \<lparr>physical_address = take_bit 64 phys, dram_addr = calc_dram_addr P phys,
      arrival_time = arrival, dispatch_time = - 100, completion_time = - 100, latency = - 100,
      thread_id = thread, next_command = NOP, command_issuable = False, operation_type = type,
      request_served = False, instruction_id = instr, instruction_pc = pc, user_ptr = None\<rparr>"

definition RQ_LOOKUP_LATENCY :: int where "RQ_LOOKUP_LATENCY = 1"

text \<open>The statistics both merge branches update.\<close>

definition count_read_merge :: "int \<Rightarrow> mc_stats \<Rightarrow> mc_stats" where
  "count_read_merge c t =
     t\<lparr>num_read_merge := num_read_merge t + 1,
       stats_reads_merged_per_channel := (stats_reads_merged_per_channel t)
         (c := stats_reads_merged_per_channel t c + 1)\<rparr>"

definition read_matches_write_or_read_queue :: "params \<Rightarrow> int \<Rightarrow> mc \<Rightarrow> mc \<times> int" where
  "read_matches_write_or_read_queue P phys s =
     (let c = channel (calc_dram_addr P phys);
          hit = (\<lambda>q. actual_address (dram_addr q) = phys)
      in if list_ex hit (write_queue s c) then
           (upd_stats (count_read_merge c) s, WQ_LOOKUP_LATENCY P)
         else if list_ex hit (read_queue s c) then
           (upd_stats (count_read_merge c) s, RQ_LOOKUP_LATENCY)
         else (s, 0))"

definition write_exists_in_write_queue :: "params \<Rightarrow> int \<Rightarrow> mc \<Rightarrow> mc \<times> bool" where
  "write_exists_in_write_queue P phys s =
     (let c = channel (calc_dram_addr P phys) in
      if list_ex (\<lambda>q. actual_address (dram_addr q) = phys) (write_queue s c) then
        (upd_stats (\<lambda>t. t\<lparr>num_write_merge := num_write_merge t + 1,
            stats_writes_merged_per_channel := (stats_writes_merged_per_channel t)
              (c := stats_writes_merged_per_channel t c + 1)\<rparr>) s, True)
      else (s, False))"

definition insert_read :: "params \<Rightarrow> int \<Rightarrow> int \<Rightarrow> int \<Rightarrow> int \<Rightarrow> int \<Rightarrow> mc \<Rightarrow> mc" where
  "insert_read P phys arrival thread instr pc s =
     (let c = channel (calc_dram_addr P phys);
          s = upd_stats (\<lambda>t. t\<lparr>stats_reads_seen := (stats_reads_seen t)
                (c := stats_reads_seen t c + 1)\<rparr>) s;
          new_node = init_new_node P phys arrival READ thread instr pc
      in s\<lparr>read_queue := (read_queue s)(c := read_queue s c @ [new_node]),
           read_queue_length := (read_queue_length s)(c := read_queue_length s c + 1)\<rparr>)"

definition insert_write :: "params \<Rightarrow> int \<Rightarrow> int \<Rightarrow> int \<Rightarrow> int \<Rightarrow> mc \<Rightarrow> mc" where
  "insert_write P phys arrival thread instr s =
     (let c = channel (calc_dram_addr P phys);
          s = upd_stats (\<lambda>t. t\<lparr>stats_writes_seen := (stats_writes_seen t)
                (c := stats_writes_seen t c + 1)\<rparr>) s;
          new_node = init_new_node P phys arrival WRITE thread instr 0
      in s\<lparr>write_queue := (write_queue s)(c := write_queue s c @ [new_node]),
           write_queue_length := (write_queue_length s)(c := write_queue_length s c + 1)\<rparr>)"

section \<open>Which command each request needs\<close>

text \<open>
  One iteration of the loop of \<open>update_read_queue_commands\<close>. The local \<open>row\<close> is an \<open>int\<close>.
\<close>

definition update_read_request :: "params \<Rightarrow> mc \<Rightarrow> int \<Rightarrow> request_t \<Rightarrow> request_t" where
  "update_read_request P s c q =
     (if request_served q then q
      else
        let bank = bank (dram_addr q);
            rank = rank (dram_addr q);
            row = c_int (row (dram_addr q));
            b = dram_state s c rank bank;
            cyc = CYCLE_VAL s;
            forced = forced_refresh_mode_on s c rank;
            deadline = refresh_issue_deadline s c rank
        in if state b \<in> {IDLE, PRECHARGING, REFRESHING} then
             q\<lparr>next_command := ACT_CMD,
               command_issuable := cyc \<ge> next_act b \<and> is_T_FAW_met P c rank cyc s \<and>
                 \<not> (forced \<or> cyc + T_RAS P > deadline)\<rparr>
           else if state b = ROW_ACTIVE then
             (if row = active_row b then
                q\<lparr>next_command := COL_READ_CMD,
                  command_issuable := cyc \<ge> next_read b \<and>
                    \<not> (forced \<or> cyc + T_RTP P > deadline)\<rparr>
              else
                q\<lparr>next_command := PRE_CMD,
                  command_issuable := cyc \<ge> next_pre b \<and>
                    \<not> (forced \<or> cyc + T_RP P > deadline)\<rparr>)
           else
             q\<lparr>next_command := PWR_UP_CMD,
               command_issuable := cyc \<ge> next_powerup b \<and>
                 \<not> (state b = PRECHARGE_POWER_DOWN_SLOW \<and> cyc + T_XP_DLL P > deadline) \<and>
                 \<not> (state b \<in> {PRECHARGE_POWER_DOWN_FAST, ACTIVE_POWER_DOWN} \<and>
                    cyc + T_XP P > deadline)\<rparr>)"

definition update_read_queue_commands :: "params \<Rightarrow> int \<Rightarrow> mc \<Rightarrow> mc" where
  "update_read_queue_commands P c s =
     s\<lparr>read_queue := (read_queue s)(c := map (update_read_request P s c) (read_queue s c))\<rparr>"

definition update_write_request :: "params \<Rightarrow> mc \<Rightarrow> int \<Rightarrow> request_t \<Rightarrow> request_t" where
  "update_write_request P s c q =
     (if request_served q then q
      else
        let bank = bank (dram_addr q);
            rank = rank (dram_addr q);
            row = c_int (row (dram_addr q));
            b = dram_state s c rank bank;
            cyc = CYCLE_VAL s;
            forced = forced_refresh_mode_on s c rank;
            deadline = refresh_issue_deadline s c rank
        in if state b \<in> {IDLE, PRECHARGING, REFRESHING} then
             q\<lparr>next_command := ACT_CMD,
               command_issuable := cyc \<ge> next_act b \<and> is_T_FAW_met P c rank cyc s \<and>
                 \<not> (forced \<or> cyc + T_RAS P > deadline)\<rparr>
           else if state b = ROW_ACTIVE then
             (if row = active_row b then
                q\<lparr>next_command := COL_WRITE_CMD,
                  command_issuable := cyc \<ge> next_write b \<and>
                    \<not> (forced \<or> cyc + T_CWD P + T_DATA_TRANS P + T_WR P > deadline)\<rparr>
              else
                q\<lparr>next_command := PRE_CMD,
                  command_issuable := cyc \<ge> next_pre b \<and>
                    \<not> (forced \<or> cyc + T_RP P > deadline)\<rparr>)
           else
             q\<lparr>next_command := PWR_UP_CMD,
               command_issuable := cyc \<ge> next_powerup b \<and> \<not> forced \<and>
                 \<not> (state b = PRECHARGE_POWER_DOWN_SLOW \<and> cyc + T_XP_DLL P > deadline) \<and>
                 \<not> (state b \<in> {PRECHARGE_POWER_DOWN_FAST, ACTIVE_POWER_DOWN} \<and>
                    cyc + T_XP P > deadline)\<rparr>)"

definition update_write_queue_commands :: "params \<Rightarrow> int \<Rightarrow> mc \<Rightarrow> mc" where
  "update_write_queue_commands P c s =
     s\<lparr>write_queue := (write_queue s)(c := map (update_write_request P s c) (write_queue s c))\<rparr>"

section \<open>Removing served requests\<close>

text \<open>
  The two loops of \<open>clean_queues\<close>: the queue that is left and the length counter, or the
  assertion that failed.
\<close>

fun clean_read_queue :: "request_t list \<Rightarrow> int \<Rightarrow> (request_t list \<times> int) res" where
  "clean_read_queue [] len = Inr ([], len)"
| "clean_read_queue (q # qs) len =
     (if request_served q then
        bindE (assertE (next_command q = COL_READ_CMD) ''clean_queues: read next_command'') (\<lambda>_.
        bindE (assertE (completion_time q \<noteq> - 100) ''clean_queues: completion_time'') (\<lambda>_.
        bindE (assertE (len - 1 \<ge> 0) ''clean_queues: read_queue_length'') (\<lambda>_.
        clean_read_queue qs (len - 1))))
      else
        bindE (clean_read_queue qs len) (\<lambda>(qs', len'). Inr (q # qs', len')))"

fun clean_write_queue :: "request_t list \<Rightarrow> int \<Rightarrow> (request_t list \<times> int) res" where
  "clean_write_queue [] len = Inr ([], len)"
| "clean_write_queue (q # qs) len =
     (if request_served q then
        bindE (assertE (next_command q = COL_WRITE_CMD) ''clean_queues: write next_command'') (\<lambda>_.
        bindE (assertE (len - 1 \<ge> 0) ''clean_queues: write_queue_length'') (\<lambda>_.
        clean_write_queue qs (len - 1)))
      else
        bindE (clean_write_queue qs len) (\<lambda>(qs', len'). Inr (q # qs', len')))"

definition clean_queues :: "int \<Rightarrow> mc \<Rightarrow> mc res" where
  "clean_queues c s =
     bindE (clean_read_queue (read_queue s c) (read_queue_length s c)) (\<lambda>(rq, rlen).
     bindE (clean_write_queue (write_queue s c) (write_queue_length s c)) (\<lambda>(wq, wlen).
     Inr (s\<lparr>read_queue := (read_queue s)(c := rq),
            read_queue_length := (read_queue_length s)(c := rlen),
            write_queue := (write_queue s)(c := wq),
            write_queue_length := (write_queue_length s)(c := wlen)\<rparr>)))"

end
