(* ===== verification/Commands.thy ===== *)
theory Commands
  imports Queues
begin

text \<open>
  The controller's interface to the schedulers, from
  \<open>usimm-v1.3/src/memory_controller.c\<close>: the nine \<open>issue_\<close> functions and the eight
  \<open>is_..._allowed\<close> predicates. Each \<open>issue_\<close> function returns the new state and whether
  the command was issued (the C result 1 or 0); those that run into an \<open>assert\<close> return a
  fault. A bank's fields are updated from their own old values only, so the assignments of
  one command are one record update.
\<close>

section \<open>Bank updates shared by the commands\<close>

definition bank_act :: "params \<Rightarrow> int \<Rightarrow> int \<Rightarrow> bank_t \<Rightarrow> bank_t" where
  "bank_act P cycle new_row b =
     b\<lparr>state := ROW_ACTIVE, active_row := new_row,
       next_pre := max (cycle + T_RAS P) (next_pre b),
       next_refresh := max (cycle + T_RAS P) (next_refresh b),
       next_read := max (cycle + T_RCD P) (next_read b),
       next_write := max (cycle + T_RCD P) (next_write b),
       next_act := max (cycle + T_RC P) (next_act b),
       next_powerdown := max (cycle + T_RCD P) (next_powerdown b)\<rparr>"

definition bank_pre :: "int \<Rightarrow> bank_t \<Rightarrow> bank_t" where
  "bank_pre till b =
     b\<lparr>state := PRECHARGING, active_row := - 1,
       next_act := max till (next_act b),
       next_powerdown := max till (next_powerdown b),
       next_pre := max till (next_pre b),
       next_refresh := max till (next_refresh b)\<rparr>"

text \<open>
  The body of the power-up loop. The state is overwritten before the second test reads it, so
  the \<open>T_XP_DLL\<close> branch is never taken.
\<close>

definition bank_power_up :: "params \<Rightarrow> int \<Rightarrow> bank_t \<Rightarrow> bank_t" where
  "bank_power_up P cycle b0 =
     (let b = (if state b0 = PRECHARGE_POWER_DOWN_SLOW \<or> state b0 = PRECHARGE_POWER_DOWN_FAST
               then b0\<lparr>state := IDLE, active_row := - 1\<rparr>
               else b0\<lparr>state := ROW_ACTIVE\<rparr>);
          d = (if state b = PRECHARGE_POWER_DOWN_SLOW then T_XP_DLL P else T_XP P)
      in b\<lparr>next_powerdown := max (cycle + d) (next_powerdown b),
           next_pre := max (cycle + d) (next_pre b),
           next_read := max (cycle + d) (next_read b),
           next_write := max (cycle + d) (next_write b),
           next_act := max (cycle + d) (next_act b),
           next_refresh := max (cycle + d) (next_refresh b)\<rparr>)"

text \<open>The loops of \<open>issue_refresh_command\<close>: the delay differs per branch.\<close>

definition bank_refresh_delay :: "int \<Rightarrow> bank_t \<Rightarrow> bank_t" where
  "bank_refresh_delay till b =
     b\<lparr>next_act := max till (next_act b),
       next_pre := max till (next_pre b),
       next_refresh := max till (next_refresh b),
       next_powerdown := max till (next_powerdown b)\<rparr>"

definition issued :: "int \<Rightarrow> mc \<Rightarrow> mc" where
  "issued c s = s\<lparr>command_issued_current_cycle := (command_issued_current_cycle s)(c := True)\<rparr>"

text \<open>The statistics of an activate, after its per-kind counter.\<close>

definition count_activate :: "int \<Rightarrow> int \<Rightarrow> int \<Rightarrow> mc_stats \<Rightarrow> mc_stats" where
  "count_activate c r cycle t =
     (let n = stats_num_activate t c r + 1 in
      t\<lparr>stats_num_activate := upd2 (stats_num_activate t) c r n,
        average_gap_between_activates := upd2 (average_gap_between_activates t) c r
          ((average_gap_between_activates t c r * of_int (n - 1) +
            of_int (cycle - last_activate t c r)) / of_int n),
        last_activate := upd2 (last_activate t) c r cycle\<rparr>)"

section \<open>issue_request_command, by command\<close>

definition issue_ACT :: "params \<Rightarrow> request_t \<Rightarrow> mc \<Rightarrow> mc res" where
  "issue_ACT P request s =
     (let cycle = CYCLE_VAL s;
          c = channel (dram_addr request); r = rank (dram_addr request);
          b = bank (dram_addr request); row = row (dram_addr request)
      in bindE (assertE (state (dram_state s c r b) \<in> {PRECHARGING, IDLE, REFRESHING}) ''ACT'') (\<lambda>_.
         let s = upd_bank c r b (bank_act P cycle row) s;
             s = upd_banks P c r (\<lambda>i k. if i \<noteq> b
                   then k\<lparr>next_act := max (cycle + T_RRD P) (next_act k)\<rparr> else k) s
         in bindE (record_activate c r cycle s) (\<lambda>s.
            let s = upd_stats (\<lambda>t. if operation_type request = READ
                      then t\<lparr>stats_num_activate_read := upd3 (stats_num_activate_read t) c r b
                             (stats_num_activate_read t c r b + 1)\<rparr>
                      else t\<lparr>stats_num_activate_write := upd3 (stats_num_activate_write t) c r b
                             (stats_num_activate_write t c r b + 1)\<rparr>) s;
                s = upd_stats (count_activate c r (CYCLE_VAL s)) s
            in Inr (issued c s))))"

text \<open>The read of a row: the request is served and the reorder buffer gets its completion time.\<close>

definition serve :: "int \<Rightarrow> int \<Rightarrow> request_t \<Rightarrow> request_t" where
  "serve now completion q =
     q\<lparr>completion_time := completion, latency := completion - arrival_time q,
       dispatch_time := now, request_served := True\<rparr>"

definition running_mean :: "int \<Rightarrow> rat \<Rightarrow> int \<Rightarrow> rat" where
  "running_mean n mean x = (of_int (n - 1) * mean + of_int x) / of_int n"

definition issue_COL_READ :: "params \<Rightarrow> req_ptr \<Rightarrow> request_t \<Rightarrow> mc \<Rightarrow> mc res" where
  "issue_COL_READ P p request s =
     (let cycle = CYCLE_VAL s;
          c = channel (dram_addr request); r = rank (dram_addr request); b = bank (dram_addr request)
      in bindE (assertE (state (dram_state s c r b) = ROW_ACTIVE) ''COL_READ'') (\<lambda>_.
         let s = upd_bank c r b (\<lambda>k. k\<lparr>
                   next_pre := max (cycle + T_RTP P) (next_pre k),
                   next_refresh := max (cycle + T_RTP P) (next_refresh k),
                   next_powerdown := max (cycle + T_RTP P) (next_powerdown k)\<rparr>) s;
             s = upd_channel P c (\<lambda>i j k. k\<lparr>
                   next_read :=
                     (if i \<noteq> r then max (cycle + T_DATA_TRANS P + T_RTRS P) (next_read k)
                      else max (cycle + max (T_CCD P) (T_DATA_TRANS P)) (next_read k)),
                   next_write := max (cycle + T_CAS P + T_DATA_TRANS P + T_RTRS P - T_CWD P)
                     (next_write k)\<rparr>) s;
             completion = CYCLE_VAL s + T_CAS P + T_DATA_TRANS P;
             request = serve (CYCLE_VAL s) completion request;
             s = upd_req p (serve (CYCLE_VAL s) completion) s;
             t = thread_id request;
             s = s\<lparr>ROB := (ROB s)(t := (ROB s t)\<lparr>comptime := (comptime (ROB s t))
                   (instruction_id request := completion_time request + PIPELINEDEPTH P)\<rparr>)\<rparr>;
             s = upd_stats (\<lambda>t. let n = stats_reads_completed t c + 1 in
                   t\<lparr>stats_reads_completed := (stats_reads_completed t)(c := n),
                     stats_average_read_latency := (stats_average_read_latency t)
                       (c := running_mean n (stats_average_read_latency t c) (latency request)),
                     stats_average_read_queue_latency := (stats_average_read_queue_latency t)
                       (c := running_mean n (stats_average_read_queue_latency t c)
                          (dispatch_time request - arrival_time request)),
                     stats_num_read := upd3 (stats_num_read t) c r b (stats_num_read t c r b + 1),
                     stats_time_spent_terminating_reads_from_other_ranks :=
                       fold (\<lambda>i f. if i \<noteq> r then upd2 f c i (f c i + T_DATA_TRANS P) else f)
                         (below (NUM_RANKS P))
                         (stats_time_spent_terminating_reads_from_other_ranks t)\<rparr>) s;
             s = issued c s
         in Inr (s\<lparr>cas_issued_current_cycle := upd3 (cas_issued_current_cycle s) c r b 1\<rparr>)))"

definition issue_COL_WRITE :: "params \<Rightarrow> req_ptr \<Rightarrow> request_t \<Rightarrow> mc \<Rightarrow> mc res" where
  "issue_COL_WRITE P p request s =
     (let cycle = CYCLE_VAL s;
          c = channel (dram_addr request); r = rank (dram_addr request); b = bank (dram_addr request)
      in bindE (assertE (state (dram_state s c r b) = ROW_ACTIVE) ''COL_WRITE'') (\<lambda>_.
         let s = upd_bank c r b (\<lambda>k. k\<lparr>
                   next_pre := max (cycle + T_CWD P + T_DATA_TRANS P + T_WR P) (next_pre k),
                   next_refresh := max (cycle + T_CWD P + T_DATA_TRANS P + T_WR P) (next_refresh k),
                   next_powerdown := max (cycle + T_CWD P + T_DATA_TRANS P + T_WR P)
                     (next_powerdown k)\<rparr>) s;
             s = upd_channel P c (\<lambda>i j k. if i \<noteq> r
                   then k\<lparr>next_write := max (cycle + T_DATA_TRANS P + T_RTRS P) (next_write k),
                          next_read := max (cycle + T_CWD P + T_DATA_TRANS P + T_RTRS P - T_CAS P)
                            (next_read k)\<rparr>
                   else k\<lparr>next_write := max (cycle + max (T_CCD P) (T_DATA_TRANS P)) (next_write k),
                          next_read := max (cycle + T_CWD P + T_DATA_TRANS P + T_WTR P)
                            (next_read k)\<rparr>) s;
             completion = CYCLE_VAL s + T_DATA_TRANS P + T_WR P;
             request = serve (CYCLE_VAL s) completion request;
             s = upd_req p (serve (CYCLE_VAL s) completion) s;
             s = upd_stats (\<lambda>t. let n = stats_writes_completed t c + 1 in
                   t\<lparr>stats_writes_completed := (stats_writes_completed t)(c := n),
                     stats_num_write := upd3 (stats_num_write t) c r b (stats_num_write t c r b + 1),
                     stats_average_write_latency := (stats_average_write_latency t)
                       (c := running_mean n (stats_average_write_latency t c) (latency request)),
                     stats_average_write_queue_latency := (stats_average_write_queue_latency t)
                       (c := running_mean n (stats_average_write_queue_latency t c)
                          (dispatch_time request - arrival_time request)),
                     stats_time_spent_terminating_writes_to_other_ranks :=
                       fold (\<lambda>i f. if i \<noteq> r then upd2 f c i (f c i + T_DATA_TRANS P) else f)
                         (below (NUM_RANKS P))
                         (stats_time_spent_terminating_writes_to_other_ranks t)\<rparr>) s;
             s = issued c s
         in Inr (s\<lparr>cas_issued_current_cycle := upd3 (cas_issued_current_cycle s) c r b 2\<rparr>)))"

definition count_precharge :: "int \<Rightarrow> int \<Rightarrow> int \<Rightarrow> mc_stats \<Rightarrow> mc_stats" where
  "count_precharge c r b t =
     t\<lparr>stats_num_precharge := upd3 (stats_num_precharge t) c r b (stats_num_precharge t c r b + 1)\<rparr>"

definition issue_PRE :: "params \<Rightarrow> request_t \<Rightarrow> mc \<Rightarrow> mc res" where
  "issue_PRE P request s =
     (let cycle = CYCLE_VAL s;
          c = channel (dram_addr request); r = rank (dram_addr request); b = bank (dram_addr request)
      in bindE (assertE (state (dram_state s c r b) \<in> {ROW_ACTIVE, PRECHARGING, IDLE, REFRESHING})
                  ''PRE'') (\<lambda>_.
         let s = upd_bank c r b (bank_pre (cycle + T_RP P)) s;
             s = upd_stats (count_precharge c r b) s
         in Inr (issued c s)))"

definition issue_PWR_UP :: "params \<Rightarrow> request_t \<Rightarrow> mc \<Rightarrow> mc res" where
  "issue_PWR_UP P request s =
     (let cycle = CYCLE_VAL s;
          c = channel (dram_addr request); r = rank (dram_addr request); b = bank (dram_addr request)
      in bindE (assertE (state (dram_state s c r b) \<in>
                  {PRECHARGE_POWER_DOWN_SLOW, PRECHARGE_POWER_DOWN_FAST, ACTIVE_POWER_DOWN})
                  ''PWR_UP'') (\<lambda>_.
         let s = upd_banks P c r (\<lambda>_. bank_power_up P cycle) s;
             s = upd_stats (\<lambda>t. t\<lparr>stats_num_powerup := upd2 (stats_num_powerup t) c r
                   (stats_num_powerup t c r + 1)\<rparr>) s
         in Inr (issued c s)))"

definition issue_request_command :: "params \<Rightarrow> req_ptr \<Rightarrow> mc \<Rightarrow> (mc \<times> bool) res" where
  "issue_request_command P p s =
     (case get_req s p of
        None \<Rightarrow> Inl Invalid_pointer
      | Some request \<Rightarrow>
          if \<not> command_issuable request \<or>
             command_issued_current_cycle s (channel (dram_addr request))
          then Inr (s, False)
          else
            bindE
              (case next_command request of
                 ACT_CMD \<Rightarrow> issue_ACT P request s
               | COL_READ_CMD \<Rightarrow> issue_COL_READ P p request s
               | COL_WRITE_CMD \<Rightarrow> issue_COL_WRITE P p request s
               | PRE_CMD \<Rightarrow> issue_PRE P request s
               | PWR_UP_CMD \<Rightarrow> issue_PWR_UP P request s
               | _ \<Rightarrow> Inr s)
              (\<lambda>s'. Inr (s', True)))"

section \<open>Which commands are allowed\<close>

text \<open>
  A loop that sets \<open>flag\<close> for every bank that passes a test and returns 0 at the first that
  fails; with no bank the flag stays 0.
\<close>

definition all_banks :: "params \<Rightarrow> (int \<Rightarrow> bool) \<Rightarrow> bool" where
  "all_banks P test \<longleftrightarrow> below (NUM_BANKS P) \<noteq> [] \<and> list_all test (below (NUM_BANKS P))"

definition is_powerdown_fast_allowed :: "params \<Rightarrow> int \<Rightarrow> int \<Rightarrow> mc \<Rightarrow> bool" where
  "is_powerdown_fast_allowed P c r s =
     (if command_issued_current_cycle s c \<or> forced_refresh_mode_on s c r \<or>
         CYCLE_VAL s + T_PD_MIN P + T_XP P > refresh_issue_deadline s c r
      then False
      else all_banks P (\<lambda>i.
        state (dram_state s c r i) \<in> {PRECHARGING, ROW_ACTIVE, IDLE, REFRESHING} \<and>
        CYCLE_VAL s \<ge> next_powerdown (dram_state s c r i)))"

definition is_powerdown_slow_allowed :: "params \<Rightarrow> int \<Rightarrow> int \<Rightarrow> mc \<Rightarrow> bool" where
  "is_powerdown_slow_allowed P c r s =
     (if command_issued_current_cycle s c \<or> forced_refresh_mode_on s c r \<or>
         CYCLE_VAL s + T_PD_MIN P + T_XP_DLL P > refresh_issue_deadline s c r
      then False
      else all_banks P (\<lambda>i.
        state (dram_state s c r i) \<noteq> ROW_ACTIVE \<and>
        state (dram_state s c r i) \<in> {PRECHARGING, IDLE, REFRESHING} \<and>
        CYCLE_VAL s \<ge> next_powerdown (dram_state s c r i)))"

text \<open>The refresh deadline consulted is that of rank 0, whichever rank is powered up.\<close>

definition is_powerup_allowed :: "params \<Rightarrow> int \<Rightarrow> int \<Rightarrow> mc \<Rightarrow> bool" where
  "is_powerup_allowed P c r s =
     (if command_issued_current_cycle s c \<or> forced_refresh_mode_on s c r then False
      else
        let b = dram_state s c r 0 in
        if state b \<in> {PRECHARGE_POWER_DOWN_SLOW, PRECHARGE_POWER_DOWN_FAST, ACTIVE_POWER_DOWN} \<and>
           CYCLE_VAL s \<ge> next_powerup b
        then
          (if state b = PRECHARGE_POWER_DOWN_SLOW \<and>
              CYCLE_VAL s + T_XP_DLL P > refresh_issue_deadline s c 0
           then False
           else if state b \<in> {PRECHARGE_POWER_DOWN_FAST, ACTIVE_POWER_DOWN} \<and>
              CYCLE_VAL s + T_XP P > refresh_issue_deadline s c 0
           then False
           else True)
        else False)"

definition is_activate_allowed :: "params \<Rightarrow> int \<Rightarrow> int \<Rightarrow> int \<Rightarrow> mc \<Rightarrow> bool" where
  "is_activate_allowed P c r b s =
     (if command_issued_current_cycle s c \<or> forced_refresh_mode_on s c r \<or>
         CYCLE_VAL s + T_RAS P > refresh_issue_deadline s c r
      then False
      else state (dram_state s c r b) \<in> {IDLE, PRECHARGING, REFRESHING} \<and>
        CYCLE_VAL s \<ge> next_act (dram_state s c r b) \<and>
        is_T_FAW_met P c r (CYCLE_VAL s) s)"

text \<open>When an auto-precharge of the bank would start, as both auto-precharge functions compute it.\<close>

definition start_precharge :: "params \<Rightarrow> int \<Rightarrow> int \<Rightarrow> int \<Rightarrow> mc \<Rightarrow> int" where
  "start_precharge P c r b s =
     (if cas_issued_current_cycle s c r b = 1
      then max (CYCLE_VAL s + T_RTP P) (next_pre (dram_state s c r b))
      else max (CYCLE_VAL s + T_CWD P + T_DATA_TRANS P + T_WR P) (next_pre (dram_state s c r b)))"

definition is_autoprecharge_allowed :: "params \<Rightarrow> int \<Rightarrow> int \<Rightarrow> int \<Rightarrow> mc \<Rightarrow> bool" where
  "is_autoprecharge_allowed P c r b s =
     ((cas_issued_current_cycle s c r b = 1 \<and>
       start_precharge P c r b s + T_RP P \<le> refresh_issue_deadline s c r) \<or>
      (cas_issued_current_cycle s c r b = 2 \<and>
       start_precharge P c r b s + T_RP P \<le> refresh_issue_deadline s c r))"

definition is_precharge_allowed :: "params \<Rightarrow> int \<Rightarrow> int \<Rightarrow> int \<Rightarrow> mc \<Rightarrow> bool" where
  "is_precharge_allowed P c r b s =
     (if command_issued_current_cycle s c \<or> forced_refresh_mode_on s c r \<or>
         CYCLE_VAL s + T_RP P > refresh_issue_deadline s c r
      then False
      else state (dram_state s c r b) \<in> {ROW_ACTIVE, IDLE, PRECHARGING, REFRESHING} \<and>
        CYCLE_VAL s \<ge> next_pre (dram_state s c r b))"

definition is_all_bank_precharge_allowed :: "params \<Rightarrow> int \<Rightarrow> int \<Rightarrow> mc \<Rightarrow> bool" where
  "is_all_bank_precharge_allowed P c r s =
     (if command_issued_current_cycle s c \<or> forced_refresh_mode_on s c r \<or>
         CYCLE_VAL s + T_RP P > refresh_issue_deadline s c r
      then False
      else all_banks P (\<lambda>i.
        state (dram_state s c r i) \<in> {ROW_ACTIVE, IDLE, PRECHARGING, REFRESHING} \<and>
        CYCLE_VAL s \<ge> next_pre (dram_state s c r i)))"

definition is_refresh_allowed :: "params \<Rightarrow> int \<Rightarrow> int \<Rightarrow> mc \<Rightarrow> bool" where
  "is_refresh_allowed P c r s =
     (if command_issued_current_cycle s c \<or> forced_refresh_mode_on s c r then False
      else list_all (\<lambda>b. \<not> CYCLE_VAL s < next_refresh (dram_state s c r b)) (below (NUM_BANKS P)))"

section \<open>Rank and bank commands\<close>

text \<open>
  The bank part of the power-down loop; \<open>next_powerup\<close> is computed from \<open>next_powerdown\<close>.
\<close>

definition bank_power_down :: "params \<Rightarrow> int \<Rightarrow> command_t \<Rightarrow> bank_t \<Rightarrow> bank_t" where
  "bank_power_down P cycle cmd b0 =
     (let b = b0\<lparr>next_powerup := max (cycle + T_PD_MIN P) (next_powerdown b0),
                 next_refresh := max (cycle + T_PD_MIN P) (next_refresh b0)\<rparr>
      in if state b \<in> {IDLE, PRECHARGING, REFRESHING} then
           (if cmd = PWR_DN_SLOW_CMD then b\<lparr>state := PRECHARGE_POWER_DOWN_SLOW\<rparr>
            else if cmd = PWR_DN_FAST_CMD then b\<lparr>state := PRECHARGE_POWER_DOWN_FAST\<rparr>
            else b)\<lparr>active_row := - 1\<rparr>
         else if state b = ROW_ACTIVE then b\<lparr>state := ACTIVE_POWER_DOWN\<rparr>
         else b)"

definition count_powerdown :: "int \<Rightarrow> int \<Rightarrow> command_t \<Rightarrow> mc_stats \<Rightarrow> mc_stats" where
  "count_powerdown c r cmd t =
     (if cmd = PWR_DN_SLOW_CMD then
        t\<lparr>stats_num_powerdown_slow := upd2 (stats_num_powerdown_slow t) c r
            (stats_num_powerdown_slow t c r + 1)\<rparr>
      else if cmd = PWR_DN_FAST_CMD then
        t\<lparr>stats_num_powerdown_fast := upd2 (stats_num_powerdown_fast t) c r
            (stats_num_powerdown_fast t c r + 1)\<rparr>
      else t)"

definition powerdown_iteration :: "params \<Rightarrow> int \<Rightarrow> int \<Rightarrow> command_t \<Rightarrow> int \<Rightarrow> mc \<Rightarrow> mc" where
  "powerdown_iteration P c r cmd i s =
     (let s' = upd_bank c r i (bank_power_down P (CYCLE_VAL s) cmd) s
      in if state (dram_state s c r i) \<in> {IDLE, PRECHARGING, REFRESHING}
         then upd_stats (count_powerdown c r cmd) s' else s')"

definition issue_powerdown_command :: "params \<Rightarrow> int \<Rightarrow> int \<Rightarrow> command_t \<Rightarrow> mc \<Rightarrow> mc \<times> bool" where
  "issue_powerdown_command P c r cmd s =
     (if command_issued_current_cycle s c then (s, False)
      else if cmd \<noteq> PWR_DN_FAST_CMD \<and> cmd \<noteq> PWR_DN_SLOW_CMD then (s, False)
      else if cmd = PWR_DN_FAST_CMD \<and> \<not> is_powerdown_fast_allowed P c r s \<or>
              cmd = PWR_DN_SLOW_CMD \<and> \<not> is_powerdown_slow_allowed P c r s then (s, False)
      else (issued c (fold (powerdown_iteration P c r cmd) (below (NUM_BANKS P)) s), True))"

definition issue_powerup_command :: "params \<Rightarrow> int \<Rightarrow> int \<Rightarrow> mc \<Rightarrow> mc \<times> bool" where
  "issue_powerup_command P c r s =
     (if \<not> is_powerup_allowed P c r s then (s, False)
      else (issued c (upd_banks P c r (\<lambda>_. bank_power_up P (CYCLE_VAL s)) s), True))"

definition issue_autoprecharge :: "params \<Rightarrow> int \<Rightarrow> int \<Rightarrow> int \<Rightarrow> mc \<Rightarrow> mc \<times> bool" where
  "issue_autoprecharge P c r b s =
     (if \<not> is_autoprecharge_allowed P c r b s then (s, False)
      else
        let start = start_precharge P c r b s;
            s = upd_bank c r b (bank_pre (start + T_RP P)) s;
            s = upd_stats (count_precharge c r b) s
        in (s\<lparr>cas_issued_current_cycle :=
              fold (\<lambda>r f. fold (\<lambda>b f. upd3 f c r b 0) (below (NUM_BANKS P)) f)
                (below (NUM_RANKS P)) (cas_issued_current_cycle s)\<rparr>, True))"

definition issue_activate_command :: "params \<Rightarrow> int \<Rightarrow> int \<Rightarrow> int \<Rightarrow> int \<Rightarrow> mc \<Rightarrow> (mc \<times> bool) res" where
  "issue_activate_command P c r b new_row s =
     (if \<not> is_activate_allowed P c r b s then Inr (s, False)
      else
        let cycle = CYCLE_VAL s;
            s = upd_bank c r b (bank_act P cycle new_row) s;
            s = upd_banks P c r (\<lambda>i k. if i \<noteq> b
                  then k\<lparr>next_act := max (cycle + T_RRD P) (next_act k)\<rparr> else k) s
        in bindE (record_activate c r cycle s) (\<lambda>s.
           let s = upd_stats (\<lambda>t.
                 let n = stats_num_activate t c r + 1 in
                 t\<lparr>stats_num_activate := upd2 (stats_num_activate t) c r n,
                   stats_num_activate_spec := upd3 (stats_num_activate_spec t) c r b
                     (stats_num_activate_spec t c r b + 1),
                   average_gap_between_activates := upd2 (average_gap_between_activates t) c r
                     ((average_gap_between_activates t c r * of_int (n - 1) +
                       of_int (CYCLE_VAL s - last_activate t c r)) / of_int n),
                   last_activate := upd2 (last_activate t) c r (CYCLE_VAL s)\<rparr>) s
           in Inr (issued c s, True)))"

definition issue_precharge_command :: "params \<Rightarrow> int \<Rightarrow> int \<Rightarrow> int \<Rightarrow> mc \<Rightarrow> mc \<times> bool" where
  "issue_precharge_command P c r b s =
     (if \<not> is_precharge_allowed P c r b s then (s, False)
      else
        let s = upd_bank c r b (bank_pre (CYCLE_VAL s + T_RP P)) s;
            s = upd_stats (count_precharge c r b) s
        in (issued c s, True))"

text \<open>Each iteration clears the flag \<open>issue_precharge_command\<close> has just set.\<close>

definition all_bank_precharge_iteration :: "params \<Rightarrow> int \<Rightarrow> int \<Rightarrow> int \<Rightarrow> mc \<Rightarrow> mc" where
  "all_bank_precharge_iteration P c r i s =
     (let s = fst (issue_precharge_command P c r i s)
      in s\<lparr>command_issued_current_cycle := (command_issued_current_cycle s)(c := False)\<rparr>)"

definition issue_all_bank_precharge_command :: "params \<Rightarrow> int \<Rightarrow> int \<Rightarrow> mc \<Rightarrow> mc \<times> bool" where
  "issue_all_bank_precharge_command P c r s =
     (if \<not> is_all_bank_precharge_allowed P c r s then (s, False)
      else (issued c (fold (all_bank_precharge_iteration P c r) (below (NUM_BANKS P)) s), True))"

text \<open>How long the rank is busy, counted from the command: by the state of bank 0 and of the rank.\<close>

definition refresh_delay :: "params \<Rightarrow> int \<Rightarrow> int \<Rightarrow> mc \<Rightarrow> int" where
  "refresh_delay P c r s =
     (if state (dram_state s c r 0) = PRECHARGE_POWER_DOWN_SLOW then T_XP_DLL P + T_RFC P
      else if state (dram_state s c r 0) = PRECHARGE_POWER_DOWN_FAST then T_XP P + T_RFC P
      else if state (dram_state s c r 0) = ACTIVE_POWER_DOWN then T_XP P + T_RP P + T_RFC P
      else if list_ex (\<lambda>b. state (dram_state s c r b) = ROW_ACTIVE) (below (NUM_BANKS P))
      then T_RP P + T_RFC P
      else T_RFC P)"

definition issue_refresh_command :: "params \<Rightarrow> int \<Rightarrow> int \<Rightarrow> mc \<Rightarrow> mc \<times> bool" where
  "issue_refresh_command P c r s =
     (if \<not> is_refresh_allowed P c r s then (s, False)
      else
        let s = s\<lparr>num_issued_refreshes :=
                  upd2 (num_issued_refreshes s) c r (num_issued_refreshes s c r + 1)\<rparr>;
            cycle = CYCLE_VAL s;
            s = upd_banks P c r (\<lambda>_. bank_refresh_delay (cycle + refresh_delay P c r s)) s;
            s = upd_banks P c r (\<lambda>_ b. b\<lparr>active_row := - 1, state := REFRESHING\<rparr>) s
        in (issued c s, True))"

end
