(* ===== verification/Memory_Cycle.thy ===== *)
theory Memory_Cycle
  imports Commands
begin

text \<open>
  What happens in every memory cycle before and after the scheduler runs, from
  \<open>usimm-v1.3/src/memory_controller.c\<close>: \<open>update_memory\<close> with the refresh state machine
  (\<open>issue_forced_refresh_commands\<close>) and \<open>update_issuable_commands\<close>, and the time
  accounting of \<open>gather_stats\<close>.
\<close>

definition issue_forced_refresh_commands :: "params \<Rightarrow> int \<Rightarrow> int \<Rightarrow> mc \<Rightarrow> mc" where
  "issue_forced_refresh_commands P c r s =
     (let deadline = next_refresh_completion_deadline s c r in
      upd_banks P c r (\<lambda>_ b. b\<lparr>state := REFRESHING, active_row := - 1,
        next_act := deadline, next_pre := deadline, next_refresh := deadline,
        next_powerdown := deadline\<rparr>) s)"

text \<open>One rank of \<open>gather_stats\<close>: the state of bank 0 tells whether the rank is powered down.\<close>

definition gather_rank_stats :: "params \<Rightarrow> int \<Rightarrow> mc \<Rightarrow> int \<Rightarrow> mc_stats \<Rightarrow> mc_stats" where
  "gather_rank_stats P c s i t =
     (let d = PROCESSOR_CLK_MULTIPLIER P in
      if state (dram_state s c i 0) = PRECHARGE_POWER_DOWN_SLOW then
        t\<lparr>stats_time_spent_in_precharge_power_down_slow :=
            upd2 (stats_time_spent_in_precharge_power_down_slow t) c i
              (stats_time_spent_in_precharge_power_down_slow t c i + d)\<rparr>
      else if state (dram_state s c i 0) = PRECHARGE_POWER_DOWN_FAST then
        t\<lparr>stats_time_spent_in_precharge_power_down_fast :=
            upd2 (stats_time_spent_in_precharge_power_down_fast t) c i
              (stats_time_spent_in_precharge_power_down_fast t c i + d)\<rparr>
      else if state (dram_state s c i 0) = ACTIVE_POWER_DOWN then
        t\<lparr>stats_time_spent_in_active_power_down :=
            upd2 (stats_time_spent_in_active_power_down t) c i
              (stats_time_spent_in_active_power_down t c i + d)\<rparr>
      else
        (let t' = (if list_ex (\<lambda>b. state (dram_state s c i b) = ROW_ACTIVE) (below (NUM_BANKS P))
                   then t\<lparr>stats_time_spent_in_active_standby :=
                          upd2 (stats_time_spent_in_active_standby t) c i
                            (stats_time_spent_in_active_standby t c i + d)\<rparr>
                   else t)
         in t'\<lparr>stats_time_spent_in_power_up := upd2 (stats_time_spent_in_power_up t') c i
              (stats_time_spent_in_power_up t' c i + d)\<rparr>))"

definition gather_stats :: "params \<Rightarrow> int \<Rightarrow> mc \<Rightarrow> mc" where
  "gather_stats P c s = upd_stats (fold (gather_rank_stats P c s) (below (NUM_RANKS P))) s"

text \<open>The table of commands a scheduler may consult: one rank of \<open>update_issuable_commands\<close>.\<close>

definition update_issuable_rank :: "params \<Rightarrow> int \<Rightarrow> int \<Rightarrow> mc \<Rightarrow> mc" where
  "update_issuable_rank P c r s =
     (let s = s\<lparr>cmd_precharge_issuable := fold (\<lambda>b f. upd3 f c r b (is_precharge_allowed P c r b s))
                (below (NUM_BANKS P)) (cmd_precharge_issuable s)\<rparr>;
          s = s\<lparr>cmd_all_bank_precharge_issuable := upd2 (cmd_all_bank_precharge_issuable s) c r
                (is_all_bank_precharge_allowed P c r s)\<rparr>;
          s = s\<lparr>cmd_powerdown_fast_issuable := upd2 (cmd_powerdown_fast_issuable s) c r
                (is_powerdown_fast_allowed P c r s)\<rparr>;
          s = s\<lparr>cmd_powerdown_slow_issuable := upd2 (cmd_powerdown_slow_issuable s) c r
                (is_powerdown_slow_allowed P c r s)\<rparr>;
          s = s\<lparr>cmd_refresh_issuable := upd2 (cmd_refresh_issuable s) c r
                (is_refresh_allowed P c r s)\<rparr>
      in s\<lparr>cmd_powerup_issuable := upd2 (cmd_powerup_issuable s) c r (is_powerup_allowed P c r s)\<rparr>)"

definition update_issuable_commands :: "params \<Rightarrow> int \<Rightarrow> mc \<Rightarrow> mc" where
  "update_issuable_commands P c s = fold (update_issuable_rank P c) (below (NUM_RANKS P)) s"

text \<open>
  The three branches of the refresh logic for one rank. \<open>refresh_issue_deadline\<close> is an \<open>int\<close>
  array: the 64-bit deadline is converted when it is stored.
\<close>

definition update_refresh :: "params \<Rightarrow> int \<Rightarrow> int \<Rightarrow> mc \<Rightarrow> mc" where
  "update_refresh P c r s =
     (if CYCLE_VAL s = next_refresh_completion_deadline s c r then
        let next = CYCLE_VAL s + 8 * T_REFI P in
        s\<lparr>num_issued_refreshes := upd2 (num_issued_refreshes s) c r 0,
          last_refresh_completion_deadline :=
            upd2 (last_refresh_completion_deadline s) c r (CYCLE_VAL s),
          next_refresh_completion_deadline := upd2 (next_refresh_completion_deadline s) c r next,
          refresh_issue_deadline := upd2 (refresh_issue_deadline s) c r
            (c_int (next - T_RP P - 8 * T_RFC P)),
          forced_refresh_mode_on := upd2 (forced_refresh_mode_on s) c r False,
          issued_forced_refresh_commands := upd2 (issued_forced_refresh_commands s) c r 0\<rparr>
      else if CYCLE_VAL s = refresh_issue_deadline s c r \<and> num_issued_refreshes s c r < 8 then
        issue_forced_refresh_commands P c r
          (s\<lparr>forced_refresh_mode_on := upd2 (forced_refresh_mode_on s) c r True\<rparr>)
      else if CYCLE_VAL s < refresh_issue_deadline s c r then
        s\<lparr>refresh_issue_deadline := upd2 (refresh_issue_deadline s) c r
            (c_int (next_refresh_completion_deadline s c r - T_RP P -
               (8 - num_issued_refreshes s c r) * T_RFC P))\<rparr>
      else s)"

definition update_rank :: "params \<Rightarrow> int \<Rightarrow> int \<Rightarrow> mc \<Rightarrow> mc" where
  "update_rank P c r s =
     (let s = s\<lparr>cas_issued_current_cycle :=
                fold (\<lambda>b f. upd3 f c r b 0) (below (NUM_BANKS P)) (cas_issued_current_cycle s)\<rparr>;
          s = flush_activate_record P c r (CYCLE_VAL s) s
      in update_refresh P c r s)"

definition update_memory_channel :: "params \<Rightarrow> int \<Rightarrow> mc \<Rightarrow> mc res" where
  "update_memory_channel P c s =
     (let s = s\<lparr>command_issued_current_cycle := (command_issued_current_cycle s)(c := False)\<rparr>;
          s = fold (update_rank P c) (below (NUM_RANKS P)) s;
          s = update_issuable_commands P c s;
          s = update_read_queue_commands P c s;
          s = update_write_queue_commands P c s
      in clean_queues c s)"

definition update_memory :: "params \<Rightarrow> mc \<Rightarrow> mc res" where
  "update_memory P s = foldE (update_memory_channel P) (below (NUM_CHANNELS P)) s"

end
