(* ===== verification/Protocol.thy ===== *)
theory Protocol
  imports Memory_Cycle
begin

text \<open>
  What the controller promises to the DRAM, stated over the commands it puts on the bus, and
  the executions the promise is about.

  A \<open>dram_event\<close> is one command with its time and target. \<open>min_gap\<close> is the table of
  timing constraints between an earlier command and a later one (the parameters of
  \<open>params.h\<close>), \<open>keeps_gap\<close> says that a pair of commands keeps it and \<open>timing_ok\<close> that
  every pair of an execution does. \<open>faw_ok\<close> is the four-activate window. \<open>dram_run\<close> is an
  abstract DRAM that accepts a command only in a state where the command is legal: the
  row/power protocol.

  \<open>api_step\<close> is one call of the controller's interface by a scheduler, for any scheduler:
  whichever policy is linked in, its \<open>schedule\<close> makes a sequence of such calls.
  \<open>env_step\<close> is what the processor side of \<open>main\<close> does to the shared state between two
  memory cycles. \<open>sim\<close> composes them as the main loop does: \<open>update_memory\<close>, then the calls
  of \<open>schedule\<close> on every channel, then the fetch stage, then the clock.
\<close>

section \<open>Commands on the bus\<close>

datatype dram_kind = KAct | KRead | KWrite | KPre | KPwrDn | KPwrUp | KRef | KForced

record dram_event =
  ev_time :: int
  ev_chan :: int
  ev_rank :: int
  ev_bank :: int
  ev_row :: int
  ev_kind :: dram_kind

definition event :: "int \<Rightarrow> int \<Rightarrow> int \<Rightarrow> int \<Rightarrow> int \<Rightarrow> dram_kind \<Rightarrow> dram_event" where
  "event t c r b w k =
     \<lparr>ev_time = t, ev_chan = c, ev_rank = r, ev_bank = b, ev_row = w, ev_kind = k\<rparr>"

lemma event_simps [simp]:
  "ev_time (event t c r b w k) = t" "ev_chan (event t c r b w k) = c"
  "ev_rank (event t c r b w k) = r" "ev_bank (event t c r b w k) = b"
  "ev_row (event t c r b w k) = w" "ev_kind (event t c r b w k) = k"
  by (simp_all add: event_def)

text \<open>
  Commands that address a whole rank. \<open>KForced\<close> is the burst of overdue refreshes
  \<open>update_memory\<close> starts when a rank's issue deadline arrives.
\<close>

definition rank_level :: "dram_kind \<Rightarrow> bool" where
  "rank_level k \<longleftrightarrow> k \<in> {KPwrDn, KPwrUp, KRef, KForced}"

text \<open>
  The least distance from event \<open>e\<close> to a later command of kind \<open>k\<close> on rank \<open>r\<close>, bank
  \<open>b\<close> of the same channel; \<open>None\<close> where the pair is not constrained.
\<close>

definition write_recovery :: "params \<Rightarrow> int" where
  "write_recovery P = T_CWD P + T_DATA_TRANS P + T_WR P"

definition only_if :: "bool \<Rightarrow> 'a \<Rightarrow> 'a option" where
  "only_if c x = (if c then Some x else None)"

definition min_gap :: "params \<Rightarrow> dram_event \<Rightarrow> dram_kind \<Rightarrow> int \<Rightarrow> int \<Rightarrow> int option" where
  "min_gap P e k r b =
     (let same_rank = (r = ev_rank e); same_bank = (same_rank \<and> b = ev_bank e)
      in case ev_kind e of
        KAct \<Rightarrow>
          (case k of
             KAct \<Rightarrow> if same_bank then Some (T_RC P) else only_if same_rank (T_RRD P)
           | KRead \<Rightarrow> only_if same_bank (T_RCD P) | KWrite \<Rightarrow> only_if same_bank (T_RCD P)
           | KPre \<Rightarrow> only_if same_bank (T_RAS P) | KRef \<Rightarrow> only_if same_bank (T_RAS P)
           | KForced \<Rightarrow> only_if same_bank (T_RAS P)
           | KPwrDn \<Rightarrow> only_if same_bank (T_RCD P) | KPwrUp \<Rightarrow> None)
      | KRead \<Rightarrow>
          (case k of
             KRead \<Rightarrow> Some (if same_rank then max (T_CCD P) (T_DATA_TRANS P)
                            else T_DATA_TRANS P + T_RTRS P)
           | KWrite \<Rightarrow> Some (T_CAS P + T_DATA_TRANS P + T_RTRS P - T_CWD P)
           | KPre \<Rightarrow> only_if same_bank (T_RTP P) | KRef \<Rightarrow> only_if same_bank (T_RTP P)
           | KForced \<Rightarrow> only_if same_bank (T_RTP P)
           | KPwrDn \<Rightarrow> only_if same_bank (T_RTP P) | KAct \<Rightarrow> None | KPwrUp \<Rightarrow> None)
      | KWrite \<Rightarrow>
          (case k of
             KWrite \<Rightarrow> Some (if same_rank then max (T_CCD P) (T_DATA_TRANS P)
                             else T_DATA_TRANS P + T_RTRS P)
           | KRead \<Rightarrow> Some (if same_rank then T_CWD P + T_DATA_TRANS P + T_WTR P
                             else T_CWD P + T_DATA_TRANS P + T_RTRS P - T_CAS P)
           | KPre \<Rightarrow> only_if same_bank (write_recovery P)
           | KRef \<Rightarrow> only_if same_bank (write_recovery P)
           | KForced \<Rightarrow> only_if same_bank (write_recovery P)
           | KPwrDn \<Rightarrow> only_if same_bank (write_recovery P) | KAct \<Rightarrow> None | KPwrUp \<Rightarrow> None)
      | KPre \<Rightarrow>
          (case k of
             KRead \<Rightarrow> None | KWrite \<Rightarrow> None | KPwrUp \<Rightarrow> None
           | _ \<Rightarrow> only_if same_bank (T_RP P))
      | KPwrDn \<Rightarrow>
          (case k of
             KPwrUp \<Rightarrow> only_if same_rank (T_PD_MIN P) | KRef \<Rightarrow> only_if same_rank (T_PD_MIN P)
           | KForced \<Rightarrow> only_if same_rank (T_PD_MIN P) | _ \<Rightarrow> None)
      | KPwrUp \<Rightarrow>
          (case k of KPwrUp \<Rightarrow> None | KForced \<Rightarrow> None | _ \<Rightarrow> only_if same_rank (T_XP P))
      | KRef \<Rightarrow>
          (case k of
             KAct \<Rightarrow> only_if same_rank (T_RFC P) | KPre \<Rightarrow> only_if same_rank (T_RFC P)
           | KRef \<Rightarrow> only_if same_rank (T_RFC P) | KPwrDn \<Rightarrow> only_if same_rank (T_RFC P)
           | _ \<Rightarrow> None)
      | KForced \<Rightarrow>
          (case k of
             KAct \<Rightarrow> only_if same_rank (T_RP P + T_RFC P)
           | KPre \<Rightarrow> only_if same_rank (T_RP P + T_RFC P)
           | KRef \<Rightarrow> only_if same_rank (T_RP P + T_RFC P)
           | KPwrDn \<Rightarrow> only_if same_rank (T_RP P + T_RFC P)
           | _ \<Rightarrow> None))"

text \<open>
  A later command keeps its distance from an earlier one. A command to a whole rank keeps it
  for every bank of the rank.
\<close>

definition keeps_gap :: "params \<Rightarrow> dram_event \<Rightarrow> dram_event \<Rightarrow> bool" where
  "keeps_gap P e1 e2 \<longleftrightarrow>
     (ev_chan e1 = ev_chan e2 \<longrightarrow>
      (\<forall>b\<in>{0..<NUM_BANKS P}. rank_level (ev_kind e2) \<or> b = ev_bank e2 \<longrightarrow>
         (case min_gap P e1 (ev_kind e2) (ev_rank e2) b of
            None \<Rightarrow> True | Some g \<Rightarrow> ev_time e1 + g \<le> ev_time e2)))"

text \<open>A whole execution keeps the timing: every later command keeps its distance from every earlier one.\<close>

fun timing_ok :: "params \<Rightarrow> dram_event list \<Rightarrow> bool" where
  "timing_ok P [] = True"
| "timing_ok P (e # es) = (list_all (keeps_gap P e) es \<and> timing_ok P es)"

lemma timing_ok_append:
  "timing_ok P (es @ fs) \<longleftrightarrow>
     timing_ok P es \<and> timing_ok P fs \<and> (\<forall>e\<in>set es. \<forall>f\<in>set fs. keeps_gap P e f)"
  by (induction es) (auto simp: list_all_iff)

lemma timing_ok_nth:
  assumes "timing_ok P es" and "i < j" and "j < length es"
  shows "keeps_gap P (es ! i) (es ! j)"
  using assms
proof (induction es arbitrary: i j)
  case Nil
  then show ?case by simp
next
  case (Cons e es)
  then show ?case
    by (cases i; cases j) (auto simp: list_all_length)
qed

section \<open>The four-activate window\<close>

definition act_times :: "int \<Rightarrow> int \<Rightarrow> dram_event list \<Rightarrow> int list" where
  "act_times c r es =
     map ev_time (filter (\<lambda>e. ev_kind e = KAct \<and> ev_chan e = c \<and> ev_rank e = r) es)"

text \<open>The fifth of five activates to a rank comes more than \<open>T_FAW\<close> after the first.\<close>

definition faw_ok :: "params \<Rightarrow> dram_event list \<Rightarrow> bool" where
  "faw_ok P es \<longleftrightarrow>
     (\<forall>c r i. i + 4 < length (act_times c r es) \<longrightarrow>
        act_times c r es ! i + T_FAW P < act_times c r es ! (i + 4))"

lemma act_times_append [simp]: "act_times c r (es @ fs) = act_times c r es @ act_times c r fs"
  by (simp add: act_times_def)

section \<open>The row and power protocol\<close>

text \<open>
  The state of a rank as the DRAM sees it: whether it is powered down, and the open row of
  each bank.
\<close>

record rank_abs =
  powered_down :: bool
  open_row :: "int \<Rightarrow> int option"

definition accepts :: "rank_abs \<Rightarrow> dram_event \<Rightarrow> bool" where
  "accepts d e \<longleftrightarrow>
     (case ev_kind e of
        KAct \<Rightarrow> \<not> powered_down d \<and> open_row d (ev_bank e) = None
      | KRead \<Rightarrow> \<not> powered_down d \<and> open_row d (ev_bank e) = Some (ev_row e)
      | KWrite \<Rightarrow> \<not> powered_down d \<and> open_row d (ev_bank e) = Some (ev_row e)
      | KPre \<Rightarrow> \<not> powered_down d
      | KPwrDn \<Rightarrow> \<not> powered_down d
      | KPwrUp \<Rightarrow> powered_down d
      | KRef \<Rightarrow> True
      | KForced \<Rightarrow> True)"

definition after :: "rank_abs \<Rightarrow> dram_event \<Rightarrow> rank_abs" where
  "after d e =
     (case ev_kind e of
        KAct \<Rightarrow> d\<lparr>open_row := (open_row d)(ev_bank e := Some (ev_row e))\<rparr>
      | KPre \<Rightarrow> d\<lparr>open_row := (open_row d)(ev_bank e := None)\<rparr>
      | KPwrDn \<Rightarrow> d\<lparr>powered_down := True\<rparr>
      | KPwrUp \<Rightarrow> d\<lparr>powered_down := False\<rparr>
      | KRef \<Rightarrow> \<lparr>powered_down = False, open_row = (\<lambda>_. None)\<rparr>
      | KForced \<Rightarrow> \<lparr>powered_down = False, open_row = (\<lambda>_. None)\<rparr>
      | _ \<Rightarrow> d)"

text \<open>The DRAM runs the commands in issue order and stops at the first illegal one.\<close>

fun dram_run :: "dram_event list \<Rightarrow> rank_abs arr2 \<Rightarrow> rank_abs arr2 option" where
  "dram_run [] D = Some D"
| "dram_run (e # es) D =
     (if accepts (D (ev_chan e) (ev_rank e)) e
      then dram_run es (upd2 D (ev_chan e) (ev_rank e) (after (D (ev_chan e) (ev_rank e)) e))
      else None)"

definition dram_reset :: "rank_abs arr2" where
  "dram_reset = (\<lambda>c r. \<lparr>powered_down = False, open_row = (\<lambda>_. None)\<rparr>)"

lemma dram_run_append:
  "dram_run (es @ fs) D = Option.bind (dram_run es D) (dram_run fs)"
  by (induction es arbitrary: D) auto

section \<open>The calls a scheduler makes\<close>

text \<open>The bus command a queued request turns into when it is issued.\<close>

definition req_events :: "mc \<Rightarrow> request_t \<Rightarrow> dram_event list" where
  "req_events s q =
     (let d = dram_addr q; ev = event (CYCLE_VAL s) (channel d) (rank d)
      in case next_command q of
           ACT_CMD \<Rightarrow> [ev (bank d) (row d) KAct]
         | COL_READ_CMD \<Rightarrow> [ev (bank d) (row d) KRead]
         | COL_WRITE_CMD \<Rightarrow> [ev (bank d) (row d) KWrite]
         | PRE_CMD \<Rightarrow> [ev (bank d) 0 KPre]
         | PWR_UP_CMD \<Rightarrow> [ev 0 0 KPwrUp]
         | _ \<Rightarrow> [])"

definition valid_rank :: "params \<Rightarrow> int \<Rightarrow> bool" where
  "valid_rank P r \<longleftrightarrow> 0 \<le> r \<and> r < NUM_RANKS P"

definition valid_bank :: "params \<Rightarrow> int \<Rightarrow> bool" where
  "valid_bank P b \<longleftrightarrow> 0 \<le> b \<and> b < NUM_BANKS P"

definition valid_channel :: "params \<Rightarrow> int \<Rightarrow> bool" where
  "valid_channel P c \<longleftrightarrow> 0 \<le> c \<and> c < NUM_CHANNELS P"

text \<open>
  One interface call on channel \<open>c\<close> and the commands it puts on the bus. The ranks and banks
  are those of the configuration, and a rank gets at most eight refreshes per
  \<open>8 * T_REFI\<close> window: the deadline arithmetic of \<open>update_memory\<close> counts down from eight.
\<close>

inductive api_step :: "params \<Rightarrow> int \<Rightarrow> mc \<Rightarrow> dram_event list \<Rightarrow> mc \<Rightarrow> bool" for P c where
  request: "ptr_channel p = c \<Longrightarrow> get_req s p = Some q \<Longrightarrow>
     issue_request_command P p s = Inr (s', ok) \<Longrightarrow>
     api_step P c s (if ok then req_events s q else []) s'"
| powerdown: "valid_rank P r \<Longrightarrow> issue_powerdown_command P c r cmd s = (s', ok) \<Longrightarrow>
     api_step P c s (if ok then [event (CYCLE_VAL s) c r 0 0 KPwrDn] else []) s'"
| powerup: "valid_rank P r \<Longrightarrow> issue_powerup_command P c r s = (s', ok) \<Longrightarrow>
     api_step P c s (if ok then [event (CYCLE_VAL s) c r 0 0 KPwrUp] else []) s'"
| activate: "valid_rank P r \<Longrightarrow> valid_bank P b \<Longrightarrow>
     issue_activate_command P c r b new_row s = Inr (s', ok) \<Longrightarrow>
     api_step P c s (if ok then [event (CYCLE_VAL s) c r b new_row KAct] else []) s'"
| precharge: "valid_rank P r \<Longrightarrow> valid_bank P b \<Longrightarrow>
     issue_precharge_command P c r b s = (s', ok) \<Longrightarrow>
     api_step P c s (if ok then [event (CYCLE_VAL s) c r b 0 KPre] else []) s'"
| all_bank_precharge: "valid_rank P r \<Longrightarrow> issue_all_bank_precharge_command P c r s = (s', ok) \<Longrightarrow>
     api_step P c s
       (if ok then map (\<lambda>b. event (CYCLE_VAL s) c r b 0 KPre) (below (NUM_BANKS P)) else []) s'"
| refresh: "valid_rank P r \<Longrightarrow> num_issued_refreshes s c r < 8 \<Longrightarrow>
     issue_refresh_command P c r s = (s', ok) \<Longrightarrow>
     api_step P c s (if ok then [event (CYCLE_VAL s) c r 0 0 KRef] else []) s'"
| autoprecharge: "valid_rank P r \<Longrightarrow> valid_bank P b \<Longrightarrow>
     issue_autoprecharge P c r b s = (s', ok) \<Longrightarrow>
     api_step P c s (if ok then [event (start_precharge P c r b s) c r b 0 KPre] else []) s'"

text \<open>
  What happens after \<open>update_memory\<close> in one memory cycle: calls on any of the channels, and
  the accounting of \<open>gather_stats\<close> between them.
\<close>

inductive api_steps :: "params \<Rightarrow> mc \<Rightarrow> dram_event list \<Rightarrow> mc \<Rightarrow> bool" for P where
  no_call: "api_steps P s [] s"
| one_more: "api_steps P s es t \<Longrightarrow> valid_channel P c \<Longrightarrow> api_step P c t fs u \<Longrightarrow>
     api_steps P s (es @ fs) u"
| account: "api_steps P s es t \<Longrightarrow> api_steps P s es (t\<lparr>stats := x\<rparr>)"

section \<open>The rest of the system\<close>

text \<open>
  The processor side: new requests, and writes to the reorder buffers and the statistics.
\<close>

inductive env_step :: "params \<Rightarrow> mc \<Rightarrow> mc \<Rightarrow> bool" for P where
  insert_read: "env_step P s (insert_read P phys arrival thread instr pc s)"
| insert_write: "env_step P s (insert_write P phys arrival thread instr s)"
| rob: "env_step P s (s\<lparr>ROB := rob\<rparr>)"
| stats: "env_step P s (s\<lparr>stats := st\<rparr>)"

text \<open>The forced refreshes an \<open>update_memory\<close> that starts in \<open>s\<close> begins.\<close>

definition forced_event :: "mc \<Rightarrow> int \<Rightarrow> int \<Rightarrow> dram_event list" where
  "forced_event s c r =
     (if CYCLE_VAL s \<noteq> next_refresh_completion_deadline s c r \<and>
         CYCLE_VAL s = refresh_issue_deadline s c r \<and> num_issued_refreshes s c r < 8
      then [event (CYCLE_VAL s) c r 0 0 KForced] else [])"

definition forced_events :: "params \<Rightarrow> mc \<Rightarrow> dram_event list" where
  "forced_events P s =
     concat (map (\<lambda>c. concat (map (forced_event s c) (below (NUM_RANKS P)))) (below (NUM_CHANNELS P)))"

text \<open>
  Iterations of the main loop, with the commands issued so far. The controller runs in the
  iterations whose cycle is a multiple of the clock multiplier.
\<close>

inductive sim :: "params \<Rightarrow> mc \<Rightarrow> dram_event list \<Rightarrow> bool" for P where
  start: "sim P (init_memory_controller_vars P (zero_mc rob)) []"
| memory_cycle: "sim P s es \<Longrightarrow> (env_step P)\<^sup>*\<^sup>* s s0 \<Longrightarrow>
     CYCLE_VAL s0 mod PROCESSOR_CLK_MULTIPLIER P = 0 \<Longrightarrow>
     update_memory P s0 = Inr s1 \<Longrightarrow> api_steps P s1 fs s2 \<Longrightarrow> (env_step P)\<^sup>*\<^sup>* s2 s3 \<Longrightarrow>
     sim P (s3\<lparr>CYCLE_VAL := CYCLE_VAL s3 + 1\<rparr>) (es @ forced_events P s0 @ fs)"
| other_cycle: "sim P s es \<Longrightarrow> (env_step P)\<^sup>*\<^sup>* s s0 \<Longrightarrow>
     CYCLE_VAL s0 mod PROCESSOR_CLK_MULTIPLIER P \<noteq> 0 \<Longrightarrow>
     sim P (s0\<lparr>CYCLE_VAL := CYCLE_VAL s0 + 1\<rparr>) es"

lemma api_steps_trans:
  assumes "api_steps P t fs u" and "api_steps P s es t"
  shows "api_steps P s (es @ fs) u"
  using assms
proof (induction rule: api_steps.induct)
  case (no_call t)
  then show ?case by simp
next
  case (one_more t fs u c gs v)
  then show ?case by (metis api_steps.one_more append.assoc)
next
  case (account t fs u x)
  then show ?case by (blast intro: api_steps.account)
qed

end
