(* ===== verification/Timing.thy ===== *)
theory Timing
  imports Protocol
begin

text \<open>
  The bank-level bookkeeping behind the timing promise. The controller does not remember
  past commands: it keeps, per bank, the earliest time of each kind of command
  (\<open>next_pre\<close>, \<open>next_act\<close> and so on). \<open>tracked\<close> says that these fields account for every
  past command, \<open>later\<close> that a command only moves them forward, \<open>settled\<close> that past
  commands are compatible with the rank's refresh deadlines, and \<open>refresh_ok\<close> relates the
  deadlines to the clock.
\<close>

section \<open>Earliest times\<close>

fun next_of :: "dram_kind \<Rightarrow> bank_t \<Rightarrow> int" where
  "next_of KAct = next_act"
| "next_of KRead = next_read"
| "next_of KWrite = next_write"
| "next_of KPre = next_pre"
| "next_of KPwrDn = next_powerdown"
| "next_of KPwrUp = next_powerup"
| "next_of KRef = next_refresh"
| "next_of KForced = next_refresh"

lemma all_dram_kind:
  "(\<forall>k. Q k) \<longleftrightarrow> Q KAct \<and> Q KRead \<and> Q KWrite \<and> Q KPre \<and> Q KPwrDn \<and> Q KPwrUp \<and> Q KRef \<and> Q KForced"
  by (metis dram_kind.exhaust)

definition covers :: "params \<Rightarrow> dram_event \<Rightarrow> int \<Rightarrow> (int \<Rightarrow> bank_t) \<Rightarrow> bool" where
  "covers P e r B \<longleftrightarrow>
     (\<forall>k b g. k \<noteq> KForced \<longrightarrow> valid_bank P b \<longrightarrow> min_gap P e k r b = Some g \<longrightarrow>
        ev_time e + g \<le> next_of k (B b))"

definition tracked :: "params \<Rightarrow> dram_event set \<Rightarrow> int \<Rightarrow> int \<Rightarrow> (int \<Rightarrow> bank_t) \<Rightarrow> bool" where
  "tracked P E c r B \<longleftrightarrow> (\<forall>e\<in>E. ev_chan e = c \<longrightarrow> covers P e r B)"

text \<open>What a command of each kind has to write into the banks of a rank.\<close>

lemma covers_event:
  "covers P (event t c r b w KAct) r' B \<longleftrightarrow> (r' = r \<longrightarrow> (\<forall>b'. valid_bank P b' \<longrightarrow>
     (if b' = b then t + T_RC P \<le> next_act (B b) \<and> t + T_RCD P \<le> next_read (B b) \<and>
        t + T_RCD P \<le> next_write (B b) \<and> t + T_RAS P \<le> next_pre (B b) \<and>
        t + T_RAS P \<le> next_refresh (B b) \<and> t + T_RCD P \<le> next_powerdown (B b)
      else t + T_RRD P \<le> next_act (B b'))))"
  "covers P (event t c r b w KRead) r' B \<longleftrightarrow> (\<forall>b'. valid_bank P b' \<longrightarrow>
     (if r' = r then t + max (T_CCD P) (T_DATA_TRANS P) \<le> next_read (B b')
      else t + (T_DATA_TRANS P + T_RTRS P) \<le> next_read (B b')) \<and>
     t + (T_CAS P + T_DATA_TRANS P + T_RTRS P - T_CWD P) \<le> next_write (B b') \<and>
     (r' = r \<and> b' = b \<longrightarrow> t + T_RTP P \<le> next_pre (B b) \<and> t + T_RTP P \<le> next_refresh (B b) \<and>
        t + T_RTP P \<le> next_powerdown (B b)))"
  "covers P (event t c r b w KWrite) r' B \<longleftrightarrow> (\<forall>b'. valid_bank P b' \<longrightarrow>
     (if r' = r then t + max (T_CCD P) (T_DATA_TRANS P) \<le> next_write (B b') \<and>
          t + (T_CWD P + T_DATA_TRANS P + T_WTR P) \<le> next_read (B b')
      else t + (T_DATA_TRANS P + T_RTRS P) \<le> next_write (B b') \<and>
          t + (T_CWD P + T_DATA_TRANS P + T_RTRS P - T_CAS P) \<le> next_read (B b')) \<and>
     (r' = r \<and> b' = b \<longrightarrow> t + write_recovery P \<le> next_pre (B b) \<and>
        t + write_recovery P \<le> next_refresh (B b) \<and> t + write_recovery P \<le> next_powerdown (B b)))"
  "covers P (event t c r b w KPre) r' B \<longleftrightarrow> (r' = r \<and> valid_bank P b \<longrightarrow>
     t + T_RP P \<le> next_act (B b) \<and> t + T_RP P \<le> next_pre (B b) \<and>
     t + T_RP P \<le> next_refresh (B b) \<and> t + T_RP P \<le> next_powerdown (B b))"
  "covers P (event t c r b w KPwrDn) r' B \<longleftrightarrow> (r' = r \<longrightarrow> (\<forall>b'. valid_bank P b' \<longrightarrow>
     t + T_PD_MIN P \<le> next_powerup (B b') \<and> t + T_PD_MIN P \<le> next_refresh (B b')))"
  "covers P (event t c r b w KPwrUp) r' B \<longleftrightarrow> (r' = r \<longrightarrow> (\<forall>b'. valid_bank P b' \<longrightarrow>
     t + T_XP P \<le> next_act (B b') \<and> t + T_XP P \<le> next_read (B b') \<and>
     t + T_XP P \<le> next_write (B b') \<and> t + T_XP P \<le> next_pre (B b') \<and>
     t + T_XP P \<le> next_refresh (B b') \<and> t + T_XP P \<le> next_powerdown (B b')))"
  "covers P (event t c r b w KRef) r' B \<longleftrightarrow> (r' = r \<longrightarrow> (\<forall>b'. valid_bank P b' \<longrightarrow>
     t + T_RFC P \<le> next_act (B b') \<and> t + T_RFC P \<le> next_pre (B b') \<and>
     t + T_RFC P \<le> next_refresh (B b') \<and> t + T_RFC P \<le> next_powerdown (B b')))"
  "covers P (event t c r b w KForced) r' B \<longleftrightarrow> (r' = r \<longrightarrow> (\<forall>b'. valid_bank P b' \<longrightarrow>
     t + (T_RP P + T_RFC P) \<le> next_act (B b') \<and> t + (T_RP P + T_RFC P) \<le> next_pre (B b') \<and>
     t + (T_RP P + T_RFC P) \<le> next_refresh (B b') \<and>
     t + (T_RP P + T_RFC P) \<le> next_powerdown (B b')))"
  by (auto simp: covers_def all_dram_kind min_gap_def only_if_def Let_def)

section \<open>Commands move the times forward\<close>

text \<open>
  \<open>next_powerup\<close> is the one field a command may move backwards: a power-down overwrites it,
  at least \<open>T_PD_MIN\<close> ahead of the clock \<open>m\<close>.
\<close>

definition later :: "params \<Rightarrow> int \<Rightarrow> bank_t \<Rightarrow> bank_t \<Rightarrow> bool" where
  "later P m b b' \<longleftrightarrow>
     next_act b \<le> next_act b' \<and> next_read b \<le> next_read b' \<and> next_write b \<le> next_write b' \<and>
     next_pre b \<le> next_pre b' \<and> next_powerdown b \<le> next_powerdown b' \<and>
     next_refresh b \<le> next_refresh b' \<and>
     (next_powerup b \<le> next_powerup b' \<or> m + T_PD_MIN P \<le> next_powerup b')"

lemma later_refl [simp, intro]: "later P m b b"
  by (simp add: later_def)

lemma min_gap_KPwrUp:
  "min_gap P e KPwrUp r b = Some g \<longleftrightarrow> ev_kind e = KPwrDn \<and> r = ev_rank e \<and> g = T_PD_MIN P"
  by (cases "ev_kind e") (auto simp: min_gap_def only_if_def Let_def)

lemma covers_later:
  assumes cov: "covers P e r B"
    and mono: "\<And>b. valid_bank P b \<Longrightarrow> later P m (B b) (B' b)"
    and past: "ev_kind e = KPwrDn \<Longrightarrow> ev_rank e = r \<Longrightarrow> ev_time e \<le> m"
  shows "covers P e r B'"
  unfolding covers_def
proof (intro allI impI)
  fix k b g
  assume k: "k \<noteq> KForced" and b: "valid_bank P b" and g: "min_gap P e k r b = Some g"
  have old: "ev_time e + g \<le> next_of k (B b)" using cov k b g by (auto simp: covers_def)
  note m = mono [OF b]
  show "ev_time e + g \<le> next_of k (B' b)"
  proof (cases "k = KPwrUp")
    case True
    then have "ev_time e \<le> m" and "g = T_PD_MIN P"
      using g past by (auto simp: min_gap_KPwrUp)
    then show ?thesis using old True m by (auto simp: later_def)
  next
    case False
    then show ?thesis using old k m by (cases k) (auto simp: later_def)
  qed
qed

lemma tracked_later:
  assumes "tracked P E c r B"
    and "\<And>b. valid_bank P b \<Longrightarrow> later P m (B b) (B' b)"
    and "\<And>e. e \<in> E \<Longrightarrow> ev_chan e = c \<Longrightarrow> ev_kind e = KPwrDn \<Longrightarrow> ev_rank e = r \<Longrightarrow>
      ev_time e \<le> m"
  shows "tracked P E c r B'"
  using assms covers_later unfolding tracked_def by blast

lemma tracked_Un [simp]: "tracked P (E \<union> F) c r B \<longleftrightarrow> tracked P E c r B \<and> tracked P F c r B"
  by (auto simp: tracked_def)

lemma tracked_empty [simp]: "tracked P {} c r B"
  by (simp add: tracked_def)

section \<open>A new command keeps the timing\<close>

text \<open>
  A command issued no earlier than the fields allow keeps its distance from every past
  command. For a power-up one bank's field speaks for the rank.
\<close>

definition timely :: "params \<Rightarrow> dram_event \<Rightarrow> (int \<Rightarrow> bank_t) \<Rightarrow> bool" where
  "timely P f B \<longleftrightarrow>
     ev_kind f \<noteq> KForced \<and>
     (if ev_kind f = KPwrUp then \<exists>b. valid_bank P b \<and> next_powerup (B b) \<le> ev_time f
      else \<forall>b. valid_bank P b \<longrightarrow> rank_level (ev_kind f) \<or> b = ev_bank f \<longrightarrow>
             next_of (ev_kind f) (B b) \<le> ev_time f)"

lemma keeps_gap_timely:
  assumes "tracked P E (ev_chan f) (ev_rank f) B" and "timely P f B" and "e \<in> E"
  shows "keeps_gap P e f"
proof -
  { fix b g
    assume chan: "ev_chan e = ev_chan f" and b: "valid_bank P b"
      and lvl: "rank_level (ev_kind f) \<or> b = ev_bank f"
      and g: "min_gap P e (ev_kind f) (ev_rank f) b = Some g"
    have cov: "covers P e (ev_rank f) B" using assms(1,3) chan by (auto simp: tracked_def)
    have kf: "ev_kind f \<noteq> KForced" using assms(2) by (simp add: timely_def)
    have "ev_time e + g \<le> ev_time f"
    proof (cases "ev_kind f = KPwrUp")
      case True
      then obtain b' where b': "valid_bank P b'" "next_powerup (B b') \<le> ev_time f"
        using assms(2) by (auto simp: timely_def)
      have "min_gap P e KPwrUp (ev_rank f) b' = Some g"
        using g True by (simp add: min_gap_KPwrUp)
      then have "ev_time e + g \<le> next_powerup (B b')"
        using cov b'(1) by (force simp: covers_def)
      then show ?thesis using b'(2) by simp
    next
      case False
      then have "next_of (ev_kind f) (B b) \<le> ev_time f"
        using assms(2) b lvl by (auto simp: timely_def)
      moreover have "ev_time e + g \<le> next_of (ev_kind f) (B b)"
        using cov b g kf by (auto simp: covers_def)
      ultimately show ?thesis by simp
    qed }
  then show ?thesis
    by (fastforce simp: keeps_gap_def valid_bank_def split: option.splits)
qed

lemma timing_ok_extend:
  assumes "timing_ok P es" and "tracked P (set es) (ev_chan f) (ev_rank f) B" and "timely P f B"
  shows "timing_ok P (es @ [f])"
  using assms keeps_gap_timely by (auto simp: timing_ok_append)

section \<open>Refresh deadlines\<close>

text \<open>
  The refresh state of a rank after the memory cycle \<open>m\<close>: \<open>cd\<close> is
  \<open>next_refresh_completion_deadline\<close>, \<open>dl\<close> is \<open>refresh_issue_deadline\<close>, \<open>n\<close> is
  \<open>num_issued_refreshes\<close>. The deadline leaves time for the refreshes still owed, and the clock
  is before it unless all eight are issued or the forced refresh is under way.
\<close>

definition refresh_ok :: "params \<Rightarrow> int \<Rightarrow> int \<Rightarrow> int \<Rightarrow> int \<Rightarrow> bool \<Rightarrow> bool" where
  "refresh_ok P m cd dl n forced \<longleftrightarrow>
     PROCESSOR_CLK_MULTIPLIER P dvd cd \<and> PROCESSOR_CLK_MULTIPLIER P dvd dl \<and>
     m < cd \<and> cd \<le> max 0 m + 8 * T_REFI P \<and> 0 \<le> n \<and> n \<le> 8 \<and>
     dl \<le> cd - T_RP P - (8 - n) * T_RFC P \<and>
     (\<not> forced \<and> n < 8 \<longrightarrow> m < dl) \<and>
     8 * T_REFI P dvd cd \<and> (m < 0 \<longrightarrow> n = 0)"

definition settled_event :: "params \<Rightarrow> int \<Rightarrow> int \<Rightarrow> int \<Rightarrow> int \<Rightarrow> dram_event \<Rightarrow> bool" where
  "settled_event P m cd dl n e \<longleftrightarrow>
     (ev_kind e \<noteq> KPre \<longrightarrow> ev_time e \<le> m) \<and>
     (case ev_kind e of
        KAct \<Rightarrow> ev_time e + T_RAS P \<le> dl
      | KRead \<Rightarrow> ev_time e + T_RTP P \<le> dl
      | KWrite \<Rightarrow> ev_time e + write_recovery P \<le> dl
      | KPre \<Rightarrow> ev_time e + T_RP P \<le> dl
      | KPwrDn \<Rightarrow> ev_time e + T_PD_MIN P \<le> dl
      | KPwrUp \<Rightarrow> n < 8 \<longrightarrow> ev_time e + T_XP P \<le> cd
      | KRef \<Rightarrow> n < 8 \<longrightarrow> ev_time e + T_RFC P \<le> cd
      | KForced \<Rightarrow> ev_time e + T_RP P + T_RFC P \<le> cd)"

definition settled :: "params \<Rightarrow> dram_event set \<Rightarrow> int \<Rightarrow> int \<Rightarrow> int \<Rightarrow> int \<Rightarrow> int \<Rightarrow> int \<Rightarrow> bool" where
  "settled P E c r m cd dl n \<longleftrightarrow>
     (\<forall>e\<in>E. ev_chan e = c \<and> ev_rank e = r \<longrightarrow> settled_event P m cd dl n e)"

lemma settled_Un [simp]:
  "settled P (E \<union> F) c r m cd dl n \<longleftrightarrow> settled P E c r m cd dl n \<and> settled P F c r m cd dl n"
  by (auto simp: settled_def)

lemma settled_empty [simp]: "settled P {} c r m cd dl n"
  by (simp add: settled_def)

lemma settled_event_mono:
  assumes "settled_event P m cd dl n e" and "m \<le> m'" and "cd \<le> cd'" and "dl \<le> dl'"
    and "n' < 8 \<Longrightarrow> n < 8"
  shows "settled_event P m' cd' dl' n' e"
  using assms by (cases "ev_kind e") (auto simp: settled_event_def)

text \<open>When the forced refresh starts, every past command to the rank has run its course.\<close>

lemma settled_forced:
  assumes "settled_event P m cd dl n e" and "wf_timing P" and "n < 8" and "ev_rank e = r"
    and "dl \<le> cd - T_RP P - (8 - n) * T_RFC P"
    and g: "min_gap P e k r b = Some g" and k: "k \<in> {KAct, KPre, KPwrDn, KRef}"
  shows "ev_time e + g \<le> cd"
proof -
  have "T_RFC P \<le> (8 - n) * T_RFC P"
    using assms(2,3) by (simp add: wf_timing_def mult_le_cancel_right1)
  then have "dl + T_RP P + T_RFC P \<le> cd" using assms(5) by linarith
  moreover have "0 < T_RFC P" using assms(2) by (simp add: wf_timing_def)
  ultimately show ?thesis using assms(1-4) g k
    by (cases "ev_kind e")
      (auto simp: settled_event_def min_gap_def only_if_def wf_timing_def split: if_splits)
qed

lemma keeps_gap_forced:
  assumes "settled_event P m cd dl n e" and "ev_rank e = r"
    and g: "min_gap P e KForced r b = Some g"
  shows "ev_time e + g \<le> dl"
  using assms by (cases "ev_kind e") (auto simp: settled_event_def min_gap_def only_if_def split: if_splits)

lemma min_gap_other_rank:
  assumes "min_gap P e k r b = Some g" and "k \<in> {KAct, KPre, KPwrDn, KRef, KForced, KPwrUp}"
  shows "ev_rank e = r"
  using assms by (cases "ev_kind e") (auto simp: min_gap_def only_if_def Let_def split: if_splits)

end
