(* ===== verification/Faw.thy ===== *)
theory Faw
  imports Protocol
begin

text \<open>
  The four-activate window. \<open>faw_inv\<close> relates the activation record of a rank, a ring of
  \<open>BIG_ACTIVATION_WINDOW\<close> flags, to the times of the activates issued to it: a flag is set
  exactly for the activates of the last \<open>T_FAW\<close> cycles.
\<close>

definition faw_inv :: "params \<Rightarrow> int \<Rightarrow> int list \<Rightarrow> int arr1 \<Rightarrow> bool" where
  "faw_inv P m ts rec \<longleftrightarrow>
     sorted_wrt (<) ts \<and> (\<forall>t\<in>set ts. 0 \<le> t \<and> t \<le> m) \<and>
     (\<forall>j. 0 \<le> j \<and> j < BIG_ACTIVATION_WINDOW \<longrightarrow>
        rec j = (if \<exists>t\<in>set ts. m - T_FAW P \<le> t \<and> t mod BIG_ACTIVATION_WINDOW = j then 1 else 0))"

text \<open>Two times closer than the window have different slots.\<close>

lemma slot_inj:
  assumes "t mod W = u mod W" and "u \<le> t" and "t - u < W"
  shows "t = (u :: int)"
proof -
  have "W dvd t - u" using assms(1) by (simp add: mod_eq_dvd_iff)
  then show ?thesis using assms(2,3) zdvd_imp_le by fastforce
qed

lemma slot_range [simp]: "0 \<le> t mod BIG_ACTIVATION_WINDOW" "t mod BIG_ACTIVATION_WINDOW < BIG_ACTIVATION_WINDOW"
  by (simp_all add: BIG_ACTIVATION_WINDOW_def)

lemma smod_BIG: "0 \<le> t \<Longrightarrow> t smod BIG_ACTIVATION_WINDOW = t mod BIG_ACTIVATION_WINDOW"
  by (rule smod_nonneg) (simp_all add: BIG_ACTIVATION_WINDOW_def)

lemma fold_count:
  "fold (\<lambda>i n. if p i then n + 1 else n) xs (k :: int) = k + int (length (filter p xs))"
  by (induction xs arbitrary: k) simp_all

lemma faw_record_in_window:
  assumes "faw_inv P m ts rec" and "T_FAW P < BIG_ACTIVATION_WINDOW"
    and "0 \<le> u" and "m - T_FAW P \<le> u" and "u \<le> m"
  shows "rec (u mod BIG_ACTIVATION_WINDOW) = (if u \<in> set ts then 1 else 0)"
proof -
  have "(\<exists>t\<in>set ts. m - T_FAW P \<le> t \<and> t mod BIG_ACTIVATION_WINDOW = u mod BIG_ACTIVATION_WINDOW)
      \<longleftrightarrow> u \<in> set ts" (is "?L \<longleftrightarrow> ?R")
  proof
    assume ?L
    then obtain t where t: "t \<in> set ts" "m - T_FAW P \<le> t"
      "t mod BIG_ACTIVATION_WINDOW = u mod BIG_ACTIVATION_WINDOW" by blast
    have "t \<le> m" using assms(1) t(1) by (simp add: faw_inv_def)
    have "t = u"
    proof (cases "u \<le> t")
      case True
      then show ?thesis using slot_inj [OF t(3)] \<open>t \<le> m\<close> assms(2,4) by simp
    next
      case False
      then show ?thesis using slot_inj [OF t(3) [symmetric]] t(2) assms(2,5) by simp
    qed
    then show ?R using t(1) by simp
  qed (use assms(4) in blast)
  then show ?thesis using assms(1) by (simp add: faw_inv_def)
qed

text \<open>Outside the set of activates of the window the ring is clear.\<close>

lemma faw_flush:
  assumes inv: "faw_inv P m ts rec"
    and wf: "wf_timing P" and al: "aligned_timing P" "PROCESSOR_CLK_MULTIPLIER P dvd m'"
    and m': "m' = m + PROCESSOR_CLK_MULTIPLIER P" "0 \<le> m'"
  shows "faw_inv P m' ts (\<lambda>j. if m' \<ge> T_FAW P + PROCESSOR_CLK_MULTIPLIER P \<and>
      (\<exists>i\<in>{1..PROCESSOR_CLK_MULTIPLIER P}. j = (m' - T_FAW P - i) smod BIG_ACTIVATION_WINDOW)
      then 0 else rec j)"
proof -
  let ?K = "PROCESSOR_CLK_MULTIPLIER P" and ?W = BIG_ACTIVATION_WINDOW
  let ?flushed = "\<lambda>j. m' \<ge> T_FAW P + ?K \<and> (\<exists>i\<in>{1..?K}. j = (m' - T_FAW P - i) smod ?W)"
  have K: "0 < ?K" and F: "0 \<le> T_FAW P" and FW: "T_FAW P + ?K \<le> ?W"
    using wf by (simp_all add: wf_timing_def)
  have dvd: "?K dvd m' - T_FAW P" using al by (simp add: aligned_timing_def)
  have cell: "(if ?flushed j then 0 else rec j) =
      (if \<exists>t\<in>set ts. m' - T_FAW P \<le> t \<and> t mod ?W = j then 1 else 0)"
    if j: "0 \<le> j" "j < ?W" for j
  proof (cases "\<exists>t\<in>set ts. m' - T_FAW P \<le> t \<and> t mod ?W = j")
    case True
    then obtain t where t: "t \<in> set ts" "m' - T_FAW P \<le> t" "t mod ?W = j" by blast
    have tm: "t \<le> m" using inv t(1) by (simp add: faw_inv_def)
    have "\<not> ?flushed j"
    proof
      assume "?flushed j"
      then obtain i where i: "1 \<le> i" "i \<le> ?K" "m' \<ge> T_FAW P + ?K"
        "j = (m' - T_FAW P - i) mod ?W" using smod_BIG by auto
      then have "t = m' - T_FAW P - i"
        using slot_inj [of t ?W "m' - T_FAW P - i"] t tm m'(1) FW K by simp
      then show False using t(2) i(1) by simp
    qed
    moreover have "m - T_FAW P \<le> t" using t(2) m'(1) K by simp
    then have "rec j = 1" using inv t j by (auto simp: faw_inv_def)
    ultimately show ?thesis using True by auto
  next
    case no: False
    show ?thesis
    proof (cases "rec j = 0")
      case True
      then show ?thesis using no by simp
    next
      case False
      then obtain t where t: "t \<in> set ts" "m - T_FAW P \<le> t" "t mod ?W = j"
        using inv j by (auto simp: faw_inv_def split: if_splits)
      have t0: "0 \<le> t" using inv t(1) by (simp add: faw_inv_def)
      have lt: "t < m' - T_FAW P" using no t by force
      then have "?K \<le> m' - T_FAW P" using dvd t0 by (intro zdvd_imp_le) simp_all
      moreover have "j = (m' - T_FAW P - (m' - T_FAW P - t)) smod ?W"
        using t(3) t0 by (simp add: smod_BIG)
      ultimately have "?flushed j" using t(2) lt m'(1)
        by (intro conjI bexI [where x = "m' - T_FAW P - t"]) simp_all
      then show ?thesis using no by simp
    qed
  qed
  show ?thesis unfolding faw_inv_def
  proof (intro conjI allI impI ballI)
    show "sorted_wrt (<) ts" using inv by (simp add: faw_inv_def)
    show "0 \<le> t" "t \<le> m'" if "t \<in> set ts" for t
      using inv that m'(1) K by (force simp: faw_inv_def)+
  qed (rule cell, simp_all)
qed

text \<open>\<open>is_T_FAW_met\<close> counts the activates of the window.\<close>

lemma is_T_FAW_met_count:
  assumes inv: "faw_inv P m ts (activation_record s c r)" and before: "\<forall>t\<in>set ts. t < m"
    and wf: "wf_timing P" and m: "0 \<le> m" "m < 2 ^ 31"
  shows "is_T_FAW_met P c r m s \<longleftrightarrow> length (filter (\<lambda>t. m - T_FAW P \<le> t) ts) < 4"
proof -
  let ?W = BIG_ACTIVATION_WINDOW and ?rec = "activation_record s c r"
  have F: "0 \<le> T_FAW P" and FW: "T_FAW P < ?W" using wf by (simp_all add: wf_timing_def)
  have start: "c_int m = m" using m by (intro c_int_id) simp_all
  define T where "T = (if m \<ge> T_FAW P then T_FAW P else m)"
  have hit: "?rec ((m - i) mod ?W) = (if m - i \<in> set ts then 1 else 0)" if "i \<in> {1..T}" for i
    using that by (intro faw_record_in_window [OF inv FW]) (auto simp: T_def F split: if_splits)
  have slot: "(m - i) smod ?W = (m - i) mod ?W" if "i \<in> {1..T}" for i
    using that by (intro smod_BIG) (auto simp: T_def split: if_splits)
  have flag: "?rec (m - i) smod ?W = 1 \<longleftrightarrow> m - i \<in> set ts" if "i \<in> {1..T}" "m < T_FAW P" for i
  proof -
    have "(m - i) mod ?W = m - i" using that FW by (simp add: T_def)
    then have "?rec (m - i) = (if m - i \<in> set ts then 1 else 0)" using hit [OF that(1)] by simp
    then show ?thesis by (simp add: smod_BIG) (simp add: BIG_ACTIVATION_WINDOW_def)
  qed
  have "(if m \<ge> T_FAW P then
          fold (\<lambda>i n. if ?rec ((m - i) smod ?W) = 1 then n + 1 else n) [1..T_FAW P] 0
        else fold (\<lambda>i n. if ?rec (m - i) smod ?W = 1 then n + 1 else n) [1..m] (0 :: int)) =
      int (length (filter (\<lambda>i. m - i \<in> set ts) [1..T]))"
    unfolding fold_count T_def using hit slot flag
    by (auto simp: T_def split: if_splits intro!: arg_cong [where f = length] filter_cong)
  then have met: "is_T_FAW_met P c r m s \<longleftrightarrow> length (filter (\<lambda>i. m - i \<in> set ts) [1..T]) < 4"
    by (simp add: is_T_FAW_met_def start Let_def)
  have "length (filter (\<lambda>i. m - i \<in> set ts) [1..T]) = card {i \<in> {1..T}. m - i \<in> set ts}"
    by (subst distinct_card [symmetric]) (simp_all add: Int_def)
  also have "\<dots> = card {t \<in> set ts. m - T_FAW P \<le> t}"
  proof (rule bij_betw_same_card [where f = "\<lambda>i. m - i"], rule bij_betw_imageI)
    show "inj_on (\<lambda>i. m - i) {i \<in> {1..T}. m - i \<in> set ts}" by (simp add: inj_on_def)
    show "(\<lambda>i. m - i) ` {i \<in> {1..T}. m - i \<in> set ts} = {t \<in> set ts. m - T_FAW P \<le> t}"
    proof (intro set_eqI iffI)
      fix t
      assume t: "t \<in> {t \<in> set ts. m - T_FAW P \<le> t}"
      then have "0 \<le> t" using inv by (simp add: faw_inv_def)
      then show "t \<in> (\<lambda>i. m - i) ` {i \<in> {1..T}. m - i \<in> set ts}"
        using t before by (intro image_eqI [where x = "m - t"]) (auto simp: T_def)
    qed (auto simp: T_def split: if_splits)
  qed
  also have "\<dots> = length (filter (\<lambda>t. m - T_FAW P \<le> t) ts)"
  proof -
    have "distinct ts" using inv by (auto simp: faw_inv_def strict_sorted_iff)
    then show ?thesis by (subst distinct_card [symmetric]) (simp_all add: Int_def conj_commute)
  qed
  finally show ?thesis using met by simp
qed

text \<open>Recording an activate at the clock.\<close>

lemma faw_record:
  assumes inv: "faw_inv P m ts rec" and before: "\<forall>t\<in>set ts. t < m"
    and wf: "wf_timing P" and m: "0 \<le> m"
  shows "rec (m mod BIG_ACTIVATION_WINDOW) = 0"
    and "faw_inv P m (ts @ [m]) (rec(m mod BIG_ACTIVATION_WINDOW := 1))"
proof -
  have FW: "T_FAW P < BIG_ACTIVATION_WINDOW" and F: "0 \<le> T_FAW P"
    using wf by (simp_all add: wf_timing_def)
  show "rec (m mod BIG_ACTIVATION_WINDOW) = 0"
    using faw_record_in_window [OF inv FW m] F before by (auto split: if_splits)
  show "faw_inv P m (ts @ [m]) (rec(m mod BIG_ACTIVATION_WINDOW := 1))"
    using inv before m F by (auto simp: faw_inv_def sorted_wrt_append)
qed

text \<open>With fewer than four activates in the window, one more keeps the promise.\<close>

lemma window_snoc:
  assumes sorted: "sorted_wrt (<) ts" and few: "length (filter (\<lambda>t. m - F \<le> t) ts) < 4"
    and i: "i + 4 = length ts"
  shows "ts ! i + F < (m :: int)"
proof (rule ccontr)
  assume "\<not> ts ! i + F < m"
  have "\<forall>t\<in>set (drop i ts). m - F \<le> t"
  proof
    fix t
    assume "t \<in> set (drop i ts)"
    then obtain k where k: "t = ts ! (i + k)" "i + k < length ts"
      by (auto simp: in_set_conv_nth)
    have "ts ! i \<le> t"
      using sorted k by (cases "k = 0") (auto simp: sorted_wrt_nth_less less_imp_le)
    then show "m - F \<le> t" using \<open>\<not> ts ! i + F < m\<close> by simp
  qed
  then have "filter (\<lambda>t. m - F \<le> t) (drop i ts) = drop i ts" by simp
  moreover have "filter (\<lambda>t. m - F \<le> t) ts =
      filter (\<lambda>t. m - F \<le> t) (take i ts) @ filter (\<lambda>t. m - F \<le> t) (drop i ts)"
    by (metis append_take_drop_id filter_append)
  ultimately have "length (drop i ts) \<le> length (filter (\<lambda>t. m - F \<le> t) ts)" by simp
  then show False using few i by simp
qed

end
