(* ===== verification/Invariant.thy ===== *)
theory Invariant
  imports Timing Faw
begin

text \<open>
  The invariant of the controller, and that every call of its interface keeps it.

  \<open>rank_inv\<close> collects what holds of one rank (refresh deadlines, earliest times, activation
  record, power state), \<open>queue_inv\<close> of the queues of a channel, \<open>legal\<close> that the abstract
  DRAM accepts the commands so far and agrees with \<open>dram_state\<close>. \<open>fresh\<close> holds while a
  scheduler runs: until a command is issued on a channel, the \<open>next_command\<close> and
  \<open>command_issuable\<close> fields of its requests are what \<open>update_memory\<close> computes from the
  current state.
\<close>

section \<open>The state of one channel\<close>

definition chan_eq :: "int \<Rightarrow> mc \<Rightarrow> mc \<Rightarrow> bool" where
  "chan_eq c s s' \<longleftrightarrow>
     CYCLE_VAL s' = CYCLE_VAL s \<and> dram_state s' c = dram_state s c \<and>
     command_issued_current_cycle s' c = command_issued_current_cycle s c \<and>
     cas_issued_current_cycle s' c = cas_issued_current_cycle s c \<and>
     read_queue s' c = read_queue s c \<and> write_queue s' c = write_queue s c \<and>
     read_queue_length s' c = read_queue_length s c \<and>
     write_queue_length s' c = write_queue_length s c \<and>
     next_refresh_completion_deadline s' c = next_refresh_completion_deadline s c \<and>
     forced_refresh_mode_on s' c = forced_refresh_mode_on s c \<and>
     refresh_issue_deadline s' c = refresh_issue_deadline s c \<and>
     num_issued_refreshes s' c = num_issued_refreshes s c \<and>
     activation_record s' c = activation_record s c"

lemma chan_eq_refl [simp, intro]: "chan_eq c s s"
  by (simp add: chan_eq_def)

lemma chan_eq_trans: "chan_eq c s t \<Longrightarrow> chan_eq c t u \<Longrightarrow> chan_eq c s u"
  by (simp add: chan_eq_def)

lemma update_request_cong:
  assumes "CYCLE_VAL s' = CYCLE_VAL s" and "dram_state s' c = dram_state s c"
    and "forced_refresh_mode_on s' c = forced_refresh_mode_on s c"
    and "refresh_issue_deadline s' c = refresh_issue_deadline s c"
    and "activation_record s' c = activation_record s c"
  shows "update_read_request P s' c = update_read_request P s c"
    and "update_write_request P s' c = update_write_request P s c"
  using assms by (auto simp: update_read_request_def update_write_request_def is_T_FAW_met_def Let_def)

section \<open>Power and rows\<close>

definition down :: "bank_t \<Rightarrow> bool" where
  "down b \<longleftrightarrow>
     state b \<in> {PRECHARGE_POWER_DOWN_FAST, PRECHARGE_POWER_DOWN_SLOW, ACTIVE_POWER_DOWN}"

definition power_ok :: "params \<Rightarrow> (int \<Rightarrow> bank_t) \<Rightarrow> bool" where
  "power_ok P B \<longleftrightarrow> (\<forall>b. valid_bank P b \<longrightarrow> down (B b) = down (B 0))"

definition open_of :: "bank_t \<Rightarrow> int option" where
  "open_of b = (if state b \<in> {ROW_ACTIVE, ACTIVE_POWER_DOWN} then Some (active_row b) else None)"

definition abs_rank :: "params \<Rightarrow> (int \<Rightarrow> bank_t) \<Rightarrow> rank_abs" where
  "abs_rank P B = \<lparr>powered_down = down (B 0),
     open_row = (\<lambda>b. if valid_bank P b then open_of (B b) else None)\<rparr>"

text \<open>The abstraction reads the power state and the open row of the banks.\<close>

lemma abs_rank_eqI:
  assumes "down (B' 0) = powered_down d"
    and "\<And>b. (if valid_bank P b then open_of (B' b) else None) = open_row d b"
  shows "abs_rank P B' = d"
  using assms by (auto simp: abs_rank_def)

lemma abs_rank_cong:
  assumes "\<And>b. state (B' b) = state (B b) \<and> active_row (B' b) = active_row (B b)"
  shows "abs_rank P B' = abs_rank P B"
proof -
  have "open_of (B' b) = open_of (B b)" and "down (B' b) = down (B b)" for b
    using assms [of b] by (auto simp: open_of_def down_def)
  then show ?thesis by (simp add: abs_rank_def cong: if_cong)
qed

definition legal :: "params \<Rightarrow> dram_event list \<Rightarrow> mc \<Rightarrow> bool" where
  "legal P es s \<longleftrightarrow>
     (\<exists>D. dram_run es dram_reset = Some D \<and>
        (\<forall>c r. valid_channel P c \<longrightarrow> valid_rank P r \<longrightarrow> D c r = abs_rank P (dram_state s c r)))"

section \<open>The invariant\<close>

definition rank_inv :: "params \<Rightarrow> int \<Rightarrow> dram_event list \<Rightarrow> int \<Rightarrow> int \<Rightarrow> mc \<Rightarrow> bool" where
  "rank_inv P m es c r s \<longleftrightarrow>
     refresh_ok P m (next_refresh_completion_deadline s c r) (refresh_issue_deadline s c r)
       (num_issued_refreshes s c r) (forced_refresh_mode_on s c r) \<and>
     tracked P (set es) c r (dram_state s c r) \<and>
     settled P (set es) c r m (next_refresh_completion_deadline s c r)
       (refresh_issue_deadline s c r) (num_issued_refreshes s c r) \<and>
     faw_inv P m (act_times c r es) (activation_record s c r) \<and>
     power_ok P (dram_state s c r)"

definition req_ok :: "params \<Rightarrow> int \<Rightarrow> request_t \<Rightarrow> bool" where
  "req_ok P c q \<longleftrightarrow> channel (dram_addr q) = c \<and> addr_in_range P (dram_addr q)"

definition queue_inv :: "params \<Rightarrow> int \<Rightarrow> mc \<Rightarrow> bool" where
  "queue_inv P c s \<longleftrightarrow>
     read_queue_length s c = int (length (read_queue s c)) \<and>
     write_queue_length s c = int (length (write_queue s c)) \<and>
     (\<forall>q\<in>set (read_queue s c). req_ok P c q \<and>
        (request_served q \<longrightarrow> next_command q = COL_READ_CMD \<and> completion_time q \<noteq> - 100)) \<and>
     (\<forall>q\<in>set (write_queue s c). req_ok P c q \<and>
        (request_served q \<longrightarrow> next_command q = COL_WRITE_CMD))"

definition cas_inv :: "params \<Rightarrow> int \<Rightarrow> mc \<Rightarrow> bool" where
  "cas_inv P c s \<longleftrightarrow>
     (\<forall>r b. valid_rank P r \<longrightarrow> valid_bank P b \<longrightarrow> cas_issued_current_cycle s c r b \<noteq> 0 \<longrightarrow>
        command_issued_current_cycle s c \<and> state (dram_state s c r b) = ROW_ACTIVE)"

definition ch_inv :: "params \<Rightarrow> int \<Rightarrow> dram_event list \<Rightarrow> int \<Rightarrow> mc \<Rightarrow> bool" where
  "ch_inv P m es c s \<longleftrightarrow>
     (\<forall>r. valid_rank P r \<longrightarrow> rank_inv P m es c r s) \<and> queue_inv P c s \<and> cas_inv P c s"

definition fresh :: "params \<Rightarrow> int \<Rightarrow> dram_event list \<Rightarrow> int \<Rightarrow> mc \<Rightarrow> bool" where
  "fresh P m es c s \<longleftrightarrow>
     (\<not> command_issued_current_cycle s c \<longrightarrow>
        (\<forall>r. valid_rank P r \<longrightarrow> (\<forall>t\<in>set (act_times c r es). t < m)) \<and>
        (\<forall>q\<in>set (read_queue s c). \<not> request_served q \<and> update_read_request P s c q = q) \<and>
        (\<forall>q\<in>set (write_queue s c). \<not> request_served q \<and> update_write_request P s c q = q))"

definition ctl_inv :: "params \<Rightarrow> int \<Rightarrow> dram_event list \<Rightarrow> mc \<Rightarrow> bool" where
  "ctl_inv P m es s \<longleftrightarrow>
     (\<forall>c. valid_channel P c \<longrightarrow> ch_inv P m es c s) \<and>
     timing_ok P es \<and> faw_ok P es \<and> legal P es s"

definition sched_inv :: "params \<Rightarrow> int \<Rightarrow> dram_event list \<Rightarrow> mc \<Rightarrow> bool" where
  "sched_inv P m es s \<longleftrightarrow>
     ctl_inv P m es s \<and> CYCLE_VAL s = m \<and> 0 \<le> m \<and> m < 2 ^ 31 \<and>
     (\<forall>c. valid_channel P c \<longrightarrow> fresh P m es c s)"

text \<open>The invariant of a channel reads its state and the commands on its bus only.\<close>

lemma covers_rank_only:
  assumes "ev_chan e \<noteq> c" shows "tracked P (insert e E) c r B = tracked P E c r B"
  using assms by (simp add: tracked_def)

lemma other_events:
  assumes "\<forall>f\<in>set fs. ev_chan f \<noteq> c"
  shows "tracked P (set (es @ fs)) c r B = tracked P (set es) c r B"
    and "settled P (set (es @ fs)) c r m cd dl n = settled P (set es) c r m cd dl n"
    and "act_times c r (es @ fs) = act_times c r es"
  using assms by (auto simp: tracked_def settled_def act_times_def filter_empty_conv)

lemma ch_inv_cong:
  assumes "chan_eq c s s'" and "\<forall>f\<in>set fs. ev_chan f \<noteq> c"
  shows "ch_inv P m (es @ fs) c s' = ch_inv P m es c s"
  using assms(1)
  unfolding ch_inv_def rank_inv_def queue_inv_def cas_inv_def other_events [OF assms(2)] chan_eq_def
  by simp

lemma fresh_cong:
  assumes "chan_eq c s s'" and "\<forall>f\<in>set fs. ev_chan f \<noteq> c"
  shows "fresh P m (es @ fs) c s' = fresh P m es c s"
proof -
  have "update_read_request P s' c = update_read_request P s c"
    "update_write_request P s' c = update_write_request P s c"
    using assms(1) by (auto simp: chan_eq_def intro!: update_request_cong)
  then show ?thesis using assms(1) unfolding fresh_def other_events(3) [OF assms(2)] chan_eq_def
    by simp
qed

section \<open>One call\<close>

text \<open>
  What a call that puts \<open>fs\<close> on the bus of channel \<open>c\<close> has to establish. The rest of the
  invariant follows.
\<close>

definition refines :: "params \<Rightarrow> int \<Rightarrow> mc \<Rightarrow> dram_event list \<Rightarrow> mc \<Rightarrow> bool" where
  "refines P c s fs s' \<longleftrightarrow>
     (\<forall>D. (\<forall>r. valid_rank P r \<longrightarrow> D c r = abs_rank P (dram_state s c r)) \<longrightarrow>
        (\<exists>D'. dram_run fs D = Some D' \<and> (\<forall>c'. c' \<noteq> c \<longrightarrow> D' c' = D c') \<and>
           (\<forall>r. valid_rank P r \<longrightarrow> D' c r = abs_rank P (dram_state s' c r))))"

definition same_refresh :: "int \<Rightarrow> mc \<Rightarrow> mc \<Rightarrow> bool" where
  "same_refresh c s s' \<longleftrightarrow>
     next_refresh_completion_deadline s' c = next_refresh_completion_deadline s c \<and>
     refresh_issue_deadline s' c = refresh_issue_deadline s c \<and>
     forced_refresh_mode_on s' c = forced_refresh_mode_on s c"

text \<open>The frame of a call that issues on channel \<open>c\<close>.\<close>

definition framed :: "int \<Rightarrow> mc \<Rightarrow> mc \<Rightarrow> bool" where
  "framed c s s' \<longleftrightarrow>
     (\<forall>c'. c' \<noteq> c \<longrightarrow> chan_eq c' s s') \<and> CYCLE_VAL s' = CYCLE_VAL s \<and>
     command_issued_current_cycle s' c \<and> same_refresh c s s'"

definition banks_later :: "params \<Rightarrow> int \<Rightarrow> int \<Rightarrow> mc \<Rightarrow> mc \<Rightarrow> bool" where
  "banks_later P m c s s' \<longleftrightarrow>
     (\<forall>r b. valid_rank P r \<longrightarrow> valid_bank P b \<longrightarrow>
        later P m (dram_state s c r b) (dram_state s' c r b))"

text \<open>
  A call that issues: the frame, the earliest times, the deadlines and the abstract DRAM.
\<close>

definition issues :: "params \<Rightarrow> int \<Rightarrow> int \<Rightarrow> mc \<Rightarrow> dram_event list \<Rightarrow> mc \<Rightarrow> bool" where
  "issues P m c s fs s' \<longleftrightarrow>
     framed c s s' \<and> banks_later P m c s s' \<and>
     (\<forall>f\<in>set fs. ev_chan f = c \<and> valid_rank P (ev_rank f) \<and>
        timely P f (dram_state s c (ev_rank f)) \<and>
        settled_event P m (next_refresh_completion_deadline s' c (ev_rank f))
          (refresh_issue_deadline s' c (ev_rank f)) (num_issued_refreshes s' c (ev_rank f)) f \<and>
        (\<forall>r. valid_rank P r \<longrightarrow> covers P f r (dram_state s' c r))) \<and>
     timing_ok P fs \<and> refines P c s fs s' \<and>
     (\<forall>r. valid_rank P r \<longrightarrow> power_ok P (dram_state s' c r))"

lemma refines_legal:
  assumes "legal P es s" and "refines P c s fs s'" and "valid_channel P c"
    and "\<And>c'. c' \<noteq> c \<Longrightarrow> chan_eq c' s s'"
  shows "legal P (es @ fs) s'"
proof -
  obtain D where run: "dram_run es dram_reset = Some D"
    and D: "\<And>c r. valid_channel P c \<Longrightarrow> valid_rank P r \<Longrightarrow> D c r = abs_rank P (dram_state s c r)"
    using assms(1) by (auto simp: legal_def)
  obtain D' where D': "dram_run fs D = Some D'" "\<forall>c'. c' \<noteq> c \<longrightarrow> D' c' = D c'"
    "\<forall>r. valid_rank P r \<longrightarrow> D' c r = abs_rank P (dram_state s' c r)"
    using assms(2) D [OF assms(3)] unfolding refines_def by blast
  have frame: "dram_state s' c' = dram_state s c'" if "c' \<noteq> c" for c'
    using assms(4) [OF that] by (simp add: chan_eq_def)
  have "D' c' r = abs_rank P (dram_state s' c' r)" if "valid_channel P c'" "valid_rank P r" for c' r
    using D [OF that] D' frame that by (cases "c' = c") auto
  moreover have "dram_run (es @ fs) dram_reset = Some D'" by (simp add: dram_run_append run D')
  ultimately show ?thesis unfolding legal_def by blast
qed

lemma rank_inv_issues:
  assumes inv: "rank_inv P m es c r s" and r: "valid_rank P r"
    and op: "issues P m c s fs s'"
    and refr: "refresh_ok P m (next_refresh_completion_deadline s c r)
      (refresh_issue_deadline s c r) (num_issued_refreshes s' c r) (forced_refresh_mode_on s c r)"
      "num_issued_refreshes s' c r < 8 \<Longrightarrow> num_issued_refreshes s c r < 8"
    and faw: "faw_inv P m (act_times c r (es @ fs)) (activation_record s' c r)"
  shows "rank_inv P m (es @ fs) c r s'"
  unfolding rank_inv_def
proof (intro conjI)
  have eq: "next_refresh_completion_deadline s' c = next_refresh_completion_deadline s c"
    "refresh_issue_deadline s' c = refresh_issue_deadline s c"
    "forced_refresh_mode_on s' c = forced_refresh_mode_on s c"
    using op by (auto simp: issues_def framed_def same_refresh_def)
  show "refresh_ok P m (next_refresh_completion_deadline s' c r) (refresh_issue_deadline s' c r)
      (num_issued_refreshes s' c r) (forced_refresh_mode_on s' c r)"
    using refr(1) by (simp add: eq)
  have past: "ev_time e \<le> m"
    if "e \<in> set es" "ev_chan e = c" "ev_kind e = KPwrDn" "ev_rank e = r" for e
    using inv that by (auto simp: rank_inv_def settled_def settled_event_def)
  have mono: "later P m (dram_state s c r b) (dram_state s' c r b)" if "valid_bank P b" for b
    using op r that by (simp add: issues_def banks_later_def)
  have "tracked P (set es) c r (dram_state s c r)" using inv by (simp add: rank_inv_def)
  then have "tracked P (set es) c r (dram_state s' c r)" by (rule tracked_later) (rule mono, simp, rule past)
  moreover have "tracked P (set fs) c r (dram_state s' c r)"
    using op r by (auto simp: tracked_def issues_def)
  ultimately show "tracked P (set (es @ fs)) c r (dram_state s' c r)" by simp
  have "settled P (set es) c r m (next_refresh_completion_deadline s' c r)
      (refresh_issue_deadline s' c r) (num_issued_refreshes s' c r)"
    unfolding settled_def eq
  proof (intro ballI impI, elim conjE)
    fix e
    assume "e \<in> set es" "ev_chan e = c" "ev_rank e = r"
    then have "settled_event P m (next_refresh_completion_deadline s c r)
        (refresh_issue_deadline s c r) (num_issued_refreshes s c r) e"
      using inv by (simp add: rank_inv_def settled_def)
    then show "settled_event P m (next_refresh_completion_deadline s c r)
        (refresh_issue_deadline s c r) (num_issued_refreshes s' c r) e"
      by (rule settled_event_mono) (simp_all add: refr(2))
  qed
  moreover have "settled P (set fs) c r m (next_refresh_completion_deadline s' c r)
      (refresh_issue_deadline s' c r) (num_issued_refreshes s' c r)"
    using op by (auto simp: settled_def issues_def)
  ultimately show "settled P (set (es @ fs)) c r m (next_refresh_completion_deadline s' c r)
      (refresh_issue_deadline s' c r) (num_issued_refreshes s' c r)" by simp
qed (use op r faw in \<open>auto simp: issues_def\<close>)


lemma timing_ok_issues:
  assumes "timing_ok P es" and inv: "\<And>r. valid_rank P r \<Longrightarrow> rank_inv P m es c r s"
    and op: "issues P m c s fs s'"
  shows "timing_ok P (es @ fs)"
proof -
  have "keeps_gap P e f" if e: "e \<in> set es" and f: "f \<in> set fs" for e f
  proof (rule keeps_gap_timely)
    show "tracked P (set es) (ev_chan f) (ev_rank f) (dram_state s c (ev_rank f))"
      using inv op f by (auto simp: issues_def rank_inv_def)
    show "timely P f (dram_state s c (ev_rank f))" using op f by (simp add: issues_def)
  qed (rule e)
  then show ?thesis using assms(1) op by (simp add: timing_ok_append issues_def)
qed

text \<open>
  The step lemma: a call that issues keeps the invariant, given what it does to the refresh
  count, the activation record and the queues.
\<close>

lemma sched_issues:
  assumes inv: "sched_inv P m es s" and c: "valid_channel P c" and op: "issues P m c s fs s'"
    and refr: "\<And>r. valid_rank P r \<Longrightarrow> refresh_ok P m (next_refresh_completion_deadline s c r)
      (refresh_issue_deadline s c r) (num_issued_refreshes s' c r) (forced_refresh_mode_on s c r)"
      "\<And>r. valid_rank P r \<Longrightarrow> num_issued_refreshes s' c r < 8 \<Longrightarrow> num_issued_refreshes s c r < 8"
    and faw: "\<And>r. valid_rank P r \<Longrightarrow> faw_inv P m (act_times c r (es @ fs)) (activation_record s' c r)"
      "faw_ok P (es @ fs)"
    and q: "queue_inv P c s'" and cas: "cas_inv P c s'"
  shows "sched_inv P m (es @ fs) s'"
proof -
  have ctl: "ctl_inv P m es s" and m: "CYCLE_VAL s = m" "0 \<le> m" "m < 2 ^ 31"
    using inv by (simp_all add: sched_inv_def)
  have ranks: "rank_inv P m es c r s" if "valid_rank P r" for r
    using ctl c that by (simp add: ctl_inv_def ch_inv_def)
  have frame: "chan_eq c' s s'" if "c' \<noteq> c" for c'
    using op that by (simp add: issues_def framed_def)
  have other: "\<forall>f\<in>set fs. ev_chan f \<noteq> c'" if "c' \<noteq> c" for c'
    using op that by (auto simp: issues_def)
  have "rank_inv P m (es @ fs) c r s'" if "valid_rank P r" for r
    by (rule rank_inv_issues [OF ranks [OF that] that op refr(1) [OF that] refr(2) [OF that] faw(1) [OF that]])
  then have "ch_inv P m (es @ fs) c s'" using q cas by (simp add: ch_inv_def)
  then have "ch_inv P m (es @ fs) c' s'" if "valid_channel P c'" for c'
    using ch_inv_cong [OF frame other, of c'] ctl that by (cases "c' = c") (auto simp: ctl_inv_def)
  moreover have "timing_ok P (es @ fs)"
    using ctl ranks op by (intro timing_ok_issues [of P es m c s]) (simp_all add: ctl_inv_def)
  moreover have "legal P (es @ fs) s'"
    using ctl op c by (intro refines_legal [of P es s c]) (simp_all add: ctl_inv_def issues_def framed_def)
  ultimately have "ctl_inv P m (es @ fs) s'" using faw(2) by (simp add: ctl_inv_def)
  moreover have "fresh P m (es @ fs) c' s'" if "valid_channel P c'" for c'
  proof (cases "c' = c")
    case True
    then show ?thesis using op by (simp add: fresh_def issues_def framed_def)
  next
    case False
    then show ?thesis using fresh_cong [OF frame other, of c'] inv that by (simp add: sched_inv_def)
  qed
  moreover have "CYCLE_VAL s' = m" using op m by (simp add: issues_def framed_def)
  ultimately show ?thesis using m by (simp add: sched_inv_def)
qed

text \<open>The common case: no activate and no refresh.\<close>

lemma act_times_none:
  "\<forall>f\<in>set fs. ev_kind f \<noteq> KAct \<Longrightarrow> act_times c r fs = []"
  by (simp add: act_times_def)

lemma sched_issues_plain:
  assumes inv: "sched_inv P m es s" and c: "valid_channel P c" and op: "issues P m c s fs s'"
    and "\<forall>f\<in>set fs. ev_kind f \<noteq> KAct"
    and "num_issued_refreshes s' c = num_issued_refreshes s c"
    and "activation_record s' c = activation_record s c"
    and "queue_inv P c s'" and "cas_inv P c s'"
  shows "sched_inv P m (es @ fs) s'"
proof (rule sched_issues [OF inv c op])
  have ranks: "rank_inv P m es c r s" if "valid_rank P r" for r
    using inv c that by (simp add: sched_inv_def ctl_inv_def ch_inv_def)
  then show "refresh_ok P m (next_refresh_completion_deadline s c r)
      (refresh_issue_deadline s c r) (num_issued_refreshes s' c r) (forced_refresh_mode_on s c r)"
    "faw_inv P m (act_times c r (es @ fs)) (activation_record s' c r)" if "valid_rank P r" for r
    using that assms(4-6) by (simp_all add: rank_inv_def act_times_none)
  show "faw_ok P (es @ fs)"
    using inv assms(4) by (simp add: sched_inv_def ctl_inv_def faw_ok_def act_times_none)
qed (use assms in simp_all)

lemma queue_inv_cong:
  assumes "read_queue s' c = read_queue s c" and "write_queue s' c = write_queue s c"
    and "read_queue_length s' c = read_queue_length s c"
    and "write_queue_length s' c = write_queue_length s c"
  shows "queue_inv P c s' = queue_inv P c s"
  using assms by (simp add: queue_inv_def)


section \<open>One command\<close>

lemma refines_single:
  assumes "accepts (abs_rank P (dram_state s c r)) e" and "ev_chan e = c" and "ev_rank e = r"
    and "valid_rank P r"
    and "abs_rank P (dram_state s' c r) = after (abs_rank P (dram_state s c r)) e"
    and "\<And>r'. valid_rank P r' \<Longrightarrow> r' \<noteq> r \<Longrightarrow>
      abs_rank P (dram_state s' c r') = abs_rank P (dram_state s c r')"
  shows "refines P c s [e] s'"
  unfolding refines_def
proof (intro allI impI)
  fix D
  assume D: "\<forall>r. valid_rank P r \<longrightarrow> D c r = abs_rank P (dram_state s c r)"
  then have "D c r = abs_rank P (dram_state s c r)" using assms(4) by simp
  then show "\<exists>D'. dram_run [e] D = Some D' \<and> (\<forall>c'. c' \<noteq> c \<longrightarrow> D' c' = D c') \<and>
      (\<forall>r. valid_rank P r \<longrightarrow> D' c r = abs_rank P (dram_state s' c r))"
    using assms D
    by (intro exI [where x = "upd2 D c r (after (D c r) e)"]) (auto simp: fun_eq_iff)
qed

lemma issues_single:
  assumes "framed c s s'" and "banks_later P m c s s'" and "valid_rank P r"
    and "e = event t c r b w k"
    and "timely P e (dram_state s c r)"
    and "settled_event P m (next_refresh_completion_deadline s c r)
      (refresh_issue_deadline s c r) (num_issued_refreshes s' c r) e"
    and "\<And>r'. valid_rank P r' \<Longrightarrow> covers P e r' (dram_state s' c r')"
    and "accepts (abs_rank P (dram_state s c r)) e"
    and "abs_rank P (dram_state s' c r) = after (abs_rank P (dram_state s c r)) e"
    and "\<And>r'. valid_rank P r' \<Longrightarrow> r' \<noteq> r \<Longrightarrow>
      abs_rank P (dram_state s' c r') = abs_rank P (dram_state s c r')"
    and "\<And>r'. valid_rank P r' \<Longrightarrow> power_ok P (dram_state s' c r')"
  shows "issues P m c s [e] s'"
proof -
  have "refines P c s [e] s'" by (rule refines_single) (use assms in simp_all)
  then show ?thesis using assms by (simp add: issues_def framed_def same_refresh_def)
qed

text \<open>How the bank updates move the times.\<close>

lemma later_bank [simp, bank_simps]:
  "later P m b (bank_act P t w b)" "later P m b (bank_pre t b)"
  "later P m b (bank_power_up P t b)" "later P m b (bank_refresh_delay t b)"
  "later P m b (bank_power_down P m cmd b)"
  by (auto simp: later_def bank_act_def bank_pre_def bank_power_up_def bank_refresh_delay_def
      bank_power_down_def Let_def)

lemma down_bank [simp, bank_simps]:
  "\<not> down (bank_pre t b)" "\<not> down (bank_act P t w b)" "\<not> down (bank_power_up P t b)"
  "\<not> down b \<Longrightarrow> cmd \<in> {PWR_DN_SLOW_CMD, PWR_DN_FAST_CMD} \<Longrightarrow> down (bank_power_down P t cmd b)"
  by (cases "state b"; auto simp: down_def bank_pre_def bank_act_def bank_power_up_def
      bank_power_down_def Let_def)+

lemma open_of_bank [simp, bank_simps]:
  "open_of (bank_pre t b) = None" "open_of (bank_act P t w b) = Some w"
  "down b \<Longrightarrow> open_of (bank_power_up P t b) = open_of b"
  "\<not> down b \<Longrightarrow> cmd \<in> {PWR_DN_SLOW_CMD, PWR_DN_FAST_CMD} \<Longrightarrow>
     open_of (bank_power_down P t cmd b) = open_of b"
  by (cases "state b"; auto simp: open_of_def down_def bank_pre_def bank_act_def bank_power_up_def
      bank_power_down_def Let_def)+

end
