(* ===== verification/Api.thy ===== *)
theory Api
  imports Invariant
begin

text \<open>
  Every call of the controller's interface keeps the invariant and never aborts: the
  operations of \<open>Commands\<close>, one by one, and then \<open>api_step\<close> and \<open>api_steps\<close>.
\<close>

section \<open>The invariant, taken apart\<close>

lemma sched_rank: "sched_inv P m es s \<Longrightarrow> valid_channel P c \<Longrightarrow> valid_rank P r \<Longrightarrow> rank_inv P m es c r s"
  by (simp add: sched_inv_def ctl_inv_def ch_inv_def)

lemma sched_queue: "sched_inv P m es s \<Longrightarrow> valid_channel P c \<Longrightarrow> queue_inv P c s"
  by (simp add: sched_inv_def ctl_inv_def ch_inv_def)

lemma sched_cas: "sched_inv P m es s \<Longrightarrow> valid_channel P c \<Longrightarrow> cas_inv P c s"
  by (simp add: sched_inv_def ctl_inv_def ch_inv_def)

lemma sched_fresh: "sched_inv P m es s \<Longrightarrow> valid_channel P c \<Longrightarrow> fresh P m es c s"
  by (simp add: sched_inv_def)

lemma sched_clock: "sched_inv P m es s \<Longrightarrow> CYCLE_VAL s = m \<and> 0 \<le> m \<and> m < 2 ^ 31"
  by (simp add: sched_inv_def)

lemma sched_power: "sched_inv P m es s \<Longrightarrow> valid_channel P c \<Longrightarrow> valid_rank P r \<Longrightarrow>
    power_ok P (dram_state s c r)"
  by (drule (2) sched_rank) (simp add: rank_inv_def)

lemma sched_deadline:
  assumes "sched_inv P m es s" and "valid_channel P c" and "valid_rank P r"
    and "\<not> forced_refresh_mode_on s c r" and "num_issued_refreshes s c r < 8" and "wf_timing P"
  shows "m + T_RP P + T_RFC P < next_refresh_completion_deadline s c r"
    and "m < refresh_issue_deadline s c r"
proof -
  let ?n = "num_issued_refreshes s c r" and ?dl = "refresh_issue_deadline s c r"
    and ?cd = "next_refresh_completion_deadline s c r"
  have "refresh_ok P m ?cd ?dl ?n (forced_refresh_mode_on s c r)"
    using sched_rank [OF assms(1-3)] by (simp add: rank_inv_def)
  then have "m < ?dl" and le: "?dl \<le> ?cd - T_RP P - (8 - ?n) * T_RFC P"
    using assms(4,5) by (auto simp: refresh_ok_def)
  moreover have "T_RFC P \<le> (8 - ?n) * T_RFC P"
    using assms(5,6) by (simp add: wf_timing_def mult_le_cancel_right1)
  ultimately show "m + T_RP P + T_RFC P < ?cd" and "m < ?dl" by linarith+
qed

lemma sched_deadline_le:
  assumes "sched_inv P m es s" and "valid_channel P c" and "valid_rank P r" and "wf_timing P"
  shows "refresh_issue_deadline s c r + T_RP P \<le> next_refresh_completion_deadline s c r"
proof -
  let ?n = "num_issued_refreshes s c r"
  have "refresh_issue_deadline s c r \<le> next_refresh_completion_deadline s c r - T_RP P - (8 - ?n) * T_RFC P"
    and "?n \<le> 8"
    using sched_rank [OF assms(1-3)] by (auto simp: rank_inv_def refresh_ok_def)
  moreover have "0 \<le> (8 - ?n) * T_RFC P" using calculation assms(4) by (simp add: wf_timing_def)
  ultimately show ?thesis by linarith
qed

text \<open>A command to one rank leaves the power state of the others alone.\<close>

lemma power_ok_step:
  assumes "\<And>r'. valid_rank P r' \<Longrightarrow> power_ok P (dram_state s c r')"
    and "power_ok P (dram_state s' c r)" and "valid_rank P r'"
    and "\<And>b'. r' \<noteq> r \<Longrightarrow> dram_state s' c r' b' = dram_state s c r' b'"
  shows "power_ok P (dram_state s' c r')"
proof (cases "r' = r")
  case False
  then have "dram_state s' c r' = dram_state s c r'" using assms(4) by (intro ext) simp
  then show ?thesis using assms(1,3) by simp
qed (use assms(2) in simp)

section \<open>Precharge\<close>

lemma issues_precharge:
  assumes frame: "framed c s s'" and r: "valid_rank P r" and b: "valid_bank P b"
    and dram: "\<And>r' b'. dram_state s' c r' b' =
      (if r' = r \<and> b' = b then bank_pre (t + T_RP P) (dram_state s c r b) else dram_state s c r' b')"
    and power: "\<And>r'. valid_rank P r' \<Longrightarrow> power_ok P (dram_state s c r')"
    and up: "\<not> down (dram_state s c r b)"
    and t: "next_pre (dram_state s c r b) \<le> t" "t + T_RP P \<le> refresh_issue_deadline s c r"
  shows "issues P m c s [event t c r b 0 KPre] s'"
proof (rule issues_single [OF frame _ r refl])
  have zero: "valid_bank P 0" using b by (simp add: valid_bank_def)
  have down0: "\<not> down (dram_state s c r 0)" and all_up: "\<And>b'. valid_bank P b' \<Longrightarrow> \<not> down (dram_state s c r b')"
    using power [OF r] up b by (auto simp: power_ok_def)
  show "banks_later P m c s s'" by (simp add: banks_later_def dram)
  show "timely P (event t c r b 0 KPre) (dram_state s c r)"
    using t by (simp add: timely_def rank_level_def)
  show "settled_event P m (next_refresh_completion_deadline s c r) (refresh_issue_deadline s c r)
      (num_issued_refreshes s' c r) (event t c r b 0 KPre)"
    using t by (simp add: settled_event_def)
  show "covers P (event t c r b 0 KPre) r' (dram_state s' c r')" for r'
    by (simp add: covers_event dram bank_pre_def)
  show "accepts (abs_rank P (dram_state s c r)) (event t c r b 0 KPre)"
    using down0 by (simp add: accepts_def abs_rank_def)
  show "abs_rank P (dram_state s' c r) =
      after (abs_rank P (dram_state s c r)) (event t c r b 0 KPre)"
    using down0 by (intro abs_rank_eqI) (auto simp: abs_rank_def after_def dram)
  show "abs_rank P (dram_state s' c r') = abs_rank P (dram_state s c r')" if "r' \<noteq> r" for r'
    using that by (intro abs_rank_cong) (simp add: dram)
  show "power_ok P (dram_state s' c r')" if "valid_rank P r'" for r'
  proof (rule power_ok_step [OF power _ that])
    show "power_ok P (dram_state s' c r)" using down0 all_up by (auto simp: power_ok_def dram)
  qed (simp_all add: dram)
qed

section \<open>Activate\<close>

lemma issues_activate:
  assumes frame: "framed c s s'" and r: "valid_rank P r" and b: "valid_bank P b"
    and dram: "\<And>r' b'. dram_state s' c r' b' =
      (if r' = r \<and> b' = b then bank_act P m w (dram_state s c r b)
       else if r' = r \<and> valid_bank P b' then (dram_state s c r b')
         \<lparr>next_act := max (m + T_RRD P) (next_act (dram_state s c r b'))\<rparr>
       else dram_state s c r' b')"
    and power: "\<And>r'. valid_rank P r' \<Longrightarrow> power_ok P (dram_state s c r')"
    and closed: "state (dram_state s c r b) \<in> {IDLE, PRECHARGING, REFRESHING}"
    and m: "next_act (dram_state s c r b) \<le> m" "m + T_RAS P \<le> refresh_issue_deadline s c r"
  shows "issues P m c s [event m c r b w KAct] s'"
proof (rule issues_single [OF frame _ r refl])
  have down0: "\<not> down (dram_state s c r 0)" and all_up: "\<And>b'. valid_bank P b' \<Longrightarrow> \<not> down (dram_state s c r b')"
    using power [OF r] closed b by (auto simp: power_ok_def down_def)
  have still: "down (k\<lparr>next_act := x\<rparr>) = down k" "open_of (k\<lparr>next_act := x\<rparr>) = open_of k" for k x
    by (simp_all add: down_def open_of_def)
  show "banks_later P m c s s'" by (auto simp: banks_later_def dram later_def bank_act_def)
  show "timely P (event m c r b w KAct) (dram_state s c r)"
    using m by (simp add: timely_def rank_level_def)
  show "settled_event P m (next_refresh_completion_deadline s c r) (refresh_issue_deadline s c r)
      (num_issued_refreshes s' c r) (event m c r b w KAct)"
    using m by (simp add: settled_event_def)
  show "covers P (event m c r b w KAct) r' (dram_state s' c r')" for r'
    by (simp add: covers_event dram bank_act_def)
  show "accepts (abs_rank P (dram_state s c r)) (event m c r b w KAct)"
    using down0 closed by (auto simp: accepts_def abs_rank_def open_of_def)
  show "abs_rank P (dram_state s' c r) =
      after (abs_rank P (dram_state s c r)) (event m c r b w KAct)"
    using down0 b by (intro abs_rank_eqI) (auto simp: abs_rank_def after_def dram still)
  show "abs_rank P (dram_state s' c r') = abs_rank P (dram_state s c r')" if "r' \<noteq> r" for r'
    using that by (intro abs_rank_cong) (simp add: dram)
  show "power_ok P (dram_state s' c r')" if "valid_rank P r'" for r'
  proof (rule power_ok_step [OF power _ that])
    show "power_ok P (dram_state s' c r)" using down0 all_up by (auto simp: power_ok_def dram still)
  qed (simp_all add: dram)
qed

section \<open>Column commands\<close>

lemma issues_column:
  assumes frame: "framed c s s'" and r: "valid_rank P r" and b: "valid_bank P b"
    and k: "k = KRead \<and> next_read (dram_state s c r b) \<le> m \<and> m + T_RTP P \<le> refresh_issue_deadline s c r \<or>
      k = KWrite \<and> next_write (dram_state s c r b) \<le> m \<and>
      m + write_recovery P \<le> refresh_issue_deadline s c r"
    and same: "\<And>r' b'. state (dram_state s' c r' b') = state (dram_state s c r' b') \<and>
      active_row (dram_state s' c r' b') = active_row (dram_state s c r' b')"
    and mono: "banks_later P m c s s'"
    and covers: "\<And>r'. valid_rank P r' \<Longrightarrow> covers P (event m c r b w k) r' (dram_state s' c r')"
    and power: "\<And>r'. valid_rank P r' \<Longrightarrow> power_ok P (dram_state s c r')"
    and active: "state (dram_state s c r b) = ROW_ACTIVE" "active_row (dram_state s c r b) = w"
  shows "issues P m c s [event m c r b w k] s'"
proof (rule issues_single [OF frame mono r refl])
  have abs_eq: "abs_rank P (dram_state s' c r') = abs_rank P (dram_state s c r')" for r'
    using same by (rule abs_rank_cong)
  show "timely P (event m c r b w k) (dram_state s c r)"
    using k by (auto simp: timely_def rank_level_def)
  show "settled_event P m (next_refresh_completion_deadline s c r) (refresh_issue_deadline s c r)
      (num_issued_refreshes s' c r) (event m c r b w k)"
    using k by (auto simp: settled_event_def)
  have "\<not> down (dram_state s c r 0)" using power [OF r] active b by (auto simp: power_ok_def down_def)
  then show "accepts (abs_rank P (dram_state s c r)) (event m c r b w k)"
    using k active b by (auto simp: accepts_def abs_rank_def open_of_def)
  show "abs_rank P (dram_state s' c r) = after (abs_rank P (dram_state s c r)) (event m c r b w k)"
    using k by (auto simp: abs_eq after_def)
  show "power_ok P (dram_state s' c r')" if "valid_rank P r'" for r'
    using power [OF that] same by (simp add: power_ok_def down_def)
  show "abs_rank P (dram_state s' c r') = abs_rank P (dram_state s c r')" for r' by (rule abs_eq)
qed (rule covers)

section \<open>Power\<close>

lemma issues_power_up:
  assumes frame: "framed c s s'" and r: "valid_rank P r"
    and dram: "\<And>r' b'. dram_state s' c r' b' =
      (if r' = r \<and> valid_bank P b' then bank_power_up P m (dram_state s c r b') else dram_state s c r' b')"
    and power: "\<And>r'. valid_rank P r' \<Longrightarrow> power_ok P (dram_state s c r')"
    and b: "valid_bank P b" "down (dram_state s c r b)" "next_powerup (dram_state s c r b) \<le> m"
    and dl: "num_issued_refreshes s' c r < 8 \<Longrightarrow> m + T_XP P \<le> next_refresh_completion_deadline s c r"
  shows "issues P m c s [event m c r 0 0 KPwrUp] s'"
proof (rule issues_single [OF frame _ r refl])
  have zero: "valid_bank P 0" using b by (simp add: valid_bank_def)
  have all_down: "down (dram_state s c r b')" if "valid_bank P b'" for b'
    using power [OF r] b that by (auto simp: power_ok_def)
  show "banks_later P m c s s'" by (simp add: banks_later_def dram)
  show "timely P (event m c r 0 0 KPwrUp) (dram_state s c r)"
    using b by (auto simp: timely_def)
  show "settled_event P m (next_refresh_completion_deadline s c r) (refresh_issue_deadline s c r)
      (num_issued_refreshes s' c r) (event m c r 0 0 KPwrUp)"
    using dl by (simp add: settled_event_def)
  show "covers P (event m c r 0 0 KPwrUp) r' (dram_state s' c r')" for r'
    by (auto simp: covers_event dram bank_power_up_def Let_def)
  show "accepts (abs_rank P (dram_state s c r)) (event m c r 0 0 KPwrUp)"
    using all_down [OF zero] by (simp add: accepts_def abs_rank_def)
  show "abs_rank P (dram_state s' c r) =
      after (abs_rank P (dram_state s c r)) (event m c r 0 0 KPwrUp)"
    using zero all_down by (intro abs_rank_eqI) (auto simp: abs_rank_def after_def dram)
  show "abs_rank P (dram_state s' c r') = abs_rank P (dram_state s c r')" if "r' \<noteq> r" for r'
    using that by (intro abs_rank_cong) (simp add: dram)
  show "power_ok P (dram_state s' c r')" if "valid_rank P r'" for r'
  proof (rule power_ok_step [OF power _ that])
    show "power_ok P (dram_state s' c r)" using zero by (auto simp: power_ok_def dram)
  qed (simp_all add: dram)
qed

lemma issues_power_down:
  assumes frame: "framed c s s'" and r: "valid_rank P r" and banks: "valid_bank P 0"
    and dram: "\<And>r' b'. dram_state s' c r' b' =
      (if r' = r \<and> valid_bank P b' then bank_power_down P m cmd (dram_state s c r b')
       else dram_state s c r' b')"
    and cmd: "cmd \<in> {PWR_DN_SLOW_CMD, PWR_DN_FAST_CMD}"
    and power: "\<And>r'. valid_rank P r' \<Longrightarrow> power_ok P (dram_state s c r')"
    and ok: "\<And>b. valid_bank P b \<Longrightarrow> \<not> down (dram_state s c r b) \<and> next_powerdown (dram_state s c r b) \<le> m"
    and dl: "m + T_PD_MIN P \<le> refresh_issue_deadline s c r"
  shows "issues P m c s [event m c r 0 0 KPwrDn] s'"
proof (rule issues_single [OF frame _ r refl])
  show "banks_later P m c s s'" by (simp add: banks_later_def dram)
  show "timely P (event m c r 0 0 KPwrDn) (dram_state s c r)"
    using ok by (auto simp: timely_def)
  show "settled_event P m (next_refresh_completion_deadline s c r) (refresh_issue_deadline s c r)
      (num_issued_refreshes s' c r) (event m c r 0 0 KPwrDn)"
    using dl by (simp add: settled_event_def)
  show "covers P (event m c r 0 0 KPwrDn) r' (dram_state s' c r')" for r'
    by (auto simp: covers_event dram bank_power_down_def Let_def)
  show "accepts (abs_rank P (dram_state s c r)) (event m c r 0 0 KPwrDn)"
    using ok [OF banks] by (simp add: accepts_def abs_rank_def)
  show "abs_rank P (dram_state s' c r) =
      after (abs_rank P (dram_state s c r)) (event m c r 0 0 KPwrDn)"
    using banks ok cmd by (intro abs_rank_eqI) (auto simp: abs_rank_def after_def dram)
  show "abs_rank P (dram_state s' c r') = abs_rank P (dram_state s c r')" if "r' \<noteq> r" for r'
    using that by (intro abs_rank_cong) (simp add: dram)
  show "power_ok P (dram_state s' c r')" if "valid_rank P r'" for r'
  proof (rule power_ok_step [OF power _ that])
    show "power_ok P (dram_state s' c r)" using banks ok cmd by (auto simp: power_ok_def dram)
  qed (simp_all add: dram)
qed

lemma issues_refresh:
  assumes frame: "framed c s s'" and r: "valid_rank P r" and banks: "valid_bank P 0"
    and dram: "\<And>r' b'. dram_state s' c r' b' =
      (if r' = r \<and> valid_bank P b' then (bank_refresh_delay (m + d) (dram_state s c r b'))
         \<lparr>active_row := - 1, state := REFRESHING\<rparr>
       else dram_state s c r' b')"
    and power: "\<And>r'. valid_rank P r' \<Longrightarrow> power_ok P (dram_state s c r')"
    and d: "T_RFC P \<le> d"
    and ok: "\<And>b. valid_bank P b \<Longrightarrow> next_refresh (dram_state s c r b) \<le> m"
    and cd: "num_issued_refreshes s' c r < 8 \<Longrightarrow> m + T_RFC P \<le> next_refresh_completion_deadline s c r"
  shows "issues P m c s [event m c r 0 0 KRef] s'"
proof (rule issues_single [OF frame _ r refl])
  show "banks_later P m c s s'" by (auto simp: banks_later_def dram later_def bank_refresh_delay_def)
  show "timely P (event m c r 0 0 KRef) (dram_state s c r)"
    using ok by (auto simp: timely_def)
  show "settled_event P m (next_refresh_completion_deadline s c r) (refresh_issue_deadline s c r)
      (num_issued_refreshes s' c r) (event m c r 0 0 KRef)"
    using cd by (simp add: settled_event_def)
  show "covers P (event m c r 0 0 KRef) r' (dram_state s' c r')" for r'
    using d by (auto simp: covers_event dram bank_refresh_delay_def)
  show "accepts (abs_rank P (dram_state s c r)) (event m c r 0 0 KRef)"
    by (simp add: accepts_def)
  show "abs_rank P (dram_state s' c r) =
      after (abs_rank P (dram_state s c r)) (event m c r 0 0 KRef)"
    using banks by (intro abs_rank_eqI) (auto simp: after_def dram down_def open_of_def)
  show "abs_rank P (dram_state s' c r') = abs_rank P (dram_state s c r')" if "r' \<noteq> r" for r'
    using that by (intro abs_rank_cong) (simp add: dram)
  show "power_ok P (dram_state s' c r')" if "valid_rank P r'" for r'
  proof (rule power_ok_step [OF power _ that])
    show "power_ok P (dram_state s' c r)" using banks by (auto simp: power_ok_def dram down_def)
  qed (simp_all add: dram)
qed


section \<open>The operations\<close>

lemma upd_other [simp, array_simps]:
  "i' \<noteq> i \<Longrightarrow> upd2 f i j v i' = f i'" "i' \<noteq> i \<Longrightarrow> upd3 g i j k w i' = g i'"
  by (simp_all add: upd2_def upd3_def)

text \<open>The updates on the path of a command change channel \<open>c\<close> only.\<close>

lemma chan_eq_updates [simp, frame_simps]:
  "c' \<noteq> c \<Longrightarrow> chan_eq c' s (upd_bank c r b f t) = chan_eq c' s t"
  "c' \<noteq> c \<Longrightarrow> chan_eq c' s (upd_banks P c r g t) = chan_eq c' s t"
  "c' \<noteq> c \<Longrightarrow> chan_eq c' s (upd_channel P c h t) = chan_eq c' s t"
  "chan_eq c' s (upd_stats k t) = chan_eq c' s t"
  "c' \<noteq> c \<Longrightarrow> chan_eq c' s (issued c t) = chan_eq c' s t"
  "ptr_channel p \<noteq> c' \<Longrightarrow> chan_eq c' s (upd_req p q t) = chan_eq c' s t"
  "chan_eq c' s (t\<lparr>ROB := rob\<rparr>) = chan_eq c' s t"
  "rq c' = read_queue t c' \<Longrightarrow> chan_eq c' s (t\<lparr>read_queue := rq\<rparr>) = chan_eq c' s t"
  "wq c' = write_queue t c' \<Longrightarrow> chan_eq c' s (t\<lparr>write_queue := wq\<rparr>) = chan_eq c' s t"
  "a c' = activation_record t c' \<Longrightarrow> chan_eq c' s (t\<lparr>activation_record := a\<rparr>) = chan_eq c' s t"
  "d c' = cas_issued_current_cycle t c' \<Longrightarrow>
     chan_eq c' s (t\<lparr>cas_issued_current_cycle := d\<rparr>) = chan_eq c' s t"
  "n c' = num_issued_refreshes t c' \<Longrightarrow> chan_eq c' s (t\<lparr>num_issued_refreshes := n\<rparr>) = chan_eq c' s t"
  by (cases p; auto simp: chan_eq_def issued_def fun_eq_iff)+

lemma issued_simps [simp, frame_simps]:
  "CYCLE_VAL (issued c s) = CYCLE_VAL s" "dram_state (issued c s) = dram_state s"
  "command_issued_current_cycle (issued c s) = (command_issued_current_cycle s)(c := True)"
  "cas_issued_current_cycle (issued c s) = cas_issued_current_cycle s"
  "read_queue (issued c s) = read_queue s" "write_queue (issued c s) = write_queue s"
  "next_refresh_completion_deadline (issued c s) = next_refresh_completion_deadline s"
  "forced_refresh_mode_on (issued c s) = forced_refresh_mode_on s"
  "refresh_issue_deadline (issued c s) = refresh_issue_deadline s"
  "num_issued_refreshes (issued c s) = num_issued_refreshes s"
  "read_queue_length (issued c s) = read_queue_length s"
  "write_queue_length (issued c s) = write_queue_length s"
  "activation_record (issued c s) = activation_record s"
  by (simp_all add: issued_def)

text \<open>A precharge, whoever asks for it.\<close>

lemma precharge_step:
  assumes inv: "sched_inv P m es s" and v: "valid_channel P c" "valid_rank P r" "valid_bank P b"
    and free: "\<not> command_issued_current_cycle s c"
    and ok: "\<not> down (dram_state s c r b)" "next_pre (dram_state s c r b) \<le> m"
      "m + T_RP P \<le> refresh_issue_deadline s c r"
  shows "sched_inv P m (es @ [event m c r b 0 KPre])
    (issued c (upd_stats (count_precharge c r b) (upd_bank c r b (bank_pre (m + T_RP P)) s)))"
    (is "sched_inv P m (es @ ?fs) ?s'")
proof (rule sched_issues_plain [OF inv v(1)])
  show "issues P m c s ?fs ?s'"
    using sched_power [OF inv v(1)] ok v
    by (intro issues_precharge) (simp_all add: framed_def same_refresh_def)
  show "queue_inv P c ?s'" using sched_queue [OF inv v(1)] by (simp add: queue_inv_def)
  show "cas_inv P c ?s'" using sched_cas [OF inv v(1)] free by (simp add: cas_inv_def)
qed simp_all

lemma issue_precharge_command_inv:
  assumes inv: "sched_inv P m es s" and v: "valid_channel P c" "valid_rank P r" "valid_bank P b"
    and run: "issue_precharge_command P c r b s = (s', ok)"
  shows "if ok then sched_inv P m (es @ [event m c r b 0 KPre]) s' else s' = s"
proof (cases "is_precharge_allowed P c r b s")
  case True
  then have "\<not> command_issued_current_cycle s c" "\<not> down (dram_state s c r b)"
    "next_pre (dram_state s c r b) \<le> m" "m + T_RP P \<le> refresh_issue_deadline s c r"
    using sched_clock [OF inv] by (auto simp: is_precharge_allowed_def down_def split: if_splits)
  from precharge_step [OF inv v this] show ?thesis
    using run True sched_clock [OF inv] by (auto simp: issue_precharge_command_def Let_def)
qed (use run in \<open>auto simp: issue_precharge_command_def\<close>)


lemma fold_upd3_zero:
  "fold (\<lambda>b f. upd3 f c r b v) xs g c' r' b' = (if c' = c \<and> r' = r \<and> b' \<in> set xs then v else g c' r' b')"
  by (induction xs arbitrary: g) auto

lemma fold_fold_upd3_zero:
  "fold (\<lambda>r f. fold (\<lambda>b f. upd3 f c r b v) ys f) xs g c' r' b' =
     (if c' = c \<and> r' \<in> set xs \<and> b' \<in> set ys then v else g c' r' b')"
  by (induction xs arbitrary: g) (auto simp: fold_upd3_zero)

lemma issue_autoprecharge_inv:
  assumes inv: "sched_inv P m es s" and v: "valid_channel P c" "valid_rank P r" "valid_bank P b"
    and run: "issue_autoprecharge P c r b s = (s', ok)"
  shows "if ok then sched_inv P m (es @ [event (start_precharge P c r b s) c r b 0 KPre]) s' else s' = s"
proof (cases "is_autoprecharge_allowed P c r b s")
  case True
  let ?t = "start_precharge P c r b s"
  have cas: "cas_issued_current_cycle s c r b \<noteq> 0" "?t + T_RP P \<le> refresh_issue_deadline s c r"
    using True by (auto simp: is_autoprecharge_allowed_def)
  then have busy: "command_issued_current_cycle s c" and active: "\<not> down (dram_state s c r b)"
    using sched_cas [OF inv v(1)] v by (auto simp: cas_inv_def down_def)
  have "next_pre (dram_state s c r b) \<le> ?t" by (simp add: start_precharge_def)
  define f where "f = fold (\<lambda>r f. fold (\<lambda>b f. upd3 f c r b 0) (below (NUM_BANKS P)) f)
    (below (NUM_RANKS P)) (cas_issued_current_cycle s)"
  have f: "f c' r' b' = (if c' = c \<and> valid_rank P r' \<and> valid_bank P b' then 0
      else cas_issued_current_cycle s c' r' b')" for c' r' b'
    by (simp add: f_def fold_fold_upd3_zero valid_rank_def valid_bank_def)
  have s': "s' = upd_stats (count_precharge c r b) (upd_bank c r b (bank_pre (?t + T_RP P)) s)
      \<lparr>cas_issued_current_cycle := f\<rparr>" and ok
    using run True by (auto simp: issue_autoprecharge_def f_def Let_def)
  have "sched_inv P m (es @ [event ?t c r b 0 KPre]) s'"
  proof (rule sched_issues_plain [OF inv v(1)])
    have "framed c s s'"
      using busy unfolding s' framed_def same_refresh_def chan_eq_def
      by (auto simp: f fun_eq_iff)
    then show "issues P m c s [event ?t c r b 0 KPre] s'"
      using sched_power [OF inv v(1)] active v cas(2) \<open>next_pre (dram_state s c r b) \<le> ?t\<close>
      by (intro issues_precharge) (simp_all add: s')
    show "queue_inv P c s'" using sched_queue [OF inv v(1)] by (simp add: queue_inv_def s')
    show "cas_inv P c s'" by (simp add: cas_inv_def s' f)
  qed (simp_all add: s')
  then show ?thesis using \<open>ok\<close> by simp
qed (use run in \<open>auto simp: issue_autoprecharge_def\<close>)

text \<open>The rank-wide precharge: all the precharges go through.\<close>

lemma all_bank_precharge_loop:
  assumes "\<not> command_issued_current_cycle s c" and "distinct bs"
    and "\<forall>b\<in>set bs. is_precharge_allowed P c r b s"
  defines "s' \<equiv> fold (all_bank_precharge_iteration P c r) bs s"
  shows "dram_state s' c' r' b' = (if c' = c \<and> r' = r \<and> b' \<in> set bs
      then bank_pre (CYCLE_VAL s + T_RP P) (dram_state s c r b') else dram_state s c' r' b')"
    and "dram_state_update (\<lambda>_. d) (stats_update (\<lambda>_. t) s') =
      dram_state_update (\<lambda>_. d) (stats_update (\<lambda>_. t) s)"
proof -
  define one where "one b s = upd_stats (count_precharge c r b)
      (upd_bank c r b (bank_pre (CYCLE_VAL s + T_RP P)) s)" for b s
  have step: "all_bank_precharge_iteration P c r b s = one b s"
    if "\<not> command_issued_current_cycle s c" "is_precharge_allowed P c r b s" for b s
  proof -
    have "(command_issued_current_cycle s)(c := False) = command_issued_current_cycle s"
      using that(1) by (simp add: fun_upd_idem)
    then show ?thesis using that(2)
      by (simp add: all_bank_precharge_iteration_def issue_precharge_command_def one_def Let_def
          issued_def upd_stats_def upd_bank_def)
  qed
  have other: "is_precharge_allowed P c r b' (one b s) = is_precharge_allowed P c r b' s"
    "command_issued_current_cycle (one b s) = command_issued_current_cycle s"
    if "b' \<noteq> b" for b b' s
    using that by (simp_all add: one_def is_precharge_allowed_def)
  have "s' = fold one bs s" unfolding s'_def using assms(1-3)
  proof (induction bs arbitrary: s)
    case (Cons b bs)
    have "fold (all_bank_precharge_iteration P c r) bs (one b s) = fold one bs (one b s)"
    proof (rule Cons.IH)
      show "\<not> command_issued_current_cycle (one b s) c"
        using Cons.prems(1) by (simp add: one_def)
      show "\<forall>b'\<in>set bs. is_precharge_allowed P c r b' (one b s)"
        using Cons.prems(2,3) other(1) by (metis distinct.simps(2) list.set_intros(2))
    qed (use Cons.prems(2) in simp)
    then show ?case using Cons.prems by (simp add: step)
  qed simp
  moreover have "dram_state (fold one bs s) c' r' b' = (if c' = c \<and> r' = r \<and> b' \<in> set bs
      then bank_pre (CYCLE_VAL s + T_RP P) (dram_state s c r b') else dram_state s c' r' b')"
    using assms(2) by (induction bs arbitrary: s) (auto simp: one_def)
  moreover have "dram_state_update (\<lambda>_. d) (stats_update (\<lambda>_. t) (fold one bs s)) =
      dram_state_update (\<lambda>_. d) (stats_update (\<lambda>_. t) s)"
    by (rule fold_frame) (simp add: one_def upd_stats_def upd_bank_def)
  ultimately show "dram_state s' c' r' b' = (if c' = c \<and> r' = r \<and> b' \<in> set bs
      then bank_pre (CYCLE_VAL s + T_RP P) (dram_state s c r b') else dram_state s c' r' b')"
    and "dram_state_update (\<lambda>_. d) (stats_update (\<lambda>_. t) s') =
      dram_state_update (\<lambda>_. d) (stats_update (\<lambda>_. t) s)" by simp_all
qed


lemma dram_run_precharges:
  assumes "\<not> powered_down (D c r)"
  shows "dram_run (map (\<lambda>b. event t c r b 0 KPre) bs) D =
    Some (upd2 D c r ((D c r)\<lparr>open_row := (\<lambda>b. if b \<in> set bs then None else open_row (D c r) b)\<rparr>))"
  using assms
proof (induction bs arbitrary: D)
  case Nil
  then show ?case by (simp add: fun_eq_iff)
next
  case (Cons b bs)
  let ?D = "upd2 D c r (after (D c r) (event t c r b 0 KPre))"
  have "\<not> powered_down (?D c r)" using Cons.prems by (simp add: after_def)
  from Cons.IH [of ?D, OF this]
  have "dram_run (map (\<lambda>b. event t c r b 0 KPre) bs) ?D = Some (upd2 ?D c r ((?D c r)
      \<lparr>open_row := (\<lambda>b'. if b' \<in> set bs then None else open_row (?D c r) b')\<rparr>))" .
  moreover have "upd2 ?D c r ((?D c r)
        \<lparr>open_row := (\<lambda>b'. if b' \<in> set bs then None else open_row (?D c r) b')\<rparr>) =
      upd2 D c r ((D c r)\<lparr>open_row := (\<lambda>b'. if b' \<in> set (b # bs) then None else open_row (D c r) b')\<rparr>)"
    by (intro ext) (simp add: after_def fun_eq_iff cong: if_cong)
  ultimately show ?case using Cons.prems by (simp add: accepts_def del: upd2_apply)
qed

lemma timing_ok_precharges:
  assumes "distinct bs"
  shows "timing_ok P (map (\<lambda>b. event t c r b 0 KPre) bs)"
  using assms
  by (induction bs)
    (auto simp: list_all_iff keeps_gap_def min_gap_def only_if_def rank_level_def)

lemma all_banks_iff:
  "valid_bank P 0 \<Longrightarrow> all_banks P test \<longleftrightarrow> (\<forall>b. valid_bank P b \<longrightarrow> test b)"
  by (auto simp: all_banks_def valid_bank_def list_all_iff)

lemma refines_all_precharge:
  assumes v: "valid_rank P r" "valid_bank P 0" and up: "\<not> down (dram_state s c r 0)"
    and dram: "\<And>r' b'. dram_state s' c r' b' = (if r' = r \<and> valid_bank P b'
      then bank_pre t (dram_state s c r b') else dram_state s c r' b')"
  shows "refines P c s (map (\<lambda>b. event m c r b 0 KPre) (below (NUM_BANKS P))) s'"
  unfolding refines_def
proof (intro allI impI)
  fix D
  assume D: "\<forall>r. valid_rank P r \<longrightarrow> D c r = abs_rank P (dram_state s c r)"
  let ?bs = "below (NUM_BANKS P)"
  let ?fs = "map (\<lambda>b. event m c r b 0 KPre) ?bs"
  let ?D = "upd2 D c r ((D c r)\<lparr>open_row := (\<lambda>b. if b \<in> set ?bs then None else open_row (D c r) b)\<rparr>)"
  have Dr: "D c r = abs_rank P (dram_state s c r)" using D v by simp
  have "dram_run ?fs D = Some ?D"
    using up by (intro dram_run_precharges) (simp add: abs_rank_def Dr)
  moreover have "abs_rank P (dram_state s' c r) = ?D c r"
    using v up by (intro abs_rank_eqI) (auto simp: dram Dr abs_rank_def valid_bank_def)
  moreover have "abs_rank P (dram_state s' c r') = D c r'" if "valid_rank P r'" "r' \<noteq> r" for r'
  proof -
    have "abs_rank P (dram_state s' c r') = abs_rank P (dram_state s c r')"
      using that by (intro abs_rank_cong) (simp add: dram)
    then show ?thesis using D that by simp
  qed
  ultimately show "\<exists>D'. dram_run ?fs D = Some D' \<and> (\<forall>c'. c' \<noteq> c \<longrightarrow> D' c' = D c') \<and>
      (\<forall>r. valid_rank P r \<longrightarrow> D' c r = abs_rank P (dram_state s' c r))"
    by (intro exI [where x = ?D]) (auto simp: fun_eq_iff)
qed

lemma issues_all_precharge:
  assumes frame: "framed c s s'" and v: "valid_rank P r" "valid_bank P 0"
    and power: "\<And>r'. valid_rank P r' \<Longrightarrow> power_ok P (dram_state s c r')"
    and dram: "\<And>r' b'. dram_state s' c r' b' = (if r' = r \<and> valid_bank P b'
      then bank_pre (m + T_RP P) (dram_state s c r b') else dram_state s c r' b')"
    and bank: "\<And>b. valid_bank P b \<Longrightarrow> \<not> down (dram_state s c r b) \<and> next_pre (dram_state s c r b) \<le> m"
    and dl: "m + T_RP P \<le> refresh_issue_deadline s' c r"
  shows "issues P m c s (map (\<lambda>b. event m c r b 0 KPre) (below (NUM_BANKS P))) s'"
  unfolding issues_def
proof (intro conjI ballI allI impI)
  let ?fs = "map (\<lambda>b. event m c r b 0 KPre) (below (NUM_BANKS P))"
  show "banks_later P m c s s'" by (simp add: banks_later_def dram)
  show "timing_ok P ?fs" by (rule timing_ok_precharges) simp
  show "refines P c s ?fs s'" by (rule refines_all_precharge [OF v _ dram]) (simp add: bank v)
  show "power_ok P (dram_state s' c r')" if "valid_rank P r'" for r'
  proof (rule power_ok_step [OF power _ that])
    show "power_ok P (dram_state s' c r)" using v by (auto simp: power_ok_def dram)
  qed (simp_all add: dram)
  fix f r'
  assume f: "f \<in> set ?fs"
  then show "ev_chan f = c" and "valid_rank P (ev_rank f)" using v by auto
  show "timely P f (dram_state s c (ev_rank f))"
    using f bank by (auto simp: timely_def rank_level_def valid_bank_def)
  show "settled_event P m (next_refresh_completion_deadline s' c (ev_rank f))
      (refresh_issue_deadline s' c (ev_rank f)) (num_issued_refreshes s' c (ev_rank f)) f"
    using f dl by (auto simp: settled_event_def)
  show "covers P f r' (dram_state s' c r')"
    using f by (auto simp: covers_event dram bank_pre_def valid_bank_def)
qed (rule frame)

text \<open>The fields a loop over the banks leaves alone.\<close>

lemma same_but_dram_stats:
  assumes "\<And>d x. dram_state_update (\<lambda>_. d) (stats_update (\<lambda>_. x) t) =
      dram_state_update (\<lambda>_. d) (stats_update (\<lambda>_. x) s)"
  shows "t = s\<lparr>stats := stats t, dram_state := dram_state t\<rparr>"
proof -
  have "t = dram_state_update (\<lambda>_. dram_state t) (stats_update (\<lambda>_. stats t) t)" by simp
  also have "\<dots> = dram_state_update (\<lambda>_. dram_state t) (stats_update (\<lambda>_. stats t) s)" by (rule assms)
  finally show ?thesis .
qed

lemma same_but_dram_stats_fields:
  assumes "t = s\<lparr>stats := x, dram_state := d\<rparr>"
  shows "CYCLE_VAL t = CYCLE_VAL s"
    "command_issued_current_cycle t = command_issued_current_cycle s"
    "cas_issued_current_cycle t = cas_issued_current_cycle s"
    "read_queue t = read_queue s" "write_queue t = write_queue s"
    "next_refresh_completion_deadline t = next_refresh_completion_deadline s"
    "forced_refresh_mode_on t = forced_refresh_mode_on s"
    "refresh_issue_deadline t = refresh_issue_deadline s"
    "num_issued_refreshes t = num_issued_refreshes s"
    "read_queue_length t = read_queue_length s" "write_queue_length t = write_queue_length s"
    "activation_record t = activation_record s"
  by (simp_all add: assms)

lemma issue_all_bank_precharge_command_inv:
  assumes inv: "sched_inv P m es s" and v: "valid_channel P c" "valid_rank P r" "valid_bank P 0"
    and run: "issue_all_bank_precharge_command P c r s = (s', ok)"
  shows "if ok then sched_inv P m
      (es @ map (\<lambda>b. event m c r b 0 KPre) (below (NUM_BANKS P))) s' else s' = s"
proof (cases "is_all_bank_precharge_allowed P c r s")
  case True
  let ?bs = "below (NUM_BANKS P)"
  let ?fs = "map (\<lambda>b. event m c r b 0 KPre) ?bs"
  define t where "t = fold (all_bank_precharge_iteration P c r) ?bs s"
  have clock: "CYCLE_VAL s = m" using sched_clock [OF inv] by simp
  have free: "\<not> command_issued_current_cycle s c"
    and allowed: "\<forall>b\<in>set ?bs. is_precharge_allowed P c r b s"
    and bank: "\<And>b. valid_bank P b \<Longrightarrow> \<not> down (dram_state s c r b) \<and> next_pre (dram_state s c r b) \<le> m"
    and dl: "m + T_RP P \<le> refresh_issue_deadline s c r"
    using True v(3) clock
    by (auto simp: is_all_bank_precharge_allowed_def is_precharge_allowed_def all_banks_iff
        valid_bank_def down_def split: if_splits)
  have dram: "dram_state t c' r' b' = (if c' = c \<and> r' = r \<and> valid_bank P b'
      then bank_pre (m + T_RP P) (dram_state s c r b') else dram_state s c' r' b')" for c' r' b'
    using all_bank_precharge_loop(1) [OF free distinct_upto allowed] clock
    by (simp add: t_def valid_bank_def)
  have "t = s\<lparr>stats := stats t, dram_state := dram_state t\<rparr>"
    unfolding t_def by (rule same_but_dram_stats, rule all_bank_precharge_loop(2) [OF free distinct_upto allowed])
  note fields = same_but_dram_stats_fields [OF this]
  have s': "s' = issued c t" and ok using run True by (auto simp: issue_all_bank_precharge_command_def t_def)
  have "framed c s s'"
    by (auto simp: framed_def same_refresh_def chan_eq_def s' fields dram fun_eq_iff)
  then have "issues P m c s ?fs s'"
    using v bank dl sched_power [OF inv v(1)] by (intro issues_all_precharge) (auto simp: s' dram fields)
  then have "sched_inv P m (es @ ?fs) s'"
  proof (rule sched_issues_plain [OF inv v(1)])
    show "queue_inv P c s'" using sched_queue [OF inv v(1)] by (simp add: queue_inv_def s' fields)
    show "cas_inv P c s'" using sched_cas [OF inv v(1)] free by (simp add: cas_inv_def s' fields)
  qed (auto simp: s' fields)
  then show ?thesis using \<open>ok\<close> by simp
qed (use run in \<open>auto simp: issue_all_bank_precharge_command_def\<close>)


section \<open>Power commands\<close>

lemma powerdown_loop:
  "dram_state (fold (powerdown_iteration P c r cmd) (below (NUM_BANKS P)) s) c' r' b' =
     (if c' = c \<and> r' = r \<and> valid_bank P b'
      then bank_power_down P (CYCLE_VAL s) cmd (dram_state s c r b') else dram_state s c' r' b')"
    (is ?cells)
  "dram_state_update (\<lambda>_. d) (stats_update (\<lambda>_. x)
      (fold (powerdown_iteration P c r cmd) (below (NUM_BANKS P)) s)) =
     dram_state_update (\<lambda>_. d) (stats_update (\<lambda>_. x) s)" (is ?frame)
proof -
  have one: "dram_state (powerdown_iteration P c r cmd i s) c' r' b' =
      (if c' = c \<and> r' = r \<and> b' = i then bank_power_down P (CYCLE_VAL s) cmd (dram_state s c r i)
       else dram_state s c' r' b')"
    "CYCLE_VAL (powerdown_iteration P c r cmd i s) = CYCLE_VAL s" for i s c' r' b'
    by (simp_all add: powerdown_iteration_def Let_def)
  have "dram_state (fold (powerdown_iteration P c r cmd) bs s) c' r' b' =
      (if c' = c \<and> r' = r \<and> b' \<in> set bs
       then bank_power_down P (CYCLE_VAL s) cmd (dram_state s c r b') else dram_state s c' r' b')"
    if "distinct bs" for bs
    using that by (induction bs arbitrary: s) (auto simp: one)
  then show ?cells by (simp add: valid_bank_def)
  show ?frame
    by (rule fold_frame) (simp add: powerdown_iteration_def Let_def upd_stats_def upd_bank_def)
qed

lemma issue_powerdown_command_inv:
  assumes inv: "sched_inv P m es s" and v: "valid_channel P c" "valid_rank P r" "valid_bank P 0"
    and wf: "wf_timing P" and run: "issue_powerdown_command P c r cmd s = (s', ok)"
  shows "if ok then sched_inv P m (es @ [event m c r 0 0 KPwrDn]) s' else s' = s"
proof (cases ok)
  case True
  have clock: "CYCLE_VAL s = m" using sched_clock [OF inv] by simp
  define t where "t = fold (powerdown_iteration P c r cmd) (below (NUM_BANKS P)) s"
  have s': "s' = issued c t" and free: "\<not> command_issued_current_cycle s c"
    and cmd: "cmd \<in> {PWR_DN_SLOW_CMD, PWR_DN_FAST_CMD}"
    and allowed: "is_powerdown_fast_allowed P c r s \<or> is_powerdown_slow_allowed P c r s"
    using run True by (auto simp: issue_powerdown_command_def t_def split: if_splits)
  have xp: "0 \<le> T_XP P" "0 \<le> T_XP_DLL P" using wf by (auto simp: wf_timing_def)
  have bank: "\<And>b. valid_bank P b \<Longrightarrow>
      \<not> down (dram_state s c r b) \<and> next_powerdown (dram_state s c r b) \<le> m"
    and dl: "m + T_PD_MIN P \<le> refresh_issue_deadline s c r"
    using allowed v(3) clock xp
    by (auto simp: is_powerdown_fast_allowed_def is_powerdown_slow_allowed_def all_banks_iff
        down_def split: if_splits)
  note dram = powerdown_loop(1) [of P c r cmd s, folded t_def, unfolded clock]
  have "t = s\<lparr>stats := stats t, dram_state := dram_state t\<rparr>"
    unfolding t_def by (rule same_but_dram_stats) (rule powerdown_loop(2))
  note fields = same_but_dram_stats_fields [OF this]
  have "framed c s s'"
    by (auto simp: framed_def same_refresh_def chan_eq_def s' fields dram fun_eq_iff)
  then have "issues P m c s [event m c r 0 0 KPwrDn] s'"
    using v bank dl cmd sched_power [OF inv v(1)]
    by (intro issues_power_down [where cmd = cmd]) (auto simp: s' dram)
  then have "sched_inv P m (es @ [event m c r 0 0 KPwrDn]) s'"
  proof (rule sched_issues_plain [OF inv v(1)])
    show "queue_inv P c s'" using sched_queue [OF inv v(1)] by (simp add: queue_inv_def s' fields)
    show "cas_inv P c s'" using sched_cas [OF inv v(1)] free by (simp add: cas_inv_def s' fields)
  qed (auto simp: s' fields)
  then show ?thesis using True by simp
qed (use run in \<open>auto simp: issue_powerdown_command_def split: if_splits\<close>)

text \<open>A power-up, by the interface call or for a request.\<close>

lemma power_up_step:
  assumes inv: "sched_inv P m es s" and v: "valid_channel P c" "valid_rank P r" "valid_bank P b"
    and free: "\<not> command_issued_current_cycle s c"
    and ok: "down (dram_state s c r b)" "next_powerup (dram_state s c r b) \<le> m"
    and dl: "num_issued_refreshes s c r < 8 \<Longrightarrow> m + T_XP P \<le> next_refresh_completion_deadline s c r"
  shows "sched_inv P m (es @ [event m c r 0 0 KPwrUp])
    (issued c (upd_stats f (upd_banks P c r (\<lambda>_. bank_power_up P m) s)))"
    (is "sched_inv P m (es @ ?fs) ?s'")
proof (rule sched_issues_plain [OF inv v(1)])
  show "issues P m c s ?fs ?s'"
    using sched_power [OF inv v(1)] ok v dl
    by (intro issues_power_up [where b = b]) (simp_all add: framed_def same_refresh_def valid_bank_def)
  show "queue_inv P c ?s'" using sched_queue [OF inv v(1)] by (simp add: queue_inv_def)
  show "cas_inv P c ?s'" using sched_cas [OF inv v(1)] free by (simp add: cas_inv_def)
qed simp_all

lemma upd_stats_id [simp]: "upd_stats (\<lambda>x. x) s = s"
  by (simp add: upd_stats_def)

lemma issue_powerup_command_inv:
  assumes inv: "sched_inv P m es s" and v: "valid_channel P c" "valid_rank P r" "valid_bank P 0"
    and wf: "wf_timing P" and run: "issue_powerup_command P c r s = (s', ok)"
  shows "if ok then sched_inv P m (es @ [event m c r 0 0 KPwrUp]) s' else s' = s"
proof (cases "is_powerup_allowed P c r s")
  case True
  have clock: "CYCLE_VAL s = m" using sched_clock [OF inv] by simp
  have free: "\<not> command_issued_current_cycle s c" and nf: "\<not> forced_refresh_mode_on s c r"
    and down: "down (dram_state s c r 0)" and np: "next_powerup (dram_state s c r 0) \<le> m"
    using True clock by (auto simp: is_powerup_allowed_def down_def Let_def split: if_splits)
  have "m + T_XP P \<le> next_refresh_completion_deadline s c r" if "num_issued_refreshes s c r < 8"
    using sched_deadline(1) [OF inv v(1,2) nf that wf] wf by (simp add: wf_timing_def)
  from power_up_step [OF inv v free down np this, of "\<lambda>x. x"] show ?thesis
    using run True clock by (auto simp: issue_powerup_command_def)
qed (use run in \<open>auto simp: issue_powerup_command_def\<close>)

section \<open>Refresh\<close>

lemma issue_refresh_command_inv:
  assumes inv: "sched_inv P m es s" and v: "valid_channel P c" "valid_rank P r" "valid_bank P 0"
    and wf: "wf_timing P" and n: "num_issued_refreshes s c r < 8"
    and run: "issue_refresh_command P c r s = (s', ok)"
  shows "if ok then sched_inv P m (es @ [event m c r 0 0 KRef]) s' else s' = s"
proof (cases "is_refresh_allowed P c r s")
  case True
  have clock: "CYCLE_VAL s = m" using sched_clock [OF inv] by simp
  have free: "\<not> command_issued_current_cycle s c" and nf: "\<not> forced_refresh_mode_on s c r"
    and bank: "\<And>b. valid_bank P b \<Longrightarrow> next_refresh (dram_state s c r b) \<le> m"
    using True clock by (auto simp: is_refresh_allowed_def valid_bank_def list_all_iff not_less split: if_splits)
  define t where "t = s\<lparr>num_issued_refreshes :=
    upd2 (num_issued_refreshes s) c r (num_issued_refreshes s c r + 1)\<rparr>"
  define d where "d = refresh_delay P c r t"
  have s': "s' = issued c (upd_banks P c r (\<lambda>_ b. b\<lparr>active_row := - 1, state := REFRESHING\<rparr>)
      (upd_banks P c r (\<lambda>_. bank_refresh_delay (m + d)) t))" and ok
    using run True clock by (auto simp: issue_refresh_command_def t_def d_def Let_def)
  have t: "dram_state t = dram_state s" "num_issued_refreshes t c r' =
      (if r' = r then num_issued_refreshes s c r + 1 else num_issued_refreshes s c r')" for r'
    by (simp_all add: t_def)
  have "T_RFC P \<le> d" using wf by (auto simp: d_def refresh_delay_def wf_timing_def)
  note dead = sched_deadline [OF inv v(1,2) nf n wf]
  have "m + T_RFC P \<le> next_refresh_completion_deadline s c r" using dead(1) wf by (simp add: wf_timing_def)
  moreover have "framed c s s'"
    by (auto simp: framed_def same_refresh_def s' t_def)
  ultimately have iss: "issues P m c s [event m c r 0 0 KRef] s'"
    using v bank \<open>T_RFC P \<le> d\<close> sched_power [OF inv v(1)]
    by (intro issues_refresh [where d = d]) (auto simp: s' t valid_bank_def)
  have "sched_inv P m (es @ [event m c r 0 0 KRef]) s'"
  proof (rule sched_issues [OF inv v(1) iss])
    fix r'
    assume r': "valid_rank P r'"
    have rk: "rank_inv P m es c r' s" using sched_rank [OF inv v(1) r'] .
    have "refresh_ok P m (next_refresh_completion_deadline s c r) (refresh_issue_deadline s c r)
        (num_issued_refreshes s c r + 1) (forced_refresh_mode_on s c r)"
      if "refresh_ok P m (next_refresh_completion_deadline s c r) (refresh_issue_deadline s c r)
        (num_issued_refreshes s c r) (forced_refresh_mode_on s c r)"
      using that n nf wf sched_clock [OF inv] by (auto simp: refresh_ok_def wf_timing_def algebra_simps)
    then show "refresh_ok P m (next_refresh_completion_deadline s c r') (refresh_issue_deadline s c r')
        (num_issued_refreshes s' c r') (forced_refresh_mode_on s c r')"
      using rk by (cases "r' = r") (simp_all add: s' t rank_inv_def)
    show "num_issued_refreshes s c r' < 8" if "num_issued_refreshes s' c r' < 8"
      using that n by (simp add: s' t split: if_splits)
    show "faw_inv P m (act_times c r' (es @ [event m c r 0 0 KRef])) (activation_record s' c r')"
      using rk by (simp add: rank_inv_def s' t_def act_times_none)
  next
    show "faw_ok P (es @ [event m c r 0 0 KRef])"
      using inv by (simp add: sched_inv_def ctl_inv_def faw_ok_def act_times_none)
    show "queue_inv P c s'" using sched_queue [OF inv v(1)] by (simp add: queue_inv_def s' t_def)
    show "cas_inv P c s'" using sched_cas [OF inv v(1)] free by (simp add: cas_inv_def s' t_def)
  qed
  then show ?thesis using \<open>ok\<close> by simp
qed (use run in \<open>auto simp: issue_refresh_command_def\<close>)


section \<open>Activate\<close>

lemma faw_ok_snoc:
  assumes "faw_ok P es" and inv: "faw_inv P m (act_times c r es) rec"
    and few: "length (filter (\<lambda>t. m - T_FAW P \<le> t) (act_times c r es)) < 4"
  shows "faw_ok P (es @ [event m c r b w KAct])"
  unfolding faw_ok_def
proof (intro allI impI)
  fix c' r' i
  assume i: "i + 4 < length (act_times c' r' (es @ [event m c r b w KAct]))"
  show "act_times c' r' (es @ [event m c r b w KAct]) ! i + T_FAW P <
      act_times c' r' (es @ [event m c r b w KAct]) ! (i + 4)"
  proof (cases "c' = c \<and> r' = r \<and> i + 4 = length (act_times c r es)")
    case True
    then have "act_times c r es ! i + T_FAW P < m"
      using inv few by (intro window_snoc) (simp_all add: faw_inv_def)
    moreover have "act_times c r [event m c r b w KAct] = [m]" by (simp add: act_times_def)
    ultimately show ?thesis using True by (simp add: nth_append)
  next
    case False
    then have "i + 4 < length (act_times c' r' es)"
      using i by (auto simp: act_times_def split: if_splits)
    then show ?thesis using assms(1) by (simp add: faw_ok_def nth_append)
  qed
qed

lemma activate_step:
  fixes w :: int
  assumes inv: "sched_inv P m es s" and v: "valid_channel P c" "valid_rank P r" "valid_bank P b"
    and wf: "wf_timing P" and free: "\<not> command_issued_current_cycle s c"
    and closed: "state (dram_state s c r b) \<in> {IDLE, PRECHARGING, REFRESHING}"
    and ok: "next_act (dram_state s c r b) \<le> m" "m + T_RAS P \<le> refresh_issue_deadline s c r"
      "is_T_FAW_met P c r m s"
  defines "t \<equiv> upd_banks P c r (\<lambda>i k. if i \<noteq> b
    then k\<lparr>next_act := max (m + T_RRD P) (next_act k)\<rparr> else k) (upd_bank c r b (bank_act P m w) s)"
  shows "record_activate c r m t =
      Inr (t\<lparr>activation_record := upd3 (activation_record t) c r (m smod BIG_ACTIVATION_WINDOW) 1\<rparr>)"
    and "sched_inv P m (es @ [event m c r b w KAct]) (issued c (upd_stats f
      (t\<lparr>activation_record := upd3 (activation_record t) c r (m smod BIG_ACTIVATION_WINDOW) 1\<rparr>)))"
    (is "sched_inv P m (es @ ?fs) ?s'")
proof -
  have m: "0 \<le> m" "m < 2 ^ 31" using sched_clock [OF inv] by auto
  have rk: "rank_inv P m es c r' s" if "valid_rank P r'" for r' using sched_rank [OF inv v(1) that] .
  have faw: "faw_inv P m (act_times c r es) (activation_record s c r)"
    using rk [OF v(2)] by (simp add: rank_inv_def)
  have before: "\<forall>t\<in>set (act_times c r es). t < m"
    using sched_fresh [OF inv v(1)] free v(2) by (simp add: fresh_def)
  have slot: "m smod BIG_ACTIVATION_WINDOW = m mod BIG_ACTIVATION_WINDOW" using m by (simp add: smod_BIG)
  show "record_activate c r m t = Inr (t\<lparr>activation_record :=
      upd3 (activation_record t) c r (m smod BIG_ACTIVATION_WINDOW) 1\<rparr>)"
    using faw_record(1) [OF faw before wf m(1)] by (simp add: record_activate_Inr slot t_def)
  have few: "length (filter (\<lambda>t. m - T_FAW P \<le> t) (act_times c r es)) < 4"
    using is_T_FAW_met_count [OF faw before wf m] ok(3) by simp
  have dram: "dram_state t c r' b' =
      (if r' = r \<and> b' = b then bank_act P m w (dram_state s c r b)
       else if r' = r \<and> valid_bank P b' then (dram_state s c r b')
         \<lparr>next_act := max (m + T_RRD P) (next_act (dram_state s c r b'))\<rparr>
       else dram_state s c r' b')" for r' b'
    by (auto simp: t_def valid_bank_def)
  have "framed c s ?s'" by (auto simp: framed_def same_refresh_def t_def)
  then have "issues P m c s ?fs ?s'"
    using sched_power [OF inv v(1)] v closed ok by (intro issues_activate) (simp_all add: dram)
  then show "sched_inv P m (es @ ?fs) ?s'"
  proof (rule sched_issues [OF inv v(1)])
    show "faw_inv P m (act_times c r' (es @ ?fs)) (activation_record ?s' c r')" if "valid_rank P r'" for r'
    proof (cases "r' = r")
      case True
      have "activation_record ?s' c r = (activation_record s c r)(m mod BIG_ACTIVATION_WINDOW := 1)"
        by (rule ext) (simp add: slot t_def)
      moreover have "act_times c r ?fs = [m]" by (simp add: act_times_def)
      ultimately show ?thesis using True faw_record(2) [OF faw before wf m(1)] by simp
    next
      case False
      then have "activation_record ?s' c r' = activation_record s c r'"
        by (intro ext) (simp add: t_def)
      then show ?thesis using rk [OF that] False by (simp add: rank_inv_def act_times_def)
    qed
    show "faw_ok P (es @ ?fs)"
      using inv by (intro faw_ok_snoc [OF _ faw few]) (simp add: sched_inv_def ctl_inv_def)
    show "queue_inv P c ?s'" using sched_queue [OF inv v(1)] by (simp add: queue_inv_def t_def)
    show "cas_inv P c ?s'" using sched_cas [OF inv v(1)] free by (simp add: cas_inv_def t_def)
  qed (use rk in \<open>simp_all add: rank_inv_def t_def\<close>)
qed

lemma issue_activate_command_inv:
  assumes inv: "sched_inv P m es s" and v: "valid_channel P c" "valid_rank P r" "valid_bank P b"
    and wf: "wf_timing P"
  shows "\<exists>s' ok. issue_activate_command P c r b w s = Inr (s', ok) \<and>
    (if ok then sched_inv P m (es @ [event m c r b w KAct]) s' else s' = s)"
proof (cases "is_activate_allowed P c r b s")
  case True
  have clock: "CYCLE_VAL s = m" using sched_clock [OF inv] by simp
  have *: "\<not> command_issued_current_cycle s c"
    "state (dram_state s c r b) \<in> {IDLE, PRECHARGING, REFRESHING}"
    "next_act (dram_state s c r b) \<le> m" "m + T_RAS P \<le> refresh_issue_deadline s c r"
    "is_T_FAW_met P c r m s"
    using True clock by (auto simp: is_activate_allowed_def split: if_splits)
  note step = activate_step [OF inv v wf *(1) *(2) *(3) *(4) *(5), of w]
  show ?thesis
    using True step by (auto simp: issue_activate_command_def Let_def clock)
qed (auto simp: issue_activate_command_def)


section \<open>Commands for queued requests\<close>

text \<open>
  What the fields of a request say while nothing has been issued on its channel: the request is
  waiting, and if its command is issuable the bank is ready for it.
\<close>

lemma fresh_read:
  assumes "update_read_request P s c q = q" and "\<not> request_served q" and "command_issuable q"
    and "CYCLE_VAL s = m" and "0 \<le> row (dram_addr q)" "row (dram_addr q) < 2 ^ 31"
  defines "d \<equiv> dram_addr q"
  defines "b \<equiv> dram_state s c (rank d) (bank d)" and "dl \<equiv> refresh_issue_deadline s c (rank d)"
  shows "next_command q = ACT_CMD \<and> state b \<in> {IDLE, PRECHARGING, REFRESHING} \<and>
      next_act b \<le> m \<and> is_T_FAW_met P c (rank d) m s \<and> m + T_RAS P \<le> dl \<or>
    next_command q = COL_READ_CMD \<and> state b = ROW_ACTIVE \<and> active_row b = row d \<and>
      next_read b \<le> m \<and> m + T_RTP P \<le> dl \<or>
    next_command q = PRE_CMD \<and> state b = ROW_ACTIVE \<and> next_pre b \<le> m \<and> m + T_RP P \<le> dl \<or>
    next_command q = PWR_UP_CMD \<and> down b \<and> next_powerup b \<le> m \<and>
      (state b = PRECHARGE_POWER_DOWN_SLOW \<longrightarrow> m + T_XP_DLL P \<le> dl) \<and>
      (state b \<noteq> PRECHARGE_POWER_DOWN_SLOW \<longrightarrow> m + T_XP P \<le> dl)"
proof -
  have row: "c_int (row (dram_addr q)) = row (dram_addr q)" using assms(5,6) by (intro c_int_id) simp_all
  have eq: "next_command (update_read_request P s c q) = next_command q"
    "command_issuable (update_read_request P s c q) = command_issuable q"
    using assms(1) by simp_all
  show ?thesis using assms(2-4) eq
    by (cases "state b") (auto simp: update_read_request_def Let_def row down_def b_def dl_def d_def
        split: if_splits)
qed

lemma fresh_write:
  assumes "update_write_request P s c q = q" and "\<not> request_served q" and "command_issuable q"
    and "CYCLE_VAL s = m" and "0 \<le> row (dram_addr q)" "row (dram_addr q) < 2 ^ 31"
  defines "d \<equiv> dram_addr q"
  defines "b \<equiv> dram_state s c (rank d) (bank d)" and "dl \<equiv> refresh_issue_deadline s c (rank d)"
  shows "next_command q = ACT_CMD \<and> state b \<in> {IDLE, PRECHARGING, REFRESHING} \<and>
      next_act b \<le> m \<and> is_T_FAW_met P c (rank d) m s \<and> m + T_RAS P \<le> dl \<or>
    next_command q = COL_WRITE_CMD \<and> state b = ROW_ACTIVE \<and> active_row b = row d \<and>
      next_write b \<le> m \<and> m + write_recovery P \<le> dl \<or>
    next_command q = PRE_CMD \<and> state b = ROW_ACTIVE \<and> next_pre b \<le> m \<and> m + T_RP P \<le> dl \<or>
    next_command q = PWR_UP_CMD \<and> down b \<and> next_powerup b \<le> m \<and>
      (state b = PRECHARGE_POWER_DOWN_SLOW \<longrightarrow> m + T_XP_DLL P \<le> dl) \<and>
      (state b \<noteq> PRECHARGE_POWER_DOWN_SLOW \<longrightarrow> m + T_XP P \<le> dl)"
proof -
  have row: "c_int (row (dram_addr q)) = row (dram_addr q)" using assms(5,6) by (intro c_int_id) simp_all
  have eq: "next_command (update_write_request P s c q) = next_command q"
    "command_issuable (update_write_request P s c q) = command_issuable q"
    using assms(1) by simp_all
  show ?thesis using assms(2-4) eq
    by (cases "state b") (auto simp: update_write_request_def Let_def row down_def b_def dl_def d_def
        write_recovery_def split: if_splits)
qed


lemma req_okD:
  assumes "req_ok P c q" and "wf_geometry P"
  shows "channel (dram_addr q) = c" "valid_rank P (rank (dram_addr q))"
    "valid_bank P (bank (dram_addr q))" "0 \<le> row (dram_addr q)" "row (dram_addr q) < 2 ^ 31"
  using assms by (auto simp: req_ok_def addr_in_range_def valid_rank_def valid_bank_def wf_geometry_def)

text \<open>Serving a request in its queue.\<close>

lemma queue_inv_serve_read:
  assumes "queue_inv P c s" and "i < length (read_queue s c)"
    and "next_command (read_queue s c ! i) = COL_READ_CMD" and "fin \<noteq> - 100"
    and "read_queue s' c = (read_queue s c)[i := serve now fin (read_queue s c ! i)]"
    and "write_queue s' c = write_queue s c"
    and "read_queue_length s' c = read_queue_length s c"
    and "write_queue_length s' c = write_queue_length s c"
  shows "queue_inv P c s'"
proof -
  have "req_ok P c q \<and> (request_served q \<longrightarrow> next_command q = COL_READ_CMD \<and> completion_time q \<noteq> - 100)"
    if "q \<in> set (read_queue s' c)" for q
  proof -
    have "q = serve now fin (read_queue s c ! i) \<or> q \<in> set (read_queue s c)"
      using that set_update_subset_insert assms(5) by fastforce
    moreover have "req_ok P c (read_queue s c ! i)" using assms(1,2) by (simp add: queue_inv_def)
    ultimately show ?thesis using assms(1,3,4) by (auto simp: queue_inv_def serve_def req_ok_def)
  qed
  then show ?thesis using assms by (simp add: queue_inv_def)
qed

lemma queue_inv_serve_write:
  assumes "queue_inv P c s" and "i < length (write_queue s c)"
    and "next_command (write_queue s c ! i) = COL_WRITE_CMD"
    and "write_queue s' c = (write_queue s c)[i := serve now fin (write_queue s c ! i)]"
    and "read_queue s' c = read_queue s c"
    and "read_queue_length s' c = read_queue_length s c"
    and "write_queue_length s' c = write_queue_length s c"
  shows "queue_inv P c s'"
proof -
  have "req_ok P c q \<and> (request_served q \<longrightarrow> next_command q = COL_WRITE_CMD)"
    if "q \<in> set (write_queue s' c)" for q
  proof -
    have "q = serve now fin (write_queue s c ! i) \<or> q \<in> set (write_queue s c)"
      using that set_update_subset_insert assms(4) by fastforce
    moreover have "req_ok P c (write_queue s c ! i)" using assms(1,2) by (simp add: queue_inv_def)
    ultimately show ?thesis using assms(1,3) by (auto simp: queue_inv_def serve_def req_ok_def)
  qed
  then show ?thesis using assms by (simp add: queue_inv_def)
qed

lemma cas_inv_column:
  assumes "cas_inv P c s" and "\<not> command_issued_current_cycle s c"
    and "state (dram_state s' c r b) = ROW_ACTIVE" and "command_issued_current_cycle s' c"
    and "cas_issued_current_cycle s' = upd3 (cas_issued_current_cycle s) c r b x"
  shows "cas_inv P c s'"
  using assms by (auto simp: cas_inv_def)

lemma issue_COL_READ_inv:
  assumes inv: "sched_inv P m es s" and c: "valid_channel P c" and wf: "wf_params P"
    and free: "\<not> command_issued_current_cycle s c"
    and i: "i < length (read_queue s c)" and q: "q = read_queue s c ! i"
    and cmd: "next_command q = COL_READ_CMD"
    and ok: "state (dram_state s c (rank (dram_addr q)) (bank (dram_addr q))) = ROW_ACTIVE"
      "active_row (dram_state s c (rank (dram_addr q)) (bank (dram_addr q))) = row (dram_addr q)"
      "next_read (dram_state s c (rank (dram_addr q)) (bank (dram_addr q))) \<le> m"
      "m + T_RTP P \<le> refresh_issue_deadline s c (rank (dram_addr q))"
  shows "\<exists>s'. issue_COL_READ P (RdPtr c i) q s = Inr s' \<and> sched_inv P m (es @ req_events s q) s'"
proof -
  define d where "d = dram_addr q"
  have rq: "req_ok P c q" using sched_queue [OF inv c] i q by (auto simp: queue_inv_def)
  note v = req_okD [OF rq wf_geometryI [OF wf], folded d_def]
  have clock: "CYCLE_VAL s = m" "0 \<le> m" using sched_clock [OF inv] by auto
  obtain s' where s': "issue_COL_READ P (RdPtr c i) q s = Inr s'"
    using ok(1) v by (simp add: issue_COL_READ_def Let_def d_def)
  have ev: "req_events s q = [event m c (rank d) (bank d) (row d) KRead]"
    using cmd v clock by (simp add: req_events_def d_def Let_def)
  note def = s' [unfolded issue_COL_READ_def Let_def, folded d_def, unfolded v(1) clock, simplified]
  have dram: "dram_state s' c r' b' = (let k = dram_state s c r' b';
        k' = (if r' = rank d \<and> b' = bank d then k\<lparr>next_pre := max (m + T_RTP P) (next_pre k),
          next_refresh := max (m + T_RTP P) (next_refresh k),
          next_powerdown := max (m + T_RTP P) (next_powerdown k)\<rparr> else k)
      in if valid_rank P r' \<and> valid_bank P b' then k'\<lparr>next_read :=
            (if r' \<noteq> rank d then max (m + T_DATA_TRANS P + T_RTRS P) (next_read k')
             else max (m + max (T_CCD P) (T_DATA_TRANS P)) (next_read k')),
          next_write := max (m + T_CAS P + T_DATA_TRANS P + T_RTRS P - T_CWD P) (next_write k')\<rparr>
         else k')" for r' b'
    using def by (auto simp: Let_def valid_rank_def valid_bank_def)
  have "framed c s s'" using def by (auto simp: framed_def same_refresh_def)
  then have "issues P m c s (req_events s q) s'"
    unfolding ev
  proof (rule issues_column [OF _ v(2,3)])
    show "banks_later P m c s s'" by (auto simp: banks_later_def later_def dram Let_def)
    show "covers P (event m c (rank d) (bank d) (row d) KRead) r' (dram_state s' c r')"
      if "valid_rank P r'" for r'
      using that by (auto simp: covers_event dram Let_def)
    show "state (dram_state s' c r' b') = state (dram_state s c r' b') \<and>
        active_row (dram_state s' c r' b') = active_row (dram_state s c r' b')" for r' b'
      by (simp add: dram Let_def)
  qed (use sched_power [OF inv c] ok in \<open>simp_all add: d_def\<close>)
  then have "sched_inv P m (es @ req_events s q) s'"
  proof (rule sched_issues_plain [OF inv c])
    show "queue_inv P c s'"
      using def clock wf i q cmd
      by (intro queue_inv_serve_read [OF sched_queue [OF inv c] i, where now = m and fin = "m + T_CAS P + T_DATA_TRANS P"])
        (auto simp: wf_params_def wf_timing_def)
    show "cas_inv P c s'"
      using def ok(1) by (intro cas_inv_column [OF sched_cas [OF inv c] free]) (auto simp: dram d_def Let_def)
  qed (use def in \<open>auto simp: ev\<close>)
  then show ?thesis using s' by blast
qed


lemma issue_COL_WRITE_inv:
  assumes inv: "sched_inv P m es s" and c: "valid_channel P c" and wf: "wf_params P"
    and free: "\<not> command_issued_current_cycle s c"
    and i: "i < length (write_queue s c)" and q: "q = write_queue s c ! i"
    and cmd: "next_command q = COL_WRITE_CMD"
    and ok: "state (dram_state s c (rank (dram_addr q)) (bank (dram_addr q))) = ROW_ACTIVE"
      "active_row (dram_state s c (rank (dram_addr q)) (bank (dram_addr q))) = row (dram_addr q)"
      "next_write (dram_state s c (rank (dram_addr q)) (bank (dram_addr q))) \<le> m"
      "m + write_recovery P \<le> refresh_issue_deadline s c (rank (dram_addr q))"
  shows "\<exists>s'. issue_COL_WRITE P (WrPtr c i) q s = Inr s' \<and> sched_inv P m (es @ req_events s q) s'"
proof -
  define d where "d = dram_addr q"
  have rq: "req_ok P c q" using sched_queue [OF inv c] i q by (auto simp: queue_inv_def)
  note v = req_okD [OF rq wf_geometryI [OF wf], folded d_def]
  have clock: "CYCLE_VAL s = m" using sched_clock [OF inv] by auto
  obtain s' where s': "issue_COL_WRITE P (WrPtr c i) q s = Inr s'"
    using ok(1) v by (simp add: issue_COL_WRITE_def Let_def d_def)
  have ev: "req_events s q = [event m c (rank d) (bank d) (row d) KWrite]"
    using cmd v clock by (simp add: req_events_def d_def Let_def)
  note def = s' [unfolded issue_COL_WRITE_def Let_def, folded d_def, unfolded v(1) clock, simplified]
  have dram: "dram_state s' c r' b' = (let k = dram_state s c r' b'; w = m + T_CWD P + T_DATA_TRANS P + T_WR P;
        k' = (if r' = rank d \<and> b' = bank d then k\<lparr>next_pre := max w (next_pre k),
          next_refresh := max w (next_refresh k), next_powerdown := max w (next_powerdown k)\<rparr> else k)
      in if valid_rank P r' \<and> valid_bank P b' then
           (if r' \<noteq> rank d
            then k'\<lparr>next_write := max (m + T_DATA_TRANS P + T_RTRS P) (next_write k'),
                   next_read := max (m + T_CWD P + T_DATA_TRANS P + T_RTRS P - T_CAS P) (next_read k')\<rparr>
            else k'\<lparr>next_write := max (m + max (T_CCD P) (T_DATA_TRANS P)) (next_write k'),
                   next_read := max (m + T_CWD P + T_DATA_TRANS P + T_WTR P) (next_read k')\<rparr>)
         else k')" for r' b'
    using def by (auto simp: Let_def valid_rank_def valid_bank_def)
  have "framed c s s'" using def by (auto simp: framed_def same_refresh_def)
  then have "issues P m c s (req_events s q) s'"
    unfolding ev
  proof (rule issues_column [OF _ v(2,3)])
    show "banks_later P m c s s'" by (auto simp: banks_later_def later_def dram Let_def)
    show "covers P (event m c (rank d) (bank d) (row d) KWrite) r' (dram_state s' c r')"
      if "valid_rank P r'" for r'
      using that by (auto simp: covers_event dram Let_def write_recovery_def)
    show "state (dram_state s' c r' b') = state (dram_state s c r' b') \<and>
        active_row (dram_state s' c r' b') = active_row (dram_state s c r' b')" for r' b'
      by (simp add: dram Let_def)
  qed (use sched_power [OF inv c] ok in \<open>simp_all add: d_def\<close>)
  then have "sched_inv P m (es @ req_events s q) s'"
  proof (rule sched_issues_plain [OF inv c])
    show "queue_inv P c s'"
      using def clock i q cmd
      by (intro queue_inv_serve_write [OF sched_queue [OF inv c] i, where now = m and fin = "m + T_DATA_TRANS P + T_WR P"])
        auto
    show "cas_inv P c s'"
      using def ok(1) by (intro cas_inv_column [OF sched_cas [OF inv c] free]) (auto simp: dram d_def Let_def)
  qed (use def in \<open>auto simp: ev\<close>)
  then show ?thesis using s' by blast
qed

text \<open>The three commands that do not touch the queues.\<close>

lemma issue_bank_request_inv:
  assumes inv: "sched_inv P m es s" and c: "valid_channel P c" and wf: "wf_params P"
    and free: "\<not> command_issued_current_cycle s c" and rq: "req_ok P c q"
  defines "b \<equiv> dram_state s c (rank (dram_addr q)) (bank (dram_addr q))"
    and "dl \<equiv> refresh_issue_deadline s c (rank (dram_addr q))"
  shows "next_command q = ACT_CMD \<Longrightarrow> state b \<in> {IDLE, PRECHARGING, REFRESHING} \<Longrightarrow> next_act b \<le> m \<Longrightarrow>
      is_T_FAW_met P c (rank (dram_addr q)) m s \<Longrightarrow> m + T_RAS P \<le> dl \<Longrightarrow>
      \<exists>s'. issue_ACT P q s = Inr s' \<and> sched_inv P m (es @ req_events s q) s'"
    and "next_command q = PRE_CMD \<Longrightarrow> state b = ROW_ACTIVE \<Longrightarrow> next_pre b \<le> m \<Longrightarrow> m + T_RP P \<le> dl \<Longrightarrow>
      \<exists>s'. issue_PRE P q s = Inr s' \<and> sched_inv P m (es @ req_events s q) s'"
    and "next_command q = PWR_UP_CMD \<Longrightarrow> down b \<Longrightarrow> next_powerup b \<le> m \<Longrightarrow> m + T_XP P \<le> dl \<Longrightarrow>
      \<exists>s'. issue_PWR_UP P q s = Inr s' \<and> sched_inv P m (es @ req_events s q) s'"
proof -
  let ?r = "rank (dram_addr q)" and ?b = "bank (dram_addr q)"
  have wt: "wf_timing P" using wf by (rule wf_timingI)
  note v = req_okD [OF rq wf_geometryI [OF wf]]
  have clock: "CYCLE_VAL s = m" using sched_clock [OF inv] by simp
  {
    assume cmd: "next_command q = ACT_CMD" and closed: "state b \<in> {IDLE, PRECHARGING, REFRESHING}"
      and ok: "next_act b \<le> m" "is_T_FAW_met P c ?r m s" "m + T_RAS P \<le> dl"
    note step = activate_step [OF inv c v(2,3) wt free closed [unfolded b_def] ok(1) [unfolded b_def]
        ok(3) [unfolded dl_def] ok(2), of "row (dram_addr q)"]
    let ?g = "\<lambda>t. count_activate c ?r m (if operation_type q = READ
        then t\<lparr>stats_num_activate_read := upd3 (stats_num_activate_read t) c ?r ?b
          (stats_num_activate_read t c ?r ?b + 1)\<rparr>
        else t\<lparr>stats_num_activate_write := upd3 (stats_num_activate_write t) c ?r ?b
          (stats_num_activate_write t c ?r ?b + 1)\<rparr>)"
    have twice: "upd_stats f (upd_stats g t) = upd_stats (\<lambda>x. f (g x)) t" for f g t
      by (simp add: upd_stats_def)
    show "\<exists>s'. issue_ACT P q s = Inr s' \<and> sched_inv P m (es @ req_events s q) s'"
      using closed step(1) step(2) [of ?g]
      by (auto simp: issue_ACT_def Let_def v clock twice b_def req_events_def cmd)
  }
  {
    assume cmd: "next_command q = PRE_CMD" and ok: "state b = ROW_ACTIVE" "next_pre b \<le> m" "m + T_RP P \<le> dl"
    have "\<not> down b" using ok by (simp add: down_def)
    from precharge_step [OF inv c v(2,3) free this [unfolded b_def] ok(2,3) [unfolded b_def dl_def]]
    show "\<exists>s'. issue_PRE P q s = Inr s' \<and> sched_inv P m (es @ req_events s q) s'"
      using ok(1) by (simp add: issue_PRE_def Let_def v clock b_def req_events_def cmd)
  }
  assume cmd: "next_command q = PWR_UP_CMD" and ok: "down b" "next_powerup b \<le> m" "m + T_XP P \<le> dl"
  have "m + T_XP P \<le> next_refresh_completion_deadline s c ?r"
    using sched_deadline_le [OF inv c v(2) wt] ok(3) wt by (simp add: dl_def wf_timing_def)
  from power_up_step [OF inv c v(2,3) free ok(1,2) [unfolded b_def] this]
  show "\<exists>s'. issue_PWR_UP P q s = Inr s' \<and> sched_inv P m (es @ req_events s q) s'"
    using ok(1) by (auto simp: issue_PWR_UP_def Let_def v clock b_def down_def req_events_def cmd)
qed

text \<open>No request pointer makes the controller abort, and an issued command keeps the invariant.\<close>

lemma issue_request_command_inv:
  assumes inv: "sched_inv P m es s" and c: "valid_channel P c" and wf: "wf_params P"
    and p: "ptr_channel p = c" and q: "get_req s p = Some q"
  shows "\<exists>s' ok. issue_request_command P p s = Inr (s', ok) \<and>
    (if ok then sched_inv P m (es @ req_events s q) s' else s' = s)"
proof (cases "command_issuable q \<and> \<not> command_issued_current_cycle s c")
  case True
  have wt: "T_XP P \<le> T_XP_DLL P" using wf by (simp add: wf_params_def wf_timing_def)
  have free: "\<not> command_issued_current_cycle s c" and clock: "CYCLE_VAL s = m"
    using True sched_clock [OF inv] by auto
  have "q \<in> requests s c" using get_req_in_requests [OF q] p by simp
  then have rq: "req_ok P c q" using sched_queue [OF inv c] by (auto simp: queue_inv_def requests_def)
  note row = req_okD(4,5) [OF rq wf_geometryI [OF wf]] and chan = req_okD(1) [OF rq wf_geometryI [OF wf]]
  note bank = issue_bank_request_inv [OF inv c wf free rq]
  have fr: "fresh P m es c s" by (rule sched_fresh [OF inv c])
  have "\<exists>s'. (case next_command q of
        ACT_CMD \<Rightarrow> issue_ACT P q s | COL_READ_CMD \<Rightarrow> issue_COL_READ P p q s
      | COL_WRITE_CMD \<Rightarrow> issue_COL_WRITE P p q s | PRE_CMD \<Rightarrow> issue_PRE P q s
      | PWR_UP_CMD \<Rightarrow> issue_PWR_UP P q s | _ \<Rightarrow> Inr s) = Inr s' \<and>
      sched_inv P m (es @ req_events s q) s'"
  proof (cases p)
    case (RdPtr c' i)
    then have i: "i < length (read_queue s c)" "q = read_queue s c ! i" and pc: "p = RdPtr c i"
      using p q by (auto split: if_splits)
    then have "\<not> request_served q" "update_read_request P s c q = q"
      using fr free by (auto simp: fresh_def)
    from fresh_read [OF this(2,1) _ clock row] True show ?thesis
      using bank issue_COL_READ_inv [OF inv c wf free i] wt
      by (cases "state (dram_state s c (rank (dram_addr q)) (bank (dram_addr q))) = PRECHARGE_POWER_DOWN_SLOW")
        (auto simp: pc)
  next
    case (WrPtr c' i)
    then have i: "i < length (write_queue s c)" "q = write_queue s c ! i" and pc: "p = WrPtr c i"
      using p q by (auto split: if_splits)
    then have "\<not> request_served q" "update_write_request P s c q = q"
      using fr free by (auto simp: fresh_def)
    from fresh_write [OF this(2,1) _ clock row] True show ?thesis
      using bank issue_COL_WRITE_inv [OF inv c wf free i] wt
      by (cases "state (dram_state s c (rank (dram_addr q)) (bank (dram_addr q))) = PRECHARGE_POWER_DOWN_SLOW")
        (auto simp: pc)
  qed
  then show ?thesis using True q chan by (auto simp: issue_request_command_def)
next
  case False
  have "req_ok P c q"
    using get_req_in_requests [OF q] p sched_queue [OF inv c] by (auto simp: queue_inv_def requests_def)
  then show ?thesis using False q by (auto simp: issue_request_command_def req_ok_def)
qed


section \<open>Any sequence of calls\<close>

text \<open>The commands of a call, whichever it is; a refused call changes nothing.\<close>

lemma api_step_inv:
  assumes step: "api_step P c s fs s'" and inv: "sched_inv P m es s" and c: "valid_channel P c"
    and wf: "wf_params P"
  shows "sched_inv P m (es @ fs) s'"
proof -
  have wt: "wf_timing P" and zero: "valid_bank P 0"
    using wf by (auto simp: wf_params_def wf_geometry_def valid_bank_def)
  have clock: "CYCLE_VAL s = m" using sched_clock [OF inv] by simp
  from step show ?thesis
  proof cases
    case (request p q ok)
    then show ?thesis using issue_request_command_inv [OF inv c wf, of p q] inv by auto
  next
    case (powerdown r cmd ok)
    then show ?thesis
      using issue_powerdown_command_inv [OF inv c powerdown(2) zero wt powerdown(3)] inv clock
      by (cases ok) auto
  next
    case (powerup r ok)
    then show ?thesis
      using issue_powerup_command_inv [OF inv c powerup(2) zero wt powerup(3)] inv clock by (cases ok) auto
  next
    case (activate r b w ok)
    then show ?thesis
      using issue_activate_command_inv [OF inv c _ _ wt, of r b w] inv clock by (cases ok) auto
  next
    case (precharge r b ok)
    then show ?thesis
      using issue_precharge_command_inv [OF inv c precharge(2-4)] inv clock by (cases ok) auto
  next
    case (all_bank_precharge r ok)
    then show ?thesis
      using issue_all_bank_precharge_command_inv [OF inv c all_bank_precharge(2) zero all_bank_precharge(3)]
        inv clock by (cases ok) auto
  next
    case (refresh r ok)
    then show ?thesis
      using issue_refresh_command_inv [OF inv c refresh(2) zero wt refresh(3,4)] inv clock by (cases ok) auto
  next
    case (autoprecharge r b ok)
    then show ?thesis
      using issue_autoprecharge_inv [OF inv c autoprecharge(2-4)] inv by (cases ok) auto
  qed
qed

lemma api_steps_inv:
  assumes "api_steps P s fs s'" and "sched_inv P m es s" and "wf_params P"
  shows "sched_inv P m (es @ fs) s'"
  using assms
proof (induction rule: api_steps.induct)
  case (one_more s es' t c fs u)
  from api_step_inv [OF one_more.hyps(3) _ one_more.hyps(2), of m "es @ es'"] show ?case
    using one_more by simp
next
  case (account s es' t x)
  let ?u = "t\<lparr>stats := x\<rparr>"
  have "chan_eq c t ?u" for c by (simp add: chan_eq_def)
  from ch_inv_cong [OF this, of "[]"] fresh_cong [OF this, of "[]"]
  have "ch_inv P m es' c ?u = ch_inv P m es' c t" "fresh P m es' c ?u = fresh P m es' c t" for c es'
    by simp_all
  moreover have "legal P es' ?u = legal P es' t" for es'
  proof -
    have "dram_state ?u = dram_state t" by simp
    then show ?thesis unfolding legal_def by (rule arg_cong)
  qed
  ultimately have "sched_inv P m es' ?u = sched_inv P m es' t" for es'
    by (simp add: sched_inv_def ctl_inv_def)
  then show ?case using account by simp
qed simp

end
