(* ===== verification/Cycle.thy ===== *)
theory Cycle
  imports Api
begin

text \<open>
  \<open>update_memory\<close> keeps the invariant and never aborts: the refresh state machine of one
  rank, the queues of one channel, then all channels.
\<close>

section \<open>One rank\<close>

text \<open>What the refresh logic reads and writes of a rank.\<close>

definition rank_view where
  "rank_view c r s = (CYCLE_VAL s, dram_state s c r, cas_issued_current_cycle s c r,
     activation_record s c r, next_refresh_completion_deadline s c r,
     refresh_issue_deadline s c r, forced_refresh_mode_on s c r, num_issued_refreshes s c r)"

lemma fold_local:
  assumes other: "\<And>i k s. k \<noteq> i \<Longrightarrow> get k (f i s) = get k s"
    and locally: "\<And>i s s'. get i s = get i s' \<Longrightarrow> get i (f i s) = get i (f i s')"
    and "distinct xs"
  shows "get k (fold f xs s) = (if k \<in> set xs then get k (f k s) else get k s)"
  using \<open>distinct xs\<close>
proof (induction xs arbitrary: s)
  case (Cons x xs)
  then have "get k (fold f xs (f x s)) = (if k \<in> set xs then get k (f k (f x s)) else get k (f x s))"
    by simp
  moreover have "get k (f k (f x s)) = get k (f k s)" if "k \<noteq> x"
    using that by (intro locally other)
  ultimately show ?case using Cons.prems other by auto
qed simp

lemma flush_fields [simp]:
  "CYCLE_VAL (flush_activate_record P c r t s) = CYCLE_VAL s"
  "dram_state (flush_activate_record P c r t s) = dram_state s"
  "cas_issued_current_cycle (flush_activate_record P c r t s) = cas_issued_current_cycle s"
  "next_refresh_completion_deadline (flush_activate_record P c r t s) = next_refresh_completion_deadline s"
  "refresh_issue_deadline (flush_activate_record P c r t s) = refresh_issue_deadline s"
  "forced_refresh_mode_on (flush_activate_record P c r t s) = forced_refresh_mode_on s"
  "num_issued_refreshes (flush_activate_record P c r t s) = num_issued_refreshes s"
  "command_issued_current_cycle (flush_activate_record P c r t s) = command_issued_current_cycle s"
  "read_queue (flush_activate_record P c r t s) = read_queue s"
  "write_queue (flush_activate_record P c r t s) = write_queue s"
  "read_queue_length (flush_activate_record P c r t s) = read_queue_length s"
  "write_queue_length (flush_activate_record P c r t s) = write_queue_length s"
  by (subst flush_eq, simp)+

definition flushed :: "params \<Rightarrow> int \<Rightarrow> int arr1 \<Rightarrow> int arr1" where
  "flushed P t rec = (\<lambda>j. if t \<ge> T_FAW P + PROCESSOR_CLK_MULTIPLIER P \<and>
     (\<exists>i\<in>{1..PROCESSOR_CLK_MULTIPLIER P}. j = (t - T_FAW P - i) smod BIG_ACTIVATION_WINDOW)
     then 0 else rec j)"

lemma flush_record_row:
  "activation_record (flush_activate_record P c r t s) c' r' =
     (if c' = c \<and> r' = r then flushed P t (activation_record s c r) else activation_record s c' r')"
  by (rule ext) (auto simp: flush_record flushed_def)

lemma update_refresh_fields:
  "CYCLE_VAL (update_refresh P c r s) = CYCLE_VAL s"
  "cas_issued_current_cycle (update_refresh P c r s) = cas_issued_current_cycle s"
  "activation_record (update_refresh P c r s) = activation_record s"
  "command_issued_current_cycle (update_refresh P c r s) = command_issued_current_cycle s"
  "read_queue (update_refresh P c r s) = read_queue s"
  "write_queue (update_refresh P c r s) = write_queue s"
  "read_queue_length (update_refresh P c r s) = read_queue_length s"
  "write_queue_length (update_refresh P c r s) = write_queue_length s"
  by (auto simp: update_refresh_def issue_forced_refresh_commands_def Let_def)

lemma update_refresh_other:
  assumes "c' \<noteq> c \<or> r' \<noteq> r"
  shows "rank_view c' r' (update_refresh P c r s) = rank_view c' r' s"
proof -
  have "dram_state (upd_banks P c r f t) c' r' = dram_state t c' r'" for f t
    by (rule ext) (use assms in auto)
  then show ?thesis using assms
    by (simp add: rank_view_def update_refresh_def issue_forced_refresh_commands_def Let_def) auto
qed

text \<open>The refresh state machine of one rank, as a function of its view.\<close>

definition forced_bank :: "int \<Rightarrow> bank_t \<Rightarrow> bank_t" where
  "forced_bank cd b = b\<lparr>state := REFRESHING, active_row := - 1, next_act := cd, next_pre := cd,
     next_refresh := cd, next_powerdown := cd\<rparr>"

definition refresh_machine where
  "refresh_machine P = (\<lambda>(cyc, B, cas, rec, cd, dl, forced, n).
     if cyc = cd then
       (cyc, B, cas, rec, cyc + 8 * T_REFI P,
        c_int (cyc + 8 * T_REFI P - T_RP P - 8 * T_RFC P), False, 0)
     else if cyc = dl \<and> n < 8 then
       (cyc, (\<lambda>b. if valid_bank P b then forced_bank cd (B b) else B b), cas, rec, cd, dl, True, n)
     else if cyc < dl then
       (cyc, B, cas, rec, cd, c_int (cd - T_RP P - (8 - n) * T_RFC P), forced, n)
     else (cyc, B, cas, rec, cd, dl, forced, n))"

lemma update_refresh_view:
  "rank_view c r (update_refresh P c r s) = refresh_machine P (rank_view c r s)"
proof -
  have "dram_state (upd_banks P c r (\<lambda>_. forced_bank cd) t) c r =
      (\<lambda>b. if valid_bank P b then forced_bank cd (dram_state t c r b) else dram_state t c r b)" for cd t
    by (rule ext) (simp add: valid_bank_def)
  moreover have "issue_forced_refresh_commands P c r t =
      upd_banks P c r (\<lambda>_. forced_bank (next_refresh_completion_deadline t c r)) t" for t
    by (simp add: issue_forced_refresh_commands_def forced_bank_def [abs_def] Let_def)
  ultimately show ?thesis
    by (simp add: rank_view_def update_refresh_def refresh_machine_def Let_def cong: if_cong)
qed

text \<open>
  The start of an iteration of the rank loop: the column flags are cleared and the activation
  record is flushed.
\<close>

definition rank_reset :: "params \<Rightarrow> int \<Rightarrow> int \<Rightarrow> mc \<Rightarrow> mc" where
  "rank_reset P c r s = s\<lparr>
     cas_issued_current_cycle := upd2 (cas_issued_current_cycle s) c r
       (\<lambda>b. if valid_bank P b then 0 else cas_issued_current_cycle s c r b),
     activation_record := upd2 (activation_record s) c r
       (flushed P (CYCLE_VAL s) (activation_record s c r))\<rparr>"

lemma rank_reset_view:
  "rank_view c r (rank_reset P c r s) = (CYCLE_VAL s, dram_state s c r,
     (\<lambda>b. if valid_bank P b then 0 else cas_issued_current_cycle s c r b),
     flushed P (CYCLE_VAL s) (activation_record s c r), next_refresh_completion_deadline s c r,
     refresh_issue_deadline s c r, forced_refresh_mode_on s c r, num_issued_refreshes s c r)"
  by (simp add: rank_view_def rank_reset_def)

lemma update_rank_view:
  "rank_view c r (update_rank P c r s) = rank_view c r (update_refresh P c r (rank_reset P c r s))"
  "c' \<noteq> c \<or> r' \<noteq> r \<Longrightarrow> rank_view c' r' (update_rank P c r s) = rank_view c' r' s"
proof -
  define t where "t = flush_activate_record P c r (CYCLE_VAL s) (s\<lparr>cas_issued_current_cycle :=
    fold (\<lambda>b f. upd3 f c r b 0) (below (NUM_BANKS P)) (cas_issued_current_cycle s)\<rparr>)"
  have u: "update_rank P c r s = update_refresh P c r t"
    by (simp add: update_rank_def t_def Let_def)
  have "rank_view c r t = rank_view c r (rank_reset P c r s)"
    unfolding rank_reset_view
    by (auto simp: rank_view_def t_def flush_record_row fold_upd3_zero valid_bank_def fun_eq_iff)
  then show "rank_view c r (update_rank P c r s) = rank_view c r (update_refresh P c r (rank_reset P c r s))"
    unfolding u update_refresh_view by simp
  assume other: "c' \<noteq> c \<or> r' \<noteq> r"
  then have "rank_view c' r' t = rank_view c' r' s"
    by (auto simp: rank_view_def t_def flush_record_row fold_upd3_zero fun_eq_iff)
  then show "rank_view c' r' (update_rank P c r s) = rank_view c' r' s"
    unfolding u using other by (simp add: update_refresh_other)
qed

lemma update_ranks_view:
  "rank_view c r (fold (update_rank P c) (below (NUM_RANKS P)) s) =
     (if valid_rank P r then rank_view c r (update_refresh P c r (rank_reset P c r s))
      else rank_view c r s)"
proof -
  have "rank_view c k (fold (update_rank P c) (below (NUM_RANKS P)) s) =
      (if k \<in> set (below (NUM_RANKS P)) then rank_view c k (update_rank P c k s) else rank_view c k s)" for k
  proof (rule fold_local [where get = "rank_view c" and f = "update_rank P c"])
    show "rank_view c k (update_rank P c i s) = rank_view c k s" if "k \<noteq> i" for i k s
      using that by (simp add: update_rank_view(2))
    show "rank_view c i (update_rank P c i s) = rank_view c i (update_rank P c i s')"
      if "rank_view c i s = rank_view c i s'" for i s s'
    proof -
      have "rank_view c i (rank_reset P c i s) = rank_view c i (rank_reset P c i s')"
        using that unfolding rank_reset_view by (simp add: rank_view_def cong: if_cong)
      then show ?thesis by (simp add: update_rank_view(1) update_refresh_view)
    qed
  qed simp
  then show ?thesis by (auto simp: valid_rank_def update_rank_view(1))
qed

lemma update_ranks_other:
  "c' \<noteq> c \<Longrightarrow> rank_view c' r (fold (update_rank P c) rs s) = rank_view c' r s"
  by (rule fold_frame) (simp add: update_rank_view)

lemma update_ranks_queues:
  "command_issued_current_cycle (fold (update_rank P c) rs s) = command_issued_current_cycle s"
  "read_queue (fold (update_rank P c) rs s) = read_queue s"
  "write_queue (fold (update_rank P c) rs s) = write_queue s"
  "read_queue_length (fold (update_rank P c) rs s) = read_queue_length s"
  "write_queue_length (fold (update_rank P c) rs s) = write_queue_length s"
  by (rule fold_frame; simp add: update_rank_def update_refresh_fields Let_def)+


section \<open>The refresh state machine keeps the invariant of the rank\<close>

text \<open>The next memory cycle \<open>m'\<close> and the clock range in which the deadlines fit an \<open>int\<close>.\<close>

definition next_cycle :: "params \<Rightarrow> int \<Rightarrow> int \<Rightarrow> bool" where
  "next_cycle P m m' \<longleftrightarrow> m' = m + PROCESSOR_CLK_MULTIPLIER P \<and> 0 \<le> m' \<and>
     PROCESSOR_CLK_MULTIPLIER P dvd m' \<and> m' + 8 * T_REFI P < 2 ^ 31"

lemma next_cycle_deadline:
  assumes ok: "refresh_ok P m cd dl n forced" and nxt: "next_cycle P m m'" and wf: "wf_params P"
  shows "m' \<le> cd" and "\<not> forced \<Longrightarrow> n < 8 \<Longrightarrow> m' \<le> dl" and "cd < 2 ^ 31"
    and "m < m'" and "0 \<le> (8 - n) * T_RFC P"
proof -
  let ?K = "PROCESSOR_CLK_MULTIPLIER P"
  have K: "0 < ?K" "?K dvd m" using nxt wf by (auto simp: next_cycle_def wf_params_def wf_timing_def)
  have step: "m' \<le> x" if "?K dvd x" "m < x" for x
    using zdvd_imp_le [of ?K "x - m"] that K nxt by (simp add: next_cycle_def)
  show "m' \<le> cd" using ok by (intro step) (simp_all add: refresh_ok_def)
  show "m' \<le> dl" if "\<not> forced" "n < 8" using ok that by (intro step) (simp_all add: refresh_ok_def)
  show "m < m'" using K nxt by (simp add: next_cycle_def)
  then show "cd < 2 ^ 31" using ok nxt by (auto simp: refresh_ok_def next_cycle_def)
  show "0 \<le> (8 - n) * T_RFC P" using ok wf by (simp add: refresh_ok_def wf_params_def wf_timing_def)
qed

lemma refresh_machine_ok:
  assumes ok: "refresh_ok P m cd dl n forced" and nxt: "next_cycle P m m'" and wf: "wf_params P"
    and run: "refresh_machine P (m', B, cas, rec, cd, dl, forced, n) =
      (cyc', B', cas', rec', cd', dl', forced', n')"
  shows "refresh_ok P m' cd' dl' n' forced'" and "cd \<le> cd'" and "dl \<le> dl'"
proof -
  note d = next_cycle_deadline [OF ok nxt wf]
  have al: "PROCESSOR_CLK_MULTIPLIER P dvd T_RP P" "PROCESSOR_CLK_MULTIPLIER P dvd T_RFC P"
    "PROCESSOR_CLK_MULTIPLIER P dvd T_REFI P" "PROCESSOR_CLK_MULTIPLIER P dvd m'"
    using wf nxt unfolding wf_params_def aligned_timing_def next_cycle_def by blast+
  have t: "0 \<le> T_RP P" "0 < T_RFC P" "T_RP P + 8 * T_RFC P < 8 * T_REFI P" "0 \<le> m'"
    "m' + 8 * T_REFI P < 2 ^ 31"
    using wf nxt by (simp_all add: wf_params_def wf_timing_def next_cycle_def)
  have dl: "dl \<le> cd - T_RP P - (8 - n) * T_RFC P" using ok by (simp add: refresh_ok_def)
  have new: "c_int (m' + 8 * T_REFI P - T_RP P - 8 * T_RFC P) = m' + 8 * T_REFI P - T_RP P - 8 * T_RFC P"
    using t by (intro c_int_id) simp_all
  have moved: "c_int (cd - T_RP P - (8 - n) * T_RFC P) = cd - T_RP P - (8 - n) * T_RFC P" if "m' < dl"
    using that t d dl by (intro c_int_id) linarith+
  show "refresh_ok P m' cd' dl' n' forced'"
    using run ok d dl t al new moved
    by (auto simp: refresh_machine_def refresh_ok_def split: if_splits)
  show "cd \<le> cd'" using run t by (auto simp: refresh_machine_def split: if_splits)
  show "dl \<le> dl'" using run t d dl new moved by (auto simp: refresh_machine_def split: if_splits)
qed

lemma refresh_machine_settled:
  assumes e: "settled_event P m cd dl n e"
    and ok: "refresh_ok P m cd dl n forced" and nxt: "next_cycle P m m'" and wf: "wf_params P"
    and run: "refresh_machine P (m', B, cas, rec, cd, dl, forced, n) =
      (cyc', B', cas', rec', cd', dl', forced', n')"
  shows "settled_event P m' cd' dl' n' e"
proof (cases "m' = cd")
  case False
  then have "n' = n" using run by (auto simp: refresh_machine_def split: if_splits)
  then show ?thesis
    using refresh_machine_ok [OF ok nxt wf run] next_cycle_deadline(4) [OF ok nxt wf]
    by (intro settled_event_mono [OF e]) simp_all
next
  case True
  then have "cd' = m' + 8 * T_REFI P" using run by (auto simp: refresh_machine_def)
  moreover have "T_XP P \<le> 8 * T_REFI P" "T_RFC P \<le> 8 * T_REFI P"
    using wf by (auto simp: wf_params_def wf_timing_def)
  ultimately show ?thesis
    using refresh_machine_ok(2,3) [OF ok nxt wf run] next_cycle_deadline(4) [OF ok nxt wf] e
    by (cases "ev_kind e") (auto simp: settled_event_def)
qed

lemma refresh_machine_covers:
  assumes cov: "covers P e r B" and settled: "ev_rank e = r \<Longrightarrow> settled_event P m cd dl n e"
    and ok: "refresh_ok P m cd dl n forced" and wf: "wf_params P"
    and run: "refresh_machine P (m', B, cas, rec, cd, dl, forced, n) =
      (cyc', B', cas', rec', cd', dl', forced', n')"
  shows "covers P e r B'"
proof (cases "m' \<noteq> cd \<and> m' = dl \<and> n < 8")
  case True
  then have B': "B' = (\<lambda>b. if valid_bank P b then forced_bank cd (B b) else B b)"
    using run by (auto simp: refresh_machine_def)
  show ?thesis unfolding covers_def
  proof (intro allI impI)
    fix k b g
    assume k: "k \<noteq> KForced" and b: "valid_bank P b" and g: "min_gap P e k r b = Some g"
    show "ev_time e + g \<le> next_of k (B' b)"
    proof (cases "k \<in> {KAct, KPre, KPwrDn, KRef}")
      case busy: True
      then have "ev_rank e = r" using min_gap_other_rank [OF g] by auto
      then have "ev_time e + g \<le> cd"
        using settled wf ok True g busy
        by (intro settled_forced [where k = k and dl = dl and n = n]) (auto simp: refresh_ok_def wf_params_def)
      then show ?thesis using busy b by (auto simp: B' forced_bank_def)
    next
      case False
      then have "next_of k (B' b) = next_of k (B b)"
        using k b by (cases k) (auto simp: B' forced_bank_def)
      then show ?thesis using cov k b g by (simp add: covers_def)
    qed
  qed
qed (use run cov in \<open>auto simp: refresh_machine_def split: if_splits\<close>)

text \<open>The forced refresh itself: it keeps its distance and is accounted for.\<close>

lemma forced_event_ok:
  assumes ok: "refresh_ok P m cd dl n forced" and wf: "wf_params P"
    and starts: "m' \<noteq> cd" "m' = dl" "n < 8"
    and run: "refresh_machine P (m', B, cas, rec, cd, dl, forced, n) =
      (cyc', B', cas', rec', cd', dl', forced', n')"
  shows "covers P (event m' c r 0 0 KForced) r' B'"
    and "settled_event P m' cd' dl' n' (event m' c r 0 0 KForced)"
proof -
  have "T_RFC P \<le> (8 - n) * T_RFC P"
    using wf starts by (simp add: wf_params_def wf_timing_def mult_le_cancel_right1)
  then have "m' + (T_RP P + T_RFC P) \<le> cd" using ok starts by (simp add: refresh_ok_def)
  moreover have "B' = (\<lambda>b. if valid_bank P b then forced_bank cd (B b) else B b)" "cd' = cd"
    using run starts by (auto simp: refresh_machine_def)
  ultimately show "covers P (event m' c r 0 0 KForced) r' B'"
    and "settled_event P m' cd' dl' n' (event m' c r 0 0 KForced)"
    by (simp_all add: covers_event forced_bank_def settled_event_def)
qed


text \<open>The forced refreshes are the ones \<open>forced_event\<close> announces.\<close>

definition forced_starts :: "mc \<Rightarrow> int \<Rightarrow> int \<Rightarrow> bool" where
  "forced_starts s c r \<longleftrightarrow>
     CYCLE_VAL s \<noteq> next_refresh_completion_deadline s c r \<and>
     CYCLE_VAL s = refresh_issue_deadline s c r \<and> num_issued_refreshes s c r < 8"

definition forced_list :: "mc \<Rightarrow> dram_event list \<Rightarrow> bool" where
  "forced_list s fs \<longleftrightarrow>
     (\<forall>f\<in>set fs. \<exists>c r. f = event (CYCLE_VAL s) c r 0 0 KForced \<and> forced_starts s c r)"

text \<open>What channel \<open>c\<close> needs to know of them.\<close>

definition forced_on :: "int \<Rightarrow> mc \<Rightarrow> dram_event list \<Rightarrow> bool" where
  "forced_on c s fs \<longleftrightarrow>
     (\<forall>f\<in>set fs. \<exists>c' r. f = event (CYCLE_VAL s) c' r 0 0 KForced \<and> (c' = c \<longrightarrow> forced_starts s c r))"

lemma forced_list_on: "forced_list s fs \<Longrightarrow> forced_on c s fs"
  by (fastforce simp: forced_list_def forced_on_def)

lemma forced_on_cong: "chan_eq c s t \<Longrightarrow> forced_on c s fs = forced_on c t fs"
  by (simp add: forced_on_def forced_starts_def chan_eq_def)

lemma forced_events_list: "forced_list s (forced_events P s)"
  unfolding forced_list_def
proof
  fix f
  assume "f \<in> set (forced_events P s)"
  then obtain c r where "f \<in> set (forced_event s c r)" by (auto simp: forced_events_def)
  then have "f = event (CYCLE_VAL s) c r 0 0 KForced" "forced_starts s c r"
    by (auto simp: forced_event_def forced_starts_def split: if_splits)
  then show "\<exists>c r. f = event (CYCLE_VAL s) c r 0 0 KForced \<and> forced_starts s c r" by blast
qed

lemma forced_events_iff:
  "(\<exists>f\<in>set (forced_events P s). ev_chan f = c \<and> ev_rank f = r) \<longleftrightarrow>
     valid_channel P c \<and> valid_rank P r \<and> forced_starts s c r"
  by (auto simp: forced_events_def forced_event_def forced_starts_def valid_channel_def valid_rank_def)

lemma forced_list_acts: "forced_on c s fs \<Longrightarrow> act_times c' r fs = []"
  by (rule act_times_none) (auto simp: forced_on_def)

lemma rank_update_inv:
  assumes inv: "rank_inv P m es c r s" and clock: "CYCLE_VAL s = m'" and nxt: "next_cycle P m m'"
    and wf: "wf_params P" and fs: "forced_on c s fs"
    and view: "rank_view c r s' = rank_view c r (update_refresh P c r (rank_reset P c r s))"
  shows "rank_inv P m' (es @ fs) c r s'"
    and "valid_bank P b \<Longrightarrow> cas_issued_current_cycle s' c r b = 0"
    and "dram_state s' c r = (if forced_starts s c r
      then \<lambda>b. if valid_bank P b then forced_bank (next_refresh_completion_deadline s c r)
        (dram_state s c r b) else dram_state s c r b
      else dram_state s c r)"
proof -
  let ?B = "dram_state s c r" and ?cd = "next_refresh_completion_deadline s c r"
    and ?dl = "refresh_issue_deadline s c r" and ?n = "num_issued_refreshes s c r"
    and ?forced = "forced_refresh_mode_on s c r"
  define v where "v = refresh_machine P
      (m', ?B, \<lambda>b. if valid_bank P b then 0 else cas_issued_current_cycle s c r b,
       flushed P m' (activation_record s c r), ?cd, ?dl, ?forced, ?n)"
  obtain cyc' B' cas' rec' cd' dl' forced' n' where "v = (cyc', B', cas', rec', cd', dl', forced', n')"
    by (cases v) auto
  note run = this [unfolded v_def]
  have view': "rank_view c r s' = (cyc', B', cas', rec', cd', dl', forced', n')"
    by (simp add: view update_refresh_view rank_reset_view clock run)
  have same: "rec' = flushed P m' (activation_record s c r)"
    "cas' = (\<lambda>b. if valid_bank P b then 0 else cas_issued_current_cycle s c r b)"
    "B' = (if forced_starts s c r then \<lambda>b. if valid_bank P b then forced_bank ?cd (?B b) else ?B b else ?B)"
    using run by (auto simp: refresh_machine_def forced_starts_def clock split: if_splits)
  have ok: "refresh_ok P m ?cd ?dl ?n ?forced" and tr: "tracked P (set es) c r ?B"
    and st: "settled P (set es) c r m ?cd ?dl ?n"
    and faw: "faw_inv P m (act_times c r es) (activation_record s c r)" and pw: "power_ok P ?B"
    using inv by (simp_all add: rank_inv_def)
  have fd: "dram_state s' c r = B'" "next_refresh_completion_deadline s' c r = cd'"
    "refresh_issue_deadline s' c r = dl'" "forced_refresh_mode_on s' c r = forced'"
    "num_issued_refreshes s' c r = n'" "activation_record s' c r = rec'"
    "cas_issued_current_cycle s' c r = cas'"
    using view' by (simp_all add: rank_view_def)
  have starts: "m' \<noteq> ?cd" "m' = ?dl" "?n < 8" if "forced_starts s c r"
    using that clock by (simp_all add: forced_starts_def)
  show "rank_inv P m' (es @ fs) c r s'" unfolding rank_inv_def fd
  proof (intro conjI)
    show "refresh_ok P m' cd' dl' n' forced'" by (rule refresh_machine_ok(1) [OF ok nxt wf run])
    have "covers P e r B'" if "e \<in> set es" "ev_chan e = c" for e
      using tr st that by (intro refresh_machine_covers [OF _ _ ok wf run]) (auto simp: tracked_def settled_def)
    moreover have "covers P f r B'" if f: "f \<in> set fs" "ev_chan f = c" for f
    proof (cases "ev_rank f = r")
      case True
      then have "f = event m' c r 0 0 KForced" "forced_starts s c r"
        using f fs clock by (auto simp: forced_on_def)
      then show ?thesis using forced_event_ok(1) [OF ok wf starts run] by simp
    next
      case False
      then show ?thesis using f fs by (auto simp: forced_on_def covers_event)
    qed
    ultimately show "tracked P (set (es @ fs)) c r B'" by (auto simp: tracked_def)
    have "settled_event P m' cd' dl' n' e" if "e \<in> set es" "ev_chan e = c" "ev_rank e = r" for e
      using st that by (intro refresh_machine_settled [OF _ ok nxt wf run]) (auto simp: settled_def)
    moreover have "settled_event P m' cd' dl' n' f" if "f \<in> set fs" "ev_chan f = c" "ev_rank f = r" for f
      using that fs clock forced_event_ok(2) [OF ok wf starts run] by (auto simp: forced_on_def)
    ultimately show "settled P (set (es @ fs)) c r m' cd' dl' n'" by (auto simp: settled_def)
    have "faw_inv P m' (act_times c r es) rec'" unfolding same flushed_def
      using wf nxt by (intro faw_flush [OF faw]) (auto simp: next_cycle_def wf_params_def)
    then show "faw_inv P m' (act_times c r (es @ fs)) rec'" by (simp add: forced_list_acts [OF fs])
    have "\<not> down (forced_bank x k)" for x k by (simp add: forced_bank_def down_def)
    moreover have "valid_bank P 0" using wf by (simp add: wf_params_def wf_geometry_def valid_bank_def)
    ultimately have "power_ok P (\<lambda>b. if valid_bank P b then forced_bank ?cd (?B b) else ?B b)"
      by (simp add: power_ok_def)
    then show "power_ok P B'" using pw by (simp add: same(3))
  qed
  show "valid_bank P b \<Longrightarrow> cas_issued_current_cycle s' c r b = 0" by (simp add: fd same)
  show "dram_state s' c r = (if forced_starts s c r
      then \<lambda>b. if valid_bank P b then forced_bank ?cd (?B b) else ?B b else ?B)"
    by (simp add: fd same)
qed


section \<open>One channel\<close>

lemma clean_read_queue_filter:
  assumes "\<forall>q\<in>set qs. request_served q \<longrightarrow> next_command q = COL_READ_CMD \<and> completion_time q \<noteq> - 100"
    and "int (length qs) \<le> len"
  shows "clean_read_queue qs len = Inr (filter (\<lambda>q. \<not> request_served q) qs,
    len - int (length (filter request_served qs)))"
  using assms by (induction qs len rule: clean_read_queue.induct) (auto simp: assertE_def)

lemma clean_write_queue_filter:
  assumes "\<forall>q\<in>set qs. request_served q \<longrightarrow> next_command q = COL_WRITE_CMD"
    and "int (length qs) \<le> len"
  shows "clean_write_queue qs len = Inr (filter (\<lambda>q. \<not> request_served q) qs,
    len - int (length (filter request_served qs)))"
  using assms by (induction qs len rule: clean_write_queue.induct) (auto simp: assertE_def)

lemma length_unserved:
  "int (length qs) - int (length (filter p qs)) = int (length (filter (\<lambda>q. \<not> p q) qs))"
  using sum_length_filter_compl [of p qs] by linarith

text \<open>The update writes \<open>next_command\<close> and \<open>command_issuable\<close> of waiting requests only.\<close>

lemma update_request_keeps:
  "request_served (update_read_request P s c q) = request_served q"
  "dram_addr (update_read_request P s c q) = dram_addr q"
  "completion_time (update_read_request P s c q) = completion_time q"
  "request_served q \<Longrightarrow> update_read_request P s c q = q"
  "update_read_request P s c (update_read_request P s c q) = update_read_request P s c q"
  "request_served (update_write_request P s c q) = request_served q"
  "dram_addr (update_write_request P s c q) = dram_addr q"
  "request_served q \<Longrightarrow> update_write_request P s c q = q"
  "update_write_request P s c (update_write_request P s c q) = update_write_request P s c q"
  by (simp_all add: update_read_request_def update_write_request_def Let_def)

text \<open>What the issuable table's update leaves alone.\<close>

lemma update_issuable_frame:
  fixes P :: params and c :: int and s :: mc
  defines "t \<equiv> update_issuable_commands P c s"
  shows "CYCLE_VAL t = CYCLE_VAL s" "dram_state t = dram_state s"
    "command_issued_current_cycle t = command_issued_current_cycle s"
    "cas_issued_current_cycle t = cas_issued_current_cycle s"
    "read_queue t = read_queue s" "write_queue t = write_queue s"
    "read_queue_length t = read_queue_length s" "write_queue_length t = write_queue_length s"
    "next_refresh_completion_deadline t = next_refresh_completion_deadline s"
    "forced_refresh_mode_on t = forced_refresh_mode_on s"
    "refresh_issue_deadline t = refresh_issue_deadline s"
    "num_issued_refreshes t = num_issued_refreshes s" "activation_record t = activation_record s"
  unfolding t_def update_issuable_commands_def
  by (rule fold_frame; simp add: update_issuable_rank_def Let_def)+


text \<open>The state after the rank loop and the updates of the issuable table.\<close>

definition channel_refreshed :: "params \<Rightarrow> int \<Rightarrow> mc \<Rightarrow> mc" where
  "channel_refreshed P c s = update_issuable_commands P c (fold (update_rank P c) (below (NUM_RANKS P))
     (s\<lparr>command_issued_current_cycle := (command_issued_current_cycle s)(c := False)\<rparr>))"

lemma update_memory_channel_eq:
  "update_memory_channel P c s =
     clean_queues c (update_write_queue_commands P c
       (update_read_queue_commands P c (channel_refreshed P c s)))"
  by (simp add: update_memory_channel_def channel_refreshed_def Let_def)

lemma rank_view_issuable: "rank_view c r (update_issuable_commands P c' s) = rank_view c r s"
  by (simp add: rank_view_def update_issuable_frame)

lemma channel_refreshed_view:
  assumes "valid_rank P r"
  shows "rank_view c r (channel_refreshed P c s) =
    rank_view c r (update_refresh P c r (rank_reset P c r s))"
proof -
  let ?t = "s\<lparr>command_issued_current_cycle := (command_issued_current_cycle s)(c := False)\<rparr>"
  have "rank_view c r (rank_reset P c r ?t) = rank_view c r (rank_reset P c r s)"
    by (simp add: rank_reset_view cong: if_cong)
  then show ?thesis using assms
    by (simp add: channel_refreshed_def rank_view_issuable update_ranks_view update_refresh_view)
qed

lemma channel_refreshed_fields:
  "CYCLE_VAL (channel_refreshed P c s) = CYCLE_VAL s"
  "\<not> command_issued_current_cycle (channel_refreshed P c s) c"
  "read_queue (channel_refreshed P c s) = read_queue s"
  "write_queue (channel_refreshed P c s) = write_queue s"
  "read_queue_length (channel_refreshed P c s) = read_queue_length s"
  "write_queue_length (channel_refreshed P c s) = write_queue_length s"
proof -
  have "CYCLE_VAL (update_rank P c r t) = CYCLE_VAL t" for r t
    by (simp add: update_rank_def update_refresh_fields Let_def)
  then show "CYCLE_VAL (channel_refreshed P c s) = CYCLE_VAL s"
    by (simp add: channel_refreshed_def update_issuable_frame fold_frame [where g = CYCLE_VAL])
qed (simp_all add: channel_refreshed_def update_issuable_frame update_ranks_queues)

lemma channel_refreshed_other:
  assumes "c' \<noteq> c"
  shows "chan_eq c' s (channel_refreshed P c s)"
proof -
  let ?t = "s\<lparr>command_issued_current_cycle := (command_issued_current_cycle s)(c := False)\<rparr>"
  have "rank_view c' r (channel_refreshed P c s) = rank_view c' r s" for r
    using assms by (simp add: channel_refreshed_def rank_view_issuable update_ranks_other)
      (simp add: rank_view_def)
  then have "dram_state (channel_refreshed P c s) c' r = dram_state s c' r"
    "cas_issued_current_cycle (channel_refreshed P c s) c' r = cas_issued_current_cycle s c' r"
    "activation_record (channel_refreshed P c s) c' r = activation_record s c' r"
    "next_refresh_completion_deadline (channel_refreshed P c s) c' r = next_refresh_completion_deadline s c' r"
    "refresh_issue_deadline (channel_refreshed P c s) c' r = refresh_issue_deadline s c' r"
    "forced_refresh_mode_on (channel_refreshed P c s) c' r = forced_refresh_mode_on s c' r"
    "num_issued_refreshes (channel_refreshed P c s) c' r = num_issued_refreshes s c' r" for r
    by (simp_all add: rank_view_def)
  moreover have "command_issued_current_cycle (channel_refreshed P c s) c' = command_issued_current_cycle s c'"
    using assms by (simp add: channel_refreshed_def update_issuable_frame update_ranks_queues)
  ultimately show ?thesis by (auto simp: chan_eq_def channel_refreshed_fields fun_eq_iff)
qed

text \<open>The queue pass: served requests leave, waiting ones learn their next command.\<close>

definition refreshed_reads :: "params \<Rightarrow> int \<Rightarrow> mc \<Rightarrow> request_t list" where
  "refreshed_reads P c t = map (update_read_request P t c) (filter (\<lambda>q. \<not> request_served q) (read_queue t c))"

definition refreshed_writes :: "params \<Rightarrow> int \<Rightarrow> mc \<Rightarrow> request_t list" where
  "refreshed_writes P c t = map (update_write_request P t c) (filter (\<lambda>q. \<not> request_served q) (write_queue t c))"

lemma queue_pass:
  assumes inv: "queue_inv P c t"
  shows "clean_queues c (update_write_queue_commands P c (update_read_queue_commands P c t)) =
    Inr (t\<lparr>read_queue := (read_queue t)(c := refreshed_reads P c t),
           read_queue_length := (read_queue_length t)(c := int (length (refreshed_reads P c t))),
           write_queue := (write_queue t)(c := refreshed_writes P c t),
           write_queue_length := (write_queue_length t)(c := int (length (refreshed_writes P c t)))\<rparr>)"
proof -
  let ?f = "update_read_request P t c" and ?g = "update_write_request P t c"
  have g: "update_write_request P (update_read_queue_commands P c t) c = ?g"
    by (rule update_request_cong(2)) (simp_all add: update_read_queue_commands_def)
  have rd: "clean_read_queue (map ?f (read_queue t c)) (read_queue_length t c) =
      Inr (refreshed_reads P c t, int (length (refreshed_reads P c t)))"
  proof (subst clean_read_queue_filter)
    show "\<forall>q\<in>set (map ?f (read_queue t c)). request_served q \<longrightarrow>
        next_command q = COL_READ_CMD \<and> completion_time q \<noteq> - 100"
      using inv by (auto simp: queue_inv_def update_request_keeps)
  qed (use inv in \<open>auto simp: queue_inv_def refreshed_reads_def filter_map o_def update_request_keeps
      length_unserved\<close>)
  have wr: "clean_write_queue (map ?g (write_queue t c)) (write_queue_length t c) =
      Inr (refreshed_writes P c t, int (length (refreshed_writes P c t)))"
  proof (subst clean_write_queue_filter)
    show "\<forall>q\<in>set (map ?g (write_queue t c)). request_served q \<longrightarrow> next_command q = COL_WRITE_CMD"
      using inv by (auto simp: queue_inv_def update_request_keeps)
  qed (use inv in \<open>auto simp: queue_inv_def refreshed_writes_def filter_map o_def update_request_keeps
      length_unserved\<close>)
  show ?thesis
    using rd wr by (simp add: clean_queues_def update_write_queue_commands_def g)
      (simp add: update_read_queue_commands_def)
qed


lemma update_memory_channel_inv:
  assumes inv: "ch_inv P m es c s" and clock: "CYCLE_VAL s = m'" and nxt: "next_cycle P m m'"
    and wf: "wf_params P" and fs: "forced_on c s fs"
  shows "\<exists>s'. update_memory_channel P c s = Inr s' \<and> CYCLE_VAL s' = m' \<and>
    (\<forall>c'. c' \<noteq> c \<longrightarrow> chan_eq c' s s') \<and> ch_inv P m' (es @ fs) c s' \<and> fresh P m' (es @ fs) c s' \<and>
    (\<forall>r. valid_rank P r \<longrightarrow> dram_state s' c r = (if forced_starts s c r
      then \<lambda>b. if valid_bank P b then forced_bank (next_refresh_completion_deadline s c r)
        (dram_state s c r b) else dram_state s c r b
      else dram_state s c r) \<and>
      num_issued_refreshes s' c r =
        (if m' = next_refresh_completion_deadline s c r then 0 else num_issued_refreshes s c r))"
proof -
  define t where "t = channel_refreshed P c s"
  have q: "queue_inv P c t"
    using inv by (simp add: ch_inv_def queue_inv_def t_def channel_refreshed_fields)
  define s' where "s' = t\<lparr>read_queue := (read_queue t)(c := refreshed_reads P c t),
    read_queue_length := (read_queue_length t)(c := int (length (refreshed_reads P c t))),
    write_queue := (write_queue t)(c := refreshed_writes P c t),
    write_queue_length := (write_queue_length t)(c := int (length (refreshed_writes P c t)))\<rparr>"
  have run: "update_memory_channel P c s = Inr s'"
    using queue_pass [OF q] by (simp add: update_memory_channel_eq t_def s'_def)
  have up: "update_read_request P s' c = update_read_request P t c"
    "update_write_request P s' c = update_write_request P t c"
    by (rule update_request_cong; simp add: s'_def)+
  have queues: "read_queue s' c = refreshed_reads P c t" "write_queue s' c = refreshed_writes P c t"
    by (simp_all add: s'_def)
  have view: "rank_view c r s' = rank_view c r (update_refresh P c r (rank_reset P c r s))"
    if "valid_rank P r" for r
    using channel_refreshed_view [OF that, of c s] by (simp add: rank_view_def s'_def t_def)
  note rank = rank_update_inv [OF _ clock nxt wf fs view]
  have count: "num_issued_refreshes s' c r =
      (if m' = next_refresh_completion_deadline s c r then 0 else num_issued_refreshes s c r)"
    if "valid_rank P r" for r
    using view [OF that] unfolding update_refresh_view rank_reset_view clock
    by (auto simp: rank_view_def refresh_machine_def split: if_splits)
  have ranks: "rank_inv P m es c r s" if "valid_rank P r" for r
    using inv that by (simp add: ch_inv_def)
  have "rank_inv P m' (es @ fs) c r s'" if "valid_rank P r" for r
    by (rule rank(1) [OF ranks [OF that] that])
  moreover have "cas_inv P c s'"
    using rank(2) [OF ranks] by (auto simp: cas_inv_def)
  moreover have "queue_inv P c s'"
    using q by (auto simp: queue_inv_def s'_def refreshed_reads_def refreshed_writes_def
        update_request_keeps req_ok_def)
  ultimately have "ch_inv P m' (es @ fs) c s'" by (simp add: ch_inv_def)
  moreover have "fresh P m' (es @ fs) c s'"
    unfolding fresh_def
  proof (intro impI conjI allI ballI)
    show "t' < m'" if "valid_rank P r" "t' \<in> set (act_times c r (es @ fs))" for r t'
    proof -
      have "t' \<le> m" using ranks [OF that(1)] that(2) forced_list_acts [OF fs]
        by (auto simp: rank_inv_def faw_inv_def)
      then show ?thesis using nxt wf by (simp add: next_cycle_def wf_params_def wf_timing_def)
    qed
  qed (auto simp: queues up refreshed_reads_def refreshed_writes_def update_request_keeps)
  moreover have "chan_eq c' s s'" if "c' \<noteq> c" for c'
    using channel_refreshed_other [OF that, of s P] that by (simp add: chan_eq_def s'_def t_def)
  ultimately show ?thesis
    using run rank(3) [OF ranks] count clock by (auto simp: s'_def t_def channel_refreshed_fields)
qed


section \<open>All channels\<close>

text \<open>A loop over cells that may abort: each iteration changes its own cell.\<close>

lemma foldE_cells:
  assumes step: "\<And>i s. i \<in> set xs \<Longrightarrow> A i s \<Longrightarrow>
      \<exists>s'. f i s = Inr s' \<and> B i s' \<and> (\<forall>k. k \<noteq> i \<longrightarrow> E k s s')"
    and keep: "\<And>k s s'. E k s s' \<Longrightarrow> A k s \<Longrightarrow> A k s'" "\<And>k s s'. E k s s' \<Longrightarrow> B k s \<Longrightarrow> B k s'"
    and "distinct xs" and "\<forall>i\<in>set xs. A i s" and "\<forall>i\<in>ready. B i s" and "ready \<inter> set xs = {}"
  shows "\<exists>s'. foldE f xs s = Inr s' \<and> (\<forall>i\<in>set xs \<union> ready. B i s')"
  using assms(1,4-)
proof (induction xs arbitrary: s ready)
  case (Cons x xs)
  obtain s1 where s1: "f x s = Inr s1" "B x s1" "\<forall>k. k \<noteq> x \<longrightarrow> E k s s1"
    using Cons.prems(1) [of x s] Cons.prems(3) by auto
  have "\<exists>s'. foldE f xs s1 = Inr s' \<and> (\<forall>i\<in>set xs \<union> insert x ready. B i s')"
  proof (rule Cons.IH)
    show "\<exists>s'. f i s = Inr s' \<and> B i s' \<and> (\<forall>k. k \<noteq> i \<longrightarrow> E k s s')"
      if "i \<in> set xs" "A i s" for i s using Cons.prems(1) that by simp
    show "\<forall>i\<in>set xs. A i s1" using Cons.prems(2,3) s1(3) keep(1) by fastforce
    show "\<forall>i\<in>insert x ready. B i s1" using Cons.prems(4,5) s1(2,3) keep(2) by fastforce
    show "insert x ready \<inter> set xs = {}" using Cons.prems(2,5) by auto
  qed (use Cons.prems(2) in simp)
  then show ?case using s1(1) by auto
qed auto

text \<open>The abstract DRAM accepts forced refreshes in any state.\<close>

definition fresh_rank :: rank_abs where
  "fresh_rank = \<lparr>powered_down = False, open_row = (\<lambda>_. None)\<rparr>"

lemma dram_run_forced:
  assumes "\<forall>f\<in>set fs. ev_kind f = KForced"
  shows "dram_run fs D = Some (\<lambda>c r. if \<exists>f\<in>set fs. ev_chan f = c \<and> ev_rank f = r then fresh_rank else D c r)"
  using assms
proof (induction fs arbitrary: D)
  case (Cons f fs)
  then have "dram_run (f # fs) D = Some (\<lambda>c r. if \<exists>f\<in>set fs. ev_chan f = c \<and> ev_rank f = r
      then fresh_rank else upd2 D (ev_chan f) (ev_rank f) fresh_rank c r)"
    by (simp add: accepts_def after_def fresh_rank_def [symmetric] del: upd2_apply)
  then show ?case by (auto simp: fun_eq_iff)
qed simp

lemma abs_rank_forced:
  assumes "valid_bank P 0"
  shows "abs_rank P (\<lambda>b. if valid_bank P b then forced_bank x (B b) else B b) = fresh_rank"
  using assms by (intro abs_rank_eqI) (auto simp: fresh_rank_def forced_bank_def down_def open_of_def)

lemma timing_ok_forced:
  assumes "timing_ok P es" and fs: "forced_list s fs"
    and settled: "\<And>e c r. e \<in> set es \<Longrightarrow> ev_chan e = c \<Longrightarrow> ev_rank e = r \<Longrightarrow> valid_channel P c \<Longrightarrow>
      valid_rank P r \<Longrightarrow> \<exists>cd n. settled_event P m cd (refresh_issue_deadline s c r) n e"
    and valid: "\<forall>f\<in>set fs. valid_channel P (ev_chan f) \<and> valid_rank P (ev_rank f)"
  shows "timing_ok P (es @ fs)"
proof -
  have "keeps_gap P e f" if ef: "e \<in> set es" "f \<in> set fs" for e f
  proof -
    obtain c r where f: "f = event (CYCLE_VAL s) c r 0 0 KForced" "forced_starts s c r"
      using fs ef by (auto simp: forced_list_def)
    have "ev_time e + g \<le> CYCLE_VAL s"
      if ch: "ev_chan e = c" and gap: "min_gap P e KForced r b = Some g" for b g
    proof -
      have r: "ev_rank e = r" using min_gap_other_rank [OF gap] by simp
      have "valid_channel P c" "valid_rank P r" using valid ef(2) f(1) by auto
      then obtain cd n where "settled_event P m cd (refresh_issue_deadline s c r) n e"
        using settled [OF ef(1) ch r] by blast
      then have "ev_time e + g \<le> refresh_issue_deadline s c r"
        using keeps_gap_forced [OF _ r gap] by blast
      then show ?thesis using f(2) by (simp add: forced_starts_def)
    qed
    then show ?thesis by (auto simp: keeps_gap_def f(1) split: option.splits)
  qed
  moreover have "timing_ok P fs"
    using fs
  proof (induction fs)
    case (Cons f fs)
    have "keeps_gap P f g" if "g \<in> set fs" for g
      using Cons.prems that by (auto simp: forced_list_def keeps_gap_def min_gap_def)
    then show ?case using Cons by (auto simp: forced_list_def list_all_iff)
  qed simp
  ultimately show ?thesis using assms(1) by (simp add: timing_ok_append)
qed


text \<open>What \<open>update_memory\<close> leaves in one channel, relative to the state \<open>s\<close> it starts in.\<close>

definition channel_done :: "params \<Rightarrow> int \<Rightarrow> dram_event list \<Rightarrow> mc \<Rightarrow> int \<Rightarrow> mc \<Rightarrow> bool" where
  "channel_done P m es s c t \<longleftrightarrow>
     CYCLE_VAL t = m \<and> ch_inv P m es c t \<and> fresh P m es c t \<and>
     (\<forall>r. valid_rank P r \<longrightarrow> abs_rank P (dram_state t c r) =
        (if forced_starts s c r then fresh_rank else abs_rank P (dram_state s c r)) \<and>
        num_issued_refreshes t c r =
          (if m = next_refresh_completion_deadline s c r then 0 else num_issued_refreshes s c r))"

lemma channel_done_cong: "chan_eq c t u \<Longrightarrow> channel_done P m es s c t \<Longrightarrow> channel_done P m es s c u"
  using ch_inv_cong [of c t u "[]"] fresh_cong [of c t u "[]"]
  by (simp add: channel_done_def chan_eq_def)

lemma update_memory_channels:
  assumes inv: "\<And>c. valid_channel P c \<Longrightarrow> ch_inv P m es c s" and clock: "CYCLE_VAL s = m'"
    and nxt: "next_cycle P m m'" and wf: "wf_params P" and fs: "forced_list s fs"
  shows "\<exists>s'. update_memory P s = Inr s' \<and>
    (\<forall>c. valid_channel P c \<longrightarrow> channel_done P m' (es @ fs) s c s')"
proof -
  have zero: "valid_bank P 0" using wf by (simp add: wf_params_def wf_geometry_def valid_bank_def)
  have "\<exists>s'. foldE (update_memory_channel P) (below (NUM_CHANNELS P)) s = Inr s' \<and>
      (\<forall>c\<in>set (below (NUM_CHANNELS P)) \<union> {}. channel_done P m' (es @ fs) s c s')"
  proof (rule foldE_cells [where A = "\<lambda>c. chan_eq c s" and E = chan_eq])
    fix c t
    assume c: "c \<in> set (below (NUM_CHANNELS P))" and t: "chan_eq c s t"
    have ch: "ch_inv P m es c t"
      using inv [of c] ch_inv_cong [OF t, of "[]"] c by (simp add: valid_channel_def)
    have ct: "CYCLE_VAL t = m'" using t clock by (simp add: chan_eq_def)
    have on: "forced_on c t fs" using forced_list_on [OF fs, of c] forced_on_cong [OF t, of fs] by simp
    have same: "forced_starts t c r = forced_starts s c r" "dram_state t c = dram_state s c"
      "next_refresh_completion_deadline t c = next_refresh_completion_deadline s c"
      "num_issued_refreshes t c = num_issued_refreshes s c" for r
      using t by (simp_all add: forced_starts_def chan_eq_def)
    from update_memory_channel_inv [OF ch ct nxt wf on]
    show "\<exists>s'. update_memory_channel P c t = Inr s' \<and> channel_done P m' (es @ fs) s c s' \<and>
        (\<forall>k. k \<noteq> c \<longrightarrow> chan_eq k t s')"
      by (auto simp: channel_done_def same abs_rank_forced [OF zero])
  qed (auto intro: chan_eq_trans channel_done_cong)
  then show ?thesis by (auto simp: update_memory_def valid_channel_def)
qed

lemma update_memory_inv:
  assumes inv: "ctl_inv P m es s" and clock: "CYCLE_VAL s = m'" and nxt: "next_cycle P m m'"
    and wf: "wf_params P"
  shows "\<exists>s'. update_memory P s = Inr s' \<and> sched_inv P m' (es @ forced_events P s) s'"
proof -
  let ?fs = "forced_events P s"
  note fs = forced_events_list [of s P]
  have chans: "ch_inv P m es c s" if "valid_channel P c" for c using inv that by (simp add: ctl_inv_def)
  obtain s' where run: "update_memory P s = Inr s'"
    and post: "\<And>c. valid_channel P c \<Longrightarrow> channel_done P m' (es @ ?fs) s c s'"
    using update_memory_channels [OF chans clock nxt wf fs] by blast
  have some: "valid_channel P 0" using wf by (simp add: wf_params_def wf_geometry_def valid_channel_def)
  have "timing_ok P (es @ ?fs)"
  proof (rule timing_ok_forced [OF _ fs])
    show "timing_ok P es" using inv by (simp add: ctl_inv_def)
    show "\<forall>f\<in>set ?fs. valid_channel P (ev_chan f) \<and> valid_rank P (ev_rank f)"
      using forced_events_iff by blast
    fix e c r
    assume "e \<in> set es" "ev_chan e = c" "ev_rank e = r" "valid_channel P c" "valid_rank P r"
    then show "\<exists>cd n. settled_event P m cd (refresh_issue_deadline s c r) n e"
      using chans [of c] by (auto simp: ch_inv_def rank_inv_def settled_def)
  qed
  moreover have "faw_ok P (es @ ?fs)"
    using inv forced_list_acts [OF forced_list_on [OF fs]] by (simp add: ctl_inv_def faw_ok_def)
  moreover have "legal P (es @ ?fs) s'"
  proof -
    obtain D where D: "dram_run es dram_reset = Some D"
      "\<And>c r. valid_channel P c \<Longrightarrow> valid_rank P r \<Longrightarrow> D c r = abs_rank P (dram_state s c r)"
      using inv by (auto simp: ctl_inv_def legal_def)
    let ?D = "\<lambda>c r. if \<exists>f\<in>set ?fs. ev_chan f = c \<and> ev_rank f = r then fresh_rank else D c r"
    have "dram_run ?fs D = Some ?D" using fs by (intro dram_run_forced) (auto simp: forced_list_def)
    then have "dram_run (es @ ?fs) dram_reset = Some ?D" by (simp add: dram_run_append D(1))
    moreover have "?D c r = abs_rank P (dram_state s' c r)" if "valid_channel P c" "valid_rank P r" for c r
      using post [OF that(1)] that D(2) [OF that] by (simp add: channel_done_def forced_events_iff)
    ultimately show ?thesis unfolding legal_def by blast
  qed
  ultimately have "ctl_inv P m' (es @ ?fs) s'" using post by (simp add: ctl_inv_def channel_done_def)
  moreover have "0 \<le> m'" "m' < 2 ^ 31" using nxt wf by (auto simp: next_cycle_def wf_params_def wf_timing_def)
  ultimately have "sched_inv P m' (es @ ?fs) s'"
    using post post [OF some] by (simp add: sched_inv_def channel_done_def)
  then show ?thesis using run by blast
qed

text \<open>
  The refresh counters: kept, or reset at the completion deadline, which falls on the multiples
  of \<open>8 * T_REFI\<close>.
\<close>

lemma window_start:
  assumes ok: "refresh_ok P m cd dl n forced" and nxt: "next_cycle P m m'" and wf: "wf_params P"
    and start: "8 * T_REFI P dvd m'"
  shows "m' = cd \<or> n = 0"
proof (cases "m < 0")
  case False
  let ?W = "8 * T_REFI P"
  have "0 < ?W" using wf by (auto simp: wf_params_def wf_timing_def)
  have le: "m' \<le> cd" "m < m'" using next_cycle_deadline [OF ok nxt wf] by simp_all
  have "cd - m' < ?W" using ok False le by (simp add: refresh_ok_def)
  moreover have "?W dvd cd - m'" using ok start by (simp add: refresh_ok_def)
  ultimately have "cd - m' = 0" using zdvd_imp_le [of ?W "cd - m'"] le by linarith
  then show ?thesis by simp
qed (use ok in \<open>simp add: refresh_ok_def\<close>)

lemma update_memory_counts:
  assumes inv: "ctl_inv P m es s" and clock: "CYCLE_VAL s = m'" and nxt: "next_cycle P m m'"
    and wf: "wf_params P" and run: "update_memory P s = Inr s'"
    and v: "valid_channel P c" "valid_rank P r"
  shows "num_issued_refreshes s' c r \<in> {num_issued_refreshes s c r, 0}"
    and "8 * T_REFI P dvd m' \<Longrightarrow> num_issued_refreshes s' c r = 0"
proof -
  have chans: "ch_inv P m es c s" if "valid_channel P c" for c using inv that by (simp add: ctl_inv_def)
  have eq: "num_issued_refreshes s' c r =
      (if m' = next_refresh_completion_deadline s c r then 0 else num_issued_refreshes s c r)"
    using update_memory_channels [OF chans clock nxt wf forced_events_list] run v
    by (auto simp: channel_done_def)
  then show "num_issued_refreshes s' c r \<in> {num_issued_refreshes s c r, 0}" by simp
  have "refresh_ok P m (next_refresh_completion_deadline s c r) (refresh_issue_deadline s c r)
      (num_issued_refreshes s c r) (forced_refresh_mode_on s c r)"
    using chans [OF v(1)] v(2) by (simp add: ch_inv_def rank_inv_def)
  from window_start [OF this nxt wf]
  show "num_issued_refreshes s' c r = 0" if "8 * T_REFI P dvd m'" using that eq by auto
qed

end
