(* ===== verification/Simulation.thy ===== *)
theory Simulation
  imports Cycle
begin

text \<open>
  The invariant along whole executions of the main loop (\<open>sim\<close>), for any scheduler, and the
  properties that follow: the DRAM timing constraints, the four-activate window, the row and
  power protocol, the refresh deadlines, and that no \<open>assert\<close> of the controller fails.
\<close>

section \<open>The processor side\<close>

text \<open>New requests, the reorder buffer and the statistics are all it touches.\<close>

lemma ctl_inv_queues:
  assumes "ctl_inv P m es s"
    and "\<And>c. valid_channel P c \<Longrightarrow> queue_inv P c s \<Longrightarrow> queue_inv P c s'"
    and "dram_state s' = dram_state s"
      "command_issued_current_cycle s' = command_issued_current_cycle s"
      "cas_issued_current_cycle s' = cas_issued_current_cycle s"
      "next_refresh_completion_deadline s' = next_refresh_completion_deadline s"
      "forced_refresh_mode_on s' = forced_refresh_mode_on s"
      "refresh_issue_deadline s' = refresh_issue_deadline s"
      "num_issued_refreshes s' = num_issued_refreshes s"
      "activation_record s' = activation_record s"
  shows "ctl_inv P m es s'"
  using assms(1,2)
  by (auto simp: ctl_inv_def ch_inv_def rank_inv_def cas_inv_def legal_def assms(3-))

lemma env_step_inv:
  assumes step: "env_step P s s'" and inv: "ctl_inv P m es s" and wf: "wf_geometry P"
  shows "ctl_inv P m es s' \<and> CYCLE_VAL s' = CYCLE_VAL s"
proof
  note range = calc_dram_addr_in_range_aux [OF wf]
  show "ctl_inv P m es s'"
    using step
    by cases (rule ctl_inv_queues [OF inv];
        auto simp: insert_read_def insert_write_def init_new_node_def queue_inv_def req_ok_def range Let_def)+
  show "CYCLE_VAL s' = CYCLE_VAL s"
    using step by cases (simp_all add: insert_read_def insert_write_def Let_def)
qed

lemma env_steps_inv:
  assumes "(env_step P)\<^sup>*\<^sup>* s s'" and "ctl_inv P m es s" and "wf_geometry P"
  shows "ctl_inv P m es s' \<and> CYCLE_VAL s' = CYCLE_VAL s"
  using assms by (induction rule: rtranclp_induct) (auto dest: env_step_inv)

lemma ctl_inv_clock: "ctl_inv P m es (s\<lparr>CYCLE_VAL := t\<rparr>) = ctl_inv P m es s"
  by (simp add: ctl_inv_def ch_inv_def rank_inv_def queue_inv_def cas_inv_def legal_def)

section \<open>Executions\<close>

text \<open>The last memory cycle before a clock value; before the start, one multiplier below zero.\<close>

definition last_cycle :: "params \<Rightarrow> int \<Rightarrow> int" where
  "last_cycle P t = (t - 1) div PROCESSOR_CLK_MULTIPLIER P * PROCESSOR_CLK_MULTIPLIER P"

lemma last_cycle_start: "0 < PROCESSOR_CLK_MULTIPLIER P \<Longrightarrow> last_cycle P 0 = - PROCESSOR_CLK_MULTIPLIER P"
  by (simp add: last_cycle_def div_eq_minus1)

lemma last_cycle_at:
  assumes "0 < PROCESSOR_CLK_MULTIPLIER P" and "t mod PROCESSOR_CLK_MULTIPLIER P = 0"
  shows "last_cycle P t + PROCESSOR_CLK_MULTIPLIER P = t" and "last_cycle P (t + 1) = t"
proof -
  let ?K = "PROCESSOR_CLK_MULTIPLIER P"
  obtain k where k: "t = k * ?K" using assms(2) by (metis mod_0_imp_dvd dvdE mult.commute)
  have "(k * ?K - 1) div ?K = k + (- 1) div ?K"
    using div_mult_self1 [of ?K "- 1" k] assms(1) by (simp add: algebra_simps)
  also have "\<dots> = k - 1" using assms(1) by (simp add: div_eq_minus1)
  finally have "last_cycle P t = (k - 1) * ?K" by (simp add: last_cycle_def k)
  then show "last_cycle P t + ?K = t" by (simp add: k algebra_simps)
  show "last_cycle P (t + 1) = t" using assms(1) by (simp add: last_cycle_def k)
qed

lemma last_cycle_between:
  assumes "0 < PROCESSOR_CLK_MULTIPLIER P" and "t mod PROCESSOR_CLK_MULTIPLIER P \<noteq> 0"
  shows "last_cycle P (t + 1) = last_cycle P t"
proof -
  let ?K = "PROCESSOR_CLK_MULTIPLIER P"
  have t: "t = t div ?K * ?K + t mod ?K" by simp
  have "(t - 1) div ?K = t div ?K"
  proof (rule int_div_pos_eq [where r = "t mod ?K - 1"])
    show "t - 1 = ?K * (t div ?K) + (t mod ?K - 1)" using t by (simp add: mult.commute)
    show "0 \<le> t mod ?K - 1" using assms pos_mod_sign [of ?K t] by linarith
    show "t mod ?K - 1 < ?K" using pos_mod_bound [of ?K t] assms(1) by linarith
  qed
  then show ?thesis by (simp add: last_cycle_def)
qed

lemma init_inv:
  assumes wf: "wf_params P" and "8 * T_REFI P < 2 ^ 31"
  shows "ctl_inv P (- PROCESSOR_CLK_MULTIPLIER P) [] (init_memory_controller_vars P (zero_mc rob))"
proof -
  let ?s = "init_memory_controller_vars P (zero_mc rob)"
  have t: "0 \<le> T_RP P" "0 < T_RFC P" "T_RP P + 8 * T_RFC P < 8 * T_REFI P" "0 < PROCESSOR_CLK_MULTIPLIER P"
    using wf by (simp_all add: wf_params_def wf_timing_def)
  have al: "PROCESSOR_CLK_MULTIPLIER P dvd T_RP P" "PROCESSOR_CLK_MULTIPLIER P dvd T_RFC P"
    "PROCESSOR_CLK_MULTIPLIER P dvd T_REFI P"
    using wf by (simp_all add: wf_params_def aligned_timing_def)
  have dl: "c_int (8 * T_REFI P - T_RP P - 8 * T_RFC P) = 8 * T_REFI P - T_RP P - 8 * T_RFC P"
    using t assms(2) by (intro c_int_id) linarith+
  have bank: "state (dram_state ?s c r b) = IDLE" if "valid_channel P c" "valid_rank P r" "valid_bank P b" for c r b
    using that by (simp add: init_memory_controller_vars_def Let_def valid_channel_def valid_rank_def valid_bank_def)
  have zero: "valid_bank P 0" using wf by (simp add: wf_params_def wf_geometry_def valid_bank_def)
  have "rank_inv P (- PROCESSOR_CLK_MULTIPLIER P) [] c r ?s" if v: "valid_channel P c" "valid_rank P r" for c r
    unfolding rank_inv_def
  proof (intro conjI)
    show "power_ok P (dram_state ?s c r)" using bank [OF v] zero by (simp add: power_ok_def down_def)
    show "refresh_ok P (- PROCESSOR_CLK_MULTIPLIER P) (next_refresh_completion_deadline ?s c r)
        (refresh_issue_deadline ?s c r) (num_issued_refreshes ?s c r) (forced_refresh_mode_on ?s c r)"
      using v t al by (simp add: refresh_ok_def init_memory_controller_vars_def Let_def fill2_def
          valid_channel_def valid_rank_def dl)
    show "faw_inv P (- PROCESSOR_CLK_MULTIPLIER P) (act_times c r []) (activation_record ?s c r)"
      by (simp add: faw_inv_def act_times_def init_memory_controller_vars_def Let_def fill3_def zero_mc_def)
  qed simp_all
  moreover have "queue_inv P c ?s" "cas_inv P c ?s" if "valid_channel P c" for c
    by (simp_all add: queue_inv_def cas_inv_def init_memory_controller_vars_def Let_def fill1_def fill3_def zero_mc_def)
  moreover have "legal P [] ?s" unfolding legal_def
  proof (intro exI conjI allI impI)
    fix c r
    assume v: "valid_channel P c" "valid_rank P r"
    show "dram_reset c r = abs_rank P (dram_state ?s c r)"
      unfolding dram_reset_def
      by (rule abs_rank_eqI [symmetric]) (use bank [OF v] zero in \<open>auto simp: down_def open_of_def\<close>)
  qed simp
  ultimately show ?thesis by (simp add: ctl_inv_def ch_inv_def faw_ok_def act_times_def)
qed


text \<open>Only the end of an iteration moves the clock.\<close>

lemma update_memory_clock:
  assumes "update_memory P s = Inr s'"
  shows "CYCLE_VAL s' = CYCLE_VAL s"
proof -
  have "CYCLE_VAL u = CYCLE_VAL t" if "update_memory_channel P c t = Inr u" for c t u
    using that by (auto simp: update_memory_channel_eq clean_queues_def update_write_queue_commands_def
        update_read_queue_commands_def channel_refreshed_fields split: prod.splits)
  then show ?thesis
    using foldE_Inr_induct [OF assms [unfolded update_memory_def], where P = "\<lambda>t. CYCLE_VAL t = CYCLE_VAL s"]
    by simp
qed

lemma issue_request_command_clock:
  assumes "issue_request_command P p s = Inr (s', ok)"
  shows "CYCLE_VAL s' = CYCLE_VAL s"
  using assms
  by (auto simp: issue_request_command_def issue_ACT_def issue_COL_READ_def issue_COL_WRITE_def
      issue_PRE_def issue_PWR_UP_def record_activate_def Let_def
      split: option.splits if_splits command_t.splits)

lemma api_step_clock:
  assumes "api_step P c s fs s'"
  shows "CYCLE_VAL s' = CYCLE_VAL s"
  using assms
proof cases
  case (request p q ok)
  then show ?thesis using issue_request_command_clock by blast
next
  case (powerdown r cmd ok)
  have "CYCLE_VAL (powerdown_iteration P c r cmd i t) = CYCLE_VAL t" for i t
    by (simp add: powerdown_iteration_def Let_def)
  then have "CYCLE_VAL (fold (powerdown_iteration P c r cmd) bs s) = CYCLE_VAL s" for bs
    by (rule fold_frame)
  then show ?thesis using powerdown by (auto simp: issue_powerdown_command_def split: if_splits)
next
  case (all_bank_precharge r ok)
  have "CYCLE_VAL (all_bank_precharge_iteration P c r i t) = CYCLE_VAL t" for i t
    by (simp add: all_bank_precharge_iteration_def issue_precharge_command_def Let_def)
  then have "CYCLE_VAL (fold (all_bank_precharge_iteration P c r) bs s) = CYCLE_VAL s" for bs
    by (rule fold_frame)
  then show ?thesis using all_bank_precharge
    by (auto simp: issue_all_bank_precharge_command_def split: if_splits)
qed (auto simp: issue_powerup_command_def issue_activate_command_def issue_precharge_command_def
    issue_refresh_command_def issue_autoprecharge_def record_activate_def Let_def split: if_splits)

lemma api_steps_clock: "api_steps P s fs s' \<Longrightarrow> CYCLE_VAL s' = CYCLE_VAL s"
  by (induction rule: api_steps.induct) (auto dest: api_step_clock)

lemma env_steps_clock: "(env_step P)\<^sup>*\<^sup>* s s' \<Longrightarrow> CYCLE_VAL s' = CYCLE_VAL s"
  by (induction rule: rtranclp_induct)
    (auto elim!: env_step.cases simp: insert_read_def insert_write_def Let_def)

text \<open>The scheduling phase of one iteration, from the state between two iterations.\<close>

lemma memory_cycle_inv:
  assumes inv: "ctl_inv P (last_cycle P (CYCLE_VAL s)) es s" and pos: "0 \<le> CYCLE_VAL s"
    and wf: "wf_params P" and "CYCLE_VAL s mod PROCESSOR_CLK_MULTIPLIER P = 0"
    and "CYCLE_VAL s + 8 * T_REFI P < 2 ^ 31"
  shows "\<exists>s'. update_memory P s = Inr s' \<and> sched_inv P (CYCLE_VAL s) (es @ forced_events P s) s'"
proof -
  have "0 < PROCESSOR_CLK_MULTIPLIER P" using wf by (auto simp: wf_params_def wf_timing_def)
  then have "next_cycle P (last_cycle P (CYCLE_VAL s)) (CYCLE_VAL s)"
    using last_cycle_at(1) [of P "CYCLE_VAL s"] assms(4,5) pos by (auto simp: next_cycle_def)
  from update_memory_inv [OF inv refl this wf] show ?thesis .
qed

lemma sim_inv:
  assumes "sim P s es" and wf: "wf_params P" and "CYCLE_VAL s + 8 * T_REFI P < 2 ^ 31"
  shows "ctl_inv P (last_cycle P (CYCLE_VAL s)) es s \<and> 0 \<le> CYCLE_VAL s"
  using assms(1,3)
proof (induction rule: sim.induct)
  case (start rob)
  have "CYCLE_VAL (init_memory_controller_vars P (zero_mc rob)) = 0"
    by (simp add: init_memory_controller_vars_def zero_mc_def Let_def)
  then show ?case
    using start wf init_inv [OF wf] by (simp add: last_cycle_start wf_params_def wf_timing_def)
next
  case (memory_cycle s es s0 s1 fs s2 s3)
  let ?t = "CYCLE_VAL s0"
  have K: "0 < PROCESSOR_CLK_MULTIPLIER P" and g: "wf_geometry P"
    using wf by (auto simp: wf_params_def wf_timing_def)
  have clock: "CYCLE_VAL s = ?t" "CYCLE_VAL s3 = ?t"
    using env_steps_clock [OF memory_cycle.hyps(2)] update_memory_clock [OF memory_cycle.hyps(4)]
      api_steps_clock [OF memory_cycle.hyps(5)] env_steps_clock [OF memory_cycle.hyps(6)] by simp_all
  then have s0: "ctl_inv P (last_cycle P ?t) es s0" "0 \<le> ?t"
    using memory_cycle.IH memory_cycle.prems env_steps_inv [OF memory_cycle.hyps(2) _ g] by auto
  then have "sched_inv P ?t (es @ forced_events P s0) s1"
    using memory_cycle_inv [OF s0 wf memory_cycle.hyps(3)] memory_cycle.hyps(4) memory_cycle.prems clock by simp
  from api_steps_inv [OF memory_cycle.hyps(5) this wf]
  have "ctl_inv P ?t ((es @ forced_events P s0) @ fs) s2" by (simp add: sched_inv_def)
  from env_steps_inv [OF memory_cycle.hyps(6) this g] show ?case
    using last_cycle_at(2) [OF K memory_cycle.hyps(3)] clock s0(2) by (auto simp: ctl_inv_clock)
next
  case (other_cycle s es s0)
  have K: "0 < PROCESSOR_CLK_MULTIPLIER P" and g: "wf_geometry P"
    using wf by (auto simp: wf_params_def wf_timing_def)
  have clock: "CYCLE_VAL s0 = CYCLE_VAL s" by (rule env_steps_clock [OF other_cycle.hyps(2)])
  then have "ctl_inv P (last_cycle P (CYCLE_VAL s0)) es s0" "0 \<le> CYCLE_VAL s0"
    using other_cycle.IH other_cycle.prems env_steps_inv [OF other_cycle.hyps(2) _ g] by auto
  then show ?case
    using last_cycle_between [OF K other_cycle.hyps(3)] by (simp add: ctl_inv_clock)
qed


section \<open>A concrete run\<close>

text \<open>
  One iteration of the loop on the DDR3 configuration in which a scheduler opens row 5 of
  bank 0: the witnesses below apply the theorems to it.
\<close>

definition demo_rob :: robstructure where
  "demo_rob = \<lparr>head = 0, tail = 0, inflight = 0, comptime = (\<lambda>_. 0), mem_address = (\<lambda>_. 0),
     optype = (\<lambda>_. 0), instrpc = (\<lambda>_. 0), tracedone = False\<rparr>"

definition demo_start :: mc where
  "demo_start = init_memory_controller_vars ddr3_params (zero_mc (\<lambda>_. demo_rob))"

definition demo_events :: "dram_event list" where
  "demo_events = [event 0 0 0 0 5 KAct]"

lemma demo_start_fields:
  "CYCLE_VAL demo_start = 0"
  "next_refresh_completion_deadline demo_start 0 0 = 199680"
  "refresh_issue_deadline demo_start 0 0 = 196820"
  "num_issued_refreshes demo_start 0 0 = 0" "\<not> forced_refresh_mode_on demo_start 0 0"
  by (simp_all add: demo_start_def init_memory_controller_vars_def zero_mc_def fill2_def Let_def
      ddr3_params_def c_int_def)

lemma demo_update:
  "\<exists>s. update_memory ddr3_params demo_start = Inr s \<and> CYCLE_VAL s = 0 \<and>
     is_activate_allowed ddr3_params 0 0 0 s"
proof -
  let ?P = ddr3_params
  define t where "t = channel_refreshed ?P 0 demo_start"
  have "queue_inv ?P 0 demo_start"
    by (simp add: queue_inv_def demo_start_def init_memory_controller_vars_def zero_mc_def fill1_def Let_def)
  then have q: "queue_inv ?P 0 t" by (simp add: queue_inv_def t_def channel_refreshed_fields)
  have below: "below (NUM_CHANNELS ?P) = [0]" by (simp add: ddr3_params_def)
  obtain s where s: "update_memory ?P demo_start = Inr s"
    and same: "rank_view 0 0 s = rank_view 0 0 t" "\<not> command_issued_current_cycle s 0"
    using queue_pass [OF q] channel_refreshed_fields(2) [of ?P 0 demo_start]
    by (simp add: update_memory_def below update_memory_channel_eq rank_view_def flip: t_def)
  have bank: "state (dram_state demo_start 0 0 0) = IDLE" "next_act (dram_state demo_start 0 0 0) = 0"
    by (simp_all add: demo_start_def init_memory_controller_vars_def zero_mc_def zero_bank_def Let_def
        ddr3_params_def)
  have machine: "refresh_machine ?P (0, B, cas, rec, 199680, 196820, False, 0) =
      (0, B, cas, rec, 199680, 196820, False, 0)" for B cas rec
    by (simp add: refresh_machine_def ddr3_params_def c_int_def)
  have "rank_view 0 0 s = refresh_machine ?P (rank_view 0 0 (rank_reset ?P 0 0 demo_start))"
    unfolding same(1) t_def by (subst channel_refreshed_view) (simp_all add: update_refresh_view valid_rank_def ddr3_params_def)
  then have "CYCLE_VAL s = 0" "dram_state s 0 0 = dram_state demo_start 0 0"
    "refresh_issue_deadline s 0 0 = 196820" "\<not> forced_refresh_mode_on s 0 0"
    unfolding rank_reset_view by (simp_all add: machine demo_start_fields) (simp_all add: rank_view_def)
  then show ?thesis using s same(2) bank
    by (simp add: is_activate_allowed_def is_T_FAW_met_def ddr3_params_def c_int_def)
qed

lemma demo_valid:
  "valid_channel ddr3_params 0" "valid_rank ddr3_params 0" "valid_bank ddr3_params 0"
  by (simp_all add: valid_channel_def valid_rank_def valid_bank_def ddr3_params_def)

lemma demo_sim: "sim ddr3_params demo_start []"
  unfolding demo_start_def by (rule sim.start)

lemma demo_bound: "CYCLE_VAL demo_start + 8 * T_REFI ddr3_params < 2 ^ 31"
  by (simp add: demo_start_fields ddr3_params_def)

lemma demo_memory_cycle: "CYCLE_VAL demo_start mod PROCESSOR_CLK_MULTIPLIER ddr3_params = 0"
  by (simp add: demo_start_fields)

lemma demo_no_forced: "forced_events ddr3_params demo_start = []"
  by (simp add: forced_events_def forced_event_def ddr3_params_def demo_start_def
      init_memory_controller_vars_def zero_mc_def fill2_def Let_def c_int_def upto.simps)

lemma demo_calls:
  "\<exists>s1 s2. update_memory ddr3_params demo_start = Inr s1 \<and> api_steps ddr3_params s1 demo_events s2 \<and>
     CYCLE_VAL s2 = 0 \<and> command_issued_current_cycle s2 0"
proof -
  let ?P = ddr3_params
  have wf: "wf_params ?P" by (rule wf_params_ddr3)
  obtain s1 where s1: "update_memory ?P demo_start = Inr s1" "CYCLE_VAL s1 = 0"
    "is_activate_allowed ?P 0 0 0 s1" using demo_update by blast
  have "sched_inv ?P 0 [] s1"
    using memory_cycle_inv [of ?P demo_start "[]"] sim_inv [OF demo_sim wf demo_bound] s1 demo_no_forced wf
    by (simp add: demo_start_fields) (simp add: ddr3_params_def)
  then obtain s2 ok where s2: "issue_activate_command ?P 0 0 0 5 s1 = Inr (s2, ok)"
    using issue_activate_command_inv [OF _ demo_valid wf_timingI [OF wf]] by blast
  have ok: "ok" and "command_issued_current_cycle s2 0"
    using s2 s1(3) by (auto simp: issue_activate_command_def Let_def)
  from ok have "api_step ?P 0 s1 demo_events s2"
    using api_step.activate [OF demo_valid(2,3) s2] s1(2) by (simp add: demo_events_def)
  from api_steps.one_more [OF api_steps.no_call demo_valid(1) this]
  have "api_steps ?P s1 demo_events s2" by simp
  then show ?thesis using s1 api_steps_clock \<open>command_issued_current_cycle s2 0\<close> by fastforce
qed

lemma demo_run: "\<exists>s. sim ddr3_params s demo_events \<and> CYCLE_VAL s + 8 * T_REFI ddr3_params < 2 ^ 31"
proof -
  obtain s1 s2 where s: "update_memory ddr3_params demo_start = Inr s1"
    "api_steps ddr3_params s1 demo_events s2" "CYCLE_VAL s2 = 0" using demo_calls by blast
  have "sim ddr3_params (s2\<lparr>CYCLE_VAL := CYCLE_VAL s2 + 1\<rparr>)
      ([] @ forced_events ddr3_params demo_start @ demo_events)"
    by (rule sim.memory_cycle [OF demo_sim _ demo_memory_cycle s(1,2)]) simp_all
  then show ?thesis using demo_no_forced s(3)
    by (intro exI [where x = "s2\<lparr>CYCLE_VAL := CYCLE_VAL s2 + 1\<rparr>"]) (simp add: ddr3_params_def)
qed

section \<open>Properties of every execution\<close>



text \<open>C4. The four-activate window: in every execution the fifth of any five consecutive
  activates to a rank is issued more than \<open>T_FAW\<close> cycles after the first, so the ring of
  flags in \<open>activation_record\<close> implements the window.\<close>

theorem sim_four_activates:
  assumes "sim P s es" and "wf_params P" and "CYCLE_VAL s + 8 * T_REFI P < 2 ^ 31"
  shows "faw_ok P es"
  using sim_inv [OF assms] by (simp add: ctl_inv_def)

theorem sim_four_activates_witness:
  "\<exists>s. sim ddr3_params s demo_events \<and> faw_ok ddr3_params demo_events"
  using demo_run sim_four_activates [OF _ wf_params_ddr3] by blast

text \<open>C2. The controller refines the row and power protocol of the DRAM: the abstract DRAM
  accepts every command of every execution (no activate of an open bank, column access only to
  the open row and to the row of the request, nothing but a refresh or power-up while powered
  down), and \<open>dram_state\<close> is the state the DRAM is in.\<close>

theorem sim_refines_dram:
  assumes "sim P s es" and "wf_params P" and "CYCLE_VAL s + 8 * T_REFI P < 2 ^ 31"
  shows "\<exists>D. dram_run es dram_reset = Some D \<and>
    (\<forall>c r. valid_channel P c \<longrightarrow> valid_rank P r \<longrightarrow> D c r = abs_rank P (dram_state s c r))"
  using sim_inv [OF assms] by (simp add: ctl_inv_def legal_def)

theorem sim_refines_dram_witness:
  "\<exists>s D. sim ddr3_params s demo_events \<and> dram_run demo_events dram_reset = Some D \<and>
     D 0 0 = abs_rank ddr3_params (dram_state s 0 0)"
  using demo_run sim_refines_dram [OF _ wf_params_ddr3] demo_valid(1,2) by metis

text \<open>C3. No refresh is missed: the clock never reaches a rank's completion deadline with
  refreshes outstanding. Before every deadline, either all eight are issued, or the forced
  refresh is under way, or its start still lies ahead and leaves \<open>T_RP\<close> and one \<open>T_RFC\<close> per
  refresh still owed.\<close>

theorem refresh_never_missed:
  assumes "sim P s es" and "wf_params P" and "CYCLE_VAL s + 8 * T_REFI P < 2 ^ 31"
    and "valid_channel P c" and "valid_rank P r"
  shows "last_cycle P (CYCLE_VAL s) < next_refresh_completion_deadline s c r \<and>
    refresh_issue_deadline s c r \<le> next_refresh_completion_deadline s c r - T_RP P
      - (8 - num_issued_refreshes s c r) * T_RFC P \<and>
    (num_issued_refreshes s c r = 8 \<or> forced_refresh_mode_on s c r \<or>
     last_cycle P (CYCLE_VAL s) < refresh_issue_deadline s c r)"
proof -
  have "rank_inv P (last_cycle P (CYCLE_VAL s)) es c r s"
    using sim_inv [OF assms(1-3)] assms(4,5) by (simp add: ctl_inv_def ch_inv_def)
  then show ?thesis by (auto simp: rank_inv_def refresh_ok_def)
qed

theorem refresh_never_missed_witness:
  "\<exists>s. sim ddr3_params s demo_events \<and>
     last_cycle ddr3_params (CYCLE_VAL s) < next_refresh_completion_deadline s 0 0"
  using demo_run refresh_never_missed [OF _ wf_params_ddr3 _ demo_valid(1,2)] by blast

text \<open>The per-cycle update never aborts: in every reachable state in which the main loop
  calls \<open>update_memory\<close>, all assertions of \<open>clean_queues\<close> hold and it returns.\<close>

theorem update_memory_never_aborts:
  assumes "sim P s es" and "wf_params P" and "CYCLE_VAL s + 8 * T_REFI P < 2 ^ 31"
    and "CYCLE_VAL s mod PROCESSOR_CLK_MULTIPLIER P = 0"
  shows "\<exists>s'. update_memory P s = Inr s'"
  using memory_cycle_inv [OF _ _ assms(2,4,3)] sim_inv [OF assms(1-3)] by blast

theorem update_memory_never_aborts_witness:
  "\<exists>s'. update_memory ddr3_params demo_start = Inr s'"
  by (rule update_memory_never_aborts [OF demo_sim wf_params_ddr3 demo_bound demo_memory_cycle])

text \<open>No interface call aborts: after \<open>update_memory\<close> and any calls a scheduler has made,
  issuing the command of any queued request and any speculative activate return; the bank-state
  assertions of \<open>issue_request_command\<close> and the assertion of \<open>record_activate\<close> hold.\<close>

theorem calls_never_abort:
  assumes "sim P s es" and "wf_params P" and "CYCLE_VAL s + 8 * T_REFI P < 2 ^ 31"
    and "CYCLE_VAL s mod PROCESSOR_CLK_MULTIPLIER P = 0"
    and "update_memory P s = Inr s1" and "api_steps P s1 fs s2"
  shows "(\<forall>p q. valid_channel P (ptr_channel p) \<longrightarrow> get_req s2 p = Some q \<longrightarrow>
      (\<exists>x. issue_request_command P p s2 = Inr x)) \<and>
    (\<forall>c r b w. valid_channel P c \<longrightarrow> valid_rank P r \<longrightarrow> valid_bank P b \<longrightarrow>
      (\<exists>x. issue_activate_command P c r b w s2 = Inr x))"
proof -
  have "sched_inv P (CYCLE_VAL s) (es @ forced_events P s) s1"
    using memory_cycle_inv [OF _ _ assms(2,4,3)] sim_inv [OF assms(1-3)] assms(5) by auto
  from api_steps_inv [OF assms(6) this assms(2)]
  have inv: "sched_inv P (CYCLE_VAL s) ((es @ forced_events P s) @ fs) s2" .
  show ?thesis
    using issue_request_command_inv [OF inv _ assms(2) refl]
      issue_activate_command_inv [OF inv _ _ _ wf_timingI [OF assms(2)]] by blast
qed

theorem calls_never_abort_witness:
  "\<exists>s1 s2 x. update_memory ddr3_params demo_start = Inr s1 \<and>
     api_steps ddr3_params s1 demo_events s2 \<and> issue_activate_command ddr3_params 0 0 0 7 s2 = Inr x"
proof -
  obtain s1 s2 where s: "update_memory ddr3_params demo_start = Inr s1"
    "api_steps ddr3_params s1 demo_events s2" using demo_calls by blast
  show ?thesis
    using s demo_valid
      calls_never_abort [OF demo_sim wf_params_ddr3 demo_bound demo_memory_cycle s] by blast
qed

text \<open>C7. At most one command per channel and memory cycle: once a command has been issued on
  a channel, every further call of the cycle is refused, except an auto-precharge of a bank that
  has had a column command in this very cycle.\<close>

theorem one_command_per_cycle:
  assumes "sim P s es" and "wf_params P" and "CYCLE_VAL s + 8 * T_REFI P < 2 ^ 31"
    and "CYCLE_VAL s mod PROCESSOR_CLK_MULTIPLIER P = 0"
    and "update_memory P s = Inr s1" and "api_steps P s1 fs s2"
    and "valid_channel P c" and "command_issued_current_cycle s2 c" and "api_step P c s2 gs s3"
  shows "gs = [] \<and> s3 = s2 \<or>
    (\<exists>r b. gs = [event (start_precharge P c r b s2) c r b 0 KPre] \<and>
       cas_issued_current_cycle s2 c r b \<in> {1, 2})"
proof -
  have "sched_inv P (CYCLE_VAL s) (es @ forced_events P s) s1"
    using memory_cycle_inv [OF _ _ assms(2,4,3)] sim_inv [OF assms(1-3)] assms(5) by auto
  from api_steps_inv [OF assms(6) this assms(2)]
  have "queue_inv P c s2" using assms(7) by (simp add: sched_queue)
  then have chan: "channel (dram_addr q) = c" if "q \<in> requests s2 c" for q
    using that by (auto simp: queue_inv_def req_ok_def requests_def)
  from assms(9) show ?thesis
  proof cases
    case (request p q ok)
    then show ?thesis
      using assms(8) chan get_req_in_requests [of s2 p q] by (auto simp: issue_request_command_def)
  qed (use assms(8) in \<open>auto simp: issue_powerdown_command_def issue_powerup_command_def
      is_powerup_allowed_def issue_activate_command_def is_activate_allowed_def
      issue_precharge_command_def is_precharge_allowed_def issue_all_bank_precharge_command_def
      is_all_bank_precharge_allowed_def issue_refresh_command_def is_refresh_allowed_def
      issue_autoprecharge_def is_autoprecharge_allowed_def split: if_splits\<close>)
qed

theorem one_command_per_cycle_witness:
  "\<exists>s1 s2 s3 gs. update_memory ddr3_params demo_start = Inr s1 \<and>
     api_steps ddr3_params s1 demo_events s2 \<and> api_step ddr3_params 0 s2 gs s3 \<and>
     (gs = [] \<and> s3 = s2 \<or>
      (\<exists>r b. gs = [event (start_precharge ddr3_params 0 r b s2) 0 r b 0 KPre] \<and>
         cas_issued_current_cycle s2 0 r b \<in> {1, 2}))"
proof -
  obtain s1 s2 where s: "update_memory ddr3_params demo_start = Inr s1"
    "api_steps ddr3_params s1 demo_events s2" and busy: "command_issued_current_cycle s2 0"
    using demo_calls by blast
  obtain s3 ok where "issue_precharge_command ddr3_params 0 0 0 s2 = (s3, ok)" by fastforce
  from api_step.precharge [OF demo_valid(2,3) this] obtain gs where "api_step ddr3_params 0 s2 gs s3" by blast
  with s show ?thesis
    using one_command_per_cycle [OF demo_sim wf_params_ddr3 demo_bound demo_memory_cycle s demo_valid(1) busy]
    by blast
qed

text \<open>C8. The queues are accurate in every reachable state: the length counters count the
  requests, and every request waits in the queue of the channel its address belongs to, with
  rank, bank, row and column within the arrays.\<close>

theorem queues_accurate:
  assumes "sim P s es" and "wf_params P" and "CYCLE_VAL s + 8 * T_REFI P < 2 ^ 31"
    and "valid_channel P c"
  shows "read_queue_length s c = int (length (read_queue s c)) \<and>
    write_queue_length s c = int (length (write_queue s c)) \<and>
    (\<forall>q\<in>requests s c. channel (dram_addr q) = c \<and> addr_in_range P (dram_addr q))"
  using sim_inv [OF assms(1-3)] assms(4)
  by (auto simp: ctl_inv_def ch_inv_def queue_inv_def req_ok_def requests_def)

theorem queues_accurate_witness:
  "\<exists>s. sim ddr3_params s demo_events \<and> read_queue_length s 0 = int (length (read_queue s 0))"
  using demo_run queues_accurate [OF _ wf_params_ddr3 _ demo_valid(1)] by blast

end
