(* ===== verification/Scheduler.thy ===== *)
theory Scheduler
  imports Simulation
begin

text \<open>
  The contract between \<open>main.c\<close> and a scheduling policy.

  A policy is a function \<open>schedule\<close> that the main loop calls once per channel and memory
  cycle, followed by \<open>gather_stats\<close>; it has private state of its own type and acts on the
  controller through the \<open>issue_\<close> functions only. The locale \<open>scheduler\<close> states what the
  rest of the system needs of it: it returns, it makes interface calls on its own channel
  (\<open>reaches\<close>), and it keeps a private invariant that may speak about the refreshes counted in
  the current window. In return every run of the main loop with the policy is an execution of
  the protocol (\<open>run_sim\<close>), so all properties of \<open>sim\<close> hold of it, and the memory phase of the
  loop never aborts (\<open>run_progress\<close>). Each policy's theory interprets the locale.
\<close>

section \<open>Calls on one channel\<close>

inductive calls :: "params \<Rightarrow> int \<Rightarrow> mc \<Rightarrow> dram_event list \<Rightarrow> mc \<Rightarrow> bool" for P c where
  none: "calls P c s [] s"
| more: "calls P c s es t \<Longrightarrow> api_step P c t fs u \<Longrightarrow> calls P c s (es @ fs) u"

definition reaches :: "params \<Rightarrow> int \<Rightarrow> mc \<Rightarrow> mc \<Rightarrow> bool" where
  "reaches P c s t \<longleftrightarrow> (\<exists>fs. calls P c s fs t)"

lemma calls_trans:
  assumes "calls P c t fs u" and "calls P c s es t"
  shows "calls P c s (es @ fs) u"
  using assms
proof (induction rule: calls.induct)
  case (more t es' u fs v)
  then show ?case by (metis calls.more append.assoc)
qed simp

lemma reaches_refl [simp, intro]: "reaches P c s s"
  using calls.none by (auto simp: reaches_def)

lemma reaches_trans [trans]: "reaches P c s t \<Longrightarrow> reaches P c t u \<Longrightarrow> reaches P c s u"
  using calls_trans by (fastforce simp: reaches_def)

lemma reaches_step: "api_step P c s fs t \<Longrightarrow> reaches P c s t"
  unfolding reaches_def by (blast intro: calls.more [OF calls.none, simplified])

lemma calls_api_steps: "calls P c s es t \<Longrightarrow> valid_channel P c \<Longrightarrow> api_steps P s es t"
  by (induction rule: calls.induct) (auto intro: api_steps.intros)

text \<open>The refresh counters of the other channels are out of reach.\<close>

lemma api_step_counts:
  assumes "api_step P c s fs t" and "c' \<noteq> c"
  shows "num_issued_refreshes t c' = num_issued_refreshes s c'"
  using assms(1)
proof cases
  case (request p q ok)
  then show ?thesis
    by (auto simp: issue_request_command_def issue_ACT_def issue_COL_READ_def issue_COL_WRITE_def
        issue_PRE_def issue_PWR_UP_def record_activate_def Let_def
        split: option.splits if_splits command_t.splits)
next
  case (powerdown r cmd ok)
  have "num_issued_refreshes (powerdown_iteration P c r cmd i t) = num_issued_refreshes t" for i t
    by (simp add: powerdown_iteration_def Let_def)
  then have "num_issued_refreshes (fold (powerdown_iteration P c r cmd) bs s) = num_issued_refreshes s" for bs
    by (rule fold_frame)
  then show ?thesis using powerdown by (auto simp: issue_powerdown_command_def split: if_splits)
next
  case (all_bank_precharge r ok)
  have "num_issued_refreshes (all_bank_precharge_iteration P c r i t) = num_issued_refreshes t" for i t
    by (simp add: all_bank_precharge_iteration_def issue_precharge_command_def Let_def)
  then have "num_issued_refreshes (fold (all_bank_precharge_iteration P c r) bs s) = num_issued_refreshes s" for bs
    by (rule fold_frame)
  then show ?thesis using all_bank_precharge
    by (auto simp: issue_all_bank_precharge_command_def split: if_splits)
next
  case (refresh r ok)
  then show ?thesis using assms(2)
    by (auto simp: issue_refresh_command_def Let_def fun_eq_iff split: if_splits)
qed (auto simp: issue_powerup_command_def issue_activate_command_def issue_precharge_command_def
    issue_autoprecharge_def record_activate_def Let_def split: if_splits)

lemma reaches_counts: "reaches P c s t \<Longrightarrow> c' \<noteq> c \<Longrightarrow> num_issued_refreshes t c' = num_issued_refreshes s c'"
proof -
  have "calls P c s fs t \<Longrightarrow> c' \<noteq> c \<Longrightarrow> num_issued_refreshes t c' = num_issued_refreshes s c'" for fs
    by (induction rule: calls.induct) (auto dest: api_step_counts)
  then show "reaches P c s t \<Longrightarrow> c' \<noteq> c \<Longrightarrow> num_issued_refreshes t c' = num_issued_refreshes s c'"
    by (auto simp: reaches_def)
qed

lemma reaches_clock: "reaches P c s t \<Longrightarrow> CYCLE_VAL t = CYCLE_VAL s"
proof -
  have "calls P c s fs t \<Longrightarrow> CYCLE_VAL t = CYCLE_VAL s" for fs
    by (induction rule: calls.induct) (auto dest: api_step_clock)
  then show "reaches P c s t \<Longrightarrow> CYCLE_VAL t = CYCLE_VAL s" by (auto simp: reaches_def)
qed

section \<open>States in which a policy runs\<close>

definition sched_ok :: "params \<Rightarrow> mc \<Rightarrow> bool" where
  "sched_ok P s \<longleftrightarrow> wf_params P \<and> (\<exists>m es. sched_inv P m es s)"

lemma reaches_ok: "reaches P c s t \<Longrightarrow> sched_ok P s \<Longrightarrow> valid_channel P c \<Longrightarrow> sched_ok P t"
  using api_steps_inv calls_api_steps unfolding reaches_def sched_ok_def by metis

lemma sched_ok_stats: "sched_ok P s \<Longrightarrow> sched_ok P (s\<lparr>stats := x\<rparr>)"
  using api_steps_inv [OF api_steps.account [OF api_steps.no_call]] unfolding sched_ok_def by metis

lemma sched_ok_request:
  assumes "sched_ok P s" and "valid_channel P c" and "q \<in> requests s c"
  shows "channel (dram_addr q) = c" "valid_rank P (rank (dram_addr q))" "valid_bank P (bank (dram_addr q))"
proof -
  obtain m es where wf: "wf_params P" and inv: "sched_inv P m es s" using assms(1) by (auto simp: sched_ok_def)
  have "req_ok P c q" using sched_queue [OF inv assms(2)] assms(3) by (auto simp: queue_inv_def requests_def)
  from req_okD [OF this wf_geometryI [OF wf]]
  show "channel (dram_addr q) = c" "valid_rank P (rank (dram_addr q))" "valid_bank P (bank (dram_addr q))"
    by blast+
qed

lemma sched_ok_lengths:
  assumes "sched_ok P s" and "valid_channel P c"
  shows "read_queue_length s c = int (length (read_queue s c))"
    "write_queue_length s c = int (length (write_queue s c))"
  using assms sched_queue unfolding sched_ok_def queue_inv_def by blast+

text \<open>The calls, as the policies use them: they return and stay within reach.\<close>

lemma issue_request_reaches:
  assumes "sched_ok P s" and "valid_channel P c" and "ptr_channel p = c" and "get_req s p = Some q"
  shows "\<exists>s' ok. issue_request_command P p s = Inr (s', ok) \<and> reaches P c s s'"
proof -
  obtain m es where wf: "wf_params P" and inv: "sched_inv P m es s" using assms(1) by (auto simp: sched_ok_def)
  obtain s' ok where "issue_request_command P p s = Inr (s', ok)"
    using issue_request_command_inv [OF inv assms(2) wf assms(3,4)] by blast
  then show ?thesis using reaches_step api_step.request [OF assms(3,4)] by blast
qed

lemma issue_precharge_reaches:
  "valid_rank P r \<Longrightarrow> valid_bank P b \<Longrightarrow> reaches P c s (fst (issue_precharge_command P c r b s))"
  by (rule reaches_step, rule api_step.precharge) (auto intro: prod.collapse [symmetric])

lemma issue_autoprecharge_reaches:
  "valid_rank P r \<Longrightarrow> valid_bank P b \<Longrightarrow> reaches P c s (fst (issue_autoprecharge P c r b s))"
  by (rule reaches_step, rule api_step.autoprecharge) (auto intro: prod.collapse [symmetric])

lemma issue_powerdown_reaches:
  "valid_rank P r \<Longrightarrow> reaches P c s (fst (issue_powerdown_command P c r cmd s))"
  by (rule reaches_step, rule api_step.powerdown) (auto intro: prod.collapse [symmetric])

lemma issue_refresh_reaches:
  "valid_rank P r \<Longrightarrow> num_issued_refreshes s c r < 8 \<Longrightarrow> reaches P c s (fst (issue_refresh_command P c r s))"
  by (rule reaches_step, rule api_step.refresh) (auto intro: prod.collapse [symmetric])

section \<open>Scanning a queue\<close>

text \<open>
  \<open>LL_FOREACH\<close> with a \<open>break\<close> or \<open>return\<close> at the first request that passes a test, and the
  idiom of all policies: issue the command of that request. The result carries the request as
  it was when it was chosen.
\<close>

fun find_first :: "('a \<Rightarrow> bool) \<Rightarrow> 'a list \<Rightarrow> nat option" where
  "find_first p [] = None"
| "find_first p (x # xs) = (if p x then Some 0 else map_option Suc (find_first p xs))"

definition issue_first ::
  "params \<Rightarrow> (nat \<Rightarrow> req_ptr) \<Rightarrow> (request_t \<Rightarrow> bool) \<Rightarrow> request_t list \<Rightarrow> mc \<Rightarrow> (mc \<times> request_t option) res" where
  "issue_first P ptr p qs s =
     (case find_first p qs of
        None \<Rightarrow> Inr (s, None)
      | Some i \<Rightarrow> bindE (issue_request_command P (ptr i) s) (\<lambda>(s, _). Inr (s, Some (qs ! i))))"

lemma find_first_None [simp]: "find_first p xs = None \<longleftrightarrow> (\<forall>x\<in>set xs. \<not> p x)"
  by (induction xs) auto

lemma find_first_Some:
  "find_first p xs = Some i \<longleftrightarrow> i < length xs \<and> p (xs ! i) \<and> (\<forall>j<i. \<not> p (xs ! j))"
proof (induction xs arbitrary: i)
  case (Cons x xs)
  then show ?case by (cases i) (auto simp: nth_Cons split: nat.splits)
qed simp

lemma find_first_SomeD:
  assumes "find_first p xs = Some i"
  shows "i < length xs" "p (xs ! i)" "xs ! i \<in> set xs"
  using assms by (auto simp: find_first_Some)

lemma issue_first_None:
  "issue_first P ptr p qs s = Inr (s', None) \<longleftrightarrow> s' = s \<and> (\<forall>q\<in>set qs. \<not> p q)"
  by (auto simp: issue_first_def split: option.splits simp flip: find_first_None)

lemma issue_first_Some:
  "issue_first P ptr p qs s = Inr (s', Some q) \<longleftrightarrow>
     (\<exists>i ok. find_first p qs = Some i \<and> q = qs ! i \<and> issue_request_command P (ptr i) s = Inr (s', ok))"
  by (auto simp: issue_first_def split: option.splits simp del: find_first_None)

text \<open>A channel that is busy stays busy, and requests do not refresh.\<close>

lemma issue_request_busy_mono:
  assumes "issue_request_command P p s = Inr (s', ok)" and "command_issued_current_cycle s c"
  shows "command_issued_current_cycle s' c"
  using assms
  by (auto simp: issue_request_command_def issue_ACT_def issue_COL_READ_def issue_COL_WRITE_def
      issue_PRE_def issue_PWR_UP_def issued_def record_activate_def Let_def
      split: option.splits if_splits command_t.splits)

lemma issue_first_busy_mono:
  assumes "issue_first P ptr p qs s = Inr (s', found)" and "command_issued_current_cycle s c"
  shows "command_issued_current_cycle s' c"
  using assms issue_request_busy_mono by (fastforce simp: issue_first_def split: option.splits)

lemma issue_request_counts:
  "issue_request_command P p s = Inr (s', ok) \<Longrightarrow> num_issued_refreshes s' = num_issued_refreshes s"
  by (auto simp: issue_request_command_def issue_ACT_def issue_COL_READ_def issue_COL_WRITE_def
      issue_PRE_def issue_PWR_UP_def record_activate_def Let_def
      split: option.splits if_splits command_t.splits)

lemma issue_first_counts:
  "issue_first P ptr p qs s = Inr (s', found) \<Longrightarrow> num_issued_refreshes s' = num_issued_refreshes s"
  using issue_request_counts by (fastforce simp: issue_first_def split: option.splits)

text \<open>A result that is a return within reach.\<close>

definition fine :: "params \<Rightarrow> int \<Rightarrow> mc \<Rightarrow> ('a \<times> mc) res \<Rightarrow> bool" where
  "fine P c s R \<longleftrightarrow> (\<exists>x s'. R = Inr (x, s') \<and> reaches P c s s')"

lemma fine_Inr [simp]: "fine P c s (Inr (x, s')) = reaches P c s s'"
  by (simp add: fine_def)

lemma fine_issue_at:
  assumes "sched_ok P s" and "valid_channel P c" and "ptr_channel p = c" and "get_req s p = Some q"
    and "\<And>s' ok. issue_request_command P p s = Inr (s', ok) \<Longrightarrow> reaches P c s s' \<Longrightarrow> sched_ok P s' \<Longrightarrow>
      fine P c s (f (s', ok))"
  shows "fine P c s (bindE (issue_request_command P p s) f)"
  using issue_request_reaches [OF assms(1-4)] assms(5) reaches_ok [OF _ assms(1,2)] by auto

text \<open>The two queues, with the pointers into them.\<close>

definition queue_of :: "mc \<Rightarrow> int \<Rightarrow> (nat \<Rightarrow> req_ptr) \<Rightarrow> request_t list \<Rightarrow> bool" where
  "queue_of s c ptr qs \<longleftrightarrow>
     ptr = RdPtr c \<and> qs = read_queue s c \<or> ptr = WrPtr c \<and> qs = write_queue s c"

lemma queue_of_queues [simp, intro]:
  "queue_of s c (RdPtr c) (read_queue s c)" "queue_of s c (WrPtr c) (write_queue s c)"
  by (simp_all add: queue_of_def)

lemma queue_of_get:
  assumes "queue_of s c ptr qs" and "i < length qs"
  shows "ptr_channel (ptr i) = c" "get_req s (ptr i) = Some (qs ! i)" "qs ! i \<in> requests s c"
  using assms by (auto simp: queue_of_def requests_def)

lemma fine_issue_first:
  assumes ok: "sched_ok P s" and c: "valid_channel P c" and q: "queue_of s c ptr qs"
    and found: "\<And>i s' b. find_first p qs = Some i \<Longrightarrow> issue_request_command P (ptr i) s = Inr (s', b) \<Longrightarrow>
      reaches P c s s' \<Longrightarrow> sched_ok P s' \<Longrightarrow> qs ! i \<in> requests s c \<Longrightarrow> p (qs ! i) \<Longrightarrow>
      fine P c s (f (s', Some (qs ! i)))"
    and none: "(\<And>q. q \<in> set qs \<Longrightarrow> \<not> p q) \<Longrightarrow> fine P c s (f (s, None))"
  shows "fine P c s (bindE (issue_first P ptr p qs s) f)"
proof (cases "find_first p qs")
  case None
  then have "\<not> p q" if "q \<in> set qs" for q using that by simp
  from none [OF this] show ?thesis using None by (simp add: issue_first_def del: find_first_None)
next
  case (Some i)
  note i = find_first_SomeD [OF Some] and get = queue_of_get [OF q find_first_SomeD(1) [OF Some]]
  obtain s' b where run: "issue_request_command P (ptr i) s = Inr (s', b)" and r: "reaches P c s s'"
    using issue_request_reaches [OF ok c get(1,2)] by blast
  from found [OF Some run r reaches_ok [OF r ok c] get(3) i(2)] show ?thesis
    using run Some by (simp add: issue_first_def)
qed

lemma issue_first_reaches:
  assumes "sched_ok P s" and "valid_channel P c" and "queue_of s c ptr qs"
  shows "\<exists>s' found. issue_first P ptr p qs s = Inr (s', found) \<and> reaches P c s s'"
  using fine_issue_first [OF assms, of p "\<lambda>(s, _). Inr ((), s)"] by (auto simp: fine_def)

text \<open>\<open>%\<close> with the trap on a zero divisor.\<close>

definition modE :: "int \<Rightarrow> int \<Rightarrow> int res" where
  "modE a b = (if b = 0 then Inl Division_by_zero else Inr (a smod b))"

section \<open>The main loop with a policy\<close>

text \<open>The loop over the channels in \<open>main\<close>, and the whole memory phase of an iteration.\<close>

definition schedule_channels ::
  "(params \<Rightarrow> int \<Rightarrow> 'st \<Rightarrow> mc \<Rightarrow> ('st \<times> mc) res) \<Rightarrow> params \<Rightarrow> 'st \<Rightarrow> mc \<Rightarrow> ('st \<times> mc) res" where
  "schedule_channels schedule P st s =
     foldE (\<lambda>c (st, s). bindE (schedule P c st s) (\<lambda>(st, s). Inr (st, gather_stats P c s)))
       (below (NUM_CHANNELS P)) (st, s)"

definition memory_phase ::
  "(params \<Rightarrow> int \<Rightarrow> 'st \<Rightarrow> mc \<Rightarrow> ('st \<times> mc) res) \<Rightarrow> params \<Rightarrow> 'st \<Rightarrow> mc \<Rightarrow> ('st \<times> mc) res" where
  "memory_phase schedule P st s =
     (if CYCLE_VAL s mod PROCESSOR_CLK_MULTIPLIER P = 0
      then bindE (update_memory P s) (schedule_channels schedule P st)
      else Inr (st, s))"

text \<open>
  Iterations of the main loop with the policy, in any environment, as long as the clock leaves
  room for the \<open>int\<close> deadlines. The private state starts in any state \<open>init\<close> admits: some
  policies leave it in uninitialised memory.
\<close>

inductive sim_with ::
  "(params \<Rightarrow> int \<Rightarrow> 'st \<Rightarrow> mc \<Rightarrow> ('st \<times> mc) res) \<Rightarrow> (params \<Rightarrow> 'st \<Rightarrow> bool) \<Rightarrow> params \<Rightarrow>
     'st \<Rightarrow> mc \<Rightarrow> bool"
  for schedule init P where
  start: "init P st \<Longrightarrow>
     sim_with schedule init P st (init_memory_controller_vars P (zero_mc rob))"
| iteration: "sim_with schedule init P st s \<Longrightarrow> (env_step P)\<^sup>*\<^sup>* s s0 \<Longrightarrow>
     CYCLE_VAL s0 + 8 * T_REFI P < 2 ^ 31 \<Longrightarrow>
     memory_phase schedule P st s0 = Inr (st', s1) \<Longrightarrow> (env_step P)\<^sup>*\<^sup>* s1 s2 \<Longrightarrow>
     sim_with schedule init P st' (s2\<lparr>CYCLE_VAL := CYCLE_VAL s2 + 1\<rparr>)"

lemma gather_stats_account: "gather_stats P c s = s\<lparr>stats := stats (gather_stats P c s)\<rparr>"
  by (simp add: gather_stats_def upd_stats_def)

lemma env_steps_counts: "(env_step P)\<^sup>*\<^sup>* s s' \<Longrightarrow> num_issued_refreshes s' = num_issued_refreshes s"
  by (induction rule: rtranclp_induct)
    (auto elim!: env_step.cases simp: insert_read_def insert_write_def Let_def)

section \<open>The contract\<close>

locale scheduler =
  fixes schedule :: "params \<Rightarrow> int \<Rightarrow> 'st \<Rightarrow> mc \<Rightarrow> ('st \<times> mc) res"
    and init :: "params \<Rightarrow> 'st \<Rightarrow> bool"
    and idle :: "params \<Rightarrow> int \<Rightarrow> 'st \<Rightarrow> int arr1 \<Rightarrow> bool"
    and ready :: "params \<Rightarrow> int \<Rightarrow> int \<Rightarrow> 'st \<Rightarrow> int arr1 \<Rightarrow> bool"
  assumes init_idle: "wf_params P \<Longrightarrow> init P st \<Longrightarrow> valid_channel P c \<Longrightarrow>
      \<forall>r. valid_rank P r \<longrightarrow> n r = 0 \<Longrightarrow> idle P c st n"
    and idle_ready: "wf_params P \<Longrightarrow> idle P c st n \<Longrightarrow>
      \<forall>r. valid_rank P r \<longrightarrow> n' r \<in> {n r, 0} \<Longrightarrow>
      8 * T_REFI P dvd t \<longrightarrow> (\<forall>r. valid_rank P r \<longrightarrow> n' r = 0) \<Longrightarrow> ready P t c st n'"
    and schedule_returns: "sched_ok P s \<Longrightarrow> valid_channel P c \<Longrightarrow>
      ready P (CYCLE_VAL s) c st (num_issued_refreshes s c) \<Longrightarrow>
      \<exists>st' s'. schedule P c st s = Inr (st', s') \<and> reaches P c s s' \<and>
        idle P c st' (num_issued_refreshes s' c)"
    and other_channels: "schedule P c st s = Inr (st', s') \<Longrightarrow> c' \<noteq> c \<Longrightarrow>
      (idle P c' st n \<longrightarrow> idle P c' st' n) \<and> (ready P t c' st n \<longrightarrow> ready P t c' st' n)"
begin

lemma channels_loop:
  assumes "sched_ok P s" and "distinct cs" and "\<forall>c\<in>set cs. valid_channel P c"
    and "\<forall>c. valid_channel P c \<longrightarrow>
      (if c \<in> set cs then ready P (CYCLE_VAL s) c st (num_issued_refreshes s c)
       else idle P c st (num_issued_refreshes s c))"
  shows "\<exists>st' s' fs. foldE (\<lambda>c (st, s). bindE (schedule P c st s) (\<lambda>(st, s). Inr (st, gather_stats P c s)))
      cs (st, s) = Inr (st', s') \<and> api_steps P s fs s' \<and>
      (\<forall>c. valid_channel P c \<longrightarrow> idle P c st' (num_issued_refreshes s' c))"
  using assms
proof (induction cs arbitrary: st s)
  case Nil
  then show ?case using api_steps.no_call by fastforce
next
  case (Cons c cs)
  then have c: "valid_channel P c" "c \<notin> set cs"
    and rdy: "ready P (CYCLE_VAL s) c st (num_issued_refreshes s c)" by auto
  obtain st1 s1 where run: "schedule P c st s = Inr (st1, s1)" and r: "reaches P c s s1"
    and idle1: "idle P c st1 (num_issued_refreshes s1 c)"
    using schedule_returns [OF Cons.prems(1) c(1) rdy] by blast
  define s2 where "s2 = gather_stats P c s1"
  have s2: "s2 = s1\<lparr>stats := stats s2\<rparr>" unfolding s2_def by (rule gather_stats_account)
  have fields: "CYCLE_VAL s2 = CYCLE_VAL s" "num_issued_refreshes s2 = num_issued_refreshes s1"
    using reaches_clock [OF r] by (subst s2, simp)+
  have ok2: "sched_ok P s2"
    using sched_ok_stats [OF reaches_ok [OF r Cons.prems(1) c(1)]] by (subst s2) simp
  have keep: "if c' \<in> set cs then ready P (CYCLE_VAL s2) c' st1 (num_issued_refreshes s2 c')
      else idle P c' st1 (num_issued_refreshes s2 c')" if v: "valid_channel P c'" for c'
  proof (cases "c' = c")
    case True
    then show ?thesis using c idle1 fields by simp
  next
    case False
    then show ?thesis
      using Cons.prems(4) v other_channels [OF run False] reaches_counts [OF r False] fields by auto
  qed
  obtain st' s' fs where rest: "foldE (\<lambda>c (st, s). bindE (schedule P c st s)
        (\<lambda>(st, s). Inr (st, gather_stats P c s))) cs (st1, s2) = Inr (st', s')"
    "api_steps P s2 fs s'" "\<forall>c. valid_channel P c \<longrightarrow> idle P c st' (num_issued_refreshes s' c)"
    using Cons.IH [OF ok2, of st1] Cons.prems(2,3) keep by auto
  obtain gs where "calls P c s gs s1" using r by (auto simp: reaches_def)
  then have "api_steps P s gs s2"
    using api_steps.account [OF calls_api_steps [OF _ c(1)]] by (subst s2) simp
  from api_steps_trans [OF rest(2) this] show ?case using run rest by (auto simp flip: s2_def)
qed

lemma schedule_channels_returns:
  assumes "sched_ok P s"
    and "\<forall>c. valid_channel P c \<longrightarrow> ready P (CYCLE_VAL s) c st (num_issued_refreshes s c)"
  shows "\<exists>st' s' fs. schedule_channels schedule P st s = Inr (st', s') \<and> api_steps P s fs s' \<and>
    (\<forall>c. valid_channel P c \<longrightarrow> idle P c st' (num_issued_refreshes s' c))"
  unfolding schedule_channels_def
  by (rule channels_loop) (use assms in \<open>auto simp: valid_channel_def\<close>)

lemma memory_phase_returns:
  assumes inv: "ctl_inv P (last_cycle P (CYCLE_VAL s)) es s" and pos: "0 \<le> CYCLE_VAL s"
    and wf: "wf_params P" and bound: "CYCLE_VAL s + 8 * T_REFI P < 2 ^ 31"
    and idle: "\<forall>c. valid_channel P c \<longrightarrow> idle P c st (num_issued_refreshes s c)"
    and mem: "CYCLE_VAL s mod PROCESSOR_CLK_MULTIPLIER P = 0"
  shows "\<exists>st' s1 s' fs. memory_phase schedule P st s = Inr (st', s') \<and> update_memory P s = Inr s1 \<and>
    api_steps P s1 fs s' \<and> (\<forall>c. valid_channel P c \<longrightarrow> idle P c st' (num_issued_refreshes s' c))"
proof -
  obtain s1 where s1: "update_memory P s = Inr s1"
    and sched: "sched_inv P (CYCLE_VAL s) (es @ forced_events P s) s1"
    using memory_cycle_inv [OF inv pos wf mem bound] by blast
  have K: "0 < PROCESSOR_CLK_MULTIPLIER P" using wf by (auto simp: wf_params_def wf_timing_def)
  have nxt: "next_cycle P (last_cycle P (CYCLE_VAL s)) (CYCLE_VAL s)"
    using last_cycle_at(1) [OF K mem] mem bound pos by (auto simp: next_cycle_def)
  have "ready P (CYCLE_VAL s1) c st (num_issued_refreshes s1 c)" if c: "valid_channel P c" for c
    using idle c update_memory_counts [OF inv refl nxt wf s1 c] update_memory_clock [OF s1]
    by (intro idle_ready [OF wf, where n = "num_issued_refreshes s c"]) auto
  moreover have "sched_ok P s1" using wf sched by (auto simp: sched_ok_def)
  ultimately obtain st' s' fs where "schedule_channels schedule P st s1 = Inr (st', s')"
    "api_steps P s1 fs s'" "\<forall>c. valid_channel P c \<longrightarrow> idle P c st' (num_issued_refreshes s' c)"
    using schedule_channels_returns [of P s1 st] by blast
  then show ?thesis using s1 mem by (auto simp: memory_phase_def)
qed

text \<open>Every run with the policy is an execution of the protocol.\<close>

lemma run_state:
  assumes "sim P s es" and "(env_step P)\<^sup>*\<^sup>* s s0" and wf: "wf_params P"
    and "CYCLE_VAL s0 + 8 * T_REFI P < 2 ^ 31"
  shows "ctl_inv P (last_cycle P (CYCLE_VAL s0)) es s0 \<and> 0 \<le> CYCLE_VAL s0"
  using sim_inv [OF assms(1) wf] env_steps_inv [OF assms(2) _ wf_geometryI [OF wf]]
    env_steps_clock [OF assms(2)] assms(4) by auto

lemma run_sim_idle:
  assumes "sim_with schedule init P st s" and wf: "wf_params P"
  shows "(\<exists>es. sim P s es) \<and> (\<forall>c. valid_channel P c \<longrightarrow> idle P c st (num_issued_refreshes s c))"
  using assms(1)
proof (induction rule: sim_with.induct)
  case (start st rob)
  have "num_issued_refreshes (init_memory_controller_vars P (zero_mc rob)) c r = 0"
    if "valid_channel P c" "valid_rank P r" for c r
    using that by (simp add: init_memory_controller_vars_def Let_def fill2_def valid_channel_def valid_rank_def)
  then show ?case using sim.start [of P rob] init_idle [OF wf start(1)] by blast
next
  case (iteration st s s0 st' s1 s2)
  have counts: "num_issued_refreshes s0 = num_issued_refreshes s" "num_issued_refreshes s2 = num_issued_refreshes s1"
    using iteration.hyps(2,5) env_steps_counts by blast+
  obtain es where es: "sim P s es" and idle: "\<forall>c. valid_channel P c \<longrightarrow> idle P c st (num_issued_refreshes s0 c)"
    using iteration.IH counts by auto
  show ?case
  proof (cases "CYCLE_VAL s0 mod PROCESSOR_CLK_MULTIPLIER P = 0")
    case False
    then have same: "st' = st" "s1 = s0" using iteration.hyps(4) by (auto simp: memory_phase_def)
    then have "(env_step P)\<^sup>*\<^sup>* s s2" using iteration.hyps(2,5) by simp
    then have "sim P (s2\<lparr>CYCLE_VAL := CYCLE_VAL s2 + 1\<rparr>) es"
      using False same env_steps_clock [OF iteration.hyps(5)] by (intro sim.other_cycle [OF es]) auto
    then show ?thesis using same counts idle by auto
  next
    case True
    have "ctl_inv P (last_cycle P (CYCLE_VAL s0)) es s0" "0 \<le> CYCLE_VAL s0"
      using run_state [OF es iteration.hyps(2) wf iteration.hyps(3)] by blast+
    from memory_phase_returns [OF this wf iteration.hyps(3) idle True]
    obtain t fs where "update_memory P s0 = Inr t" "api_steps P t fs s1"
      "\<forall>c. valid_channel P c \<longrightarrow> idle P c st' (num_issued_refreshes s1 c)"
      using iteration.hyps(4) by auto
    then show ?thesis
      using sim.memory_cycle [OF es iteration.hyps(2) True _ _ iteration.hyps(5)] counts by auto
  qed
qed

lemma run_sim: "sim_with schedule init P st s \<Longrightarrow> wf_params P \<Longrightarrow> \<exists>es. sim P s es"
  using run_sim_idle by blast

text \<open>The memory phase of the next iteration returns: neither the controller nor the policy aborts.\<close>

lemma run_progress:
  assumes "sim_with schedule init P st s" and "wf_params P" and "(env_step P)\<^sup>*\<^sup>* s s0"
    and "CYCLE_VAL s0 + 8 * T_REFI P < 2 ^ 31"
  shows "\<exists>st' s'. memory_phase schedule P st s0 = Inr (st', s')"
proof (cases "CYCLE_VAL s0 mod PROCESSOR_CLK_MULTIPLIER P = 0")
  case True
  obtain es where es: "sim P s es" and idle: "\<forall>c. valid_channel P c \<longrightarrow> idle P c st (num_issued_refreshes s0 c)"
    using run_sim_idle [OF assms(1,2)] env_steps_counts [OF assms(3)] by auto
  show ?thesis
    using memory_phase_returns [OF _ _ assms(2,4) idle True] run_state [OF es assms(3,2,4)] by blast
qed (simp add: memory_phase_def)

lemma memory_phase_clock:
  assumes "sim_with schedule init P st s" and "wf_params P" and "(env_step P)\<^sup>*\<^sup>* s s0"
    and "CYCLE_VAL s0 + 8 * T_REFI P < 2 ^ 31" and run: "memory_phase schedule P st s0 = Inr (st', s')"
  shows "CYCLE_VAL s' = CYCLE_VAL s0"
proof (cases "CYCLE_VAL s0 mod PROCESSOR_CLK_MULTIPLIER P = 0")
  case True
  obtain es where es: "sim P s es" and idle: "\<forall>c. valid_channel P c \<longrightarrow> idle P c st (num_issued_refreshes s0 c)"
    using run_sim_idle [OF assms(1,2)] env_steps_counts [OF assms(3)] by auto
  obtain s1 fs where "update_memory P s0 = Inr s1" "api_steps P s1 fs s'"
    using memory_phase_returns [OF _ _ assms(2,4) idle True] run_state [OF es assms(3,2,4)] run by force
  then show ?thesis using update_memory_clock api_steps_clock by metis
qed (use run in \<open>simp add: memory_phase_def\<close>)

text \<open>What the protocol theorems say of a run with the policy.\<close>

lemma run_safe:
  assumes "sim_with schedule init P st s" and "wf_params P" and "CYCLE_VAL s + 8 * T_REFI P < 2 ^ 31"
  shows "\<exists>es D. sim P s es \<and> timing_ok P es \<and> faw_ok P es \<and> dram_run es dram_reset = Some D \<and>
    (\<forall>c r. valid_channel P c \<longrightarrow> valid_rank P r \<longrightarrow> D c r = abs_rank P (dram_state s c r))"
proof -
  obtain es where es: "sim P s es" using run_sim [OF assms(1,2)] by blast
  from sim_inv [OF es assms(2,3)] show ?thesis using es by (auto simp: ctl_inv_def legal_def)
qed

end

text \<open>
  A policy that does not refresh needs no private invariant. The weaker contract gives the full
  one.
\<close>

locale plain_scheduler =
  fixes schedule :: "params \<Rightarrow> int \<Rightarrow> 'st \<Rightarrow> mc \<Rightarrow> ('st \<times> mc) res"
    and init :: "params \<Rightarrow> 'st \<Rightarrow> bool"
  assumes schedule_fine: "sched_ok P s \<Longrightarrow> valid_channel P c \<Longrightarrow> fine P c s (schedule P c st s)"

sublocale plain_scheduler \<subseteq> scheduler schedule init "\<lambda>_ _ _ _. True" "\<lambda>_ _ _ _ _. True"
  by unfold_locales (use schedule_fine in \<open>auto simp: fine_def\<close>)

end
