(* ===== verification/Processor.thy ===== *)
theory Processor
  imports Scheduler Scan
begin

text \<open>
  The processor side of \<open>usimm-v1.3/src/main.c\<close>: reading the traces, the reorder buffers, and the
  main loop that puts the processor, the controller and a scheduling policy together.

  The locals and globals of \<open>main\<close> are the record \<open>cpu\<close>; the reorder buffers themselves are part
  of the controller state because \<open>issue_request_command\<close> writes completion times into them. A
  trace file is the text that has not been read yet.
\<close>

section \<open>Reading a trace\<close>

text \<open>\<open>fgets\<close>: at most \<open>n - 1\<close> characters, up to and including a newline.\<close>

fun take_line :: "nat \<Rightarrow> string \<Rightarrow> string \<times> string" where
  "take_line 0 cs = ([], cs)"
| "take_line (Suc n) [] = ([], [])"
| "take_line (Suc n) (c # cs) =
     (if c = CHR 0x0A then ([c], cs) else let (l, r) = take_line n cs in (c # l, r))"

definition fgets :: "nat \<Rightarrow> string \<Rightarrow> (string \<times> string) option" where
  "fgets n cs = (if cs = [] then None else Some (take_line (n - 1) cs))"

definition MAXTRACELINESIZE :: nat where "MAXTRACELINESIZE = 64"

text \<open>
  The two calls of \<open>sscanf\<close> on a line, with the formats \<open>%d %c\<close> and \<open>%d %c %Lx %Lx\<close> (or without the
  last conversion): they scan the same characters, so one scan gives the values of both. A
  conversion that fails ends the scan and leaves its variable as it was.
\<close>

definition sscan :: "string \<Rightarrow> int option \<times> char option \<times> int option \<times> int option" where
  "sscan line =
     (case scan_d line of None \<Rightarrow> (None, None, None, None) | Some (n, l) \<Rightarrow>
      (case scan_c l of None \<Rightarrow> (Some n, None, None, None) | Some (c, l) \<Rightarrow>
       (case scan_Lx l of None \<Rightarrow> (Some n, Some c, None, None) | Some (a, l) \<Rightarrow>
        (Some n, Some c, Some a, map_option fst (scan_Lx l)))))"

section \<open>The state of the cores\<close>

record cpu =
  nonmemops :: "int arr1"
  opertype :: "char arr1"
  addr :: "int arr1"
  line_pc :: "int arr1"
  tif :: "string arr1"
  prefixtable :: "int arr1"
  committed :: "int arr1"
  fetched :: "int arr1"
  time_done :: "int arr1"
  num_done :: int
  writeqfull :: bool
  expt_done :: bool

definition BIGNUM :: int where "BIGNUM = 1000000"

definition set_opt :: "'a arr1 \<Rightarrow> int \<Rightarrow> 'a option \<Rightarrow> 'a arr1" where
  "set_opt f i v = (case v of None \<Rightarrow> f | Some x \<Rightarrow> f(i := x))"

text \<open>
  One line of the trace. The branches that return -4 and -3 when the second \<open>sscanf\<close> converts
  nothing are not reached: the first has converted the same \<open>%d\<close>.
\<close>

definition read_trace_line :: "int \<Rightarrow> string \<Rightarrow> cpu \<Rightarrow> cpu res" where
  "read_trace_line numc line u =
     (let (n, op, a, pc) = sscan line in
      if n = None then Inl (Exits (- 1))
      else
        let u = u\<lparr>nonmemops := set_opt (nonmemops u) numc n, opertype := set_opt (opertype u) numc op\<rparr>
        in if opertype u numc = CHR ''R'' then
             Inr (u\<lparr>addr := set_opt (addr u) numc a, line_pc := set_opt (line_pc u) numc pc\<rparr>)
           else if opertype u numc = CHR ''W'' then Inr (u\<lparr>addr := set_opt (addr u) numc a\<rparr>)
           else Inl (Exits (- 2)))"

definition upd_rob :: "int \<Rightarrow> (robstructure \<Rightarrow> robstructure) \<Rightarrow> mc \<Rightarrow> mc" where
  "upd_rob t f s = s\<lparr>ROB := (ROB s)(t := f (ROB s t))\<rparr>"

text \<open>A core whose trace is consumed and whose instructions have all retired; \<open>t\<close> is the time recorded.\<close>

definition core_done :: "int \<Rightarrow> int \<Rightarrow> cpu \<Rightarrow> mc \<Rightarrow> cpu" where
  "core_done t numc u s =
     (if inflight (ROB s numc) = 0
      then u\<lparr>num_done := num_done u + 1,
             time_done := (if time_done u numc = 0 then (time_done u)(numc := t) else time_done u)\<rparr>
      else u)"

text \<open>The next line, or the end of the trace; the flag says whether there was a line.\<close>

definition next_line :: "int \<Rightarrow> int \<Rightarrow> cpu \<times> mc \<Rightarrow> (bool \<times> cpu \<times> mc) res" where
  "next_line t numc x =
     (let (u, s) = x in
      case fgets MAXTRACELINESIZE (tif u numc) of
        Some (line, rest) \<Rightarrow>
          bindE (read_trace_line numc line (u\<lparr>tif := (tif u)(numc := rest)\<rparr>)) (\<lambda>u. Inr (True, u, s))
      | None \<Rightarrow> Inr (False, core_done t numc u s, upd_rob numc (\<lambda>b. b\<lparr>tracedone := True\<rparr>) s))"

section \<open>Retiring\<close>

text \<open>The oldest instruction leaves the ring buffer, or the one written at \<open>tail\<close> joins it.\<close>

definition rob_deq :: "params \<Rightarrow> robstructure \<Rightarrow> robstructure" where
  "rob_deq P b = b\<lparr>head := (head b + 1) smod ROBSIZE P, inflight := inflight b - 1\<rparr>"

definition rob_grow :: "params \<Rightarrow> robstructure \<Rightarrow> robstructure" where
  "rob_grow P b = b\<lparr>tail := (tail b + 1) smod ROBSIZE P, inflight := inflight b + 1\<rparr>"

definition count_committed :: "int \<Rightarrow> int \<Rightarrow> cpu \<Rightarrow> cpu" where
  "count_committed numc k u = u\<lparr>committed := (committed u)(numc := committed u numc + k)\<rparr>"

fun retire_loop :: "params \<Rightarrow> int \<Rightarrow> nat \<Rightarrow> cpu \<times> mc \<Rightarrow> cpu \<times> mc" where
  "retire_loop P numc 0 x = x"
| "retire_loop P numc (Suc n) (u, s) =
     (let b = ROB s numc in
      if inflight b \<noteq> 0 \<and> comptime b (head b) < CYCLE_VAL s then
        retire_loop P numc n
          (count_committed numc 1 u, upd_rob numc (rob_deq P) s)
      else (u, s))"

definition retire :: "params \<Rightarrow> cpu \<times> mc \<Rightarrow> cpu \<times> mc" where
  "retire P x = fold (\<lambda>numc. retire_loop P numc (nat (MAX_RETIRE P))) (below (NUMCORES P)) x"

section \<open>Fetching\<close>

definition push :: "params \<Rightarrow> int \<Rightarrow> cpu \<times> mc \<Rightarrow> cpu \<times> mc" where
  "push P numc x =
     (let (u, s) = x in
      (u\<lparr>fetched := (fetched u)(numc := fetched u numc + 1)\<rparr>,
       upd_rob numc (rob_grow P) s))"

definition put_comptime :: "int \<Rightarrow> robstructure \<Rightarrow> robstructure" where
  "put_comptime t b = b\<lparr>comptime := (comptime b)(tail b := t)\<rparr>"

definition put_optype :: "char \<Rightarrow> robstructure \<Rightarrow> robstructure" where
  "put_optype c b = b\<lparr>optype := (optype b)(tail b := of_char c)\<rparr>"

definition put_address :: "int \<Rightarrow> robstructure \<Rightarrow> robstructure" where
  "put_address a b = b\<lparr>mem_address := (mem_address b)(tail b := a)\<rparr>"

definition put_pc :: "int \<Rightarrow> robstructure \<Rightarrow> robstructure" where
  "put_pc pc b = b\<lparr>instrpc := (instrpc b)(tail b := pc)\<rparr>"

definition fetch_nonmem :: "params \<Rightarrow> int \<Rightarrow> cpu \<times> mc \<Rightarrow> cpu \<times> mc" where
  "fetch_nonmem P numc x =
     (let (u, s) = x;
          s = upd_rob numc (\<lambda>b. put_comptime (CYCLE_VAL s + PIPELINEDEPTH P) (put_optype CHR ''N'' b)) s;
          u = u\<lparr>nonmemops := (nonmemops u)(numc := nonmemops u numc - 1)\<rparr>
      in push P numc (u, s))"

text \<open>The address of the trace in the address space of its core.\<close>

definition prefix_address :: "params \<Rightarrow> int \<Rightarrow> int \<Rightarrow> int" where
  "prefix_address P prefix a =
     a + push_bit (nat (ADDRESS_BITS P - int (bit_width (NUMCORES P)))) prefix"

definition any_full :: "params \<Rightarrow> mc \<Rightarrow> bool" where
  "any_full P s = list_ex (\<lambda>c. write_queue_length s c = WQ_CAPACITY P) (below (NUM_CHANNELS P))"

definition fetch_read :: "params \<Rightarrow> int \<Rightarrow> cpu \<times> mc \<Rightarrow> cpu \<times> mc" where
  "fetch_read P numc x =
     (let (u, s) = x;
          a = prefix_address P (prefixtable u numc) (addr u numc);
          u = u\<lparr>addr := (addr u)(numc := a)\<rparr>;
          s = upd_rob numc (\<lambda>b. put_pc (line_pc u numc) (put_comptime (CYCLE_VAL s + BIGNUM)
                (put_optype CHR ''R'' (put_address a b)))) s;
          (s, lat) = read_matches_write_or_read_queue P a s;
          s = (if lat \<noteq> 0
               then upd_rob numc (put_comptime (CYCLE_VAL s + lat + PIPELINEDEPTH P)) s
               else insert_read P a (CYCLE_VAL s) numc (tail (ROB s numc)) (line_pc u numc) s)
      in push P numc (u, s))"

definition fetch_write :: "params \<Rightarrow> int \<Rightarrow> cpu \<times> mc \<Rightarrow> cpu \<times> mc" where
  "fetch_write P numc x =
     (let (u, s) = x;
          a = prefix_address P (prefixtable u numc) (addr u numc);
          u = u\<lparr>addr := (addr u)(numc := a)\<rparr>;
          s = upd_rob numc (\<lambda>b. put_comptime (CYCLE_VAL s + PIPELINEDEPTH P)
                (put_optype CHR ''W'' (put_address a b))) s;
          (s, merged) = write_exists_in_write_queue P a s;
          s = (if merged then s else insert_write P a (CYCLE_VAL s) numc (tail (ROB s numc)) s);
          u = (if any_full P s then u\<lparr>writeqfull := True\<rparr> else u)
      in push P numc (u, s))"

definition fetch_mem :: "params \<Rightarrow> int \<Rightarrow> cpu \<times> mc \<Rightarrow> (cpu \<times> mc) res" where
  "fetch_mem P numc x =
     (if opertype (fst x) numc = CHR ''R'' then Inr (fetch_read P numc x)
      else if opertype (fst x) numc = CHR ''W'' then Inr (fetch_write P numc x)
      else Inl (Exits (- 1)))"

text \<open>The \<open>while\<close> loop of one core; the number is what is left of the fetch width.\<close>

fun fetch_loop :: "params \<Rightarrow> int \<Rightarrow> nat \<Rightarrow> cpu \<times> mc \<Rightarrow> (cpu \<times> mc) res" where
  "fetch_loop P numc 0 x = Inr x"
| "fetch_loop P numc (Suc n) x =
     (if inflight (ROB (snd x) numc) = ROBSIZE P \<or> writeqfull (fst x) then Inr x
      else if nonmemops (fst x) numc \<noteq> 0 then fetch_loop P numc n (fetch_nonmem P numc x)
      else bindE (fetch_mem P numc x) (\<lambda>x.
           bindE (next_line (CYCLE_VAL (snd x)) numc x) (\<lambda>(more, x).
             if more then fetch_loop P numc n x else Inr x)))"

definition fetch_core :: "params \<Rightarrow> int \<Rightarrow> cpu \<times> mc \<Rightarrow> (cpu \<times> mc) res" where
  "fetch_core P numc x =
     (let (u, s) = x in
      if \<not> tracedone (ROB s numc) then fetch_loop P numc (nat (MAX_FETCH P)) (u, s)
      else Inr (core_done (CYCLE_VAL s) numc u s, s))"

definition fetch_phase :: "params \<Rightarrow> cpu \<times> mc \<Rightarrow> (cpu \<times> mc) res" where
  "fetch_phase P x =
     (let (u, s) = x
      in foldE (fetch_core P) (below (NUMCORES P)) (u\<lparr>num_done := 0, writeqfull := any_full P s\<rparr>, s))"

section \<open>The main loop\<close>

text \<open>Before the loop: one line of every trace.\<close>

definition read_first_lines :: "params \<Rightarrow> cpu \<times> mc \<Rightarrow> (cpu \<times> mc) res" where
  "read_first_lines P x =
     foldE (\<lambda>numc x. bindE (next_line 1 numc x) (\<lambda>(_, x). Inr x)) (below (NUMCORES P)) x"

definition check_end :: "params \<Rightarrow> cpu \<times> mc \<Rightarrow> cpu" where
  "check_end P x =
     (let (u, s) = x in
      if num_done u = NUMCORES P \<and>
         list_all (\<lambda>c. write_queue_length s c = 0) (below (NUM_CHANNELS P))
      then u\<lparr>expt_done := True\<rparr> else u)"

definition iteration ::
  "(params \<Rightarrow> int \<Rightarrow> 'st \<Rightarrow> mc \<Rightarrow> ('st \<times> mc) res) \<Rightarrow> params \<Rightarrow> cpu \<times> 'st \<times> mc \<Rightarrow> (cpu \<times> 'st \<times> mc) res" where
  "iteration schedule P x =
     (let (u, st, s) = x; (u, s) = retire P (u, s)
      in bindE (memory_phase schedule P st s) (\<lambda>(st, s).
         bindE (fetch_phase P (u, s)) (\<lambda>(u, s).
           Inr (check_end P (u, s), st, s\<lparr>CYCLE_VAL := CYCLE_VAL s + 1\<rparr>))))"

end
