(* ===== verification/Rob.thy ===== *)
theory Rob
  imports Processor
begin

text \<open>
  The reorder buffers of \<open>main.c\<close> as queues. The locale \<open>fifo\<close> is the interface of a bounded
  first-in-first-out queue; the ring buffer \<open>ROB\<close> with its \<open>head\<close>, \<open>tail\<close> and \<open>inflight\<close> implements
  it. On top of it: instructions retire in program order, and each is counted exactly once.
\<close>

section \<open>Bounded queues\<close>

locale fifo =
  fixes ok :: "'b \<Rightarrow> bool" and contents :: "'b \<Rightarrow> 'a list" and cap :: nat
    and enq :: "'a \<Rightarrow> 'b \<Rightarrow> 'b" and deq :: "'b \<Rightarrow> 'b"
  assumes bounded: "ok b \<Longrightarrow> length (contents b) \<le> cap"
    and enq_contents: "ok b \<Longrightarrow> length (contents b) < cap \<Longrightarrow> ok (enq x b) \<and> contents (enq x b) = contents b @ [x]"
    and deq_contents: "ok b \<Longrightarrow> contents b \<noteq> [] \<Longrightarrow> ok (deq b) \<and> contents (deq b) = tl (contents b)"
begin

lemma deq_many:
  assumes "ok b" and "n \<le> length (contents b)"
  shows "ok ((deq ^^ n) b) \<and> contents ((deq ^^ n) b) = drop n (contents b)"
  using assms(2)
proof (induction n)
  case (Suc n)
  then have IH: "ok ((deq ^^ n) b)" "contents ((deq ^^ n) b) = drop n (contents b)" by simp_all
  moreover have "drop n (contents b) \<noteq> []" using Suc.prems by simp
  ultimately show ?case using deq_contents by (simp add: drop_Suc tl_drop)
qed (simp add: assms(1))

lemma enq_many:
  assumes "ok b" and "length (contents b) + length xs \<le> cap"
  shows "ok (fold enq xs b) \<and> contents (fold enq xs b) = contents b @ xs"
  using assms
proof (induction xs arbitrary: b)
  case (Cons x xs)
  then have "ok (enq x b)" "contents (enq x b) = contents b @ [x]" using enq_contents by simp_all
  then show ?case using Cons by simp
qed simp

text \<open>A batch goes in and comes out again in the same order.\<close>

lemma enq_deq_many:
  assumes "ok b" and "length (contents b) + length xs \<le> cap"
  shows "contents ((deq ^^ length (contents b)) (fold enq xs b)) = xs"
  using enq_many [OF assms] deq_many [of "fold enq xs b" "length (contents b)"] by simp

end

section \<open>The ring buffer\<close>

text \<open>An entry: kind of instruction, completion time, address.\<close>

type_synonym rob_entry = "int \<times> int \<times> int"

definition rob_entry_at :: "robstructure \<Rightarrow> int \<Rightarrow> rob_entry" where
  "rob_entry_at b i = (optype b i, comptime b i, mem_address b i)"

definition rob_list :: "params \<Rightarrow> robstructure \<Rightarrow> rob_entry list" where
  "rob_list P b = map (\<lambda>i. rob_entry_at b ((head b + int i) mod ROBSIZE P)) [0..<nat (inflight b)]"

definition rob_ok :: "params \<Rightarrow> robstructure \<Rightarrow> bool" where
  "rob_ok P b \<longleftrightarrow> 0 \<le> head b \<and> head b < ROBSIZE P \<and> 0 \<le> inflight b \<and> inflight b \<le> ROBSIZE P \<and>
     tail b = (head b + inflight b) mod ROBSIZE P"

definition rob_put :: "rob_entry \<Rightarrow> robstructure \<Rightarrow> robstructure" where
  "rob_put e b = (let (k, t, a) = e in
     b\<lparr>optype := (optype b)(tail b := k), comptime := (comptime b)(tail b := t),
       mem_address := (mem_address b)(tail b := a)\<rparr>)"

definition rob_enq :: "params \<Rightarrow> rob_entry \<Rightarrow> robstructure \<Rightarrow> robstructure" where
  "rob_enq P e b = rob_grow P (rob_put e b)"

lemma rob_list_length [simp]: "length (rob_list P b) = nat (inflight b)"
  by (simp add: rob_list_def)

lemma ring_distinct:
  fixes h n :: int
  assumes "0 \<le> i" and "i < j" and "j < n"
  shows "(h + i) mod n \<noteq> (h + j) mod n"
proof
  assume "(h + i) mod n = (h + j) mod n"
  then have "n dvd (h + j) - (h + i)" by (metis mod_eq_dvd_iff)
  then show False using assms zdvd_not_zless [of "j - i" n] by simp
qed

text \<open>The entry at \<open>tail\<close> is not part of the queue yet, so it may be written piece by piece.\<close>

definition tail_only :: "robstructure \<Rightarrow> robstructure \<Rightarrow> bool" where
  "tail_only b b' \<longleftrightarrow> head b' = head b \<and> tail b' = tail b \<and> inflight b' = inflight b \<and>
     (\<forall>i. i \<noteq> tail b \<longrightarrow> rob_entry_at b' i = rob_entry_at b i)"

lemma tail_only_puts:
  "tail_only b b" "tail_only b b' \<Longrightarrow> tail_only b (put_comptime t b')" "tail_only b b' \<Longrightarrow> tail_only b (put_optype c b')"
  "tail_only b b' \<Longrightarrow> tail_only b (put_address a b')" "tail_only b b' \<Longrightarrow> tail_only b (put_pc pc b')"
  "tail_only b (rob_put e b)"
  by (auto simp: tail_only_def put_comptime_def put_optype_def put_address_def put_pc_def rob_put_def
      rob_entry_at_def split: prod.splits)

lemma tail_only_ok: "tail_only b b' \<Longrightarrow> rob_ok P b' = rob_ok P b"
  by (simp add: tail_only_def rob_ok_def)

lemma tail_only_list:
  assumes "tail_only b b'" and "rob_ok P b" and "inflight b < ROBSIZE P"
  shows "rob_list P b' = rob_list P b"
proof -
  have "(head b + int i) mod ROBSIZE P \<noteq> tail b" if "i < nat (inflight b)" for i
    using ring_distinct [of "int i" "inflight b" "ROBSIZE P" "head b"] assms that by (auto simp: rob_ok_def)
  then show ?thesis using assms(1) by (simp add: rob_list_def tail_only_def)
qed

lemma rob_grow_list:
  assumes "rob_ok P b" and "inflight b < ROBSIZE P"
  shows "rob_ok P (rob_grow P b)" "rob_list P (rob_grow P b) = rob_list P b @ [rob_entry_at b (tail b)]"
proof -
  let ?n = "ROBSIZE P"
  have n: "0 < ?n" and tail: "0 \<le> tail b" using assms by (auto simp: rob_ok_def)
  then have "(tail b + 1) smod ?n = (tail b + 1) mod ?n" by (simp add: smod_nonneg)
  also have "\<dots> = (head b + (inflight b + 1)) mod ?n"
    using assms by (simp add: rob_ok_def mod_simps) (simp add: algebra_simps)
  finally show "rob_ok P (rob_grow P b)" using assms by (simp add: rob_ok_def rob_grow_def)
  have "nat (inflight b + 1) = Suc (nat (inflight b))" using assms by (simp add: rob_ok_def nat_add_distrib)
  then show "rob_list P (rob_grow P b) = rob_list P b @ [rob_entry_at b (tail b)]"
    using assms by (simp add: rob_list_def rob_grow_def rob_entry_at_def rob_ok_def)
qed

lemma rob_deq_list:
  assumes "rob_ok P b" and "rob_list P b \<noteq> []"
  shows "rob_ok P (rob_deq P b)" "rob_list P (rob_deq P b) = tl (rob_list P b)"
    "hd (rob_list P b) = rob_entry_at b (head b)"
proof -
  let ?n = "ROBSIZE P"
  have pos: "0 < inflight b" using assms by (auto simp: rob_list_def)
  have n: "0 < ?n" using assms(1) by (auto simp: rob_ok_def)
  have turn: "(head b + 1) smod ?n = (head b + 1) mod ?n" using assms(1) n by (simp add: smod_nonneg rob_ok_def)
  have "((head b + 1) mod ?n + (inflight b - 1)) mod ?n = (head b + inflight b) mod ?n"
    by (simp add: mod_simps)
  then show "rob_ok P (rob_deq P b)" using assms(1) pos n by (simp add: rob_ok_def rob_deq_def turn)
  have upt: "[0..<nat (inflight b)] = 0 # map Suc [0..<nat (inflight b - 1)]"
  proof -
    have "nat (inflight b) = Suc (nat (inflight b - 1))" using pos by simp
    then show ?thesis by (metis map_Suc_upt upt_conv_Cons zero_less_Suc)
  qed
  show "rob_list P (rob_deq P b) = tl (rob_list P b)"
    unfolding rob_list_def upt
    by (simp add: rob_deq_def rob_entry_at_def turn mod_simps) (simp add: algebra_simps)
  show "hd (rob_list P b) = rob_entry_at b (head b)"
    unfolding rob_list_def upt using assms(1) by (simp add: rob_ok_def)
qed

interpretation rob: fifo "rob_ok P" "rob_list P" "nat (ROBSIZE P)" "rob_enq P" "rob_deq P" for P
proof unfold_locales
  fix b :: robstructure and e :: rob_entry
  show "rob_ok P b \<Longrightarrow> length (rob_list P b) \<le> nat (ROBSIZE P)" by (auto simp: rob_ok_def intro: nat_mono)
  assume ok: "rob_ok P b"
  show "rob_ok P (rob_enq P e b) \<and> rob_list P (rob_enq P e b) = rob_list P b @ [e]"
    if "length (rob_list P b) < nat (ROBSIZE P)"
  proof -
    have room: "inflight b < ROBSIZE P" using that ok by (simp add: rob_ok_def)
    have put: "rob_ok P (rob_put e b)" "inflight (rob_put e b) = inflight b" "tail (rob_put e b) = tail b"
      "rob_entry_at (rob_put e b) (tail b) = e"
      using ok by (auto simp: rob_put_def rob_ok_def rob_entry_at_def split: prod.splits)
    show ?thesis
      using rob_grow_list [OF put(1)] tail_only_list [OF tail_only_puts(6) ok room] put room by (simp add: rob_enq_def)
  qed
  show "rob_ok P (rob_deq P b) \<and> rob_list P (rob_deq P b) = tl (rob_list P b)" if "rob_list P b \<noteq> []"
    using rob_deq_list [OF ok that] by simp
qed

section \<open>Retiring\<close>

definition ready :: "mc \<Rightarrow> rob_entry \<Rightarrow> bool" where
  "ready s e \<longleftrightarrow> fst (snd e) < CYCLE_VAL s"

lemma upd_rob_fields [simp]:
  "ROB (upd_rob t f s) = (ROB s)(t := f (ROB s t))" "CYCLE_VAL (upd_rob t f s) = CYCLE_VAL s"
  "write_queue_length (upd_rob t f s) = write_queue_length s"
  by (simp_all add: upd_rob_def)

lemma upd_rob_id: "s = upd_rob t (\<lambda>b. b) s"
  by (simp add: upd_rob_def)

lemma upd_rob_twice: "upd_rob t f (upd_rob t g s) = upd_rob t (f \<circ> g) s"
  by (simp add: upd_rob_def)

lemma count_committed_0: "count_committed t 0 u = u"
  unfolding count_committed_def by (simp only: add_0_right fun_upd_triv) simp

lemma count_committed_add: "count_committed t k (count_committed t l u) = count_committed t (l + k) u"
  unfolding count_committed_def by (simp del: fun_upd_apply add: fun_upd_same add.assoc)

lemma count_committed_fields [simp]: "committed (count_committed t k u) = (committed u)(t := committed u t + k)"
  "fetched (count_committed t k u) = fetched u"
  by (simp_all add: count_committed_def)

text \<open>One core retires the longest completed prefix of its buffer, up to the retire width.\<close>

lemma retire_loop_fifo:
  assumes "rob_ok P (ROB s numc)"
  shows "\<exists>k. k = min n (length (takeWhile (ready s) (rob_list P (ROB s numc)))) \<and>
    retire_loop P numc n (u, s) = (count_committed numc (int k) u, upd_rob numc (rob_deq P ^^ k) s)"
  using assms
proof (induction n arbitrary: u s)
  case 0
  show ?case by (rule exI [of _ 0]) (simp add: upd_rob_def count_committed_0)
next
  case (Suc n)
  let ?b = "ROB s numc"
  show ?case
  proof (cases "inflight ?b \<noteq> 0 \<and> comptime ?b (head ?b) < CYCLE_VAL s")
    case True
    then have ne: "rob_list P ?b \<noteq> []" using Suc.prems by (simp add: rob_list_def rob_ok_def)
    note deq = rob_deq_list [OF Suc.prems ne]
    let ?s = "upd_rob numc (rob_deq P) s" and ?u = "count_committed numc 1 u"
    have same: "ready ?s = ready s" by (simp add: ready_def fun_eq_iff)
    obtain k where k: "k = min n (length (takeWhile (ready s) (tl (rob_list P ?b))))"
      and run: "retire_loop P numc n (?u, ?s) = (count_committed numc (int k) ?u, upd_rob numc (rob_deq P ^^ k) ?s)"
      using Suc.IH [of ?s ?u] deq same by auto
    have "ready s (hd (rob_list P ?b))" using True deq(3) by (simp add: ready_def rob_entry_at_def)
    then have "takeWhile (ready s) (rob_list P ?b) = hd (rob_list P ?b) # takeWhile (ready s) (tl (rob_list P ?b))"
      using ne by (cases "rob_list P ?b") simp_all
    then have "Suc k = min (Suc n) (length (takeWhile (ready s) (rob_list P ?b)))" using k by simp
    moreover have "retire_loop P numc (Suc n) (u, s) =
        (count_committed numc (int (Suc k)) u, upd_rob numc (rob_deq P ^^ Suc k) s)"
      using True run by (simp add: Let_def upd_rob_twice count_committed_add funpow_Suc_right del: funpow.simps)
    ultimately show ?thesis by blast
  next
    case False
    have "takeWhile (ready s) (rob_list P ?b) = []"
    proof (cases "rob_list P ?b")
      case (Cons e es)
      then have "e = rob_entry_at ?b (head ?b)" using rob_deq_list(3) [OF Suc.prems] by auto
      moreover have "inflight ?b \<noteq> 0" using Cons by (auto simp: rob_list_def)
      ultimately show ?thesis using False Cons by (simp add: ready_def rob_entry_at_def)
    qed simp
    then show ?thesis using False by (auto simp: Let_def count_committed_0 upd_rob_def)
  qed
qed

lemma retire_loop_others:
  assumes "retire_loop P numc n (u, s) = (u', s')"
  shows "\<exists>f k. s' = upd_rob numc f s \<and> u' = count_committed numc k u"
  using assms
proof (induction n arbitrary: u s)
  case 0
  then show ?case by (metis count_committed_0 prod.inject retire_loop.simps(1) upd_rob_id)
next
  case (Suc n)
  let ?b = "ROB s numc"
  show ?case
  proof (cases "inflight ?b \<noteq> 0 \<and> comptime ?b (head ?b) < CYCLE_VAL s")
    case True
    then have "retire_loop P numc n (count_committed numc 1 u, upd_rob numc (rob_deq P) s) = (u', s')"
      using Suc.prems by (simp add: Let_def)
    from Suc.IH [OF this] show ?thesis by (auto simp: upd_rob_twice count_committed_add)
  next
    case False
    then have "u' = u" "s' = s" using Suc.prems by (auto simp: Let_def)
    then show ?thesis by (metis count_committed_0 upd_rob_id)
  qed
qed

text \<open>The accounting of one core, which every phase of the loop keeps.\<close>

definition core_ok :: "params \<Rightarrow> int \<Rightarrow> cpu \<times> mc \<Rightarrow> bool" where
  "core_ok P t x \<longleftrightarrow> rob_ok P (ROB (snd x) t) \<and>
     fetched (fst x) t = committed (fst x) t + inflight (ROB (snd x) t)"

lemma rob_deq_inflight: "inflight ((rob_deq P ^^ k) b) = inflight b - int k"
  by (induction k) (simp_all add: rob_deq_def)

lemma retire_core_ok:
  assumes "core_ok P t x" shows "core_ok P t (retire_loop P numc n x)"
proof (cases "numc = t")
  case True
  obtain u s where x: "x = (u, s)" by force
  have ok: "rob_ok P (ROB s t)" using assms x by (simp add: core_ok_def)
  then obtain k where k: "k = min n (length (takeWhile (ready s) (rob_list P (ROB s t))))"
    and run: "retire_loop P t n (u, s) = (count_committed t (int k) u, upd_rob t (rob_deq P ^^ k) s)"
    using retire_loop_fifo by blast
  have "k \<le> length (rob_list P (ROB s t))"
    using k length_takeWhile_le [of "ready s" "rob_list P (ROB s t)"] by (simp del: rob_list_length)
  then have "rob_ok P ((rob_deq P ^^ k) (ROB s t))" using rob.deq_many [OF ok] by blast
  then show ?thesis using assms x run True by (simp add: core_ok_def rob_deq_inflight)
next
  case False
  obtain u s u' s' where x: "x = (u, s)" "retire_loop P numc n (u, s) = (u', s')" by (metis surj_pair)
  then show ?thesis using retire_loop_others [OF x(2)] assms False by (auto simp: core_ok_def)
qed

lemma retire_ok: "core_ok P t x \<Longrightarrow> core_ok P t (retire P x)"
  unfolding retire_def
  by (rule fold_rel [where R = "\<lambda>x y. core_ok P t x \<longrightarrow> core_ok P t y", THEN mp]) (use retire_core_ok in auto)

section \<open>Fetching\<close>

text \<open>At most \<open>n\<close> instructions of core \<open>numc\<close> have joined its queue, and nothing else has changed.\<close>

definition grown :: "params \<Rightarrow> int \<Rightarrow> nat \<Rightarrow> cpu \<times> mc \<Rightarrow> cpu \<times> mc \<Rightarrow> bool" where
  "grown P numc n x y \<longleftrightarrow>
     (\<exists>es. length es \<le> n \<and> rob_list P (ROB (snd y) numc) = rob_list P (ROB (snd x) numc) @ es \<and>
        fetched (fst y) = (fetched (fst x))(numc := fetched (fst x) numc + int (length es))) \<and>
     rob_ok P (ROB (snd y) numc) \<and> committed (fst y) = committed (fst x) \<and>
     (\<forall>t. t \<noteq> numc \<longrightarrow> ROB (snd y) t = ROB (snd x) t) \<and> CYCLE_VAL (snd y) = CYCLE_VAL (snd x)"

lemma grown_refl: "rob_ok P (ROB (snd x) numc) \<Longrightarrow> grown P numc n x x"
  unfolding grown_def by (auto intro: exI [of _ "[]"])

lemma grown_trans:
  assumes "grown P numc m x y" and "grown P numc n y z" and "m + n \<le> k"
  shows "grown P numc k x z"
proof -
  obtain es fs where "length es \<le> m" "rob_list P (ROB (snd y) numc) = rob_list P (ROB (snd x) numc) @ es"
      "fetched (fst y) = (fetched (fst x))(numc := fetched (fst x) numc + int (length es))"
    and "length fs \<le> n" "rob_list P (ROB (snd z) numc) = rob_list P (ROB (snd y) numc) @ fs"
      "fetched (fst z) = (fetched (fst y))(numc := fetched (fst y) numc + int (length fs))"
    using assms(1,2) by (auto simp: grown_def)
  then have "length (es @ fs) \<le> k" "rob_list P (ROB (snd z) numc) = rob_list P (ROB (snd x) numc) @ es @ fs"
    "fetched (fst z) = (fetched (fst x))(numc := fetched (fst x) numc + int (length (es @ fs)))"
    using assms(3) by (simp_all add: add.assoc)
  then show ?thesis using assms(1,2) unfolding grown_def by metis
qed

lemma push_grown:
  assumes "rob_ok P (ROB s numc)" and "inflight (ROB s numc) \<noteq> ROBSIZE P"
    and "tail_only (ROB s numc) (ROB s' numc)" and "\<forall>t. t \<noteq> numc \<longrightarrow> ROB s' t = ROB s t"
    and "fetched u' = fetched u" and "committed u' = committed u" and "CYCLE_VAL s' = CYCLE_VAL s"
  shows "grown P numc 1 (u, s) (push P numc (u', s'))"
proof -
  have room: "inflight (ROB s numc) < ROBSIZE P" using assms(1,2) by (simp add: rob_ok_def)
  then have room': "inflight (ROB s' numc) < ROBSIZE P" using assms(3) by (simp add: tail_only_def)
  have ok: "rob_ok P (ROB s' numc)" using tail_only_ok [OF assms(3)] assms(1) by simp
  note grow = rob_grow_list [OF ok room']
  show ?thesis
    unfolding grown_def push_def
    by (intro conjI exI [of _ "[rob_entry_at (ROB s' numc) (tail (ROB s' numc))]"])
      (use grow assms(4-7) tail_only_list [OF assms(3,1) room] in auto)
qed

lemma fetch_nonmem_grown:
  "rob_ok P (ROB s numc) \<Longrightarrow> inflight (ROB s numc) \<noteq> ROBSIZE P \<Longrightarrow>
     grown P numc 1 (u, s) (fetch_nonmem P numc (u, s))"
  unfolding fetch_nonmem_def Let_def prod.case
  by (rule push_grown) (auto intro!: tail_only_puts)

lemma merge_read_fields: "read_matches_write_or_read_queue P a s = (s', lat) \<Longrightarrow>
    ROB s' = ROB s \<and> CYCLE_VAL s' = CYCLE_VAL s \<and> write_queue_length s' = write_queue_length s"
  by (auto simp: read_matches_write_or_read_queue_def Let_def split: if_splits)

lemma merge_write_fields: "write_exists_in_write_queue P a s = (s', b) \<Longrightarrow>
    ROB s' = ROB s \<and> CYCLE_VAL s' = CYCLE_VAL s \<and> write_queue_length s' = write_queue_length s"
  by (auto simp: write_exists_in_write_queue_def Let_def split: if_splits)

lemma insert_fields [simp]: "ROB (insert_read P a t n i pc s) = ROB s"
  "CYCLE_VAL (insert_read P a t n i pc s) = CYCLE_VAL s" "ROB (insert_write P a t n i s) = ROB s"
  "CYCLE_VAL (insert_write P a t n i s) = CYCLE_VAL s"
  "write_queue_length (insert_read P a t n i pc s) = write_queue_length s"
  by (simp_all add: insert_read_def insert_write_def Let_def)

lemma fetch_read_grown:
  assumes "rob_ok P (ROB s numc)" and "inflight (ROB s numc) \<noteq> ROBSIZE P"
  shows "grown P numc 1 (u, s) (fetch_read P numc (u, s))"
proof -
  obtain s1 lat where m: "read_matches_write_or_read_queue P (prefix_address P (prefixtable u numc) (addr u numc))
      (upd_rob numc (\<lambda>b. put_pc (line_pc u numc) (put_comptime (CYCLE_VAL s + BIGNUM)
         (put_optype CHR ''R'' (put_address (prefix_address P (prefixtable u numc) (addr u numc)) b)))) s) = (s1, lat)"
    by (metis surj_pair)
  show ?thesis
    unfolding fetch_read_def Let_def prod.case
    by (subst (1) surjective_pairing [of "read_matches_write_or_read_queue P _ _"], simp only: prod.case)
      (rule push_grown [OF assms]; use m merge_read_fields [OF m] in \<open>auto intro!: tail_only_puts\<close>)
qed

lemma fetch_write_grown:
  assumes "rob_ok P (ROB s numc)" and "inflight (ROB s numc) \<noteq> ROBSIZE P"
  shows "grown P numc 1 (u, s) (fetch_write P numc (u, s))"
proof -
  obtain s1 b where m: "write_exists_in_write_queue P (prefix_address P (prefixtable u numc) (addr u numc))
      (upd_rob numc (\<lambda>b. put_comptime (CYCLE_VAL s + PIPELINEDEPTH P)
         (put_optype CHR ''W'' (put_address (prefix_address P (prefixtable u numc) (addr u numc)) b))) s) = (s1, b)"
    by (metis surj_pair)
  show ?thesis
    unfolding fetch_write_def Let_def prod.case
    by (subst (1) surjective_pairing [of "write_exists_in_write_queue P _ _"], simp only: prod.case)
      (rule push_grown [OF assms]; use m merge_write_fields [OF m] in \<open>auto intro!: tail_only_puts\<close>)
qed

lemma fetch_mem_grown:
  assumes "fetch_mem P numc x = Inr y" and "rob_ok P (ROB (snd x) numc)" and "inflight (ROB (snd x) numc) \<noteq> ROBSIZE P"
  shows "grown P numc 1 x y"
  using assms fetch_read_grown fetch_write_grown by (cases x) (auto simp: fetch_mem_def split: if_splits)

lemma read_trace_line_frame:
  assumes "read_trace_line numc line u = Inr u'"
  shows "fetched u' = fetched u" "committed u' = committed u" "writeqfull u' = writeqfull u" "num_done u' = num_done u"
    "time_done u' = time_done u" "expt_done u' = expt_done u"
  using assms by (auto simp: read_trace_line_def Let_def split: prod.splits if_splits)

lemma core_done_frame [simp]: "fetched (core_done t numc u s) = fetched u" "committed (core_done t numc u s) = committed u"
  "writeqfull (core_done t numc u s) = writeqfull u" "expt_done (core_done t numc u s) = expt_done u"
  by (simp_all add: core_done_def)

lemma next_line_cases:
  assumes "next_line t numc (u, s) = Inr (again, u', s')"
  obtains (line) line rest where "again" and "s' = s" and "read_trace_line numc line (u\<lparr>tif := (tif u)(numc := rest)\<rparr>) = Inr u'"
  | (eof) "\<not> again" and "u' = core_done t numc u s" and "s' = upd_rob numc (\<lambda>b. b\<lparr>tracedone := True\<rparr>) s"
proof (cases "fgets MAXTRACELINESIZE (tif u numc)")
  case None
  then show thesis using assms by (intro eof) (auto simp: next_line_def)
next
  case (Some lr)
  obtain l r where "lr = (l, r)" by force
  then show thesis using assms Some by (intro line [of l r]) (auto simp: next_line_def)
qed

lemma tracedone_list [simp]: "rob_list P (b\<lparr>tracedone := v\<rparr>) = rob_list P b" "rob_ok P (b\<lparr>tracedone := v\<rparr>) = rob_ok P b"
  by (simp_all add: rob_list_def rob_entry_at_def rob_ok_def)

lemma next_line_grown:
  assumes "next_line t numc x = Inr (again, y)" and "rob_ok P (ROB (snd x) numc)"
  shows "grown P numc 0 x y"
proof -
  obtain u s u' s' where xy: "x = (u, s)" "y = (u', s')" by force
  show ?thesis
  proof (rule next_line_cases [OF assms(1) [unfolded xy]])
    fix line rest assume "s' = s" "read_trace_line numc line (u\<lparr>tif := (tif u)(numc := rest)\<rparr>) = Inr u'"
    then show ?thesis using assms(2) read_trace_line_frame(1,2) [of numc line "u\<lparr>tif := (tif u)(numc := rest)\<rparr>" u']
      by (auto simp: grown_def xy)
  next
    assume "u' = core_done t numc u s" "s' = upd_rob numc (\<lambda>b. b\<lparr>tracedone := True\<rparr>) s"
    then show ?thesis using assms(2) by (auto simp: grown_def xy)
  qed
qed

lemma fetch_loop_SucE:
  assumes "fetch_loop P numc (Suc n) x = Inr y"
  obtains (stop) "y = x"
  | (nonmem) "inflight (ROB (snd x) numc) \<noteq> ROBSIZE P" and "\<not> writeqfull (fst x)"
      and "fetch_loop P numc n (fetch_nonmem P numc x) = Inr y"
  | (mem) y1 again y2 where "inflight (ROB (snd x) numc) \<noteq> ROBSIZE P" and "\<not> writeqfull (fst x)"
      and "fetch_mem P numc x = Inr y1" and "next_line (CYCLE_VAL (snd y1)) numc y1 = Inr (again, y2)"
      and "(if again then fetch_loop P numc n y2 else Inr y2) = Inr y"
proof (cases "inflight (ROB (snd x) numc) = ROBSIZE P \<or> writeqfull (fst x)")
  case True
  then show thesis using stop assms by simp
next
  case False
  show thesis
  proof (cases "nonmemops (fst x) numc = 0")
    case True
    then obtain y1 z where "fetch_mem P numc x = Inr y1" "next_line (CYCLE_VAL (snd y1)) numc y1 = Inr z"
      "(case z of (again, x) \<Rightarrow> if again then fetch_loop P numc n x else Inr x) = Inr y"
      using assms False by auto
    then show thesis using mem False by (cases z) auto
  qed (use nonmem assms False in simp)
qed

lemma fetch_loop_grown:
  assumes "fetch_loop P numc n x = Inr y" and "rob_ok P (ROB (snd x) numc)"
  shows "grown P numc n x y"
  using assms
proof (induction n arbitrary: x)
  case 0
  then show ?case by (simp add: grown_refl)
next
  case (Suc n)
  from Suc.prems(1) show ?case
  proof (cases rule: fetch_loop_SucE)
    case stop
    then show ?thesis using Suc.prems(2) by (simp add: grown_refl)
  next
    case nonmem
    let ?y = "fetch_nonmem P numc x"
    have step: "grown P numc 1 x ?y" using fetch_nonmem_grown [OF Suc.prems(2) nonmem(1), of "fst x"] by simp
    then have "rob_ok P (ROB (snd ?y) numc)" by (simp add: grown_def)
    then have "grown P numc n ?y y" using nonmem(3) by (intro Suc.IH)
    from grown_trans [OF step this] show ?thesis by simp
  next
    case (mem y1 again y2)
    have 1: "grown P numc 1 x y1" by (rule fetch_mem_grown [OF mem(3) Suc.prems(2) mem(1)])
    then have 2: "grown P numc 0 y1 y2" by (intro next_line_grown [OF mem(4)]) (simp add: grown_def)
    then have "rob_ok P (ROB (snd y2) numc)" by (simp add: grown_def)
    then have 3: "grown P numc n y2 y" using mem(5) Suc.IH [of y2]
      by (cases again) (auto intro: grown_refl)
    show ?thesis using grown_trans [OF grown_trans [OF 1 2, of 1] 3] by simp
  qed
qed

lemma grown_core_ok:
  assumes "grown P numc n x y" and "core_ok P t x" shows "core_ok P t y"
proof (cases "t = numc")
  case True
  obtain es where es: "rob_list P (ROB (snd y) numc) = rob_list P (ROB (snd x) numc) @ es"
    "fetched (fst y) = (fetched (fst x))(numc := fetched (fst x) numc + int (length es))"
    and ok: "rob_ok P (ROB (snd y) numc)" and com: "committed (fst y) = committed (fst x)"
    using assms(1) by (auto simp: grown_def)
  have "nat (inflight (ROB (snd y) numc)) = nat (inflight (ROB (snd x) numc)) + length es"
    using arg_cong [OF es(1), of length] by simp
  then have "inflight (ROB (snd y) numc) = inflight (ROB (snd x) numc) + int (length es)"
  proof -
    have "0 \<le> inflight (ROB (snd y) numc)" "0 \<le> inflight (ROB (snd x) numc)"
      using ok assms(2) True by (auto simp: core_ok_def rob_ok_def)
    with \<open>nat _ = nat _ + length es\<close> show ?thesis by linarith
  qed
  then show ?thesis using assms(2) ok com es(2) True by (simp add: core_ok_def)
next
  case False
  then show ?thesis using assms by (auto simp: grown_def core_ok_def)
qed

section \<open>Properties\<close>

text \<open>C12. Instructions retire in program order: the reorder buffer of a core is a queue of the fetched
  instructions, and a retire step removes from its front exactly the completed ones, up to the
  retire width and not past the first that has not completed; each is counted as committed.\<close>

theorem retire_in_order:
  assumes "rob_ok P (ROB s numc)" and "retire_loop P numc n (u, s) = (u', s')"
    and "k = min n (length (takeWhile (ready s) (rob_list P (ROB s numc))))"
  shows "rob_list P (ROB s' numc) = drop k (rob_list P (ROB s numc)) \<and> rob_ok P (ROB s' numc) \<and>
    committed u' numc = committed u numc + int k \<and> (\<forall>t. t \<noteq> numc \<longrightarrow> ROB s' t = ROB s t)"
proof -
  have run: "u' = count_committed numc (int k) u" "s' = upd_rob numc (rob_deq P ^^ k) s"
    using retire_loop_fifo [OF assms(1), of n u] assms(2,3) by auto
  have "k \<le> length (rob_list P (ROB s numc))"
    using assms(3) length_takeWhile_le [of "ready s" "rob_list P (ROB s numc)"] by (simp del: rob_list_length)
  from rob.deq_many [OF assms(1) this] show ?thesis by (simp add: run)
qed

text \<open>Two instructions in flight, of which the older has completed.\<close>

definition demo_ring :: robstructure where
  "demo_ring = \<lparr>head = 127, tail = 1, inflight = 2, comptime = (\<lambda>i. if i = 127 then 3 else 90),
     mem_address = (\<lambda>i. 64 * i), optype = (\<lambda>_. 82), instrpc = (\<lambda>_. 0), tracedone = False\<rparr>"

definition demo_cores :: mc where
  "demo_cores = (zero_mc (\<lambda>_. demo_ring))\<lparr>CYCLE_VAL := 8\<rparr>"

definition demo_cpu :: cpu where
  "demo_cpu = \<lparr>nonmemops = (\<lambda>_. 0), opertype = (\<lambda>_. CHR ''R''), addr = (\<lambda>_. 64), line_pc = (\<lambda>_. 0),
     tif = (\<lambda>_. []), prefixtable = (\<lambda>_. 0), committed = (\<lambda>_. 0), fetched = (\<lambda>_. 0), time_done = (\<lambda>_. 0),
     num_done = 0, writeqfull = False, expt_done = False\<rparr>"

lemma demo_ring_list: "rob_ok ddr3_params demo_ring" "rob_list ddr3_params demo_ring = [(82, 3, 8128), (82, 90, 0)]"
  by (simp_all add: rob_ok_def rob_list_def rob_entry_at_def demo_ring_def ddr3_params_def upt_rec)

theorem retire_in_order_witness:
  "rob_list ddr3_params (ROB (snd (retire_loop ddr3_params 0 2 (demo_cpu, demo_cores))) 0) = [(82, 90, 0)] \<and>
   committed (fst (retire_loop ddr3_params 0 2 (demo_cpu, demo_cores))) 0 = 1"
proof -
  obtain u' s' where run: "retire_loop ddr3_params 0 2 (demo_cpu, demo_cores) = (u', s')" by force
  have rob: "ROB demo_cores 0 = demo_ring" "CYCLE_VAL demo_cores = 8" by (simp_all add: demo_cores_def zero_mc_def)
  have k: "1 = min 2 (length (takeWhile (ready demo_cores) (rob_list ddr3_params (ROB demo_cores 0))))"
    by (simp add: rob demo_ring_list ready_def)
  have "committed demo_cpu 0 = 0" by (simp add: demo_cpu_def)
  then show ?thesis
    using retire_in_order [OF _ run k] demo_ring_list by (simp add: run rob)
qed

text \<open>Instructions enter in program order: fetching for a core appends at most \<open>MAX_FETCH\<close>
  instructions at the back of its queue, leaves the ones in flight in place with their completion
  times, counts each as fetched, never overfills the ring, and touches no other core.\<close>

theorem fetch_in_order:
  assumes "fetch_core P numc (u, s) = Inr (u', s')" and "rob_ok P (ROB s numc)"
  shows "\<exists>es. length es \<le> nat (MAX_FETCH P) \<and> rob_list P (ROB s' numc) = rob_list P (ROB s numc) @ es \<and>
      fetched u' = (fetched u)(numc := fetched u numc + int (length es)) \<and>
      length (rob_list P (ROB s' numc)) \<le> nat (ROBSIZE P) \<and> (\<forall>t. t \<noteq> numc \<longrightarrow> ROB s' t = ROB s t)"
proof -
  have "grown P numc (nat (MAX_FETCH P)) (u, s) (u', s')"
  proof (cases "tracedone (ROB s numc)")
    case True
    then show ?thesis using assms by (auto simp: fetch_core_def grown_def intro: exI [of _ "[]"])
  next
    case False
    then show ?thesis using assms fetch_loop_grown [of P numc _ "(u, s)"] by (simp add: fetch_core_def)
  qed
  then show ?thesis using rob.bounded [of P "ROB s' numc"] by (auto simp: grown_def)
qed

theorem fetch_in_order_witness:
  "\<exists>u' s' es. fetch_core ddr3_params 0 (demo_cpu\<lparr>nonmemops := (\<lambda>_. 9)\<rparr>, demo_cores) = Inr (u', s') \<and>
     rob_list ddr3_params (ROB s' 0) = [(82, 3, 8128), (82, 90, 0)] @ es"
proof -
  let ?u = "demo_cpu\<lparr>nonmemops := (\<lambda>_. 9)\<rparr>"
  have rob: "ROB demo_cores 0 = demo_ring" by (simp add: demo_cores_def zero_mc_def)
  have "\<exists>u' s'. fetch_core ddr3_params 0 (?u, demo_cores) = Inr (u', s')"
    by (simp add: fetch_core_def rob numeral_eq_Suc ddr3_params_def fetch_nonmem_def push_def Let_def
        rob_grow_def put_comptime_def put_optype_def demo_ring_def demo_cpu_def)
  then obtain u' s' where run: "fetch_core ddr3_params 0 (?u, demo_cores) = Inr (u', s')" by blast
  from fetch_in_order [OF run] show ?thesis using run by (auto simp: rob demo_ring_list)
qed

end
