(* ===== verification/Demo.thy ===== *)
theory Demo
  imports Scheduler
begin

text \<open>
  A concrete scheduling state for the witnesses of the policies: the DDR3 configuration at
  cycle 0 with one read in the queue of channel 0, after \<open>update_memory\<close>. The bank is idle, so
  the read waits for an activate, which is issuable.
\<close>

definition demo_loaded :: mc where
  "demo_loaded = insert_read ddr3_params 64 0 0 0 0 demo_start"

lemma demo_loaded_env: "(env_step ddr3_params)\<^sup>*\<^sup>* demo_start demo_loaded"
  unfolding demo_loaded_def by (rule r_into_rtranclp) (rule env_step.insert_read)

lemma demo_addr: "channel (calc_dram_addr ddr3_params 64) = 0"
  "rank (calc_dram_addr ddr3_params 64) = 0" "bank (calc_dram_addr ddr3_params 64) = 0"
  "row (calc_dram_addr ddr3_params 64) = 0"
  by code_simp+

lemma demo_loaded_fields:
  "CYCLE_VAL demo_loaded = 0" "read_queue demo_loaded 0 = [init_new_node ddr3_params 64 0 READ 0 0 0]"
  "write_queue demo_loaded 0 = []" "dram_state demo_loaded = dram_state demo_start"
  "next_refresh_completion_deadline demo_loaded = next_refresh_completion_deadline demo_start"
  "refresh_issue_deadline demo_loaded = refresh_issue_deadline demo_start"
  "num_issued_refreshes demo_loaded = num_issued_refreshes demo_start"
  "forced_refresh_mode_on demo_loaded = forced_refresh_mode_on demo_start"
  by (simp_all add: demo_loaded_def insert_read_def demo_addr demo_start_fields Let_def)
    (simp_all add: demo_start_def init_memory_controller_vars_def zero_mc_def fill1_def Let_def)

lemma demo_loaded_inv: "ctl_inv ddr3_params (last_cycle ddr3_params (CYCLE_VAL demo_loaded)) [] demo_loaded"
  using env_steps_inv [OF demo_loaded_env _ wf_geometryI [OF wf_params_ddr3]]
    sim_inv [OF demo_sim wf_params_ddr3 demo_bound]
  by (simp add: demo_loaded_fields demo_start_fields)

lemma demo_loaded_ok: "\<exists>s. update_memory ddr3_params demo_loaded = Inr s \<and> sched_ok ddr3_params s"
proof -
  from memory_cycle_inv [OF demo_loaded_inv _ wf_params_ddr3] show ?thesis
    using wf_params_ddr3 by (auto simp: demo_loaded_fields sched_ok_def ddr3_params_def)
qed

lemma demo_loaded_queues:
  assumes run: "update_memory ddr3_params demo_loaded = Inr s"
  shows "\<exists>q. read_queue s 0 = [q] \<and> command_issuable q \<and> next_command q = ACT_CMD \<and> thread_id q = 0 \<and>
      rank (dram_addr q) = 0 \<and> physical_address q = 64"
    "write_queue s 0 = []"
    "\<not> command_issued_current_cycle s 0" "CYCLE_VAL s = 0"
proof -
  let ?P = ddr3_params and ?q = "init_new_node ddr3_params 64 0 READ 0 0 0"
  define t where "t = channel_refreshed ?P 0 demo_loaded"
  have "queue_inv ?P 0 demo_loaded"
    using demo_loaded_inv demo_valid(1) by (simp add: ctl_inv_def ch_inv_def)
  then have q: "queue_inv ?P 0 t" by (simp add: queue_inv_def t_def channel_refreshed_fields)
  have below: "below (NUM_CHANNELS ?P) = [0]" by (simp add: ddr3_params_def)
  have s: "s = t\<lparr>read_queue := (read_queue t)(0 := refreshed_reads ?P 0 t),
      read_queue_length := (read_queue_length t)(0 := int (length (refreshed_reads ?P 0 t))),
      write_queue := (write_queue t)(0 := refreshed_writes ?P 0 t),
      write_queue_length := (write_queue_length t)(0 := int (length (refreshed_writes ?P 0 t)))\<rparr>"
    using run queue_pass [OF q] by (simp add: update_memory_def below update_memory_channel_eq flip: t_def)
  have machine: "refresh_machine ?P (0, B, cas, rec, 199680, 196820, False, 0) =
      (0, B, cas, rec, 199680, 196820, False, 0)" for B cas rec
    by (simp add: refresh_machine_def ddr3_params_def c_int_def)
  have "rank_view 0 0 t = refresh_machine ?P (rank_view 0 0 (rank_reset ?P 0 0 demo_loaded))"
    unfolding t_def by (subst channel_refreshed_view) (simp_all add: update_refresh_view valid_rank_def ddr3_params_def)
  then have t: "CYCLE_VAL t = 0" "dram_state t 0 0 = dram_state demo_start 0 0"
    "refresh_issue_deadline t 0 0 = 196820" "\<not> forced_refresh_mode_on t 0 0"
    unfolding rank_reset_view
    by (simp_all add: machine demo_start_fields demo_loaded_fields) (simp_all add: rank_view_def)
  have bank: "state (dram_state demo_start 0 0 0) = IDLE" "next_act (dram_state demo_start 0 0 0) = 0"
    by (simp_all add: demo_start_def init_memory_controller_vars_def zero_mc_def zero_bank_def Let_def
        ddr3_params_def)
  have timing: "T_RAS ?P = 112" "T_FAW ?P = 128" by (simp_all add: ddr3_params_def)
  have "refreshed_reads ?P 0 t = [update_read_request ?P t 0 ?q]"
    by (simp add: refreshed_reads_def t_def channel_refreshed_fields demo_loaded_fields init_new_node_def)
  moreover have "command_issuable (update_read_request ?P t 0 ?q)"
    "next_command (update_read_request ?P t 0 ?q) = ACT_CMD"
    using t bank timing by (simp_all add: update_read_request_def init_new_node_def demo_addr Let_def
        is_T_FAW_met_def c_int_def)
  moreover have "thread_id (update_read_request ?P t 0 ?q) = 0"
    "rank (dram_addr (update_read_request ?P t 0 ?q)) = 0"
    "physical_address (update_read_request ?P t 0 ?q) = 64"
    by (simp_all add: update_read_request_def init_new_node_def demo_addr Let_def)
  ultimately show "\<exists>q. read_queue s 0 = [q] \<and> command_issuable q \<and> next_command q = ACT_CMD \<and> thread_id q = 0 \<and>
      rank (dram_addr q) = 0 \<and> physical_address q = 64"
    by (simp add: s)
  show "write_queue s 0 = []"
    by (simp add: s refreshed_writes_def t_def channel_refreshed_fields demo_loaded_fields)
  show "\<not> command_issued_current_cycle s 0" by (simp add: s t_def channel_refreshed_fields)
  show "CYCLE_VAL s = 0" by (simp add: s t)
qed

text \<open>The state, named.\<close>

definition demo_sched :: mc where
  "demo_sched = projr (update_memory ddr3_params demo_loaded)"

lemma demo_sched: "update_memory ddr3_params demo_loaded = Inr demo_sched" "sched_ok ddr3_params demo_sched"
  using demo_loaded_ok by (auto simp: demo_sched_def)

definition demo_read :: request_t where
  "demo_read = hd (read_queue demo_sched 0)"

lemma demo_sched_fields:
  "read_queue demo_sched 0 = [demo_read]" "command_issuable demo_read" "next_command demo_read = ACT_CMD"
  "write_queue demo_sched 0 = []" "\<not> command_issued_current_cycle demo_sched 0"
  "CYCLE_VAL demo_sched = 0" "read_queue_length demo_sched 0 = 1" "write_queue_length demo_sched 0 = 0"
  "thread_id demo_read = 0" "rank (dram_addr demo_read) = 0" "physical_address demo_read = 64"
  using demo_loaded_queues [OF demo_sched(1)] sched_ok_lengths [OF demo_sched(2) demo_valid(1)]
  by (auto simp: demo_read_def)

text \<open>A variant whose read is a row hit.\<close>

definition demo_hit_read :: request_t where
  "demo_hit_read = demo_read\<lparr>next_command := COL_READ_CMD\<rparr>"

definition demo_hit :: mc where
  "demo_hit = upd_bank 0 (rank (dram_addr demo_read)) (bank (dram_addr demo_read)) (\<lambda>b. b\<lparr>state := ROW_ACTIVE\<rparr>)
     (demo_sched\<lparr>read_queue := (read_queue demo_sched)(0 := [demo_hit_read])\<rparr>)"

lemma demo_hit_fields:
  "read_queue demo_hit 0 = [demo_hit_read]" "write_queue demo_hit 0 = []"
  "read_queue_length demo_hit 0 = 1" "write_queue_length demo_hit 0 = 0"
  "command_issuable demo_hit_read" "next_command demo_hit_read = COL_READ_CMD"
  "\<not> command_issued_current_cycle demo_hit 0"
  by (simp_all add: demo_hit_def demo_hit_read_def demo_sched_fields)

lemma demo_read_channel: "channel (dram_addr demo_read) = 0"
  using sched_ok_request(1) [OF demo_sched(2) demo_valid(1)] demo_sched_fields(1) by (simp add: requests_def)

lemma demo_hit_issue: "\<exists>s'. issue_request_command ddr3_params (RdPtr 0 0) demo_hit = Inr (s', True)"
proof -
  have "\<exists>s'. issue_COL_READ ddr3_params (RdPtr 0 0) demo_hit_read demo_hit = Inr s'"
    by (simp add: issue_COL_READ_def Let_def)
      (simp add: demo_hit_def demo_hit_read_def demo_read_channel)
  then show ?thesis
    using demo_hit_fields by (auto simp: issue_request_command_def demo_hit_read_def demo_read_channel)
qed

end
