(* ===== verification/Fcfs.thy ===== *)
theory Fcfs
  imports Demo
begin

text \<open>
  The first-come-first-served policies of \<open>usimm-v1.3/src/partA\<close>: \<open>scheduler-fcfs.c\<close> (and
  \<open>scheduler.c\<close>, the same text) and \<open>scheduler-frfcfs.c\<close>, which lets row hits overtake older
  requests a bounded number of times.

  Both alternate between the read queue and the write queue with a high and a low water mark
  (\<open>next_drain\<close>); the marks differ from policy to policy. \<open>N_value\<close> is a global variable of
  \<open>main.c\<close>, set from the command line, and an argument of the policies that read it.
\<close>

section \<open>Write drains\<close>

definition next_drain :: "int \<Rightarrow> int \<Rightarrow> int \<Rightarrow> mc \<Rightarrow> bool \<Rightarrow> bool" where
  "next_drain HI_WM LO_WM c s draining =
     (let draining = (if draining \<and> write_queue_length s c > LO_WM then True else False)
      in if write_queue_length s c > HI_WM then True
         else if read_queue_length s c = 0 then True else draining)"

text \<open>The queue a policy works on in drain mode and outside it.\<close>

definition active_queue :: "bool \<Rightarrow> int \<Rightarrow> mc \<Rightarrow> request_t list" where
  "active_queue draining c s = (if draining then write_queue s c else read_queue s c)"

definition active_ptr :: "bool \<Rightarrow> int \<Rightarrow> nat \<Rightarrow> req_ptr" where
  "active_ptr draining c = (if draining then WrPtr c else RdPtr c)"

lemma active_queue_of [simp, intro]: "queue_of s c (active_ptr d c) (active_queue d c s)"
  by (simp add: active_queue_def active_ptr_def)

lemma active_requests: "q \<in> set (active_queue d c s) \<Longrightarrow> q \<in> requests s c"
  by (auto simp: active_queue_def requests_def split: if_splits)

section \<open>First come, first served\<close>

record drain_state =
  drain_writes :: "bool arr1"

definition schedule_fcfs :: "params \<Rightarrow> int \<Rightarrow> drain_state \<Rightarrow> mc \<Rightarrow> (drain_state \<times> mc) res" where
  "schedule_fcfs P c st s =
     (let st = st\<lparr>drain_writes := (drain_writes st)(c := next_drain 40 20 c s (drain_writes st c))\<rparr>
      in if drain_writes st c
         then bindE (issue_first P (WrPtr c) command_issuable (write_queue s c) s) (\<lambda>(s, _). Inr (st, s))
         else bindE (issue_first P (RdPtr c) command_issuable (read_queue s c) s) (\<lambda>(s, _). Inr (st, s)))"

definition init_fcfs :: "params \<Rightarrow> drain_state \<Rightarrow> bool" where
  "init_fcfs P st \<longleftrightarrow> drain_writes st = (\<lambda>_. False)"

section \<open>Row hits first\<close>

record frfcfs_state = drain_state +
  N_current :: int

definition row_hit :: "bool \<Rightarrow> request_t \<Rightarrow> bool" where
  "row_hit draining q \<longleftrightarrow>
     command_issuable q \<and> next_command q = (if draining then COL_WRITE_CMD else COL_READ_CMD)"

text \<open>
  The body of either branch of \<open>schedule\<close>: the row hit search runs while the decremented counter
  is positive.
\<close>

definition frfcfs_queue ::
  "int \<Rightarrow> params \<Rightarrow> bool \<Rightarrow> int \<Rightarrow> frfcfs_state \<Rightarrow> mc \<Rightarrow> (frfcfs_state \<times> mc) res" where
  "frfcfs_queue N_value P draining c st s =
     (let ptr = active_ptr draining c; qs = active_queue draining c s;
          st = st\<lparr>N_current := N_current st - 1\<rparr>
      in bindE (if N_current st > 0 then issue_first P ptr (row_hit draining) qs s else Inr (s, None))
           (\<lambda>(s, found). if found \<noteq> None then Inr (st, s)
              else bindE (issue_first P ptr command_issuable qs s)
                (\<lambda>(s, found). Inr (if found \<noteq> None then st\<lparr>N_current := N_value\<rparr> else st, s))))"

definition schedule_frfcfs ::
  "int \<Rightarrow> params \<Rightarrow> int \<Rightarrow> frfcfs_state \<Rightarrow> mc \<Rightarrow> (frfcfs_state \<times> mc) res" where
  "schedule_frfcfs N_value P c st s =
     (let st = st\<lparr>drain_writes := (drain_writes st)(c := next_drain 40 20 c s (drain_writes st c))\<rparr>
      in if drain_writes st c then frfcfs_queue N_value P True c st s
         else frfcfs_queue N_value P False c st s)"

definition init_frfcfs :: "int \<Rightarrow> params \<Rightarrow> frfcfs_state \<Rightarrow> bool" where
  "init_frfcfs N_value P st \<longleftrightarrow> drain_writes st = (\<lambda>_. False) \<and> N_current st = N_value"

section \<open>The contract\<close>

interpretation fcfs: plain_scheduler schedule_fcfs init_fcfs
proof unfold_locales
  fix P s c st
  assume "sched_ok P s" "valid_channel P c"
  then show "fine P c s (schedule_fcfs P c st s)"
    unfolding schedule_fcfs_def Let_def by (simp add: fine_issue_first)
qed

lemma frfcfs_queue_fine:
  assumes ok: "sched_ok P s" and c: "valid_channel P c"
  shows "fine P c s (frfcfs_queue N P d c st s)"
proof -
  note q = active_queue_of [of s c d]
  have "fine P c s (bindE (issue_first P (active_ptr d c) command_issuable (active_queue d c s) s)
      (\<lambda>(s, found). Inr (f found, s)))" for f :: "_ \<Rightarrow> frfcfs_state"
    by (rule fine_issue_first [OF ok c q]) auto
  then show ?thesis unfolding frfcfs_queue_def Let_def
    by (auto intro!: fine_issue_first [OF ok c q])
qed

interpretation frfcfs: plain_scheduler "schedule_frfcfs N" "init_frfcfs N" for N
  by unfold_locales (simp add: schedule_frfcfs_def frfcfs_queue_fine Let_def)

section \<open>What the policies choose\<close>

text \<open>
  The contract of \<open>issue_request_command\<close> on which work conservation rests: an issuable request
  on a free channel is issued, because \<open>update_memory\<close> has given it one of the five commands.
\<close>

lemma waiting_command:
  assumes "\<not> request_served q"
  shows "next_command (update_read_request P s c q) \<in> {ACT_CMD, COL_READ_CMD, PRE_CMD, PWR_UP_CMD}"
    and "next_command (update_write_request P s c q) \<in> {ACT_CMD, COL_WRITE_CMD, PRE_CMD, PWR_UP_CMD}"
  using assms by (simp_all add: update_read_request_def update_write_request_def Let_def)

lemma issue_request_busy:
  assumes ok: "sched_ok P s" and c: "valid_channel P c" and q: "queue_of s c ptr qs" "i < length qs"
    and iss: "command_issuable (qs ! i)" and free: "\<not> command_issued_current_cycle s c"
  shows "\<exists>s'. issue_request_command P (ptr i) s = Inr (s', True) \<and> command_issued_current_cycle s' c"
proof -
  note get = queue_of_get [OF q]
  obtain m es where inv: "sched_inv P m es s" using ok by (auto simp: sched_ok_def)
  have fr: "fresh P m es c s" by (rule sched_fresh [OF inv c])
  have "update_read_request P s c (qs ! i) = qs ! i \<and> \<not> request_served (qs ! i) \<or>
      update_write_request P s c (qs ! i) = qs ! i \<and> \<not> request_served (qs ! i)"
    using fr free q by (auto simp: fresh_def queue_of_def)
  then have cmd: "next_command (qs ! i) \<in> {ACT_CMD, COL_READ_CMD, COL_WRITE_CMD, PRE_CMD, PWR_UP_CMD}"
    using waiting_command [of "qs ! i" P s c] by auto
  have chan: "channel (dram_addr (qs ! i)) = c" by (rule sched_ok_request(1) [OF ok c get(3)])
  obtain s' b where run: "issue_request_command P (ptr i) s = Inr (s', b)"
    using issue_request_reaches [OF ok c get(1,2)] by blast
  then have b: "b" using get(2) iss free chan by (auto simp: issue_request_command_def)
  moreover have "command_issued_current_cycle s' c" using run get(2) iss free chan cmd
    by (auto simp: issue_request_command_def issue_ACT_def issue_COL_READ_def issue_COL_WRITE_def
        issue_PRE_def issue_PWR_UP_def issued_def Let_def split: if_splits command_t.splits)
  ultimately show ?thesis using run by auto
qed

text \<open>The first-come-first-served policy in one step: the active queue and its first issuable request.\<close>

lemma fcfs_step:
  assumes "d = next_drain 40 20 c s (drain_writes st c)"
  shows "schedule_fcfs P c st s =
    bindE (issue_first P (active_ptr d c) command_issuable (active_queue d c s) s)
      (\<lambda>(s', _). Inr (st\<lparr>drain_writes := (drain_writes st)(c := d)\<rparr>, s'))"
  using assms by (simp add: schedule_fcfs_def active_ptr_def active_queue_def Let_def)

lemma frfcfs_step:
  assumes "d = next_drain 40 20 c s (drain_writes st c)"
  shows "schedule_frfcfs N P c st s =
    frfcfs_queue N P d c (st\<lparr>drain_writes := (drain_writes st)(c := d)\<rparr>) s"
  using assms by (simp add: schedule_frfcfs_def Let_def)

definition demo_drain :: drain_state where
  "demo_drain = \<lparr>drain_writes = (\<lambda>_. False)\<rparr>"

definition demo_budget :: frfcfs_state where
  "demo_budget = \<lparr>drain_writes = (\<lambda>_. False), N_current = 4\<rparr>"

lemma demo_reads: "next_drain hi lo 0 demo_sched False = (0 > hi)" "next_drain hi lo 0 demo_hit False = (0 > hi)"
  "active_queue False 0 demo_sched = [demo_read]" "active_queue False 0 demo_hit = [demo_hit_read]"
  by (simp_all add: next_drain_def demo_sched_fields demo_hit_fields active_queue_def)

section \<open>Properties\<close>

text \<open>First come, first served: on a free channel with an issuable request in the active
  queue, the policy issues a command, and it is the command of the oldest such request; the
  requests ahead of it were not issuable.\<close>

theorem fcfs_serves_oldest:
  assumes "sched_ok P s" and "valid_channel P c" and "\<not> command_issued_current_cycle s c"
    and "d = next_drain 40 20 c s (drain_writes st c)"
    and "q \<in> set (active_queue d c s)" and "command_issuable q"
  shows "\<exists>i st' s'. schedule_fcfs P c st s = Inr (st', s') \<and> command_issued_current_cycle s' c \<and>
    issue_request_command P (active_ptr d c i) s = Inr (s', True) \<and>
    i < length (active_queue d c s) \<and> command_issuable (active_queue d c s ! i) \<and>
    (\<forall>j<i. \<not> command_issuable (active_queue d c s ! j))"
proof -
  let ?qs = "active_queue d c s"
  have "find_first command_issuable ?qs \<noteq> None" using assms(5,6) by auto
  then obtain i where i: "find_first command_issuable ?qs = Some i" by blast
  note first = i [unfolded find_first_Some]
  obtain s' where "issue_request_command P (active_ptr d c i) s = Inr (s', True)"
    "command_issued_current_cycle s' c"
    using issue_request_busy [OF assms(1,2) active_queue_of _ _ assms(3)] first by blast
  then show ?thesis using first i fcfs_step [OF assms(4), of P] by (auto simp: issue_first_def)
qed

theorem fcfs_serves_oldest_witness:
  "\<exists>s'. issue_request_command ddr3_params (RdPtr 0 0) demo_sched = Inr (s', True) \<and>
     (\<exists>st'. schedule_fcfs ddr3_params 0 demo_drain demo_sched = Inr (st', s'))"
proof -
  obtain i st' s' where "schedule_fcfs ddr3_params 0 demo_drain demo_sched = Inr (st', s')"
    "issue_request_command ddr3_params (active_ptr False 0 i) demo_sched = Inr (s', True)"
    "i < length (active_queue False 0 demo_sched)"
    using fcfs_serves_oldest [OF demo_sched(2) demo_valid(1) demo_sched_fields(5), of False demo_drain demo_read]
    by (auto simp: demo_reads demo_sched_fields demo_drain_def)
  then show ?thesis by (auto simp: demo_reads active_ptr_def)
qed

text \<open>C40. A bounded number of overtakings: a call of FR-FCFS either uses up one unit of the budget
  \<open>N_current\<close>, or restores it and does to the controller what plain first-come-first-served does;
  with at most one unit left it always does the latter.\<close>

theorem frfcfs_bounded_bypass:
  assumes "schedule_frfcfs N P c st s = Inr (st', s')"
    and "drain_writes st0 = drain_writes st"
  shows "(N_current st' = N_current st - 1 \<or>
      N_current st' = N \<and> (\<exists>st1. schedule_fcfs P c st0 s = Inr (st1, s'))) \<and>
    (N_current st \<le> 1 \<longrightarrow> (\<exists>st1. schedule_fcfs P c st0 s = Inr (st1, s')))"
proof -
  define d where "d = next_drain 40 20 c s (drain_writes st c)"
  have "schedule_fcfs P c st0 s =
      bindE (issue_first P (active_ptr d c) command_issuable (active_queue d c s) s)
        (\<lambda>(s', _). Inr (st0\<lparr>drain_writes := (drain_writes st0)(c := d)\<rparr>, s'))"
    by (rule fcfs_step) (simp add: d_def assms(2))
  then show ?thesis
    using assms(1) unfolding frfcfs_step [OF d_def]
    by (auto simp: frfcfs_queue_def Let_def issue_first_None split: if_splits)
qed

theorem frfcfs_bounded_bypass_witness:
  "\<exists>st' s'. schedule_frfcfs 4 ddr3_params 0 demo_budget demo_sched = Inr (st', s') \<and>
     (N_current st' = 3 \<or>
      N_current st' = 4 \<and> (\<exists>st1. schedule_fcfs ddr3_params 0 demo_drain demo_sched = Inr (st1, s')))"
proof -
  obtain st' s' where run: "schedule_frfcfs 4 ddr3_params 0 demo_budget demo_sched = Inr (st', s')"
    using frfcfs.schedule_fine [OF demo_sched(2) demo_valid(1), of 4 demo_budget] by (auto simp: fine_def)
  show ?thesis
    using run frfcfs_bounded_bypass [OF run, of demo_drain] by (auto simp: demo_drain_def demo_budget_def)
qed

text \<open>Row hits first: with overtaking budget left, if the active queue holds an issuable column
  access, FR-FCFS issues the oldest one, ahead of older requests that need another command.\<close>

theorem frfcfs_row_hit_first:
  assumes "schedule_frfcfs N P c st s = Inr (st', s')"
    and "d = next_drain 40 20 c s (drain_writes st c)" and "1 < N_current st"
    and "q \<in> set (active_queue d c s)" and "row_hit d q"
  shows "\<exists>i ok. find_first (row_hit d) (active_queue d c s) = Some i \<and>
    issue_request_command P (active_ptr d c i) s = Inr (s', ok)"
proof -
  have "find_first (row_hit d) (active_queue d c s) \<noteq> None" using assms(4,5) by auto
  then obtain i where i: "find_first (row_hit d) (active_queue d c s) = Some i" by blast
  then show ?thesis using assms(1,3) unfolding frfcfs_step [OF assms(2)]
    by (auto simp: frfcfs_queue_def Let_def issue_first_def)
qed

theorem frfcfs_row_hit_first_witness:
  "\<exists>st' s'. schedule_frfcfs 4 ddr3_params 0 demo_budget demo_hit = Inr (st', s') \<and>
     (\<exists>i ok. find_first (row_hit False) [demo_hit_read] = Some i \<and>
        issue_request_command ddr3_params (RdPtr 0 i) demo_hit = Inr (s', ok))"
proof -
  have hit: "row_hit False demo_hit_read" by (simp add: row_hit_def demo_hit_fields)
  obtain st' s' where run: "schedule_frfcfs 4 ddr3_params 0 demo_budget demo_hit = Inr (st', s')"
    using demo_hit_issue hit
    by (auto simp: schedule_frfcfs_def demo_budget_def demo_reads frfcfs_queue_def issue_first_def
        active_ptr_def Let_def)
  show ?thesis
    using run frfcfs_row_hit_first [OF run, of False demo_hit_read] hit
    by (auto simp: demo_budget_def demo_reads active_ptr_def)
qed

end
