(* ===== verification/Close_Page.thy ===== *)
theory Close_Page
  imports Fcfs
begin

text \<open>
  The close-page policies of \<open>usimm-v1.3/src/partA\<close>: \<open>scheduler-close.c\<close>,
  \<open>scheduler-closemod.c\<close> and \<open>scheduler-openclosed.c\<close>. All three serve the active queue in
  order, mark banks whose row should be closed (\<open>recent_colacc\<close>), and in a cycle in which
  nothing is issued precharge a marked bank. They differ in the marking only.
\<close>

record close_state = drain_state +
  recent_colacc :: "bool arr3"
  num_aggr_precharge :: int

definition init_close :: "params \<Rightarrow> close_state \<Rightarrow> bool" where
  "init_close P st \<longleftrightarrow> drain_writes st = (\<lambda>_. False) \<and> num_aggr_precharge st = 0 \<and>
     (\<forall>i j k. 0 \<le> i \<and> i < MAX_NUM_CHANNELS \<longrightarrow> 0 \<le> j \<and> j < MAX_NUM_RANKS \<longrightarrow>
        0 \<le> k \<and> k < MAX_NUM_BANKS \<longrightarrow> \<not> recent_colacc st i j k)"

section \<open>Marking banks\<close>

definition mark :: "int \<Rightarrow> request_t \<Rightarrow> bool \<Rightarrow> 'a close_state_scheme \<Rightarrow> 'a close_state_scheme" where
  "mark c q v st = st\<lparr>recent_colacc :=
     upd3 (recent_colacc st) c (rank (dram_addr q)) (bank (dram_addr q)) v\<rparr>"

text \<open>
  \<open>scheduler-close.c\<close>: a column access makes the bank a candidate, an activate or a precharge
  clears it. \<open>hit\<close> is the column command of the queue.
\<close>

definition mark_close :: "command_t \<Rightarrow> int \<Rightarrow> request_t \<Rightarrow> close_state \<Rightarrow> close_state" where
  "mark_close hit c q st =
     (let st = (if next_command q = hit then mark c q True st else st);
          st = (if next_command q = ACT_CMD then mark c q False st else st)
      in if next_command q = PRE_CMD then mark c q False st else st)"

text \<open>Another request for the row of \<open>q\<close>, as the loops over the read queue compare them.\<close>

definition same_row :: "request_t \<Rightarrow> request_t \<Rightarrow> bool" where
  "same_row q k \<longleftrightarrow> rank (dram_addr k) = rank (dram_addr q) \<and>
     bank (dram_addr k) = bank (dram_addr q) \<and> row (dram_addr k) = row (dram_addr q)"

text \<open>\<open>scheduler-closemod.c\<close>: the candidate is withdrawn when a queued read is for the same row.\<close>

definition mark_closemod :: "command_t \<Rightarrow> request_t list \<Rightarrow> int \<Rightarrow> request_t \<Rightarrow> close_state \<Rightarrow> close_state" where
  "mark_closemod hit reads c q st =
     (let st = (if next_command q = hit
                then fold (\<lambda>k st. if same_row q k then mark c q False st else st) reads
                  (mark c q True st)
                else st);
          st = (if next_command q = ACT_CMD then mark c q False st else st)
      in if next_command q = PRE_CMD then mark c q False st else st)"

section \<open>Serving a queue and closing rows\<close>

text \<open>One of the two scans: the first issuable request is marked and issued.\<close>

definition serve_marked ::
  "params \<Rightarrow> (nat \<Rightarrow> req_ptr) \<Rightarrow> request_t list \<Rightarrow> (request_t \<Rightarrow> close_state \<Rightarrow> close_state) \<Rightarrow>
     close_state \<Rightarrow> mc \<Rightarrow> (close_state \<times> mc) res" where
  "serve_marked P ptr qs m st s =
     bindE (issue_first P ptr command_issuable qs s)
       (\<lambda>(s, found). Inr (case found of None \<Rightarrow> st | Some q \<Rightarrow> m q st, s))"

text \<open>The body of the two precharge loops.\<close>

definition close_bank ::
  "params \<Rightarrow> int \<Rightarrow> int \<Rightarrow> int \<Rightarrow> 'a close_state_scheme \<times> mc \<Rightarrow> 'a close_state_scheme \<times> mc" where
  "close_bank P c i j x =
     (let (st, s) = x in
      if recent_colacc st c i j then
        if is_precharge_allowed P c i j s then
          (let (s, ok) = issue_precharge_command P c i j s
           in if ok
              then (st\<lparr>num_aggr_precharge := num_aggr_precharge st + 1,
                      recent_colacc := upd3 (recent_colacc st) c i j False\<rparr>, s)
              else (st, s))
        else (st, s)
      else (st, s))"

definition close_banks ::
  "params \<Rightarrow> int \<Rightarrow> 'a close_state_scheme \<Rightarrow> mc \<Rightarrow> 'a close_state_scheme \<times> mc" where
  "close_banks P c st s =
     (if command_issued_current_cycle s c then (st, s)
      else fold (\<lambda>i x. fold (close_bank P c i) (below (NUM_BANKS P)) x) (below (NUM_RANKS P)) (st, s))"

definition schedule_close :: "params \<Rightarrow> int \<Rightarrow> close_state \<Rightarrow> mc \<Rightarrow> (close_state \<times> mc) res" where
  "schedule_close P c st s =
     (let st = st\<lparr>drain_writes := (drain_writes st)(c := next_drain 60 50 c s (drain_writes st c))\<rparr>
      in bindE (if drain_writes st c
                then serve_marked P (WrPtr c) (write_queue s c) (mark_close COL_WRITE_CMD c) st s
                else serve_marked P (RdPtr c) (read_queue s c) (mark_close COL_READ_CMD c) st s)
           (\<lambda>(st, s). Inr (close_banks P c st s)))"

definition schedule_closemod :: "params \<Rightarrow> int \<Rightarrow> close_state \<Rightarrow> mc \<Rightarrow> (close_state \<times> mc) res" where
  "schedule_closemod P c st s =
     (let st = st\<lparr>drain_writes := (drain_writes st)(c := next_drain 40 20 c s (drain_writes st c))\<rparr>
      in bindE (if drain_writes st c
                then serve_marked P (WrPtr c) (write_queue s c)
                       (mark_closemod COL_WRITE_CMD (read_queue s c) c) st s
                else serve_marked P (RdPtr c) (read_queue s c)
                       (mark_closemod COL_READ_CMD (read_queue s c) c) st s)
           (\<lambda>(st, s). Inr (close_banks P c st s)))"

text \<open>\<open>scheduler-openclosed.c\<close>: writes close their row, reads leave it open.\<close>

definition schedule_openclosed :: "params \<Rightarrow> int \<Rightarrow> close_state \<Rightarrow> mc \<Rightarrow> (close_state \<times> mc) res" where
  "schedule_openclosed P c st s =
     (let st = st\<lparr>drain_writes := (drain_writes st)(c := next_drain 40 20 c s (drain_writes st c))\<rparr>
      in bindE (if drain_writes st c
                then serve_marked P (WrPtr c) (write_queue s c) (mark_close COL_WRITE_CMD c) st s
                else serve_marked P (RdPtr c) (read_queue s c) (\<lambda>q. mark c q False) st s)
           (\<lambda>(st, s). Inr (close_banks P c st s)))"

section \<open>The contract\<close>

lemma close_bank_reaches:
  assumes "valid_rank P i" and "valid_bank P j"
  shows "reaches P c (snd x) (snd (close_bank P c i j x))"
  using issue_precharge_reaches [OF assms, of c "snd x"]
  by (auto simp: close_bank_def split: prod.splits)

text \<open>The precharge loops keep whatever every iteration keeps.\<close>

lemma close_banks_rel:
  assumes "\<And>x. R x x" and "\<And>x y z. R x y \<Longrightarrow> R y z \<Longrightarrow> R x z"
    and "\<And>i j x. valid_rank P i \<Longrightarrow> valid_bank P j \<Longrightarrow> R x (close_bank P c i j x)"
  shows "R (st, s) (close_banks P c st s)"
proof -
  have row: "R x (fold (close_bank P c i) (below (NUM_BANKS P)) x)" if "valid_rank P i" for i x
    by (rule fold_rel) (use assms that in \<open>auto simp: valid_bank_def\<close>)
  have "R (st, s) (fold (\<lambda>i x. fold (close_bank P c i) (below (NUM_BANKS P)) x) (below (NUM_RANKS P)) (st, s))"
    by (rule fold_rel) (use assms(1,2) row in \<open>auto simp: valid_rank_def\<close>)
  then show ?thesis using assms(1) by (simp add: close_banks_def)
qed

lemma close_banks_reaches: "reaches P c s (snd (close_banks P c st s))"
  using close_banks_rel [where R = "\<lambda>x y. reaches P c (snd x) (snd y)" and P = P and c = c and st = st and s = s]
    close_bank_reaches reaches_trans by fastforce

lemma close_fine:
  assumes ok: "sched_ok P s" and c: "valid_channel P c" and q: "queue_of s c ptr qs"
  shows "fine P c s (bindE (serve_marked P ptr qs m st s) (\<lambda>(st, s). Inr (close_banks P c st s)))"
proof -
  obtain s' found where run: "issue_first P ptr command_issuable qs s = Inr (s', found)" and r: "reaches P c s s'"
    using issue_first_reaches [OF ok c q] by blast
  let ?x = "close_banks P c (case found of None \<Rightarrow> st | Some q \<Rightarrow> m q st) s'"
  from reaches_trans [OF r close_banks_reaches] have "reaches P c s (snd ?x)" .
  then show ?thesis by (cases ?x) (simp add: serve_marked_def run)
qed

interpretation close: plain_scheduler schedule_close init_close
  by unfold_locales (simp add: schedule_close_def close_fine Let_def)

interpretation closemod: plain_scheduler schedule_closemod init_close
  by unfold_locales (simp add: schedule_closemod_def close_fine Let_def)

interpretation openclosed: plain_scheduler schedule_openclosed init_close
  by unfold_locales (simp add: schedule_openclosed_def close_fine Let_def)

section \<open>Properties\<close>

text \<open>One round of the precharge loops: nothing, or one precharge after which the channel is busy.\<close>

lemma close_banks_count:
  assumes "close_banks P c st s = (st', s')"
  shows "num_aggr_precharge st' = num_aggr_precharge st \<or>
    num_aggr_precharge st' = num_aggr_precharge st + 1 \<and>
      \<not> command_issued_current_cycle s c \<and> command_issued_current_cycle s' c"
proof -
  let ?R = "\<lambda>x y. (command_issued_current_cycle (snd x) c \<longrightarrow> y = x) \<and>
    (num_aggr_precharge (fst y) = num_aggr_precharge (fst x) \<and>
       (command_issued_current_cycle (snd x) c = command_issued_current_cycle (snd y) c) \<or>
     num_aggr_precharge (fst y) = num_aggr_precharge (fst x) + 1 \<and>
       \<not> command_issued_current_cycle (snd x) c \<and> command_issued_current_cycle (snd y) c)"
  have "?R (st, s) (close_banks P c st s)"
  proof (rule close_banks_rel)
    show "?R x (close_bank P c i j x)" for i j x
      by (cases x) (auto simp: close_bank_def issue_precharge_command_def is_precharge_allowed_def
          issued_def Let_def)
  qed auto
  then show ?thesis using assms by auto
qed

lemma close_banks_candidates:
  assumes "close_banks P c st s = (st', s')" and "recent_colacc st' c r b"
  shows "recent_colacc st c r b"
proof -
  let ?R = "\<lambda>x y. recent_colacc (fst y) c r b \<longrightarrow> recent_colacc (fst x) c r b"
  have "?R (st, s) (close_banks P c st s)"
    by (rule close_banks_rel) (auto simp: close_bank_def split: prod.splits if_splits)
  then show ?thesis using assms by simp
qed

lemma mark_frame [simp]: "num_aggr_precharge (mark c q v st) = num_aggr_precharge st"
  "drain_writes (mark c q v st) = drain_writes st"
  by (simp_all add: mark_def)

lemma mark_close_frame [simp]: "num_aggr_precharge (mark_close m c q st) = num_aggr_precharge st"
  by (simp add: mark_close_def Let_def)

lemma marked: "recent_colacc (mark c q v st) c' r b =
    (if c' = c \<and> r = rank (dram_addr q) \<and> b = bank (dram_addr q) then v else recent_colacc st c' r b)"
  by (simp add: mark_def)

lemma close_step:
  assumes "schedule_close P c st s = Inr (st', s')"
  shows "\<exists>d m s1 found. issue_first P (active_ptr d c) command_issuable (active_queue d c s) s = Inr (s1, found) \<and>
    close_banks P c (case found of None \<Rightarrow> st\<lparr>drain_writes := (drain_writes st)(c := d)\<rparr>
      | Some q \<Rightarrow> mark_close m c q (st\<lparr>drain_writes := (drain_writes st)(c := d)\<rparr>)) s1 = (st', s')"
proof (cases "next_drain 60 50 c s (drain_writes st c)")
  case True
  then show ?thesis using assms
    by (intro exI [where x = True] exI [where x = COL_WRITE_CMD])
      (auto simp: schedule_close_def serve_marked_def active_ptr_def active_queue_def Let_def)
next
  case False
  then show ?thesis using assms
    by (intro exI [where x = False] exI [where x = COL_READ_CMD])
      (auto simp: schedule_close_def serve_marked_def active_ptr_def active_queue_def Let_def)
qed

text \<open>A read withdraws its own candidate.\<close>

lemma withdraw:
  assumes "q \<in> set reads"
  shows "recent_colacc (fold (\<lambda>k st. if same_row q k then mark c q False st else st) reads (mark c q v st)) =
    recent_colacc (mark c q False st)"
proof -
  have shape: "recent_colacc (fold (\<lambda>k st. if same_row q k then mark c q False st else st) ks (mark c q v st)) =
      recent_colacc (mark c q (v \<and> (\<forall>k\<in>set ks. \<not> same_row q k)) st)" for ks v
  proof (induction ks arbitrary: v)
    case (Cons k ks)
    have "mark c q False (mark c q v st) = mark c q False st" by (simp add: mark_def upd3_def)
    then show ?case using Cons by simp
  qed simp
  have "(v \<and> (\<forall>k\<in>set reads. \<not> same_row q k)) = False" using assms by (auto simp: same_row_def)
  then show ?thesis unfolding shape by (rule arg_cong)
qed

text \<open>At most one speculative precharge per channel and cycle: whatever banks are candidates, a
  call of the close-page policy closes at most one of them, only in a cycle in which no request was
  issued, and counts exactly the precharges it issues.\<close>

theorem close_one_precharge:
  assumes "schedule_close P c st s = Inr (st', s')"
  shows "num_aggr_precharge st' = num_aggr_precharge st \<or>
    num_aggr_precharge st' = num_aggr_precharge st + 1 \<and> command_issued_current_cycle s' c \<and>
      \<not> command_issued_current_cycle s c"
proof -
  obtain d m s1 found where "issue_first P (active_ptr d c) command_issuable (active_queue d c s) s = Inr (s1, found)"
    and close: "close_banks P c (case found of None \<Rightarrow> st\<lparr>drain_writes := (drain_writes st)(c := d)\<rparr>
      | Some q \<Rightarrow> mark_close m c q (st\<lparr>drain_writes := (drain_writes st)(c := d)\<rparr>)) s1 = (st', s')"
    using close_step [OF assms] by blast
  then have "\<not> command_issued_current_cycle s1 c \<Longrightarrow> \<not> command_issued_current_cycle s c"
    using issue_first_busy_mono by blast
  then show ?thesis
    using close_banks_count [OF close] by (auto split: option.splits)
qed

text \<open>With the modified close-page policy a read never makes its bank a candidate for closing:
  the scan for queued reads of the same row always finds the read itself. Outside a write drain the
  candidates of a channel only become fewer, so every row a read has opened stays open.\<close>

theorem closemod_reads_stay_open:
  assumes "schedule_closemod P c st s = Inr (st', s')"
    and "\<not> next_drain 40 20 c s (drain_writes st c)" and "recent_colacc st' c r b"
  shows "recent_colacc st c r b"
proof -
  let ?st = "st\<lparr>drain_writes := (drain_writes st)(c := False)\<rparr>"
  obtain s1 found where run: "issue_first P (RdPtr c) command_issuable (read_queue s c) s = Inr (s1, found)"
    and close: "close_banks P c (case found of None \<Rightarrow> ?st
      | Some q \<Rightarrow> mark_closemod COL_READ_CMD (read_queue s c) c q ?st) s1 = (st', s')"
    using assms(1,2) by (auto simp: schedule_closemod_def serve_marked_def Let_def)
  show ?thesis
  proof (cases found)
    case None
    then show ?thesis using close_banks_candidates [OF close assms(3)] by simp
  next
    case (Some q)
    then have "q \<in> set (read_queue s c)"
      using run by (auto simp: issue_first_Some dest: find_first_SomeD(3))
    then show ?thesis
      using close_banks_candidates [OF close assms(3)] Some
      by (auto simp: mark_closemod_def withdraw Let_def marked split: if_splits)
  qed
qed

definition demo_close :: close_state where
  "demo_close = \<lparr>drain_writes = (\<lambda>_. False), recent_colacc = (\<lambda>_ _ _. False), num_aggr_precharge = 0\<rparr>"

theorem close_one_precharge_witness:
  "\<exists>st' s'. schedule_close ddr3_params 0 demo_close demo_sched = Inr (st', s') \<and>
     num_aggr_precharge st' \<le> 1"
proof -
  obtain st' s' where run: "schedule_close ddr3_params 0 demo_close demo_sched = Inr (st', s')"
    using close.schedule_fine [OF demo_sched(2) demo_valid(1), of demo_close] by (auto simp: fine_def)
  show ?thesis using run close_one_precharge [OF run] by (auto simp: demo_close_def)
qed

theorem closemod_reads_stay_open_witness:
  "\<exists>st' s'. schedule_closemod ddr3_params 0 (demo_close\<lparr>recent_colacc := (\<lambda>c r b. b = 3)\<rparr>) demo_sched =
     Inr (st', s') \<and> (\<forall>r b. recent_colacc st' 0 r b \<longrightarrow> b = 3)"
proof -
  let ?st = "demo_close\<lparr>recent_colacc := (\<lambda>c r b. b = 3)\<rparr>"
  obtain st' s' where run: "schedule_closemod ddr3_params 0 ?st demo_sched = Inr (st', s')"
    using closemod.schedule_fine [OF demo_sched(2) demo_valid(1), of ?st] by (auto simp: fine_def)
  have "\<not> next_drain 40 20 0 demo_sched (drain_writes ?st 0)" by (simp add: demo_close_def demo_reads)
  from closemod_reads_stay_open [OF run this] show ?thesis using run by auto
qed

end
