(* ===== verification/Mypolicy.thy ===== *)
theory Mypolicy
  imports Close_Page
begin

text \<open>
  The policy that is linked into the simulator, \<open>usimm-v1.3/src/scheduler-mypolicy.c\<close> (with both
  of its optimisations compiled in), and its predecessor \<open>partA/scheduler-fullmod.c\<close>. Both try
  row hits first, fall back to other commands that do not close a row with hits waiting, look at
  the reorder-buffer heads of the cores when an activate is due, and close a row with an
  auto-precharge when no queued request wants it.
\<close>

section \<open>Attempts in order\<close>

text \<open>
  An attempt returns the private state and the pointer of the request it has issued, if any: the
  flags \<open>read_issued\<close> and \<open>write_issued\<close> together with \<open>rd_ptr\<close> and \<open>wr_ptr\<close>. The next attempt is
  made only when nothing was issued.
\<close>

type_synonym 'st attempt = "(('st \<times> req_ptr option) \<times> mc) res"

definition or_else :: "'st attempt \<Rightarrow> ('st \<Rightarrow> mc \<Rightarrow> 'st attempt) \<Rightarrow> 'st attempt" where
  "or_else R f =
     bindE R (\<lambda>((st, found), s). case found of None \<Rightarrow> f st s | Some p \<Rightarrow> Inr ((st, Some p), s))"

definition issue_at :: "params \<Rightarrow> req_ptr \<Rightarrow> (mc \<Rightarrow> 'st) \<Rightarrow> mc \<Rightarrow> 'st attempt" where
  "issue_at P p g s = bindE (issue_request_command P p s) (\<lambda>(s, _). Inr ((g s, Some p), s))"

text \<open>The requests of a queue other than the one \<open>p\<close> points to (\<open>curr_ptr != rd_ptr\<close>).\<close>

definition others :: "(nat \<Rightarrow> req_ptr) \<Rightarrow> req_ptr \<Rightarrow> request_t list \<Rightarrow> request_t list" where
  "others ptr p qs = map snd (filter (\<lambda>(i, _). ptr i \<noteq> p) (enumerate 0 qs))"

text \<open>An unserved request of the list for the row of \<open>q\<close>.\<close>

definition wanted :: "request_t \<Rightarrow> request_t list \<Rightarrow> bool" where
  "wanted q ks = list_ex (\<lambda>k. \<not> request_served k \<and> same_row q k) ks"

text \<open>The bank becomes a candidate for closing unless another unserved read is for the row.\<close>

definition mark_unless_wanted ::
  "int \<Rightarrow> req_ptr \<Rightarrow> request_t \<Rightarrow> 'a close_state_scheme \<Rightarrow> mc \<Rightarrow> 'a close_state_scheme" where
  "mark_unless_wanted c p q st s =
     fold (\<lambda>k st. if \<not> request_served k \<and> same_row q k then mark c q False st else st)
       (others (RdPtr c) p (read_queue s c)) (mark c q True st)"

text \<open>A queued column access for the bank, which a precharge would turn into a miss.\<close>

definition bank_hit :: "command_t \<Rightarrow> request_t list \<Rightarrow> request_t \<Rightarrow> bool" where
  "bank_hit hit ks q =
     list_ex (\<lambda>k. rank (dram_addr k) = rank (dram_addr q) \<and> bank (dram_addr k) = bank (dram_addr q) \<and>
       next_command k = hit) ks"

text \<open>Whether the scan passes over a request that needs a precharge.\<close>

definition skip_pre :: "(request_t \<Rightarrow> bool) \<Rightarrow> int \<Rightarrow> mc \<Rightarrow> request_t \<Rightarrow> bool" where
  "skip_pre hit c s q \<longleftrightarrow>
     state (dram_state s c (rank (dram_addr q)) (bank (dram_addr q))) = PRECHARGING \<or> hit q"

text \<open>
  \<open>get_read_head\<close> and \<open>get_rob_top\<close>: the queued read of a reorder-buffer head that is ready to be
  activated, with the round-robin index of the core. \<open>physical_address\<close> is unsigned, so the signed address
  it is compared with is converted.
\<close>

fun rob_head_loop :: "params \<Rightarrow> int \<Rightarrow> mc \<Rightarrow> nat \<Rightarrow> int \<Rightarrow> int \<times> nat option" where
  "rob_head_loop P c s 0 t = (t, None)"
| "rob_head_loop P c s (Suc n) t =
     (case find_first (\<lambda>q. physical_address q = take_bit 64 (mem_address (ROB s t) (head (ROB s t)))) (read_queue s c) of
        None \<Rightarrow> rob_head_loop P c s n t
      | Some i \<Rightarrow>
          if command_issuable (read_queue s c ! i) \<and> next_command (read_queue s c ! i) = ACT_CMD
          then ((t + 1) smod NUMCORES P, Some i)
          else rob_head_loop P c s n ((t + 1) smod NUMCORES P))"

section \<open>The linked policy\<close>

record my_state = close_state +
  my_current_row :: "int arr1"
  my_current_bank :: "int arr1"
  my_current_rank :: "int arr1"
  my_thread_id :: int
  num_auto_precharge :: int

text \<open>\<open>current_row\<close>, \<open>current_bank\<close> and \<open>current_rank\<close> are allocated and not initialised.\<close>

definition init_my :: "params \<Rightarrow> my_state \<Rightarrow> bool" where
  "init_my P st \<longleftrightarrow> drain_writes st = (\<lambda>_. False) \<and> recent_colacc st = (\<lambda>_ _ _. False) \<and>
     num_aggr_precharge st = 0 \<and> my_thread_id st = 0 \<and> num_auto_precharge st = 0"

definition get_read_head :: "params \<Rightarrow> int \<Rightarrow> my_state \<Rightarrow> mc \<Rightarrow> my_state \<times> nat option" where
  "get_read_head P c st s =
     (let (t, found) = rob_head_loop P c s (nat (NUMCORES P)) (my_thread_id st)
      in (st\<lparr>my_thread_id := t\<rparr>, found))"

definition my_match :: "int \<Rightarrow> my_state \<Rightarrow> request_t \<Rightarrow> bool" where
  "my_match c st q \<longleftrightarrow> rank (dram_addr q) = my_current_rank st c \<and>
     bank (dram_addr q) = my_current_bank st c \<and> row (dram_addr q) = my_current_row st c"

definition my_set_current :: "int \<Rightarrow> request_t \<Rightarrow> my_state \<Rightarrow> my_state" where
  "my_set_current c q st = st\<lparr>
     my_current_rank := (my_current_rank st)(c := rank (dram_addr q)),
     my_current_bank := (my_current_bank st)(c := bank (dram_addr q)),
     my_current_row := (my_current_row st)(c := row (dram_addr q))\<rparr>"

definition count_aggr :: "'a close_state_scheme \<Rightarrow> 'a close_state_scheme" where
  "count_aggr st = st\<lparr>num_aggr_precharge := num_aggr_precharge st + 1\<rparr>"

text \<open>Write drain: row hits first.\<close>

definition my_write_hits :: "params \<Rightarrow> int \<Rightarrow> my_state \<Rightarrow> mc \<Rightarrow> my_state attempt" where
  "my_write_hits P c st s =
     (case find_first (row_hit True) (write_queue s c) of
        None \<Rightarrow> Inr ((st, None), s)
      | Some i \<Rightarrow> issue_at P (WrPtr c i) (mark_unless_wanted c (WrPtr c i) (write_queue s c ! i) st) s)"

text \<open>Then the first issuable write that may go ahead.\<close>

fun my_scan_writes :: "int \<Rightarrow> mc \<Rightarrow> nat \<Rightarrow> request_t list \<Rightarrow> my_state \<Rightarrow> my_state \<times> nat option" where
  "my_scan_writes c s i [] st = (st, None)"
| "my_scan_writes c s i (q # qs) st =
     (if \<not> command_issuable q then my_scan_writes c s (Suc i) qs st
      else if next_command q = PRE_CMD then
        (if skip_pre (bank_hit COL_WRITE_CMD (write_queue s c)) c s q
         then my_scan_writes c s (Suc i) qs (mark c q False st)
         else (count_aggr (mark c q False st), Some i))
      else (if next_command q = ACT_CMD then mark c q False st else st, Some i))"

definition my_other_writes :: "params \<Rightarrow> int \<Rightarrow> my_state \<Rightarrow> mc \<Rightarrow> my_state attempt" where
  "my_other_writes P c st s =
     (case my_scan_writes c s 0 (write_queue s c) st of
        (st, None) \<Rightarrow> Inr ((st, None), s)
      | (st, Some i) \<Rightarrow> issue_at P (WrPtr c i) (\<lambda>_. st) s)"

text \<open>Then a read of the current row, or any row hit, which becomes the current row.\<close>

definition my_hit_read :: "int \<Rightarrow> my_state \<Rightarrow> request_t \<Rightarrow> bool" where
  "my_hit_read c st q \<longleftrightarrow> command_issuable q \<and> (my_match c st q \<or> next_command q = COL_READ_CMD)"

definition my_drain_reads :: "params \<Rightarrow> int \<Rightarrow> my_state \<Rightarrow> mc \<Rightarrow> my_state attempt" where
  "my_drain_reads P c st s =
     (case find_first (my_hit_read c st) (read_queue s c) of
        None \<Rightarrow> Inr ((st, None), s)
      | Some i \<Rightarrow>
          let q = read_queue s c ! i
          in issue_at P (RdPtr c i) (\<lambda>_. if my_match c st q then st else my_set_current c q st) s)"

text \<open>Reads: the current row or a row hit.\<close>

definition my_read_hits :: "params \<Rightarrow> int \<Rightarrow> my_state \<Rightarrow> mc \<Rightarrow> my_state attempt" where
  "my_read_hits P c st s =
     (case find_first (my_hit_read c st) (read_queue s c) of
        None \<Rightarrow> Inr ((st, None), s)
      | Some i \<Rightarrow>
          let q = read_queue s c ! i
          in issue_at P (RdPtr c i)
               (\<lambda>s. if my_match c st q then st else mark_unless_wanted c (RdPtr c i) q st s) s)"

text \<open>Then the first issuable read that may go ahead; an activate is given to a reorder-buffer head.\<close>

fun my_scan_reads ::
  "params \<Rightarrow> int \<Rightarrow> mc \<Rightarrow> nat \<Rightarrow> request_t list \<Rightarrow> my_state \<Rightarrow> my_state \<times> nat option" where
  "my_scan_reads P c s i [] st = (st, None)"
| "my_scan_reads P c s i (q # qs) st =
     (if \<not> command_issuable q then my_scan_reads P c s (Suc i) qs st
      else if next_command q = ACT_CMD then
        (let (st, found) = get_read_head P c (mark c q False st) s
         in (st, Some (case found of None \<Rightarrow> i | Some j \<Rightarrow> j)))
      else if next_command q = PRE_CMD then
        (if skip_pre (bank_hit COL_READ_CMD (read_queue s c)) c s q
         then my_scan_reads P c s (Suc i) qs (mark c q False st)
         else (count_aggr (mark c q False st), Some i))
      else (st, Some i))"

definition my_other_reads :: "params \<Rightarrow> int \<Rightarrow> my_state \<Rightarrow> mc \<Rightarrow> my_state attempt" where
  "my_other_reads P c st s =
     (case my_scan_reads P c s 0 (read_queue s c) st of
        (st, None) \<Rightarrow> Inr ((st, None), s)
      | (st, Some i) \<Rightarrow> issue_at P (RdPtr c i) (\<lambda>_. my_set_current c (read_queue s c ! i) st) s)"

text \<open>Then a row hit of the write queue.\<close>

definition my_late_writes :: "params \<Rightarrow> int \<Rightarrow> my_state \<Rightarrow> mc \<Rightarrow> my_state attempt" where
  "my_late_writes P c st s =
     (case find_first (row_hit True) (write_queue s c) of
        None \<Rightarrow> Inr ((st, None), s)
      | Some i \<Rightarrow> issue_at P (WrPtr c i) (\<lambda>_. st) s)"

text \<open>The auto-precharge after a column access; the result says whether \<open>schedule\<close> returns.\<close>

definition my_autoprecharge :: "params \<Rightarrow> int \<Rightarrow> request_t \<Rightarrow> my_state \<Rightarrow> mc \<Rightarrow> bool \<times> my_state \<times> mc" where
  "my_autoprecharge P c q st s =
     (let r = rank (dram_addr q); b = bank (dram_addr q)
      in if cas_issued_current_cycle s c r b = 0 then (False, st, s)
         else if wanted q (write_queue s c) \<or> wanted q (read_queue s c) then (True, st, s)
         else
           (let (s, ok) = issue_autoprecharge P c r b s
            in (False, if ok then st\<lparr>num_auto_precharge := num_auto_precharge st + 1\<rparr> else st, s)))"

definition my_finish :: "params \<Rightarrow> int \<Rightarrow> my_state \<times> req_ptr option \<Rightarrow> mc \<Rightarrow> (my_state \<times> mc) res" where
  "my_finish P c x s =
     (case x of
        (st, None) \<Rightarrow> Inr (st, s)
      | (st, Some p) \<Rightarrow>
          (case get_req s p of
             None \<Rightarrow> Inl Invalid_pointer
           | Some q \<Rightarrow>
               let (returned, st, s) = my_autoprecharge P c q st s
               in Inr (if returned then (st, s) else close_banks P c st s)))"

definition my_writes :: "params \<Rightarrow> int \<Rightarrow> my_state \<Rightarrow> mc \<Rightarrow> my_state attempt" where
  "my_writes P c st s =
     or_else (or_else (my_write_hits P c st s) (my_other_writes P c)) (my_drain_reads P c)"

definition my_reads :: "params \<Rightarrow> int \<Rightarrow> my_state \<Rightarrow> mc \<Rightarrow> my_state attempt" where
  "my_reads P c st s =
     or_else (or_else (my_read_hits P c st s) (my_other_reads P c)) (my_late_writes P c)"

definition schedule_mypolicy :: "params \<Rightarrow> int \<Rightarrow> my_state \<Rightarrow> mc \<Rightarrow> (my_state \<times> mc) res" where
  "schedule_mypolicy P c st s =
     (let st = st\<lparr>drain_writes := (drain_writes st)(c := next_drain 60 50 c s (drain_writes st c))\<rparr>
      in bindE (if drain_writes st c then my_writes P c st s else my_reads P c st s)
           (\<lambda>(x, s). my_finish P c x s))"

section \<open>The contract\<close>

text \<open>Issuing keeps the queues in place: only flags of the served request change.\<close>

lemma issue_request_places:
  assumes "issue_request_command P p s = Inr (s', ok)"
  shows "map dram_addr (read_queue s' c) = map dram_addr (read_queue s c)"
    "map dram_addr (write_queue s' c) = map dram_addr (write_queue s c)"
proof -
  have place: "map dram_addr (qs[i := serve t n (qs ! i)]) = map dram_addr qs" for qs i t n
    by (cases "i < length qs") (simp_all add: map_update serve_def list_update_same_conv list_update_beyond)
  show "map dram_addr (read_queue s' c) = map dram_addr (read_queue s c)"
    "map dram_addr (write_queue s' c) = map dram_addr (write_queue s c)"
    using assms
    by (cases p; auto simp: issue_request_command_def issue_ACT_def issue_COL_READ_def issue_COL_WRITE_def
        issue_PRE_def issue_PWR_UP_def issued_def record_activate_def Let_def place
        split: option.splits if_splits command_t.splits)+
qed

lemma issue_request_get:
  assumes "issue_request_command P p s = Inr (s', ok)" and "get_req s p = Some q"
  shows "\<exists>q'. get_req s' p = Some q' \<and> dram_addr q' = dram_addr q"
proof (cases p)
  case (RdPtr c i)
  note m = issue_request_places(1) [OF assms(1), of c]
  have "i < length (read_queue s c)" and q: "q = read_queue s c ! i" using assms(2) RdPtr by (auto split: if_splits)
  then have "i < length (read_queue s' c)" using map_eq_imp_length_eq [OF m] by simp
  then show ?thesis using arg_cong [OF m, of "\<lambda>xs. xs ! i"] q RdPtr map_eq_imp_length_eq [OF m] by simp
next
  case (WrPtr c i)
  note m = issue_request_places(2) [OF assms(1), of c]
  have "i < length (write_queue s c)" and q: "q = write_queue s c ! i" using assms(2) WrPtr by (auto split: if_splits)
  then have "i < length (write_queue s' c)" using map_eq_imp_length_eq [OF m] by simp
  then show ?thesis using arg_cong [OF m, of "\<lambda>xs. xs ! i"] q WrPtr map_eq_imp_length_eq [OF m] by simp
qed

text \<open>
  What every attempt does: nothing to the controller, or the command of one queued request, after
  which the channel is busy.
\<close>

definition issued_by :: "params \<Rightarrow> int \<Rightarrow> mc \<Rightarrow> req_ptr \<Rightarrow> mc \<Rightarrow> bool" where
  "issued_by P c s p s' \<longleftrightarrow> ptr_channel p = c \<and>
     (\<exists>q ok. get_req s p = Some q \<and> command_issuable q \<and> issue_request_command P p s = Inr (s', ok)) \<and>
     command_issued_current_cycle s' c"

definition attempted :: "params \<Rightarrow> int \<Rightarrow> mc \<Rightarrow> 'st attempt \<Rightarrow> bool" where
  "attempted P c s R \<longleftrightarrow> (\<exists>st found s'. R = Inr ((st, found), s') \<and>
     (case found of None \<Rightarrow> s' = s | Some p \<Rightarrow> issued_by P c s p s'))"

lemma attempted_None [simp]: "attempted P c s (Inr ((st, None), s))"
  by (simp add: attempted_def)

lemma attempted_issue_at:
  assumes "sched_ok P s" and "valid_channel P c" and "queue_of s c ptr qs" and "i < length qs"
    and "command_issuable (qs ! i)"
  shows "attempted P c s (issue_at P (ptr i) g s)"
proof -
  note get = queue_of_get [OF assms(3,4)]
  obtain s' ok where run: "issue_request_command P (ptr i) s = Inr (s', ok)"
    using issue_request_reaches [OF assms(1,2) get(1,2)] by blast
  have "command_issued_current_cycle s' c"
  proof (cases "command_issued_current_cycle s c")
    case True
    then show ?thesis by (rule issue_request_busy_mono [OF run])
  next
    case False
    then show ?thesis using issue_request_busy [OF assms] run by auto
  qed
  then show ?thesis using run get assms(5) by (auto simp: attempted_def issue_at_def issued_by_def)
qed

lemma attempted_or_else:
  assumes "attempted P c s R" and "\<And>st. attempted P c s (f st s)"
  shows "attempted P c s (or_else R f)"
proof -
  obtain st found s' where R: "R = Inr ((st, found), s')"
    and found: "case found of None \<Rightarrow> s' = s | Some p \<Rightarrow> issued_by P c s p s'"
    using assms(1) unfolding attempted_def by blast
  show ?thesis
  proof (cases found)
    case None
    then show ?thesis using R found assms(2) by (simp add: or_else_def)
  next
    case (Some p)
    then show ?thesis using R found by (simp add: or_else_def attempted_def)
  qed
qed

lemma attempted_find:
  assumes "sched_ok P s" and "valid_channel P c" and "queue_of s c ptr qs"
    and "\<And>q. p q \<Longrightarrow> command_issuable q"
  shows "attempted P c s (case find_first p qs of None \<Rightarrow> Inr ((st, None), s)
    | Some i \<Rightarrow> issue_at P (ptr i) (g i) s)"
proof (cases "find_first p qs")
  case (Some i)
  note i = find_first_SomeD [OF Some]
  from attempted_issue_at [OF assms(1-3) i(1) assms(4) [OF i(2)]] show ?thesis by (simp add: Some)
qed (simp del: find_first_None)

lemma attempted_scan:
  assumes "sched_ok P s" and "valid_channel P c" and "queue_of s c ptr qs"
    and "\<And>st' k. scan = (st', Some k) \<Longrightarrow> k < length qs \<and> command_issuable (qs ! k)"
  shows "attempted P c s (case scan of (st, None) \<Rightarrow> Inr ((st, None), s)
    | (st, Some i) \<Rightarrow> issue_at P (ptr i) (g i st) s)"
  using attempted_issue_at [OF assms(1-3)] assms(4) by (auto split: option.splits prod.splits)

lemma rob_head_issuable:
  "rob_head_loop P c s n t = (t', Some j) \<Longrightarrow>
     j < length (read_queue s c) \<and> command_issuable (read_queue s c ! j) \<and> next_command (read_queue s c ! j) = ACT_CMD"
  by (induction P c s n t rule: rob_head_loop.induct)
    (auto split: option.splits if_splits dest: find_first_SomeD(1) simp del: find_first_None)

lemma my_scan_writes_issuable:
  "my_scan_writes c s i qs st = (st', Some k) \<Longrightarrow>
     \<exists>j<length qs. k = i + j \<and> command_issuable (qs ! j)"
proof (induction c s i qs st rule: my_scan_writes.induct)
  case (2 c s i q qs st)
  then show ?case by (cases "k = i") (fastforce split: if_splits)+
qed simp

lemma my_scan_reads_issuable:
  "my_scan_reads P c s i qs st = (st', Some k) \<Longrightarrow> qs = drop i (read_queue s c) \<Longrightarrow>
     k < length (read_queue s c) \<and> command_issuable (read_queue s c ! k)"
proof (induction P c s i qs st rule: my_scan_reads.induct)
  case (2 P c s i q qs st)
  have "i < length (read_queue s c)" using 2(4) by (metis drop_all list.distinct(1) not_le)
  moreover have "qs = drop (Suc i) (read_queue s c)" using 2(4) by (metis drop_Suc list.sel(3) tl_drop)
  moreover have "q = read_queue s c ! i" using 2(4) calculation(1) by (metis hd_drop_conv_nth list.sel(1))
  ultimately show ?case using 2(1-3) rob_head_issuable
    by (auto simp: get_read_head_def split: if_splits prod.splits option.splits)
qed simp

lemma my_attempts:
  assumes "sched_ok P s" and "valid_channel P c"
  shows "attempted P c s (my_writes P c st s)" "attempted P c s (my_reads P c st s)"
proof -
  note wr = queue_of_queues(2) [of s c] and rd = queue_of_queues(1) [of s c]
  have hit: "attempted P c s (case find_first (row_hit True) (write_queue s c) of None \<Rightarrow> Inr ((st, None), s)
      | Some i \<Rightarrow> issue_at P (WrPtr c i) (g i) s)" for st :: my_state and g
    by (rule attempted_find [OF assms wr]) (simp add: row_hit_def)
  have rhit: "attempted P c s (case find_first (my_hit_read c st) (read_queue s c) of None \<Rightarrow> Inr ((st, None), s)
      | Some i \<Rightarrow> issue_at P (RdPtr c i) (g i) s)" for st and g
    by (rule attempted_find [OF assms rd]) (simp add: my_hit_read_def)
  have other: "attempted P c s (my_other_writes P c st s)" for st
    unfolding my_other_writes_def
    by (rule attempted_scan [OF assms wr]) (auto dest: my_scan_writes_issuable)
  have rother: "attempted P c s (my_other_reads P c st s)" for st
    unfolding my_other_reads_def
    by (rule attempted_scan [OF assms rd, where g = "\<lambda>i st _. my_set_current c (read_queue s c ! i) st"])
      (use my_scan_reads_issuable in fastforce)
  show "attempted P c s (my_writes P c st s)" "attempted P c s (my_reads P c st s)"
    unfolding my_writes_def my_reads_def
    by (intro attempted_or_else other rother hit rhit | simp only: my_write_hits_def my_drain_reads_def
      my_read_hits_def my_late_writes_def Let_def hit rhit)+
qed

text \<open>
  The end of the call. The loops over the banks, meant for a cycle in which nothing else happens,
  come after a request has been issued and so find the channel busy.
\<close>

lemma close_banks_busy: "command_issued_current_cycle s c \<Longrightarrow> close_banks P c st s = (st, s)"
  by (simp add: close_banks_def)

lemma issue_autoprecharge_frame:
  assumes "issue_autoprecharge P c r b s = (s', ok)"
  shows "command_issued_current_cycle s' = command_issued_current_cycle s"
    "read_queue s' = read_queue s" "write_queue s' = write_queue s"
  using assms by (auto simp: issue_autoprecharge_def Let_def split: if_splits)

lemma my_finish_busy:
  assumes "issued_by P c s p s1"
  shows "\<exists>q. get_req s1 p = Some q \<and>
    my_finish P c (st, Some p) s1 = Inr (snd (my_autoprecharge P c q st s1))"
proof -
  obtain q where q: "get_req s1 p = Some q"
    using assms issue_request_get unfolding issued_by_def by blast
  have busy: "command_issued_current_cycle s1 c" using assms by (simp add: issued_by_def)
  obtain x st' s' where auto: "my_autoprecharge P c q st s1 = (x, st', s')" by (metis surj_pair)
  then have "command_issued_current_cycle s' c"
    using busy issue_autoprecharge_frame(1)
    by (fastforce simp: my_autoprecharge_def Let_def split: if_splits prod.splits)
  then show ?thesis using q auto by (simp add: my_finish_def close_banks_busy)
qed

text \<open>The whole call, as one request command and possibly an auto-precharge of its bank.\<close>

lemma my_step:
  assumes "sched_ok P s" and "valid_channel P c"
  obtains (idle) st' where "schedule_mypolicy P c st s = Inr (st', s)"
  | (issue) p s1 st1 q where "issued_by P c s p s1" and "reaches P c s s1" and "get_req s1 p = Some q"
      and "schedule_mypolicy P c st s = Inr (snd (my_autoprecharge P c q st1 s1))"
proof -
  let ?st = "st\<lparr>drain_writes := (drain_writes st)(c := next_drain 60 50 c s (drain_writes st c))\<rparr>"
  let ?R = "if drain_writes ?st c then my_writes P c ?st s else my_reads P c ?st s"
  have "attempted P c s ?R" using my_attempts [OF assms] by simp
  then obtain st1 found s1 where R: "?R = Inr ((st1, found), s1)"
    and found: "case found of None \<Rightarrow> s1 = s | Some p \<Rightarrow> issued_by P c s p s1"
    unfolding attempted_def by blast
  have run: "schedule_mypolicy P c st s = my_finish P c (st1, found) s1"
    using R by (simp add: schedule_mypolicy_def Let_def)
  show thesis
  proof (cases found)
    case None
    then show thesis using idle run found by (simp add: my_finish_def)
  next
    case (Some p)
    then have by_p: "issued_by P c s p s1" using found by simp
    then have "reaches P c s s1"
      using issue_request_reaches [OF assms] unfolding issued_by_def by fastforce
    then show thesis using issue [OF by_p] my_finish_busy [OF by_p] run Some by metis
  qed
qed

lemma get_req_requests: "get_req s p = Some q \<Longrightarrow> ptr_channel p = c \<Longrightarrow> q \<in> requests s c"
  by (cases p) (auto simp: requests_def split: if_splits)

lemma my_autoprecharge_reaches:
  assumes "valid_rank P (rank (dram_addr q))" and "valid_bank P (bank (dram_addr q))"
  shows "reaches P c s (snd (snd (my_autoprecharge P c q st s)))"
  using issue_autoprecharge_reaches [OF assms, of c s]
  by (auto simp: my_autoprecharge_def Let_def split: prod.splits)

interpretation mypolicy: plain_scheduler schedule_mypolicy init_my
proof unfold_locales
  fix P s c st
  assume ok: "sched_ok P s" and c: "valid_channel P c"
  show "fine P c s (schedule_mypolicy P c st s)"
  proof (rule my_step [OF ok c, of st])
    fix p s1 st1 q
    assume p: "issued_by P c s p s1" and r: "reaches P c s s1" and q: "get_req s1 p = Some q"
      and run: "schedule_mypolicy P c st s = Inr (snd (my_autoprecharge P c q st1 s1))"
    have "q \<in> requests s1 c" using get_req_requests [OF q] p by (simp add: issued_by_def)
    note v = sched_ok_request(2,3) [OF reaches_ok [OF r ok c] c this]
    obtain st' s' where "snd (my_autoprecharge P c q st1 s1) = (st', s')" by (metis surj_pair)
    then show ?thesis
      using run reaches_trans [OF r my_autoprecharge_reaches [OF v, of c s1 st1]] by simp
  qed simp
qed

section \<open>Properties\<close>

lemma my_autoprecharge_cases:
  assumes "snd (my_autoprecharge P c q st s) = (st', s')"
  shows "s' = s \<or> \<not> wanted q (read_queue s c) \<and> \<not> wanted q (write_queue s c) \<and>
    s' = fst (issue_autoprecharge P c (rank (dram_addr q)) (bank (dram_addr q)) s)"
  using assms by (auto simp: my_autoprecharge_def Let_def split: if_splits prod.splits)

text \<open>All that a call of the linked policy does to the controller: nothing, or the command of
  one issuable queued request followed at most by an auto-precharge of the bank of that request,
  and the auto-precharge only when no unserved request of either queue is for the row. In
  particular the loops that close candidate banks in an idle cycle never issue anything.\<close>

theorem mypolicy_one_request:
  assumes "sched_ok P s" and "valid_channel P c" and "schedule_mypolicy P c st s = Inr (st', s')"
  shows "s' = s \<or>
    (\<exists>p q s1 ok. ptr_channel p = c \<and> get_req s p = Some q \<and> command_issuable q \<and>
       issue_request_command P p s = Inr (s1, ok) \<and> command_issued_current_cycle s1 c \<and>
       (s' = s1 \<or> \<not> wanted q (read_queue s1 c) \<and> \<not> wanted q (write_queue s1 c) \<and>
          s' = fst (issue_autoprecharge P c (rank (dram_addr q)) (bank (dram_addr q)) s1)))"
proof (rule my_step [OF assms(1,2), of st])
  fix p s1 st1 q1
  assume p: "issued_by P c s p s1" and q1: "get_req s1 p = Some q1"
    and run: "schedule_mypolicy P c st s = Inr (snd (my_autoprecharge P c q1 st1 s1))"
  obtain q ok where q: "get_req s p = Some q" "command_issuable q" and issue: "issue_request_command P p s = Inr (s1, ok)"
    using p by (auto simp: issued_by_def)
  have addr: "dram_addr q1 = dram_addr q" using issue_request_get [OF issue q(1)] q1 by simp
  have "snd (my_autoprecharge P c q1 st1 s1) = (st', s')" using run assms(3) by simp
  from my_autoprecharge_cases [OF this]
  have "s' = s1 \<or> \<not> wanted q (read_queue s1 c) \<and> \<not> wanted q (write_queue s1 c) \<and>
      s' = fst (issue_autoprecharge P c (rank (dram_addr q)) (bank (dram_addr q)) s1)"
    by (simp add: addr wanted_def same_row_def)
  then show ?thesis using p q issue unfolding issued_by_def by blast
qed (use assms(3) in simp)

definition demo_my :: my_state where
  "demo_my = \<lparr>drain_writes = (\<lambda>_. False), recent_colacc = (\<lambda>_ _ _. False), num_aggr_precharge = 0,
     my_current_row = (\<lambda>_. 7), my_current_bank = (\<lambda>_. 0), my_current_rank = (\<lambda>_. 0), my_thread_id = 0,
     num_auto_precharge = 0\<rparr>"

theorem mypolicy_one_request_witness:
  "\<exists>st' s'. schedule_mypolicy ddr3_params 0 demo_my demo_sched = Inr (st', s') \<and>
     (s' = demo_sched \<or> (\<exists>s1 ok. issue_request_command ddr3_params (RdPtr 0 0) demo_sched = Inr (s1, ok)))"
proof -
  obtain st' s' where run: "schedule_mypolicy ddr3_params 0 demo_my demo_sched = Inr (st', s')"
    using mypolicy.schedule_fine [OF demo_sched(2) demo_valid(1), of demo_my] by (auto simp: fine_def)
  have "p = RdPtr 0 0" if "ptr_channel p = 0" and "get_req demo_sched p = Some q" for p q
    using that by (cases p) (auto simp: demo_sched_fields split: if_splits)
  then show ?thesis
    using run mypolicy_one_request [OF demo_sched(2) demo_valid(1) run] by blast
qed

text \<open>Row hits first: in a write drain on a free channel with an issuable column write, the
  linked policy issues the oldest such write, ahead of older writes that need another command.\<close>

theorem mypolicy_write_hit_first:
  assumes "schedule_mypolicy P c st s = Inr (st', s')" and "next_drain 60 50 c s (drain_writes st c)"
    and "\<not> command_issued_current_cycle s c" and "\<forall>k\<in>set (write_queue s c). channel (dram_addr k) = c"
    and "q \<in> set (write_queue s c)" and "row_hit True q"
  shows "\<exists>i s1. find_first (row_hit True) (write_queue s c) = Some i \<and>
    issue_request_command P (WrPtr c i) s = Inr (s1, True) \<and>
    (s' = s1 \<or> s' = fst (issue_autoprecharge P c (rank (dram_addr (write_queue s c ! i)))
       (bank (dram_addr (write_queue s c ! i))) s1))"
proof -
  let ?st = "st\<lparr>drain_writes := (drain_writes st)(c := True)\<rparr>" and ?qs = "write_queue s c"
  have "find_first (row_hit True) ?qs \<noteq> None" using assms(5,6) by auto
  then obtain i where i: "find_first (row_hit True) ?qs = Some i" by blast
  note hit = find_first_SomeD [OF i]
  have col: "command_issuable (?qs ! i)" "next_command (?qs ! i) = COL_WRITE_CMD"
    and chan: "channel (dram_addr (?qs ! i)) = c"
    using hit assms(4) by (auto simp: row_hit_def)
  have run: "bindE (or_else (or_else (issue_at P (WrPtr c i) (mark_unless_wanted c (WrPtr c i) (?qs ! i) ?st) s)
      (my_other_writes P c)) (my_drain_reads P c)) (\<lambda>(x, s). my_finish P c x s) = Inr (st', s')"
    using assms(1,2) i by (simp add: schedule_mypolicy_def my_writes_def my_write_hits_def)
  then obtain s1 ok where issue: "issue_request_command P (WrPtr c i) s = Inr (s1, ok)"
    by (cases "issue_request_command P (WrPtr c i) s") (auto simp: issue_at_def or_else_def)
  then have ok: "ok" and busy: "command_issued_current_cycle s1 c"
    using hit(1) col chan assms(3)
    by (auto simp: issue_request_command_def issue_COL_WRITE_def issued_def Let_def split: if_splits)
  have by_i: "issued_by P c s (WrPtr c i) s1" using issue busy hit(1) col by (simp add: issued_by_def)
  obtain q1 where q1: "get_req s1 (WrPtr c i) = Some q1"
    and fin: "my_finish P c (st1, Some (WrPtr c i)) s1 = Inr (snd (my_autoprecharge P c q1 st1 s1))" for st1
    using my_finish_busy [OF by_i] by (metis option.inject)
  have "dram_addr q1 = dram_addr (?qs ! i)"
    using issue_request_get [OF issue, of "?qs ! i"] hit(1) q1 by simp
  moreover have "\<exists>st1. snd (my_autoprecharge P c q1 st1 s1) = (st', s')"
    using run issue fin by (auto simp: issue_at_def or_else_def)
  ultimately have "s' = s1 \<or> s' = fst (issue_autoprecharge P c (rank (dram_addr (?qs ! i)))
       (bank (dram_addr (?qs ! i))) s1)"
    using my_autoprecharge_cases [of P c q1 _ s1 st' s'] by auto
  then show ?thesis using i issue ok by auto
qed

definition demo_hit_write :: request_t where
  "demo_hit_write = demo_read\<lparr>next_command := COL_WRITE_CMD\<rparr>"

definition demo_wr :: mc where
  "demo_wr = upd_bank 0 (rank (dram_addr demo_read)) (bank (dram_addr demo_read)) (\<lambda>b. b\<lparr>state := ROW_ACTIVE\<rparr>)
     (demo_sched\<lparr>read_queue := (read_queue demo_sched)(0 := []), read_queue_length := (\<lambda>_. 0),
        write_queue := (write_queue demo_sched)(0 := [demo_hit_write]), write_queue_length := (\<lambda>_. 1)\<rparr>)"

lemma demo_wr_fields: "write_queue demo_wr 0 = [demo_hit_write]" "next_drain 60 50 0 demo_wr d"
  "row_hit True demo_hit_write" "\<not> command_issued_current_cycle demo_wr 0"
  "channel (dram_addr demo_hit_write) = 0"
  by (simp_all add: demo_wr_def demo_hit_write_def demo_sched_fields demo_read_channel next_drain_def row_hit_def)

lemma demo_wr_issue: "\<exists>s'. issue_request_command ddr3_params (WrPtr 0 0) demo_wr = Inr (s', True) \<and>
    command_issued_current_cycle s' 0"
proof -
  have "\<exists>s'. issue_COL_WRITE ddr3_params (WrPtr 0 0) demo_hit_write demo_wr = Inr s' \<and> command_issued_current_cycle s' 0"
    by (simp add: issue_COL_WRITE_def Let_def)
      (simp add: demo_wr_def demo_hit_write_def demo_read_channel issued_def)
  then show ?thesis
    using demo_wr_fields by (auto simp: issue_request_command_def row_hit_def)
qed

theorem mypolicy_write_hit_first_witness:
  "\<exists>st' s' s1. schedule_mypolicy ddr3_params 0 demo_my demo_wr = Inr (st', s') \<and>
     issue_request_command ddr3_params (WrPtr 0 0) demo_wr = Inr (s1, True)"
proof -
  obtain s1 where issue: "issue_request_command ddr3_params (WrPtr 0 0) demo_wr = Inr (s1, True)"
    and busy: "command_issued_current_cycle s1 0" using demo_wr_issue by blast
  have i: "find_first (row_hit True) (write_queue demo_wr 0) = Some 0" using demo_wr_fields by simp
  have "issued_by ddr3_params 0 demo_wr (WrPtr 0 0) s1"
    using issue busy demo_wr_fields by (auto simp: issued_by_def row_hit_def)
  from my_finish_busy [OF this] issue i obtain st' s' where
    run: "schedule_mypolicy ddr3_params 0 demo_my demo_wr = Inr (st', s')"
    by (auto simp: schedule_mypolicy_def my_writes_def my_write_hits_def issue_at_def or_else_def demo_wr_fields(2))
      (metis surj_pair)
  then show ?thesis
    using mypolicy_write_hit_first [OF run demo_wr_fields(2,4), of demo_hit_write] demo_wr_fields i by auto
qed

lemma rob_head_serves:
  assumes "rob_head_loop P c s n t = (t', Some i)" and "0 \<le> t" and "t < NUMCORES P"
  shows "\<exists>k. 0 \<le> k \<and> k < NUMCORES P \<and> t' = (k + 1) mod NUMCORES P \<and>
    physical_address (read_queue s c ! i) = take_bit 64 (mem_address (ROB s k) (head (ROB s k)))"
  using assms
proof (induction P c s n t rule: rob_head_loop.induct)
  case (2 P c s n t)
  have turn: "(t + 1) smod NUMCORES P = (t + 1) mod NUMCORES P"
    "0 \<le> (t + 1) mod NUMCORES P" "(t + 1) mod NUMCORES P < NUMCORES P"
    using 2(4,5) by (simp_all add: smod_int_alt_def)
  show ?case
  proof (cases "find_first (\<lambda>q. physical_address q = take_bit 64 (mem_address (ROB s t) (head (ROB s t)))) (read_queue s c)")
    case None
    then show ?thesis using 2(1,3-5) by (simp del: find_first_None)
  next
    case (Some j)
    note j = find_first_SomeD(2) [OF Some]
    show ?thesis
    proof (cases "command_issuable (read_queue s c ! j) \<and> next_command (read_queue s c ! j) = ACT_CMD")
      case True
      then show ?thesis using Some 2(3-5) j turn(1) by auto
    next
      case False
      then show ?thesis using 2(2) [OF Some] 2(3) Some turn by auto
    qed
  qed
qed simp

text \<open>\<open>get_read_head\<close> returns the right request: a queued read that is ready to be activated and
  whose address is that of the instruction at the head of the reorder buffer of some core; the
  round-robin index moves on to the core after that one.\<close>

theorem get_read_head_correct:
  assumes "get_read_head P c st s = (st', Some i)" and "0 \<le> my_thread_id st" and "my_thread_id st < NUMCORES P"
  shows "i < length (read_queue s c) \<and> command_issuable (read_queue s c ! i) \<and>
    next_command (read_queue s c ! i) = ACT_CMD \<and>
    (\<exists>k. 0 \<le> k \<and> k < NUMCORES P \<and> my_thread_id st' = (k + 1) mod NUMCORES P \<and>
       physical_address (read_queue s c ! i) = take_bit 64 (mem_address (ROB s k) (head (ROB s k))))"
proof -
  have run: "rob_head_loop P c s (nat (NUMCORES P)) (my_thread_id st) = (my_thread_id st', Some i)"
    using assms(1) by (auto simp: get_read_head_def split: prod.splits)
  show ?thesis using rob_head_issuable [OF run] rob_head_serves [OF run assms(2,3)] by blast
qed

definition demo_head :: mc where
  "demo_head = demo_sched\<lparr>ROB := (ROB demo_sched)(0 := (ROB demo_sched 0)\<lparr>head := 0,
     mem_address := (\<lambda>_. physical_address demo_read)\<rparr>)\<rparr>"

theorem get_read_head_correct_witness:
  "\<exists>st'. get_read_head ddr3_params 0 demo_my demo_head = (st', Some 0) \<and> command_issuable (read_queue demo_head 0 ! 0)"
proof -
  have "nat (NUMCORES ddr3_params) = Suc 0" by (simp add: ddr3_params_def)
  then have run: "get_read_head ddr3_params 0 demo_my demo_head = (demo_my\<lparr>my_thread_id := 1 smod NUMCORES ddr3_params\<rparr>, Some 0)"
    by (simp add: get_read_head_def demo_head_def demo_my_def demo_sched_fields)
  from get_read_head_correct [OF this] run show ?thesis by (simp add: demo_my_def ddr3_params_def)
qed

text \<open>The search gets stuck on one core: when the reorder-buffer head of the core whose turn it is
  has no read in the queue of the channel (it is a computation, a write, or a read of another
  channel), all iterations look at that same core. \<open>get_read_head\<close> then finds nothing and does not
  pass the turn on, whatever the heads of the other cores are waiting for.\<close>

theorem get_read_head_stuck:
  assumes "\<forall>q\<in>set (read_queue s c).
    physical_address q \<noteq> take_bit 64 (mem_address (ROB s (my_thread_id st)) (head (ROB s (my_thread_id st))))"
  shows "get_read_head P c st s = (st, None)"
proof -
  have "find_first (\<lambda>q. physical_address q = take_bit 64 (mem_address (ROB s (my_thread_id st)) (head (ROB s (my_thread_id st)))))
      (read_queue s c) = None" using assms by simp
  then have "rob_head_loop P c s n (my_thread_id st) = (my_thread_id st, None)" for n
    by (induction n) (simp_all del: find_first_None)
  then show ?thesis by (simp add: get_read_head_def)
qed

text \<open>Two cores: the head of core 1 is the queued read, ready to be activated, but it is core 0's turn.\<close>

definition demo_stuck :: mc where
  "demo_stuck = demo_sched\<lparr>ROB := (\<lambda>t. (ROB demo_sched 0)\<lparr>head := 0,
     mem_address := (\<lambda>_. physical_address demo_read + (if t = 1 then 0 else 64))\<rparr>)\<rparr>"

theorem get_read_head_stuck_witness:
  "get_read_head (ddr3_params\<lparr>NUMCORES := 2\<rparr>) 0 demo_my demo_stuck = (demo_my, None) \<and>
   command_issuable (read_queue demo_stuck 0 ! 0) \<and> next_command (read_queue demo_stuck 0 ! 0) = ACT_CMD \<and>
   physical_address (read_queue demo_stuck 0 ! 0) = mem_address (ROB demo_stuck 1) (head (ROB demo_stuck 1))"
proof -
  have "get_read_head (ddr3_params\<lparr>NUMCORES := 2\<rparr>) 0 demo_my demo_stuck = (demo_my, None)"
    by (rule get_read_head_stuck) (simp add: demo_stuck_def demo_my_def demo_sched_fields)
  then show ?thesis by (simp add: demo_stuck_def demo_sched_fields)
qed

end
