(* ===== verification/Fullmod.thy ===== *)
theory Fullmod
  imports Mypolicy
begin

text \<open>
  \<open>usimm-v1.3/src/partA/scheduler-fullmod.c\<close>. Its write drain and its read mode scan the queue once,
  marking candidates for closing as they go; the auto-precharge and the loops that close candidate
  banks come after a column access.
\<close>

record fullmod_state = close_state +
  curr_thread :: int

definition init_fullmod :: "params \<Rightarrow> fullmod_state \<Rightarrow> bool" where
  "init_fullmod P st \<longleftrightarrow> drain_writes st = (\<lambda>_. False) \<and> recent_colacc st = (\<lambda>_ _ _. False) \<and>
     num_aggr_precharge st = 0 \<and> curr_thread st = 0"

text \<open>\<open>get_rob_top\<close>, with \<open>inc_curr_thread\<close> inlined in the loop it shares with the linked policy.\<close>

definition get_rob_top :: "params \<Rightarrow> int \<Rightarrow> fullmod_state \<Rightarrow> mc \<Rightarrow> fullmod_state \<times> nat option" where
  "get_rob_top P c st s =
     (let (t, found) = rob_head_loop P c s (nat (NUMCORES P)) (curr_thread st)
      in (st\<lparr>curr_thread := t\<rparr>, found))"

section \<open>The write drain\<close>

fun full_scan_writes ::
  "int \<Rightarrow> mc \<Rightarrow> nat \<Rightarrow> request_t list \<Rightarrow> fullmod_state \<Rightarrow> fullmod_state \<times> nat option" where
  "full_scan_writes c s i [] st = (st, None)"
| "full_scan_writes c s i (q # qs) st =
     (if \<not> command_issuable q then full_scan_writes c s (Suc i) qs st
      else if next_command q = COL_WRITE_CMD then (mark_unless_wanted c (WrPtr c i) q st s, Some i)
      else if next_command q = ACT_CMD then (mark c q False st, Some i)
      else if next_command q = PRE_CMD then
        (if skip_pre (bank_hit COL_WRITE_CMD (write_queue s c)) c s q
         then full_scan_writes c s (Suc i) qs (mark c q False st)
         else (mark c q False st, Some i))
      else (st, Some i))"

definition full_write_scan :: "params \<Rightarrow> int \<Rightarrow> fullmod_state \<Rightarrow> mc \<Rightarrow> fullmod_state attempt" where
  "full_write_scan P c st s =
     (case full_scan_writes c s 0 (write_queue s c) st of
        (st, None) \<Rightarrow> Inr ((st, None), s)
      | (st, Some i) \<Rightarrow> issue_at P (WrPtr c i) (\<lambda>_. st) s)"

text \<open>The row hits of the other queue: marked, then issued.\<close>

definition full_hits ::
  "params \<Rightarrow> bool \<Rightarrow> int \<Rightarrow> fullmod_state \<Rightarrow> mc \<Rightarrow> fullmod_state attempt" where
  "full_hits P d c st s =
     (case find_first (row_hit d) (active_queue d c s) of
        None \<Rightarrow> Inr ((st, None), s)
      | Some i \<Rightarrow> issue_at P (active_ptr d c i)
          (\<lambda>_. mark_unless_wanted c (active_ptr d c i) (active_queue d c s ! i) st s) s)"

section \<open>Reads\<close>

text \<open>
  The test for a queued column read that a precharge would disturb compares the bank of the queued
  read with itself, so it holds for a column read of any bank of the rank.
\<close>

definition rank_hit :: "request_t list \<Rightarrow> request_t \<Rightarrow> bool" where
  "rank_hit ks q =
     list_ex (\<lambda>k. rank (dram_addr k) = rank (dram_addr q) \<and> bank (dram_addr k) = bank (dram_addr k) \<and>
       next_command k = COL_READ_CMD) ks"

fun full_scan_reads ::
  "params \<Rightarrow> int \<Rightarrow> mc \<Rightarrow> nat \<Rightarrow> request_t list \<Rightarrow> fullmod_state \<Rightarrow> fullmod_state \<times> nat option" where
  "full_scan_reads P c s i [] st = (st, None)"
| "full_scan_reads P c s i (q # qs) st =
     (if \<not> command_issuable q then full_scan_reads P c s (Suc i) qs st
      else if next_command q = COL_READ_CMD then (mark_unless_wanted c (RdPtr c i) q st s, Some i)
      else if next_command q = ACT_CMD then
        (let (st, found) = get_rob_top P c st s
         in case found of None \<Rightarrow> (st, Some i) | Some j \<Rightarrow> (mark c (read_queue s c ! j) False st, Some j))
      else if next_command q = PRE_CMD then
        (if skip_pre (rank_hit (read_queue s c)) c s q
         then full_scan_reads P c s (Suc i) qs (mark c q False st)
         else (mark c q False st, Some i))
      else (st, Some i))"

definition full_read_scan :: "params \<Rightarrow> int \<Rightarrow> fullmod_state \<Rightarrow> mc \<Rightarrow> fullmod_state attempt" where
  "full_read_scan P c st s =
     (case full_scan_reads P c s 0 (read_queue s c) st of
        (st, None) \<Rightarrow> Inr ((st, None), s)
      | (st, Some i) \<Rightarrow> issue_at P (RdPtr c i) (\<lambda>_. st) s)"

section \<open>After the command\<close>

definition close_all :: "params \<Rightarrow> int \<Rightarrow> fullmod_state \<Rightarrow> mc \<Rightarrow> fullmod_state \<times> mc" where
  "close_all P c st s =
     fold (\<lambda>i x. fold (close_bank P c i) (below (NUM_BANKS P)) x) (below (NUM_RANKS P)) (st, s)"

text \<open>
  \<open>ws\<close> and \<open>rs\<close> are the requests of the two queues that keep the row open: all but the issued one
  in the write drain, all of them in read mode.
\<close>

definition full_close ::
  "params \<Rightarrow> int \<Rightarrow> request_t \<Rightarrow> request_t list \<Rightarrow> request_t list \<Rightarrow> fullmod_state \<Rightarrow> mc \<Rightarrow> fullmod_state \<times> mc" where
  "full_close P c q ws rs st s =
     (let r = rank (dram_addr q); b = bank (dram_addr q)
      in if cas_issued_current_cycle s c r b = 0 then (st, s)
         else if wanted q ws \<or> wanted q rs then (st, s)
         else if next_command q = COL_READ_CMD then (st, s)
         else
           (let (s, ok) = issue_autoprecharge P c r b s
            in close_all P c (if ok then mark c q False st else st) s))"

definition full_finish ::
  "params \<Rightarrow> bool \<Rightarrow> int \<Rightarrow> fullmod_state \<times> req_ptr option \<Rightarrow> mc \<Rightarrow> (fullmod_state \<times> mc) res" where
  "full_finish P d c x s =
     (case x of
        (st, None) \<Rightarrow> Inr (st, s)
      | (st, Some p) \<Rightarrow>
          (case get_req s p of
             None \<Rightarrow> Inl Invalid_pointer
           | Some q \<Rightarrow>
               Inr (full_close P c q
                 (if d then others (WrPtr c) p (write_queue s c) else write_queue s c)
                 (if d then others (RdPtr c) p (read_queue s c) else read_queue s c) st s)))"

definition schedule_fullmod :: "params \<Rightarrow> int \<Rightarrow> fullmod_state \<Rightarrow> mc \<Rightarrow> (fullmod_state \<times> mc) res" where
  "schedule_fullmod P c st s =
     (let d = next_drain 60 50 c s (drain_writes st c);
          st = st\<lparr>drain_writes := (drain_writes st)(c := d)\<rparr>
      in bindE (or_else (if d then full_write_scan P c st s else full_read_scan P c st s)
                  (full_hits P (\<not> d) c))
           (\<lambda>(x, s). full_finish P d c x s))"

section \<open>The contract\<close>

lemma full_scan_writes_issuable:
  "full_scan_writes c s i qs st = (st', Some k) \<Longrightarrow>
     \<exists>j<length qs. k = i + j \<and> command_issuable (qs ! j)"
proof (induction c s i qs st rule: full_scan_writes.induct)
  case (2 c s i q qs st)
  then show ?case by (cases "k = i") (fastforce split: if_splits)+
qed simp

lemma full_scan_reads_issuable:
  "full_scan_reads P c s i qs st = (st', Some k) \<Longrightarrow> qs = drop i (read_queue s c) \<Longrightarrow>
     k < length (read_queue s c) \<and> command_issuable (read_queue s c ! k)"
proof (induction P c s i qs st rule: full_scan_reads.induct)
  case (2 P c s i q qs st)
  have "i < length (read_queue s c)" using 2(4) by (metis drop_all list.distinct(1) not_le)
  moreover have "qs = drop (Suc i) (read_queue s c)" using 2(4) by (metis drop_Suc list.sel(3) tl_drop)
  moreover have "q = read_queue s c ! i" using 2(4) calculation(1) by (metis hd_drop_conv_nth list.sel(1))
  ultimately show ?case using 2(1-3) rob_head_issuable
    by (auto simp: get_rob_top_def split: if_splits prod.splits option.splits)
qed simp

lemma full_attempts:
  assumes "sched_ok P s" and "valid_channel P c"
  shows "attempted P c s (or_else (if d then full_write_scan P c st s else full_read_scan P c st s)
    (full_hits P (\<not> d) c))"
proof (intro attempted_or_else)
  have w: "attempted P c s (full_write_scan P c st s)"
    unfolding full_write_scan_def
    by (rule attempted_scan [OF assms queue_of_queues(2)]) (auto dest: full_scan_writes_issuable)
  have r: "attempted P c s (full_read_scan P c st s)"
    unfolding full_read_scan_def
    by (rule attempted_scan [OF assms queue_of_queues(1)]) (use full_scan_reads_issuable in fastforce)
  show "attempted P c s (if d then full_write_scan P c st s else full_read_scan P c st s)"
    using w r by simp
  show "attempted P c s (full_hits P (\<not> d) c st s)" for st
    unfolding full_hits_def
    by (rule attempted_find [OF assms active_queue_of]) (auto simp: row_hit_def)
qed

lemma close_all_busy:
  assumes "command_issued_current_cycle s c"
  shows "close_all P c st s = (st, s)"
proof -
  have "fold (close_bank P c i) js (st, s) = (st, s)" for i js
    by (induction js) (simp_all add: close_bank_def is_precharge_allowed_def assms)
  then have "fold (\<lambda>i x. fold (close_bank P c i) (below (NUM_BANKS P)) x) is (st, s) = (st, s)" for "is"
    by (induction "is") simp_all
  then show ?thesis by (simp add: close_all_def)
qed

lemma full_finish_reaches:
  assumes "issued_by P c s p s1" and "reaches P c s s1" and "sched_ok P s" and "valid_channel P c"
  shows "fine P c s (full_finish P d c (st, Some p) s1)"
proof -
  obtain q where q: "get_req s1 p = Some q"
    using assms(1) issue_request_get unfolding issued_by_def by blast
  have "q \<in> requests s1 c" using get_req_requests [OF q] assms(1) by (simp add: issued_by_def)
  note v = sched_ok_request(2,3) [OF reaches_ok [OF assms(2-4)] assms(4) this]
  have "reaches P c s1 (snd (full_close P c q ws rs st s1))" for ws rs
  proof -
    obtain s2 ok where auto: "issue_autoprecharge P c (rank (dram_addr q)) (bank (dram_addr q)) s1 = (s2, ok)"
      by (metis surj_pair)
    have "command_issued_current_cycle s2 c"
      using issue_autoprecharge_frame(1) [OF auto] assms(1) by (simp add: issued_by_def)
    then show ?thesis
      using issue_autoprecharge_reaches [OF v, of c s1] by (simp add: full_close_def Let_def auto close_all_busy)
  qed
  then show ?thesis
    using reaches_trans [OF assms(2)] q unfolding full_finish_def fine_def by (auto simp: prod_eq_iff)
qed

interpretation fullmod: plain_scheduler schedule_fullmod init_fullmod
proof unfold_locales
  fix P s c and st :: fullmod_state
  assume ok: "sched_ok P s" and c: "valid_channel P c"
  define d where "d = next_drain 60 50 c s (drain_writes st c)"
  let ?st = "st\<lparr>drain_writes := (drain_writes st)(c := d)\<rparr>"
  let ?R = "or_else (if d then full_write_scan P c ?st s else full_read_scan P c ?st s) (full_hits P (\<not> d) c)"
  obtain st1 found s1 where R: "?R = Inr ((st1, found), s1)"
    and found: "case found of None \<Rightarrow> s1 = s | Some p \<Rightarrow> issued_by P c s p s1"
    using full_attempts [OF ok c, of d ?st] unfolding attempted_def by blast
  have run: "schedule_fullmod P c st s = full_finish P d c (st1, found) s1"
    using R unfolding schedule_fullmod_def Let_def d_def [symmetric] by simp
  show "fine P c s (schedule_fullmod P c st s)"
  proof (cases found)
    case None
    then show ?thesis using run found by (simp add: full_finish_def)
  next
    case (Some p)
    then have p: "issued_by P c s p s1" using found by simp
    then have "reaches P c s s1"
      using issue_request_reaches [OF ok c] unfolding issued_by_def by fastforce
    then show ?thesis using full_finish_reaches [OF p _ ok c] run Some by simp
  qed
qed

section \<open>Properties\<close>

text \<open>A column read blocks its whole rank: in read mode, while a read of the queue waits for a
  column access, issuable or not, the policy passes over every read of the same rank that needs a
  precharge, also those of other banks. If these are all that is issuable and no column write is,
  the call does nothing at all.\<close>

theorem fullmod_rank_blocked:
  assumes "schedule_fullmod P c st s = Inr (st', s')" and "\<not> next_drain 60 50 c s (drain_writes st c)"
    and "k \<in> set (read_queue s c)" and "next_command k = COL_READ_CMD"
    and "\<forall>q\<in>set (read_queue s c). command_issuable q \<longrightarrow>
      next_command q = PRE_CMD \<and> rank (dram_addr q) = rank (dram_addr k)"
    and "\<forall>q\<in>set (write_queue s c). \<not> row_hit True q"
  shows "s' = s"
proof -
  have "\<exists>st1. full_scan_reads P c s i qs st = (st1, None)" if "set qs \<subseteq> set (read_queue s c)" for i qs st
    using that
  proof (induction qs arbitrary: i st)
    case (Cons q qs)
    have "rank_hit (read_queue s c) q" if "rank (dram_addr q) = rank (dram_addr k)"
      using that assms(3,4) by (auto simp: rank_hit_def list_ex_iff)
    moreover have "command_issuable q \<longrightarrow> next_command q = PRE_CMD \<and> rank (dram_addr q) = rank (dram_addr k)"
      using Cons(2) assms(5) by simp
    ultimately show ?case using Cons by (auto simp: skip_pre_def)
  qed simp
  from this [of "read_queue s c" 0 "st\<lparr>drain_writes := (drain_writes st)(c := False)\<rparr>"]
  show ?thesis using assms(1,2,6)
    by (auto simp: schedule_fullmod_def Let_def full_read_scan_def full_hits_def or_else_def full_finish_def
        active_queue_def simp flip: find_first_None)
qed

text \<open>A column read of bank 0 that has to wait, and an issuable precharge of bank 1 behind it.\<close>

definition demo_fullmod :: fullmod_state where
  "demo_fullmod = \<lparr>drain_writes = (\<lambda>_. False), recent_colacc = (\<lambda>_ _ _. False), num_aggr_precharge = 0,
     curr_thread = 0\<rparr>"

definition demo_waiting :: request_t where
  "demo_waiting = demo_read\<lparr>next_command := COL_READ_CMD, command_issuable := False\<rparr>"

definition demo_other_bank :: request_t where
  "demo_other_bank = demo_read\<lparr>next_command := PRE_CMD, dram_addr := (dram_addr demo_read)\<lparr>bank := 1\<rparr>\<rparr>"

definition demo_blocked :: mc where
  "demo_blocked = demo_sched\<lparr>read_queue := (read_queue demo_sched)(0 := [demo_waiting, demo_other_bank]),
     read_queue_length := (\<lambda>_. 2)\<rparr>"

lemma demo_blocked_fields:
  "read_queue demo_blocked 0 = [demo_waiting, demo_other_bank]" "write_queue demo_blocked 0 = []"
  "\<not> next_drain 60 50 0 demo_blocked (drain_writes demo_fullmod 0)"
  by (simp_all add: demo_blocked_def demo_fullmod_def next_drain_def demo_sched_fields)

theorem fullmod_rank_blocked_witness:
  "(\<exists>st'. schedule_fullmod ddr3_params 0 demo_fullmod demo_blocked = Inr (st', demo_blocked)) \<and>
   command_issuable demo_other_bank"
proof -
  have hit: "rank_hit [demo_waiting, demo_other_bank] demo_other_bank"
    by (simp add: rank_hit_def demo_waiting_def demo_other_bank_def)
  have "\<exists>st1. full_scan_reads ddr3_params 0 demo_blocked 0 [demo_waiting, demo_other_bank] st = (st1, None)" for st
    using hit by (simp add: skip_pre_def demo_blocked_fields)
      (simp add: demo_waiting_def demo_other_bank_def)
  from this [of "demo_fullmod\<lparr>drain_writes := (drain_writes demo_fullmod)(0 := False)\<rparr>"]
  obtain st' s' where run: "schedule_fullmod ddr3_params 0 demo_fullmod demo_blocked = Inr (st', s')"
    using demo_blocked_fields
    by (auto simp: schedule_fullmod_def Let_def full_read_scan_def full_hits_def or_else_def full_finish_def active_queue_def)
  have "s' = demo_blocked"
    by (rule fullmod_rank_blocked [OF run demo_blocked_fields(3), of demo_waiting])
      (simp_all add: demo_blocked_fields, simp_all add: demo_waiting_def demo_other_bank_def)
  then show ?thesis using run by (simp add: demo_other_bank_def demo_sched_fields)
qed

end
