(* ===== verification/Fair.thy ===== *)
theory Fair
  imports Fcfs
begin

text \<open>
  The two policies of \<open>usimm-v1.3/src/partA\<close> that share the data bus between threads:
  \<open>scheduler-frrr.c\<close> (row hits first, then round robin over the threads) and
  \<open>scheduler-fair.c\<close> (threads earn credits over time and pay for column reads).

  Both drain writes in batches: a drain starts at the high water mark or when there are no reads,
  and the two kinds of drain end differently.
\<close>

section \<open>Scans in order of preference\<close>

text \<open>A sequence of scans of one queue; the first that finds a request issues it and ends the call.\<close>

fun issue_chain ::
  "params \<Rightarrow> (nat \<Rightarrow> req_ptr) \<Rightarrow> request_t list \<Rightarrow> ((request_t \<Rightarrow> bool) \<times> ('st \<Rightarrow> 'st res)) list \<Rightarrow>
     'st \<Rightarrow> mc \<Rightarrow> ('st \<times> mc) res" where
  "issue_chain P ptr qs [] st s = Inr (st, s)"
| "issue_chain P ptr qs ((p, f) # scans) st s =
     bindE (issue_first P ptr p qs s) (\<lambda>(s, found).
       if found \<noteq> None then bindE (f st) (\<lambda>st. Inr (st, s)) else issue_chain P ptr qs scans st s)"

lemma issue_chain_fine:
  assumes "sched_ok P s" and "valid_channel P c" and "queue_of s c ptr qs"
    and "\<And>p f st. (p, f) \<in> set scans \<Longrightarrow> \<exists>st'. f st = Inr st'"
  shows "fine P c s (issue_chain P ptr qs scans st s)"
  using assms(4)
proof (induction scans arbitrary: st)
  case (Cons scan scans)
  obtain p f where scan: "scan = (p, f)" by fastforce
  obtain st' where "f st = Inr st'" using Cons.prems [of p f st] by (auto simp: scan)
  moreover have "fine P c s (issue_chain P ptr qs scans st s)"
    by (rule Cons.IH, rule Cons.prems) auto
  ultimately show ?case
    unfolding scan issue_chain.simps by (intro fine_issue_first [OF assms(1-3)]) auto
qed simp

text \<open>The first scan whose test some request passes decides.\<close>

lemma issue_chain_skip:
  "\<forall>q\<in>set qs. \<not> p q \<Longrightarrow> issue_chain P ptr qs ((p, f) # scans) st s = issue_chain P ptr qs scans st s"
  by (simp add: issue_first_def flip: find_first_None)

lemma issue_chain_take:
  assumes "q \<in> set qs" and "p q" and "issue_chain P ptr qs ((p, f) # scans) st s = Inr (st', s')"
  shows "\<exists>i ok. find_first p qs = Some i \<and> issue_request_command P (ptr i) s = Inr (s', ok) \<and> f st = Inr st'"
proof -
  have "find_first p qs \<noteq> None" using assms(1,2) by auto
  then obtain i where "find_first p qs = Some i" by blast
  then show ?thesis using assms(3) by (auto simp: issue_first_def)
qed

section \<open>Batched write drains\<close>

record batch_state = drain_state +
  writes_done_this_drain :: "int arr1"
  draining_writes_due_to_rq_empty :: "bool arr1"

definition start_drain :: "int \<Rightarrow> 'a batch_state_scheme \<Rightarrow> 'a batch_state_scheme" where
  "start_drain c st = st\<lparr>drain_writes := (drain_writes st)(c := True),
     writes_done_this_drain := (writes_done_this_drain st)(c := 0)\<rparr>"

definition end_drain :: "int \<Rightarrow> 'a batch_state_scheme \<Rightarrow> 'a batch_state_scheme" where
  "end_drain c st = st\<lparr>drain_writes := (drain_writes st)(c := False)\<rparr>"

definition rq_empty :: "int \<Rightarrow> bool \<Rightarrow> 'a batch_state_scheme \<Rightarrow> 'a batch_state_scheme" where
  "rq_empty c v st = st\<lparr>draining_writes_due_to_rq_empty := (draining_writes_due_to_rq_empty st)(c := v)\<rparr>"

text \<open>The five conditional blocks, in their order.\<close>

definition begin_high :: "int \<Rightarrow> int \<Rightarrow> mc \<Rightarrow> 'a batch_state_scheme \<Rightarrow> 'a batch_state_scheme" where
  "begin_high HI_WM c s st =
     (if write_queue_length s c > HI_WM \<and> \<not> drain_writes st c then start_drain c st else st)"

definition begin_empty :: "int \<Rightarrow> mc \<Rightarrow> 'a batch_state_scheme \<Rightarrow> 'a batch_state_scheme" where
  "begin_empty c s st =
     (if read_queue_length s c < 1 \<and> write_queue_length s c > 0 \<and> \<not> drain_writes st c
      then rq_empty c True (start_drain c st) else st)"

definition end_low :: "int \<Rightarrow> int \<Rightarrow> mc \<Rightarrow> 'a batch_state_scheme \<Rightarrow> 'a batch_state_scheme" where
  "end_low LO_WM c s st =
     (if drain_writes st c \<and> write_queue_length s c \<le> LO_WM \<and> \<not> draining_writes_due_to_rq_empty st c
      then end_drain c st else st)"

definition end_batch :: "int \<Rightarrow> mc \<Rightarrow> 'a batch_state_scheme \<Rightarrow> 'a batch_state_scheme" where
  "end_batch c s st =
     (if drain_writes st c \<and> read_queue_length s c > 0 \<and> draining_writes_due_to_rq_empty st c \<and>
         writes_done_this_drain st c > 1
      then rq_empty c False (end_drain c st) else st)"

definition end_empty :: "int \<Rightarrow> mc \<Rightarrow> 'a batch_state_scheme \<Rightarrow> 'a batch_state_scheme" where
  "end_empty c s st = (if write_queue_length s c = 0 then end_drain c st else st)"

definition batch_drain :: "int \<Rightarrow> int \<Rightarrow> int \<Rightarrow> mc \<Rightarrow> 'a batch_state_scheme \<Rightarrow> 'a batch_state_scheme" where
  "batch_drain HI_WM LO_WM c s st =
     end_empty c s (end_batch c s (end_low LO_WM c s (begin_empty c s (begin_high HI_WM c s st))))"

lemmas drain_blocks = begin_high_def begin_empty_def end_low_def end_batch_def end_empty_def
  start_drain_def end_drain_def rq_empty_def

text \<open>In a drain, row hits first; only they count as writes done.\<close>

definition batch_writes ::
  "params \<Rightarrow> int \<Rightarrow> 'a batch_state_scheme \<Rightarrow> mc \<Rightarrow> ('a batch_state_scheme \<times> mc) res" where
  "batch_writes P c st s =
     issue_chain P (WrPtr c) (write_queue s c)
       [(row_hit True, \<lambda>st. Inr (st\<lparr>writes_done_this_drain :=
           (writes_done_this_drain st)(c := writes_done_this_drain st c + 1)\<rparr>)),
        (command_issuable, Inr)] st s"

section \<open>Row hits first, then round robin\<close>

record frrr_state = batch_state +
  rr_next :: int

definition advance :: "params \<Rightarrow> frrr_state \<Rightarrow> frrr_state res" where
  "advance P st = bindE (modE (rr_next st + 1) (NUMCORES P)) (\<lambda>n. Inr (st\<lparr>rr_next := n\<rparr>))"

definition schedule_frrr :: "params \<Rightarrow> int \<Rightarrow> frrr_state \<Rightarrow> mc \<Rightarrow> (frrr_state \<times> mc) res" where
  "schedule_frrr P c st s =
     (let st = batch_drain 40 32 c s st
      in if drain_writes st c then batch_writes P c st s
         else issue_chain P (RdPtr c) (read_queue s c)
           [(\<lambda>q. thread_id q = rr_next st \<and> row_hit False q, advance P),
            (row_hit False, Inr),
            (\<lambda>q. thread_id q = rr_next st \<and> command_issuable q, advance P),
            (command_issuable, Inr)] st s)"

definition init_frrr :: "params \<Rightarrow> frrr_state \<Rightarrow> bool" where
  "init_frrr P st \<longleftrightarrow> st = \<lparr>drain_writes = (\<lambda>_. False), writes_done_this_drain = (\<lambda>_. 0),
     draining_writes_due_to_rq_empty = (\<lambda>_. False), rr_next = 0\<rparr>"

section \<open>Credits\<close>

definition MAX_THREADS :: int where "MAX_THREADS = 100"
definition MAX_CREDITS :: int where "MAX_CREDITS = 1024"

record fair_state = batch_state +
  dbus_credits :: "int arr2"
  last_cycle_credited :: "int arr1"
  count_col_read :: "int arr2"
  credits_at_read :: "int arr2"

definition init_fair :: "params \<Rightarrow> fair_state \<Rightarrow> bool" where
  "init_fair P st \<longleftrightarrow> drain_writes st = (\<lambda>_. False) \<and> writes_done_this_drain st = (\<lambda>_. 0) \<and>
     draining_writes_due_to_rq_empty st = (\<lambda>_. False) \<and>
     (\<forall>i. 0 \<le> i \<and> i < MAX_NUM_CHANNELS \<longrightarrow> last_cycle_credited st i = 0 \<and>
        (\<forall>j. 0 \<le> j \<and> j < MAX_THREADS \<longrightarrow>
           dbus_credits st i j = MAX_CREDITS \<and> count_col_read st i j = 0 \<and> credits_at_read st i j = 0))"

text \<open>The loop that pays every thread one credit per cycle since the last call.\<close>

definition pay :: "int \<Rightarrow> int \<Rightarrow> int \<Rightarrow> int arr2 \<Rightarrow> int arr2" where
  "pay c since i credits =
     (let v = credits c i + c_int since
      in upd2 credits c i (if v < 0 \<or> v > MAX_CREDITS then MAX_CREDITS else v))"

text \<open>
  A scan for the issuable request of the greatest weight, the first of several. The accumulator
  is the greatest weight so far and its position.
\<close>

fun best_request :: "(request_t \<Rightarrow> int) \<Rightarrow> nat \<Rightarrow> request_t list \<Rightarrow> int \<times> nat option \<Rightarrow> int \<times> nat option" where
  "best_request w i [] acc = acc"
| "best_request w i (q # qs) acc =
     best_request w (Suc i) qs (if command_issuable q \<and> w q > fst acc then (w q, Some i) else acc)"

definition credit_weight :: "int arr1 \<Rightarrow> request_t \<Rightarrow> int" where
  "credit_weight credits q =
     (let current_credits = credits (thread_id q)
      in if next_command q = COL_READ_CMD then current_credits + current_credits sdiv 2
         else current_credits)"

definition charge :: "int \<Rightarrow> request_t \<Rightarrow> fair_state \<Rightarrow> fair_state" where
  "charge c q st =
     (let t = thread_id q in
      if next_command q = COL_READ_CMD
      then st\<lparr>count_col_read := upd2 (count_col_read st) c t (count_col_read st c t + 1),
              credits_at_read := upd2 (credits_at_read st) c t (credits_at_read st c t + dbus_credits st c t),
              dbus_credits := upd2 (dbus_credits st) c t (dbus_credits st c t sdiv 2)\<rparr>
      else st)"

definition schedule_fair :: "params \<Rightarrow> int \<Rightarrow> fair_state \<Rightarrow> mc \<Rightarrow> (fair_state \<times> mc) res" where
  "schedule_fair P c st s =
     (let since = CYCLE_VAL s - last_cycle_credited st c;
          st = st\<lparr>last_cycle_credited := (last_cycle_credited st)(c := CYCLE_VAL s),
                  dbus_credits := fold (pay c since) (below MAX_THREADS) (dbus_credits st)\<rparr>;
          st = batch_drain 40 20 c s st
      in if drain_writes st c then batch_writes P c st s
         else case snd (best_request (credit_weight (dbus_credits st c)) 0 (read_queue s c) (- 1, None)) of
                None \<Rightarrow> Inr (st, s)
              | Some i \<Rightarrow>
                  bindE (issue_request_command P (RdPtr c i) s) (\<lambda>(s', _).
                    Inr (charge c (read_queue s c ! i) st, s')))"

section \<open>The contract\<close>

lemma batch_writes_fine:
  assumes "sched_ok P s" and "valid_channel P c"
  shows "fine P c s (batch_writes P c st s)"
  unfolding batch_writes_def by (rule issue_chain_fine [OF assms]) auto

interpretation frrr: plain_scheduler schedule_frrr init_frrr
proof
  fix P s c st
  assume ok: "sched_ok P s" and c: "valid_channel P c"
  have "NUMCORES P \<noteq> 0" using ok by (auto simp: sched_ok_def wf_params_def wf_geometry_def)
  then have "\<exists>st'. advance P st = Inr st'" for st by (simp add: advance_def modE_def)
  then show "fine P c s (schedule_frrr P c st s)"
    unfolding schedule_frrr_def Let_def using batch_writes_fine [OF ok c]
    by (auto intro!: issue_chain_fine [OF ok c] simp del: issue_chain.simps)
qed

text \<open>The scan finds the first request of maximal weight.\<close>

lemma best_request_spec:
  assumes "best_request w i qs (m, best) = (t, b)"
  shows "b = best \<and> t = m \<and> (\<forall>q\<in>set qs. command_issuable q \<longrightarrow> w q \<le> m) \<or>
    (\<exists>j<length qs. b = Some (i + j) \<and> command_issuable (qs ! j) \<and> w (qs ! j) = t \<and> m < t \<and>
       (\<forall>q\<in>set qs. command_issuable q \<longrightarrow> w q \<le> t) \<and>
       (\<forall>k<j. command_issuable (qs ! k) \<longrightarrow> w (qs ! k) < t))"
  using assms
proof (induction qs arbitrary: i m best)
  case (Cons q qs)
  show ?case
  proof (cases "command_issuable q \<and> w q > m")
    case True
    with Cons.prems have run: "best_request w (Suc i) qs (w q, Some i) = (t, b)" by simp
    from Cons.IH [OF run] show ?thesis
    proof (elim disjE exE conjE)
      assume "b = Some i" "t = w q" "\<forall>q'\<in>set qs. command_issuable q' \<longrightarrow> w q' \<le> w q"
      then show ?thesis using True by (intro disjI2 exI [where x = 0]) auto
    next
      fix j
      assume "j < length qs" "b = Some (Suc i + j)" "command_issuable (qs ! j)" "w (qs ! j) = t" "w q < t"
        "\<forall>q\<in>set qs. command_issuable q \<longrightarrow> w q \<le> t" "\<forall>k<j. command_issuable (qs ! k) \<longrightarrow> w (qs ! k) < t"
      then show ?thesis using True
        by (intro disjI2 exI [where x = "Suc j"]) (auto simp: nth_Cons split: nat.splits)
    qed
  next
    case False
    with Cons.prems have run: "best_request w (Suc i) qs (m, best) = (t, b)" by (auto split: if_splits)
    from Cons.IH [OF run] show ?thesis
    proof (elim disjE exE conjE)
      assume "b = best" "t = m" "\<forall>q\<in>set qs. command_issuable q \<longrightarrow> w q \<le> m"
      then show ?thesis using False by auto
    next
      fix j
      assume "j < length qs" "b = Some (Suc i + j)" "command_issuable (qs ! j)" "w (qs ! j) = t" "m < t"
        "\<forall>q\<in>set qs. command_issuable q \<longrightarrow> w q \<le> t" "\<forall>k<j. command_issuable (qs ! k) \<longrightarrow> w (qs ! k) < t"
      then show ?thesis using False
        by (intro disjI2 exI [where x = "Suc j"]) (auto simp: nth_Cons split: nat.splits)
    qed
  qed
qed simp

lemma best_request_Some:
  assumes "snd (best_request w 0 qs (- 1, None)) = Some i"
  shows "i < length qs" and "command_issuable (qs ! i)"
    and "\<forall>q\<in>set qs. command_issuable q \<longrightarrow> w q \<le> w (qs ! i)"
    and "\<forall>k<i. command_issuable (qs ! k) \<longrightarrow> w (qs ! k) < w (qs ! i)"
  using best_request_spec [of w 0 qs "- 1" None "fst (best_request w 0 qs (- 1, None))" "Some i"] assms
  by (auto simp: prod_eq_iff)

lemma best_request_None:
  assumes "snd (best_request w 0 qs (- 1, None)) = None" and "q \<in> set qs" and "command_issuable q"
  shows "w q < 0"
  using best_request_spec [of w 0 qs "- 1" None "fst (best_request w 0 qs (- 1, None))" None] assms
  by (force simp: prod_eq_iff)

interpretation fair: plain_scheduler schedule_fair init_fair
proof
  fix P s c st
  assume ok: "sched_ok P s" and c: "valid_channel P c"
  have "fine P c s (bindE (issue_request_command P (RdPtr c i) s) (\<lambda>(s', _). Inr (st', s')))"
    if "snd (best_request w 0 (read_queue s c) (- 1, None)) = Some i" for w i and st' :: fair_state
    by (rule fine_issue_at [OF ok c, where q = "read_queue s c ! i"])
      (use best_request_Some(1) [OF that] in auto)
  then show "fine P c s (schedule_fair P c st s)"
    unfolding schedule_fair_def Let_def using batch_writes_fine [OF ok c] by (auto split: option.splits)
qed

section \<open>Properties\<close>

lemma pay_loop:
  "fold (pay c since) (below n) credits c' i =
     (if c' = c \<and> 0 \<le> i \<and> i < n then pay c since i credits c i else credits c' i)"
proof (cases "c' = c")
  case True
  then show ?thesis
    using fold_pointwise [of "\<lambda>k f. f c k" "pay c since" "\<lambda>k v. let v = v + c_int since in
        if v < 0 \<or> v > MAX_CREDITS then MAX_CREDITS else v" "below n" i credits]
    by (simp add: pay_def Let_def)
next
  case False
  then show ?thesis
    using fold_frame [where g = "\<lambda>f. f c' i" and f = "pay c since" and xs = "below n" and s = credits]
    by (simp add: pay_def Let_def)
qed

lemma batch_drain_credits [simp]:
  "dbus_credits (batch_drain hi lo c s st) = dbus_credits (st :: fair_state)"
proof -
  have "dbus_credits (begin_high hi c s st) = dbus_credits st" "dbus_credits (begin_empty c s st) = dbus_credits st"
    "dbus_credits (end_low lo c s st) = dbus_credits st" "dbus_credits (end_batch c s st) = dbus_credits st"
    "dbus_credits (end_empty c s st) = dbus_credits st" for st :: fair_state
    by (simp_all add: drain_blocks)
  then show ?thesis by (simp add: batch_drain_def)
qed

lemma issue_chain_keeps:
  assumes "issue_chain P ptr qs scans st s = Inr (st', s')"
    and "\<And>p f st st'. (p, f) \<in> set scans \<Longrightarrow> f st = Inr st' \<Longrightarrow> g st' = g st"
  shows "g st' = g st"
  using assms
proof (induction scans arbitrary: s)
  case (Cons scan scans)
  obtain p f where scan: "scan = (p, f)" by fastforce
  have run: "bindE (issue_first P ptr p qs s) (\<lambda>(s, found).
      if found \<noteq> None then bindE (f st) (\<lambda>st. Inr (st, s)) else issue_chain P ptr qs scans st s) = Inr (st', s')"
    using Cons.prems(1) by (simp only: scan issue_chain.simps)
  then obtain s1 found where "issue_first P ptr p qs s = Inr (s1, found)"
    and rest: "(if found \<noteq> None then bindE (f st) (\<lambda>st. Inr (st, s1)) else issue_chain P ptr qs scans st s1) =
      Inr (st', s')"
    by (cases "issue_first P ptr p qs s") (auto simp del: bindE_eq_Inr)
  show ?case
  proof (cases found)
    case None
    then show ?thesis using rest Cons.IH [of s1] Cons.prems(2) by (auto simp: scan)
  next
    case (Some q)
    then show ?thesis using rest Cons.prems(2) [of p f st st'] by (auto simp: scan)
  qed
qed simp

lemma batch_writes_credits:
  assumes "batch_writes P c st s = Inr (st', s')"
  shows "dbus_credits st' = dbus_credits (st :: fair_state)"
  using assms unfolding batch_writes_def by (rule issue_chain_keeps) auto

lemma sdiv_half: "0 \<le> (v :: int) \<Longrightarrow> v sdiv 2 = v div 2"
  by (cases "v = 0") (simp_all add: signed_divide_int_def)

text \<open>Credits stay in range: after every call of the fair policy, whatever the clock and the
  previous values, each of the hundred threads of the channel has between 0 and 1024 credits.\<close>

theorem fair_credits_bounded:
  assumes "schedule_fair P c st s = Inr (st', s')" and "0 \<le> i" and "i < MAX_THREADS"
  shows "0 \<le> dbus_credits st' c i \<and> dbus_credits st' c i \<le> MAX_CREDITS"
proof -
  define credits where
    "credits = fold (pay c (CYCLE_VAL s - last_cycle_credited st c)) (below MAX_THREADS) (dbus_credits st)"
  have range: "0 \<le> credits c i \<and> credits c i \<le> MAX_CREDITS"
    using assms(2,3) by (auto simp: credits_def pay_loop pay_def Let_def MAX_CREDITS_def)
  have "dbus_credits st' = credits \<or> (\<exists>q st1. st' = charge c q st1 \<and> dbus_credits st1 = credits)"
    using assms(1) batch_writes_credits
    by (fastforce simp: schedule_fair_def Let_def simp flip: credits_def split: if_splits option.splits)
  then show ?thesis using range
    by (auto simp: charge_def Let_def sdiv_half)
qed

definition demo_fair :: fair_state where
  "demo_fair = \<lparr>drain_writes = (\<lambda>_. False), writes_done_this_drain = (\<lambda>_. 0),
     draining_writes_due_to_rq_empty = (\<lambda>_. False), dbus_credits = (\<lambda>_ _. MAX_CREDITS),
     last_cycle_credited = (\<lambda>_. 0), count_col_read = (\<lambda>_ _. 0), credits_at_read = (\<lambda>_ _. 0)\<rparr>"

lemma demo_fair_run: "\<exists>st' s'. schedule_fair ddr3_params 0 demo_fair demo_sched = Inr (st', s')"
  using fair.schedule_fine [OF demo_sched(2) demo_valid(1), of demo_fair] by (auto simp: fine_def)

theorem fair_credits_bounded_witness:
  "\<exists>st' s'. schedule_fair ddr3_params 0 demo_fair demo_sched = Inr (st', s') \<and>
     0 \<le> dbus_credits st' 0 7 \<and> dbus_credits st' 0 7 \<le> MAX_CREDITS"
proof -
  obtain st' s' where run: "schedule_fair ddr3_params 0 demo_fair demo_sched = Inr (st', s')"
    using demo_fair_run by blast
  show ?thesis using run fair_credits_bounded [OF run, of 7] by (simp add: MAX_THREADS_def)
qed

text \<open>The richest thread goes first: outside a write drain, if some read is issuable, the fair
  policy issues an issuable read whose thread has the most credits, counting a row hit half as much
  again, and the first such read in queue order; here \<open>st1\<close> is the state after the credits have been
  paid out.\<close>

theorem fair_serves_richest:
  assumes "schedule_fair P c st s = Inr (st', s')"
    and "st1 = st\<lparr>last_cycle_credited := (last_cycle_credited st)(c := CYCLE_VAL s),
        dbus_credits := fold (pay c (CYCLE_VAL s - last_cycle_credited st c)) (below MAX_THREADS) (dbus_credits st)\<rparr>"
    and "\<not> drain_writes (batch_drain 40 20 c s st1) c"
    and "q \<in> set (read_queue s c)" and "command_issuable q" and "0 \<le> thread_id q" and "thread_id q < MAX_THREADS"
  shows "\<exists>i ok. i < length (read_queue s c) \<and> command_issuable (read_queue s c ! i) \<and>
    issue_request_command P (RdPtr c i) s = Inr (s', ok) \<and>
    (\<forall>k\<in>set (read_queue s c). command_issuable k \<longrightarrow>
       credit_weight (dbus_credits st1 c) k \<le> credit_weight (dbus_credits st1 c) (read_queue s c ! i)) \<and>
    (\<forall>j<i. command_issuable (read_queue s c ! j) \<longrightarrow>
       credit_weight (dbus_credits st1 c) (read_queue s c ! j) <
         credit_weight (dbus_credits st1 c) (read_queue s c ! i))"
proof -
  let ?w = "credit_weight (dbus_credits st1 c)" and ?qs = "read_queue s c"
  have "0 \<le> dbus_credits st1 c (thread_id q)"
    using assms(6,7) by (auto simp: assms(2) pay_loop pay_def Let_def MAX_CREDITS_def)
  then have "0 \<le> ?w q" by (simp add: credit_weight_def sdiv_half Let_def)
  then obtain i where i: "snd (best_request ?w 0 ?qs (- 1, None)) = Some i"
    using best_request_None [of ?w ?qs q] assms(4,5) by (cases "snd (best_request ?w 0 ?qs (- 1, None))") auto
  have "\<exists>ok. issue_request_command P (RdPtr c i) s = Inr (s', ok)"
    using assms(1,3) i unfolding schedule_fair_def Let_def assms(2) [symmetric]
    by (auto split: prod.splits)
  then show ?thesis using best_request_Some [OF i] by blast
qed

theorem fair_serves_richest_witness:
  "\<exists>st' s' ok. schedule_fair ddr3_params 0 demo_fair demo_sched = Inr (st', s') \<and>
     issue_request_command ddr3_params (RdPtr 0 0) demo_sched = Inr (s', ok)"
proof -
  obtain st' s' where run: "schedule_fair ddr3_params 0 demo_fair demo_sched = Inr (st', s')"
    using demo_fair_run by blast
  show ?thesis
    using run fair_serves_richest [OF run refl _ _ demo_sched_fields(2)]
    by (auto simp: demo_sched_fields batch_drain_def drain_blocks demo_fair_def MAX_THREADS_def)
qed

lemma batch_drain_turn [simp]: "rr_next (batch_drain hi lo c s st) = rr_next (st :: frrr_state)"
proof -
  have "rr_next (begin_high hi c s st) = rr_next st" "rr_next (begin_empty c s st) = rr_next st"
    "rr_next (end_low lo c s st) = rr_next st" "rr_next (end_batch c s st) = rr_next st"
    "rr_next (end_empty c s st) = rr_next st" for st :: frrr_state
    by (simp_all add: drain_blocks)
  then show ?thesis by (simp add: batch_drain_def)
qed

text \<open>Row hits go first and the turn stays valid: outside a write drain, if a row hit is issuable,
  the round-robin policy issues a row hit, the one of the thread whose turn it is if it has one, and
  only then passes the turn on; the turn is always a core of the machine.\<close>

theorem frrr_row_hit_first:
  assumes "schedule_frrr P c st s = Inr (st', s')" and "\<not> drain_writes (batch_drain 40 32 c s st) c"
    and "q \<in> set (read_queue s c)" and "row_hit False q"
    and "0 \<le> rr_next st" and "rr_next st < NUMCORES P"
  shows "\<exists>i ok. i < length (read_queue s c) \<and> row_hit False (read_queue s c ! i) \<and>
    issue_request_command P (RdPtr c i) s = Inr (s', ok) \<and>
    ((\<exists>k\<in>set (read_queue s c). row_hit False k \<and> thread_id k = rr_next st) \<longrightarrow>
       thread_id (read_queue s c ! i) = rr_next st) \<and>
    rr_next st' = (if thread_id (read_queue s c ! i) = rr_next st
                   then (rr_next st + 1) mod NUMCORES P else rr_next st) \<and>
    0 \<le> rr_next st' \<and> rr_next st' < NUMCORES P"
proof -
  let ?qs = "read_queue s c" and ?st = "batch_drain 40 32 c s st"
  let ?turn = "\<lambda>q. thread_id q = rr_next st \<and> row_hit False q"
  let ?scans = "[(row_hit False, Inr), (\<lambda>q. thread_id q = rr_next st \<and> command_issuable q, advance P),
    (command_issuable, Inr)]"
  have run: "issue_chain P (RdPtr c) ?qs ((?turn, advance P) # ?scans) ?st s = Inr (st', s')"
    using assms(1,2) by (simp add: schedule_frrr_def Let_def del: issue_chain.simps)
  have bound: "0 \<le> (rr_next st + 1) mod NUMCORES P" "(rr_next st + 1) mod NUMCORES P < NUMCORES P"
    using assms(5,6) by simp_all
  show ?thesis
  proof (cases "\<exists>k\<in>set ?qs. ?turn k")
    case True
    then obtain k where "k \<in> set ?qs" "?turn k" by blast
    from issue_chain_take [where p = ?turn, OF this run] obtain i ok
      where "find_first ?turn ?qs = Some i" "issue_request_command P (RdPtr c i) s = Inr (s', ok)"
        "advance P ?st = Inr st'" by blast
    then show ?thesis using assms(5,6) bound
      by (intro exI [where x = i] exI [where x = ok])
        (auto simp: find_first_Some advance_def modE_def smod_nonneg simp del: issue_chain.simps)
  next
    case False
    then have "\<forall>k\<in>set ?qs. \<not> ?turn k" by blast
    from run [unfolded issue_chain_skip [where p = ?turn, OF this]]
    have "issue_chain P (RdPtr c) ?qs ?scans ?st s = Inr (st', s')" .
    from issue_chain_take [where p = "row_hit False", OF assms(3,4) this] obtain i ok
      where i: "find_first (row_hit False) ?qs = Some i" and "issue_request_command P (RdPtr c i) s = Inr (s', ok)"
        and st': "Inr ?st = (Inr st' :: frrr_state res)" by blast
    moreover have "thread_id (?qs ! i) \<noteq> rr_next st" using False find_first_SomeD [OF i] by blast
    moreover have "st' = ?st" using st' by simp
    ultimately show ?thesis using assms(5,6) False
      by (intro exI [where x = i] exI [where x = ok]) (auto simp: find_first_Some)
  qed
qed

definition demo_frrr :: frrr_state where
  "demo_frrr = \<lparr>drain_writes = (\<lambda>_. False), writes_done_this_drain = (\<lambda>_. 0),
     draining_writes_due_to_rq_empty = (\<lambda>_. False), rr_next = 0\<rparr>"

theorem frrr_row_hit_first_witness:
  "\<exists>st' s' ok. schedule_frrr ddr3_params 0 demo_frrr demo_hit = Inr (st', s') \<and>
     issue_request_command ddr3_params (RdPtr 0 0) demo_hit = Inr (s', ok) \<and> rr_next st' = 0"
proof -
  have hit: "row_hit False demo_hit_read" "thread_id demo_hit_read = 0"
    by (simp_all add: row_hit_def demo_hit_fields demo_hit_read_def demo_sched_fields)
  have idle: "batch_drain 40 32 0 demo_hit demo_frrr = demo_frrr"
    by (simp add: batch_drain_def drain_blocks demo_frrr_def demo_hit_fields fun_upd_idem)
  have cores: "NUMCORES ddr3_params = 1" by (simp add: ddr3_params_def)
  obtain s' where "issue_request_command ddr3_params (RdPtr 0 0) demo_hit = Inr (s', True)"
    using demo_hit_issue by blast
  then have "issue_first ddr3_params (RdPtr 0) (\<lambda>q. thread_id q = rr_next demo_frrr \<and> row_hit False q)
      (read_queue demo_hit 0) demo_hit = Inr (s', Some demo_hit_read)"
    using hit by (simp add: issue_first_def demo_hit_fields demo_frrr_def)
  moreover have "advance ddr3_params demo_frrr = Inr demo_frrr"
    by (simp add: advance_def modE_def cores demo_frrr_def smod_nonneg)
  moreover have "\<not> drain_writes demo_frrr 0" by (simp add: demo_frrr_def)
  ultimately have run: "schedule_frrr ddr3_params 0 demo_frrr demo_hit = Inr (demo_frrr, s')"
    by (simp add: schedule_frrr_def idle)
  show ?thesis
    using run frrr_row_hit_first [OF run, of demo_hit_read] hit cores
    by (auto simp: idle demo_hit_fields) (auto simp: demo_frrr_def)
qed

text \<open>
  The flag outlives its drain: when a drain begun for want of reads ends because the write queue
  is empty, \<open>draining_writes_due_to_rq_empty\<close> stays set. The next drain, begun at the high water
  mark, then inherits it: the low water mark does not end it, and with reads waiting it ends after
  two row hits, however full the write queue is.
\<close>

lemma stale_drain_flag:
  fixes st :: "'a batch_state_scheme"
  assumes "draining_writes_due_to_rq_empty st c" and "drain_writes st c"
    and "write_queue_length s c = 0" and "read_queue_length s c = 0"
    and "st1 = batch_drain hi lo c s st"
    and "write_queue_length s2 c > hi" and "read_queue_length s2 c > 0" and "0 \<le> lo" and "lo \<le> hi"
    and "st2 = batch_drain hi lo c s2 st1"
  shows "\<not> drain_writes st1 c" and "draining_writes_due_to_rq_empty st1 c"
    and "drain_writes st2 c" and "draining_writes_due_to_rq_empty st2 c"
    and "writes_done_this_drain st3 c > 1 \<Longrightarrow> drain_writes st3 c \<Longrightarrow>
      draining_writes_due_to_rq_empty st3 c \<Longrightarrow> \<not> drain_writes (batch_drain hi lo c s2 st3) c"
proof -
  show st1: "\<not> drain_writes st1 c" "draining_writes_due_to_rq_empty st1 c"
    using assms(1-4) by (simp_all add: assms(5) batch_drain_def drain_blocks)
  show "drain_writes st2 c" "draining_writes_due_to_rq_empty st2 c"
    using assms(6-9) st1 by (simp_all add: assms(10) batch_drain_def drain_blocks)
  show "writes_done_this_drain st3 c > 1 \<Longrightarrow> drain_writes st3 c \<Longrightarrow>
      draining_writes_due_to_rq_empty st3 c \<Longrightarrow> \<not> drain_writes (batch_drain hi lo c s2 st3) c"
    using assms(7) by (simp add: batch_drain_def drain_blocks)
qed

end
