(* ===== verification/Mlp.thy ===== *)
theory Mlp
  imports Fair Close_Page
begin

text \<open>
  \<open>usimm-v1.3/src/partA/scheduler-mlp.c\<close>: reads are chosen by the memory-level parallelism of
  their thread, with aging. \<open>aging_threshold\<close> is assigned once, in \<open>init_scheduler_vars\<close>, and is
  a constant here; the arrays that function allocates and does not fill start with arbitrary
  values.
\<close>

definition aging_threshold :: int where "aging_threshold = 40"

record mlp_state = drain_state +
  priorities :: "int arr1"
  low_mlp :: "int arr1"
  medium_mlp :: "int arr1"
  high_mlp :: "int arr1"
  current_row :: "int arr1"
  current_bank :: "int arr1"
  current_rank :: "int arr1"
  num_read_request :: "int arr1"
  last_service_time :: "int arr1"

definition init_mlp :: "params \<Rightarrow> mlp_state \<Rightarrow> bool" where
  "init_mlp P st \<longleftrightarrow> drain_writes st = (\<lambda>_. False) \<and>
     (\<forall>i. 0 \<le> i \<and> i < NUMCORES P \<longrightarrow> low_mlp st i = 0 \<and> medium_mlp st i = 0 \<and> high_mlp st i = 0) \<and>
     (\<forall>i. 0 \<le> i \<and> i < NUM_CHANNELS P \<longrightarrow>
        current_row st i = 0 \<and> current_bank st i = 0 \<and> current_rank st i = 0)"

section \<open>Write requests by row hits\<close>

text \<open>
  \<open>find_wr_request\<close>, which nothing calls. The counter is not reset between candidates, so it
  counts the requests that share a row with any candidate so far.
\<close>

fun find_wr_loop :: "int \<Rightarrow> request_t list \<Rightarrow> int \<Rightarrow> nat \<Rightarrow> request_t list \<Rightarrow> nat option" where
  "find_wr_loop row_hits all counter i [] = None"
| "find_wr_loop row_hits all counter i (q # qs) =
     (let counter = fold (\<lambda>k n. if same_row q k then n + 1 else n) all counter
      in if counter \<ge> row_hits then Some i else find_wr_loop row_hits all counter (Suc i) qs)"

definition find_wr_request :: "int \<Rightarrow> int \<Rightarrow> mc \<Rightarrow> nat option" where
  "find_wr_request c row_hits s = find_wr_loop row_hits (write_queue s c) 0 0 (write_queue s c)"

section \<open>Priorities\<close>

text \<open>Per thread, the queued reads of all channels whose completion time has passed.\<close>

definition calculate_MLP :: "params \<Rightarrow> mc \<Rightarrow> mlp_state \<Rightarrow> mlp_state" where
  "calculate_MLP P s st =
     (let zeroed = fold (\<lambda>i f. f(i := 0)) (below (NUMCORES P)) (num_read_request st)
      in st\<lparr>num_read_request :=
           fold (\<lambda>c f. fold (\<lambda>q f. if completion_time q < CYCLE_VAL s
                                   then f(thread_id q := f (thread_id q) + 1) else f) (read_queue s c) f)
             (below (NUM_CHANNELS P)) zeroed\<rparr>)"

definition rate_thread :: "int \<Rightarrow> mlp_state \<Rightarrow> mlp_state" where
  "rate_thread i st =
     (if num_read_request st i < 1 then
        st\<lparr>priorities := (priorities st)(i := 3), low_mlp := (low_mlp st)(i := low_mlp st i + 1)\<rparr>
      else if num_read_request st i < 3 then
        st\<lparr>priorities := (priorities st)(i := 2), medium_mlp := (medium_mlp st)(i := medium_mlp st i + 1)\<rparr>
      else
        st\<lparr>priorities := (priorities st)(i := 1), high_mlp := (high_mlp st)(i := high_mlp st i + 1)\<rparr>)"

definition age_thread :: "int \<Rightarrow> int \<Rightarrow> mlp_state \<Rightarrow> mlp_state" where
  "age_thread now i st =
     st\<lparr>priorities := (priorities st)
       (i := c_int (priorities st i + (now - last_service_time st i) sdiv aging_threshold))\<rparr>"

definition update_priorities :: "params \<Rightarrow> mc \<Rightarrow> mlp_state \<Rightarrow> mlp_state" where
  "update_priorities P s st =
     (let st = calculate_MLP P s st;
          st = fold rate_thread (below (NUMCORES P)) st
      in fold (age_thread (CYCLE_VAL s)) (below (NUMCORES P)) st)"

section \<open>The policy\<close>

definition current_match :: "int \<Rightarrow> mlp_state \<Rightarrow> request_t \<Rightarrow> bool" where
  "current_match c st q \<longleftrightarrow> command_issuable q \<and> rank (dram_addr q) = current_rank st c \<and>
     bank (dram_addr q) = current_bank st c \<and> row (dram_addr q) = current_row st c"

definition set_current :: "int \<Rightarrow> request_t \<Rightarrow> int \<Rightarrow> mlp_state \<Rightarrow> mlp_state" where
  "set_current c q now st =
     st\<lparr>current_rank := (current_rank st)(c := rank (dram_addr q)),
        current_bank := (current_bank st)(c := bank (dram_addr q)),
        current_row := (current_row st)(c := row (dram_addr q)),
        last_service_time := (last_service_time st)(thread_id q := now)\<rparr>"

definition schedule_mlp :: "params \<Rightarrow> int \<Rightarrow> mlp_state \<Rightarrow> mc \<Rightarrow> (mlp_state \<times> mc) res" where
  "schedule_mlp P c st s =
     (let st = update_priorities P s st;
          st = st\<lparr>drain_writes := (drain_writes st)(c := next_drain 40 20 c s (drain_writes st c))\<rparr>
      in if drain_writes st c
         then bindE (issue_first P (WrPtr c) command_issuable (write_queue s c) s) (\<lambda>(s, _). Inr (st, s))
         else bindE (issue_first P (RdPtr c) (current_match c st) (read_queue s c) s) (\<lambda>(s, found).
           if found \<noteq> None then Inr (st, s)
           else case snd (best_request (\<lambda>q. priorities st (thread_id q)) 0 (read_queue s c) (- 1, None)) of
                  None \<Rightarrow> Inr (st, s)
                | Some i \<Rightarrow> Inr (set_current c (read_queue s c ! i) (CYCLE_VAL s) st, s)))"

interpretation mlp: plain_scheduler schedule_mlp init_mlp
proof
  fix P s c st
  assume ok: "sched_ok P s" and c: "valid_channel P c"
  show "fine P c s (schedule_mlp P c st s)"
    unfolding schedule_mlp_def Let_def
    by (auto intro!: fine_issue_first [OF ok c] split: option.splits simp del: find_first_None)
qed

section \<open>Properties\<close>

lemma update_priorities_frame:
  "drain_writes (update_priorities P s st) = drain_writes st"
  "current_row (update_priorities P s st) = current_row st"
  "current_bank (update_priorities P s st) = current_bank st"
  "current_rank (update_priorities P s st) = current_rank st"
proof -
  let ?g = "\<lambda>st. (drain_writes st, current_row st, current_bank st, current_rank st)"
  have "?g (fold rate_thread is st) = ?g st" for "is" st
    by (rule fold_frame [where g = ?g]) (simp add: rate_thread_def)
  moreover have "?g (fold (age_thread now) is st) = ?g st" for now "is" st
    by (rule fold_frame [where g = ?g]) (simp add: age_thread_def)
  moreover have "?g (calculate_MLP P s st) = ?g st" by (simp add: calculate_MLP_def Let_def)
  ultimately show "drain_writes (update_priorities P s st) = drain_writes st"
    "current_row (update_priorities P s st) = current_row st"
    "current_bank (update_priorities P s st) = current_bank st"
    "current_rank (update_priorities P s st) = current_rank st"
    unfolding update_priorities_def Let_def by simp_all
qed

text \<open>The read the priorities select is never issued in the cycle in which it is selected: outside a
  write drain, when no issuable read is for the current row, the call leaves the controller exactly as
  it was, whatever reads are issuable, and only makes the selected read's row the current one.\<close>

theorem mlp_selects_without_issuing:
  assumes "schedule_mlp P c st s = Inr (st', s')"
    and "\<not> next_drain 40 20 c s (drain_writes st c)"
    and "\<forall>q\<in>set (read_queue s c). \<not> current_match c st q"
  shows "s' = s \<and> (current_row st' c = current_row st c \<and> current_bank st' c = current_bank st c \<and>
      current_rank st' c = current_rank st c \<or>
    (\<exists>q\<in>set (read_queue s c). command_issuable q \<and> current_row st' c = row (dram_addr q) \<and>
       current_bank st' c = bank (dram_addr q) \<and> current_rank st' c = rank (dram_addr q) \<and>
       last_service_time st' (thread_id q) = CYCLE_VAL s))"
proof -
  define st1 where "st1 = update_priorities P s st"
  define st2 where "st2 = st1\<lparr>drain_writes := (drain_writes st1)(c := next_drain 40 20 c s (drain_writes st1 c))\<rparr>"
  have same: "drain_writes st1 = drain_writes st" "current_row st1 = current_row st"
    "current_bank st1 = current_bank st" "current_rank st1 = current_rank st"
    by (simp_all add: st1_def update_priorities_frame)
  have drain: "\<not> drain_writes st2 c" using assms(2) by (simp add: st2_def same)
  have match: "current_match c st2 q = current_match c st q" for q
    by (simp add: current_match_def st2_def same)
  then have "issue_first P (RdPtr c) (current_match c st2) (read_queue s c) s = Inr (s, None)"
    using assms(3) by (simp add: issue_first_None)
  then have run: "(case snd (best_request (\<lambda>q. priorities st2 (thread_id q)) 0 (read_queue s c) (- 1, None)) of
      None \<Rightarrow> Inr (st2, s) | Some i \<Rightarrow> Inr (set_current c (read_queue s c ! i) (CYCLE_VAL s) st2, s)) = (Inr (st', s') :: (mlp_state \<times> mc) res)"
    using assms(1) drain unfolding schedule_mlp_def Let_def st1_def [symmetric] st2_def [symmetric] by simp
  show ?thesis
  proof (cases "snd (best_request (\<lambda>q. priorities st2 (thread_id q)) 0 (read_queue s c) (- 1, None))")
    case None
    then show ?thesis using run by (auto simp: st2_def same)
  next
    case (Some i)
    note best = best_request_Some [OF Some]
    then have "read_queue s c ! i \<in> set (read_queue s c)" by simp
    then show ?thesis using run Some best(2) by (auto simp: set_current_def)
  qed
qed

definition demo_mlp :: mlp_state where
  "demo_mlp = \<lparr>drain_writes = (\<lambda>_. False), priorities = (\<lambda>_. 0), low_mlp = (\<lambda>_. 0), medium_mlp = (\<lambda>_. 0),
     high_mlp = (\<lambda>_. 0), current_row = (\<lambda>_. 0), current_bank = (\<lambda>_. 0), current_rank = (\<lambda>_. 1),
     num_read_request = (\<lambda>_. 0), last_service_time = (\<lambda>_. 0)\<rparr>"

theorem mlp_selects_without_issuing_witness:
  "\<exists>st'. schedule_mlp ddr3_params 0 demo_mlp demo_sched = Inr (st', demo_sched) \<and> command_issuable demo_read"
proof -
  obtain st' s' where run: "schedule_mlp ddr3_params 0 demo_mlp demo_sched = Inr (st', s')"
    using mlp.schedule_fine [OF demo_sched(2) demo_valid(1), of demo_mlp] by (auto simp: fine_def)
  have "\<not> current_match 0 demo_mlp demo_read"
    by (simp add: current_match_def demo_mlp_def demo_sched_fields)
  then have "s' = demo_sched"
    using mlp_selects_without_issuing [OF run] by (auto simp: demo_reads demo_sched_fields demo_mlp_def)
  then show ?thesis using run demo_sched_fields(2) by simp
qed

end
