(* ===== verification/Refresh_Policy.thy ===== *)
theory Refresh_Policy
  imports Fcfs
begin

text \<open>
  \<open>usimm-v1.3/src/partA/scheduler-refr.c\<close>: first come, first served, with refreshes issued ahead
  of their deadline when the channel has no reads. The policy counts its refreshes per rank in
  \<open>refreshes\<close> and resets the counters at the multiples of \<open>8 * T_REFI\<close>; that this bounds the
  controller's own count by eight is its private invariant, and what the interface demands of a
  policy that refreshes.
\<close>

record refr_state = drain_state +
  refreshes :: "int arr2"
  num_aggr_refresh :: int

definition init_refr :: "params \<Rightarrow> refr_state \<Rightarrow> bool" where
  "init_refr P st \<longleftrightarrow> drain_writes st = (\<lambda>_. False) \<and> num_aggr_refresh st = 0 \<and>
     (\<forall>i j. 0 \<le> i \<and> i < MAX_NUM_CHANNELS \<longrightarrow> 0 \<le> j \<and> j < MAX_NUM_RANKS \<longrightarrow> refreshes st i j = 0)"

definition reset_refreshes :: "params \<Rightarrow> int \<Rightarrow> refr_state \<Rightarrow> refr_state" where
  "reset_refreshes P c st =
     st\<lparr>refreshes := fold (\<lambda>i f. upd2 f c i 0) (below (NUM_RANKS P)) (refreshes st)\<rparr>"

text \<open>The loop over the ranks; the result is \<open>None\<close> when it ends without a \<open>return\<close>.\<close>

fun refresh_first :: "params \<Rightarrow> int \<Rightarrow> int list \<Rightarrow> refr_state \<Rightarrow> mc \<Rightarrow> (refr_state \<times> mc) option" where
  "refresh_first P c [] st s = None"
| "refresh_first P c (i # is) st s =
     (if is_refresh_allowed P c i s \<and> refreshes st c i < 8
      then Some (st\<lparr>num_aggr_refresh := num_aggr_refresh st + 1,
                    refreshes := upd2 (refreshes st) c i (refreshes st c i + 1)\<rparr>,
                 fst (issue_refresh_command P c i s))
      else refresh_first P c is st s)"

text \<open>The reads, at the end of \<open>schedule\<close>.\<close>

definition refr_reads :: "params \<Rightarrow> int \<Rightarrow> refr_state \<Rightarrow> mc \<Rightarrow> (refr_state \<times> mc) res" where
  "refr_reads P c st s =
     (if \<not> drain_writes st c
      then bindE (issue_first P (RdPtr c) command_issuable (read_queue s c) s) (\<lambda>(s, _). Inr (st, s))
      else Inr (st, s))"

definition refr_rest :: "params \<Rightarrow> int \<Rightarrow> refr_state \<Rightarrow> mc \<Rightarrow> (refr_state \<times> mc) res" where
  "refr_rest P c st s =
     (if read_queue_length s c = 0
      then case refresh_first P c (below (NUM_RANKS P)) st s of
             Some x \<Rightarrow> Inr x
           | None \<Rightarrow> refr_reads P c st s
      else refr_reads P c st s)"

text \<open>A write drain that issues something ends the call; one that does not goes on.\<close>

definition refr_serve :: "params \<Rightarrow> int \<Rightarrow> refr_state \<Rightarrow> mc \<Rightarrow> (refr_state \<times> mc) res" where
  "refr_serve P c st s =
     (if drain_writes st c
      then bindE (issue_first P (WrPtr c) command_issuable (write_queue s c) s)
             (\<lambda>(s, found). if found \<noteq> None then Inr (st, s) else refr_rest P c st s)
      else refr_rest P c st s)"

definition schedule_refr :: "params \<Rightarrow> int \<Rightarrow> refr_state \<Rightarrow> mc \<Rightarrow> (refr_state \<times> mc) res" where
  "schedule_refr P c st s =
     bindE (modE (CYCLE_VAL s) (8 * T_REFI P)) (\<lambda>k.
       let st = (if k = 0 then reset_refreshes P c st else st);
           st = st\<lparr>drain_writes := (drain_writes st)(c := next_drain 40 20 c s (drain_writes st c))\<rparr>
       in refr_serve P c st s)"

section \<open>The contract\<close>

definition refr_idle :: "params \<Rightarrow> int \<Rightarrow> refr_state \<Rightarrow> int arr1 \<Rightarrow> bool" where
  "refr_idle P c st n \<longleftrightarrow>
     (\<forall>r. valid_rank P r \<longrightarrow> 0 \<le> refreshes st c r \<and> n r \<le> refreshes st c r \<and> refreshes st c r \<le> 8)"

definition refr_ready :: "params \<Rightarrow> int \<Rightarrow> int \<Rightarrow> refr_state \<Rightarrow> int arr1 \<Rightarrow> bool" where
  "refr_ready P t c st n \<longleftrightarrow> refr_idle P c st n \<and>
     (8 * T_REFI P dvd t \<longrightarrow> (\<forall>r. valid_rank P r \<longrightarrow> n r = 0))"

definition refr_post :: "params \<Rightarrow> int \<Rightarrow> mc \<Rightarrow> (refr_state \<times> mc) res \<Rightarrow> bool" where
  "refr_post P c s R \<longleftrightarrow>
     (\<exists>st' s'. R = Inr (st', s') \<and> reaches P c s s' \<and> refr_idle P c st' (num_issued_refreshes s' c))"

lemma refresh_first_Some:
  assumes "refresh_first P c is st s = Some (st', s')" and "\<forall>i\<in>set is. valid_rank P i"
    and idle: "refr_idle P c st (num_issued_refreshes s c)"
  shows "reaches P c s s' \<and> refr_idle P c st' (num_issued_refreshes s' c)"
  using assms(1,2)
proof (induction "is")
  case (Cons i "is")
  show ?case
  proof (cases "is_refresh_allowed P c i s \<and> refreshes st c i < 8")
    case True
    then have step: "s' = fst (issue_refresh_command P c i s)"
      "st' = st\<lparr>num_aggr_refresh := num_aggr_refresh st + 1,
         refreshes := upd2 (refreshes st) c i (refreshes st c i + 1)\<rparr>" using Cons.prems(1) by simp_all
    have "num_issued_refreshes s c i \<le> refreshes st c i"
      using idle Cons.prems(2) by (simp add: refr_idle_def)
    then have "reaches P c s s'"
      unfolding step using Cons.prems(2) True by (intro issue_refresh_reaches) auto
    moreover have "num_issued_refreshes s' c r =
        (if r = i then num_issued_refreshes s c i + 1 else num_issued_refreshes s c r)" for r
      using True by (simp add: step issue_refresh_command_def Let_def)
    ultimately show ?thesis using idle True by (auto simp: refr_idle_def step)
  next
    case False
    then show ?thesis using Cons by (auto split: if_splits)
  qed
qed simp

lemma refr_reads_post:
  assumes "sched_ok P s" and "valid_channel P c" and "refr_idle P c st (num_issued_refreshes s c)"
  shows "refr_post P c s (refr_reads P c st s)"
proof (cases "drain_writes st c")
  case False
  obtain s' found where run: "issue_first P (RdPtr c) command_issuable (read_queue s c) s = Inr (s', found)"
    and r: "reaches P c s s'"
    using issue_first_reaches [OF assms(1,2) queue_of_queues(1)] by blast
  then show ?thesis using False assms(3) issue_first_counts [OF run]
    by (auto simp: refr_reads_def refr_post_def)
qed (use assms(3) in \<open>auto simp: refr_reads_def refr_post_def\<close>)

lemma refr_rest_post:
  assumes "sched_ok P s" and "valid_channel P c" and "refr_idle P c st (num_issued_refreshes s c)"
  shows "refr_post P c s (refr_rest P c st s)"
proof -
  have "refr_post P c s (Inr x)" if "refresh_first P c (below (NUM_RANKS P)) st s = Some x" for x
    using refresh_first_Some [of P c "below (NUM_RANKS P)" st s "fst x" "snd x"] that assms(3)
    by (cases x) (auto simp: refr_post_def valid_rank_def)
  then show ?thesis using refr_reads_post [OF assms] by (auto simp: refr_rest_def split: option.splits)
qed

lemma reset_idle:
  assumes "\<forall>r. valid_rank P r \<longrightarrow> n r = 0"
  shows "refr_idle P c (reset_refreshes P c st) n"
proof -
  have "fold (\<lambda>i f. upd2 f c i 0) is f c r = (if r \<in> set is then 0 else f c r)" for "is" r and f :: "int arr2"
    by (induction "is" arbitrary: f) auto
  then show ?thesis using assms by (simp add: refr_idle_def reset_refreshes_def valid_rank_def)
qed

lemma refr_serve_post:
  assumes ok: "sched_ok P s" and c: "valid_channel P c" and idle: "refr_idle P c st (num_issued_refreshes s c)"
  shows "refr_post P c s (refr_serve P c st s)"
proof -
  note rest = refr_rest_post [OF assms]
  obtain s' found where first: "issue_first P (WrPtr c) command_issuable (write_queue s c) s = Inr (s', found)"
    and r: "reaches P c s s'"
    using issue_first_reaches [OF ok c queue_of_queues(2)] by blast
  show ?thesis
  proof (cases found)
    case None
    then have "s' = s" using first by (simp add: issue_first_None)
    then show ?thesis using first rest None by (simp add: refr_serve_def)
  next
    case (Some q)
    then show ?thesis using first r idle issue_first_counts [OF first] rest
      by (auto simp: refr_serve_def refr_post_def)
  qed
qed

lemma schedule_refr_post:
  assumes ok: "sched_ok P s" and c: "valid_channel P c"
    and ready: "refr_ready P (CYCLE_VAL s) c st (num_issued_refreshes s c)"
  shows "refr_post P c s (schedule_refr P c st s)"
proof -
  have T: "8 * T_REFI P > 0" using ok by (auto simp: sched_ok_def wf_params_def wf_timing_def)
  have pos: "0 \<le> CYCLE_VAL s" using ok by (auto simp: sched_ok_def sched_inv_def)
  define k where "k = CYCLE_VAL s smod (8 * T_REFI P)"
  define st0 where "st0 = (if k = 0 then reset_refreshes P c st else st)"
  define st1 where "st1 = st0\<lparr>drain_writes := (drain_writes st0)(c := next_drain 40 20 c s (drain_writes st0 c))\<rparr>"
  have "k = 0 \<Longrightarrow> 8 * T_REFI P dvd CYCLE_VAL s" using T pos by (auto simp: k_def smod_nonneg)
  then have "refr_idle P c st1 (num_issued_refreshes s c)"
    using ready reset_idle [of P "num_issued_refreshes s c" c st]
    by (auto simp: refr_ready_def st1_def st0_def refr_idle_def)
  moreover have "modE (CYCLE_VAL s) (8 * T_REFI P) = Inr k" using T by (simp add: modE_def k_def)
  then have "schedule_refr P c st s = refr_serve P c st1 s"
    unfolding schedule_refr_def Let_def st1_def st0_def by simp
  ultimately show ?thesis using refr_serve_post [OF ok c] by simp
qed

lemma refresh_first_other:
  "refresh_first P c is st s = Some (st', s') \<Longrightarrow> c' \<noteq> c \<Longrightarrow> refreshes st' c' = refreshes st c'"
  by (induction "is") (auto simp: fun_eq_iff split: if_splits)

lemma refr_rest_other:
  assumes "refr_rest P c st s = Inr (st', s')" and "c' \<noteq> c"
  shows "refreshes st' c' = refreshes st c'"
proof -
  have "refr_reads P c st s = Inr (st', s') \<Longrightarrow> st' = st" by (auto simp: refr_reads_def split: if_splits)
  then show ?thesis using assms refresh_first_other [OF _ assms(2)]
    by (auto simp: refr_rest_def split: if_splits option.splits)
qed

lemma refr_serve_other:
  assumes "refr_serve P c st s = Inr (st', s')" and "c' \<noteq> c"
  shows "refreshes st' c' = refreshes st c'"
  using assms refr_rest_other [OF _ assms(2)] by (auto simp: refr_serve_def split: if_splits)

lemma reset_other:
  assumes "c' \<noteq> c"
  shows "refreshes (reset_refreshes P c st) c' = refreshes st c'"
proof -
  have "fold (\<lambda>i f. upd2 f c i 0) is f c' = f c'" for "is" and f :: "int arr2"
    by (rule fold_frame [where g = "\<lambda>f. f c'"]) (simp add: fun_eq_iff assms)
  then show ?thesis by (simp add: reset_refreshes_def)
qed

lemma schedule_refr_other:
  assumes "schedule_refr P c st s = Inr (st', s')" and "c' \<noteq> c"
  shows "refreshes st' c' = refreshes st c'"
  using assms(1) refr_serve_other [OF _ assms(2)] reset_other [OF assms(2), of P st]
  by (fastforce simp: schedule_refr_def Let_def)

interpretation refr: scheduler schedule_refr init_refr refr_idle refr_ready
proof (unfold_locales, goal_cases)
  case (1 P st c n)
  then have "0 \<le> c" "c < MAX_NUM_CHANNELS" "NUM_RANKS P \<le> MAX_NUM_RANKS"
    by (auto simp: wf_params_def wf_geometry_def valid_channel_def)
  then show ?case using 1 by (auto simp: init_refr_def refr_idle_def valid_rank_def)
next
  case (2 P c st n n' t)
  then show ?case by (auto simp: refr_idle_def refr_ready_def)
next
  case (3 P s c st)
  then show ?case using schedule_refr_post by (simp add: refr_post_def)
next
  case (4 P c st s st' s' c' n t)
  then show ?case using schedule_refr_other [of P c st s st' s' c'] by (simp add: refr_idle_def refr_ready_def)
qed

section \<open>Properties\<close>

text \<open>At most eight refreshes per rank and window: in every run of the main loop with the
  refreshing policy, the refreshes the controller has counted in the current \<open>8 * T_REFI\<close> window
  never exceed those the policy has counted, and the policy stops at eight. This is what keeps the
  countdown of the forced-refresh deadline from running past zero.\<close>

theorem refr_at_most_eight:
  assumes "sim_with schedule_refr init_refr P st s" and "wf_params P"
    and "valid_channel P c" and "valid_rank P r"
  shows "num_issued_refreshes s c r \<le> refreshes st c r \<and> refreshes st c r \<le> 8"
  using refr.run_sim_idle [OF assms(1,2)] assms(3,4) by (auto simp: refr_idle_def)

definition demo_refr :: refr_state where
  "demo_refr = \<lparr>drain_writes = (\<lambda>_. False), refreshes = (\<lambda>_ _. 0), num_aggr_refresh = 0\<rparr>"

lemma demo_refr_run:
  "\<exists>st s. sim_with schedule_refr init_refr ddr3_params st s \<and> CYCLE_VAL s = 1"
proof -
  have start: "sim_with schedule_refr init_refr ddr3_params demo_refr demo_start"
    unfolding demo_start_def by (rule sim_with.start) (simp add: init_refr_def demo_refr_def)
  have bound: "CYCLE_VAL demo_loaded + 8 * T_REFI ddr3_params < 2 ^ 31"
    by (simp add: demo_loaded_fields ddr3_params_def)
  obtain st s where run: "memory_phase schedule_refr ddr3_params demo_refr demo_loaded = Inr (st, s)"
    using refr.run_progress [OF start wf_params_ddr3 demo_loaded_env bound] by blast
  have "CYCLE_VAL s = 0"
    using refr.memory_phase_clock [OF start wf_params_ddr3 demo_loaded_env bound run] by (simp add: demo_loaded_fields)
  then show ?thesis
    using sim_with.iteration [OF start demo_loaded_env bound run rtranclp.rtrancl_refl] by fastforce
qed

theorem refr_at_most_eight_witness:
  "\<exists>st s. sim_with schedule_refr init_refr ddr3_params st s \<and> CYCLE_VAL s = 1 \<and>
     num_issued_refreshes s 0 0 \<le> refreshes st 0 0 \<and> refreshes st 0 0 \<le> 8"
  using demo_refr_run refr_at_most_eight [OF _ wf_params_ddr3 demo_valid(1,2)] by blast

end
