(* ===== verification/Powerdown_Policy.thy ===== *)
theory Powerdown_Policy
  imports Fcfs
begin

text \<open>
  \<open>usimm-v1.3/src/partA/scheduler-pwrdn.c\<close>: first come, first served; every \<open>N_value\<close> cycles a
  rank that can be powered down is sent to fast-exit power-down. \<open>pwrdn\<close> holds the cycle in which
  the policy powered a rank down, 0 standing for a rank that is up, and \<open>timedn\<close> the time spent
  powered down.
\<close>

record pwrdn_state = drain_state +
  pwrdn :: "int arr2"
  timedn :: "int arr2"

definition init_pwrdn :: "params \<Rightarrow> pwrdn_state \<Rightarrow> bool" where
  "init_pwrdn P st \<longleftrightarrow> drain_writes st = (\<lambda>_. False) \<and>
     (\<forall>i j. 0 \<le> i \<and> i < MAX_NUM_CHANNELS \<longrightarrow> 0 \<le> j \<and> j < MAX_NUM_RANKS \<longrightarrow>
        pwrdn st i j = 0 \<and> timedn st i j = 0)"

text \<open>The bookkeeping when a rank is woken up.\<close>

definition wake :: "int \<Rightarrow> int \<Rightarrow> int \<Rightarrow> pwrdn_state \<Rightarrow> pwrdn_state" where
  "wake now c r st =
     (if pwrdn st c r \<noteq> 0
      then st\<lparr>timedn := upd2 (timedn st) c r (timedn st c r + now - pwrdn st c r),
              pwrdn := upd2 (pwrdn st) c r 0\<rparr>
      else st)"

text \<open>The scan of the active queue: a request that is issued wakes its rank.\<close>

definition pwrdn_serve :: "params \<Rightarrow> (nat \<Rightarrow> req_ptr) \<Rightarrow> request_t list \<Rightarrow> pwrdn_state \<Rightarrow> mc \<Rightarrow> (pwrdn_state \<times> mc) res" where
  "pwrdn_serve P ptr qs st s =
     (case find_first command_issuable qs of
        None \<Rightarrow> Inr (st, s)
      | Some i \<Rightarrow>
          bindE (issue_request_command P (ptr i) s) (\<lambda>(s, ok).
            Inr (if ok then wake (CYCLE_VAL s) (channel (dram_addr (qs ! i))) (rank (dram_addr (qs ! i))) st
                 else st, s)))"

text \<open>The loop over the ranks, which returns after the first power-down.\<close>

fun power_down_first :: "params \<Rightarrow> int \<Rightarrow> int list \<Rightarrow> pwrdn_state \<Rightarrow> mc \<Rightarrow> pwrdn_state \<times> mc" where
  "power_down_first P c [] st s = (st, s)"
| "power_down_first P c (i # is) st s =
     (if pwrdn st c i = 0 then
        if is_powerdown_fast_allowed P c i s then
          (let (s, ok) = issue_powerdown_command P c i PWR_DN_FAST_CMD s
           in if ok then (st\<lparr>pwrdn := upd2 (pwrdn st) c i (CYCLE_VAL s)\<rparr>, s)
              else power_down_first P c is st s)
        else power_down_first P c is st s
      else power_down_first P c is st s)"

definition pwrdn_idle_ranks :: "int \<Rightarrow> params \<Rightarrow> int \<Rightarrow> pwrdn_state \<Rightarrow> mc \<Rightarrow> (pwrdn_state \<times> mc) res" where
  "pwrdn_idle_ranks N_value P c st s =
     bindE (modE (CYCLE_VAL s) N_value) (\<lambda>k.
       Inr (if k = 0 then power_down_first P c (below (NUM_RANKS P)) st s else (st, s)))"

definition schedule_pwrdn :: "int \<Rightarrow> params \<Rightarrow> int \<Rightarrow> pwrdn_state \<Rightarrow> mc \<Rightarrow> (pwrdn_state \<times> mc) res" where
  "schedule_pwrdn N_value P c st s =
     bindE (modE (CYCLE_VAL s) (8 * T_REFI P)) (\<lambda>k.
       let st = (if k = 0 then fold (wake (CYCLE_VAL s) c) (below (NUM_RANKS P)) st else st);
           st = st\<lparr>drain_writes := (drain_writes st)(c := next_drain 40 20 c s (drain_writes st c))\<rparr>
       in if drain_writes st c
          then bindE (pwrdn_serve P (WrPtr c) (write_queue s c) st s)
                 (\<lambda>(st, s). pwrdn_idle_ranks N_value P c st s)
          else bindE (pwrdn_serve P (RdPtr c) (read_queue s c) st s)
                 (\<lambda>(st, s). pwrdn_idle_ranks N_value P c st s))"

section \<open>The contract\<close>

lemma power_down_first_reaches:
  assumes "\<forall>i\<in>set is. valid_rank P i"
  shows "reaches P c s (snd (power_down_first P c is st s))"
  using assms
proof (induction "is" arbitrary: s)
  case (Cons i "is")
  obtain s1 ok where run: "issue_powerdown_command P c i PWR_DN_FAST_CMD s = (s1, ok)" by fastforce
  have r: "reaches P c s s1"
    using issue_powerdown_reaches [of P i c s PWR_DN_FAST_CMD] Cons.prems by (simp add: run)
  then show ?case using Cons run reaches_trans [OF r Cons.IH] by auto
qed simp

lemma pwrdn_idle_ranks_fine:
  assumes "N \<noteq> 0"
  shows "fine P c s (pwrdn_idle_ranks N P c st s)"
proof -
  have "reaches P c s (snd (power_down_first P c (below (NUM_RANKS P)) st s))"
    by (rule power_down_first_reaches) (auto simp: valid_rank_def)
  then show ?thesis using assms
    by (cases "power_down_first P c (below (NUM_RANKS P)) st s") (auto simp: pwrdn_idle_ranks_def modE_def fine_def)
qed

lemma pwrdn_serve_returns:
  assumes "sched_ok P s" and "valid_channel P c" and "queue_of s c ptr qs"
  shows "\<exists>st' s'. pwrdn_serve P ptr qs st s = Inr (st', s') \<and> reaches P c s s'"
proof (cases "find_first command_issuable qs")
  case (Some i)
  obtain s' ok where "issue_request_command P (ptr i) s = Inr (s', ok)" "reaches P c s s'"
    using issue_request_reaches [OF assms(1,2) queue_of_get(1,2) [OF assms(3)]] find_first_SomeD(1) [OF Some] by blast
  then show ?thesis using Some by (simp add: pwrdn_serve_def)
qed (simp add: pwrdn_serve_def del: find_first_None)

text \<open>\<open>N_value\<close> comes from the command line; zero makes the first call of \<open>schedule\<close> trap.\<close>

locale powerdown_period =
  fixes N :: int
  assumes nonzero: "N \<noteq> 0"

sublocale powerdown_period \<subseteq> plain_scheduler "schedule_pwrdn N" init_pwrdn
proof
  fix P s c st
  assume ok: "sched_ok P s" and c: "valid_channel P c"
  have T: "8 * T_REFI P \<noteq> 0" using ok by (auto simp: sched_ok_def wf_params_def wf_timing_def)
  have "fine P c s (bindE (pwrdn_serve P ptr qs st1 s) (\<lambda>(st, s). pwrdn_idle_ranks N P c st s))"
    if q: "queue_of s c ptr qs" for ptr qs st1
  proof -
    obtain st' s' where run: "pwrdn_serve P ptr qs st1 s = Inr (st', s')" and r: "reaches P c s s'"
      using pwrdn_serve_returns [OF ok c q] by blast
    show ?thesis
      using run reaches_trans [OF r] pwrdn_idle_ranks_fine [OF nonzero, of P c s' st'] by (auto simp: fine_def)
  qed
  then show "fine P c s (schedule_pwrdn N P c st s)"
    using T by (simp add: schedule_pwrdn_def modE_def Let_def)
qed

interpretation pwrdn: powerdown_period 100
  by unfold_locales simp

section \<open>Properties\<close>

text \<open>What one pass of the rank loop does to the marks.\<close>

lemma powerdown_effect:
  assumes "issue_powerdown_command P c i PWR_DN_FAST_CMD s = (s', True)"
  shows "CYCLE_VAL s' = CYCLE_VAL s" "valid_bank P b \<Longrightarrow> down (dram_state s' c i b)"
proof -
  let ?t = "fold (powerdown_iteration P c i PWR_DN_FAST_CMD) (below (NUM_BANKS P)) s"
  have s': "s' = issued c ?t" and allowed: "is_powerdown_fast_allowed P c i s"
    using assms by (auto simp: issue_powerdown_command_def split: if_splits)
  have "CYCLE_VAL ?t = CYCLE_VAL s"
    by (rule fold_frame) (simp add: powerdown_iteration_def Let_def)
  then show "CYCLE_VAL s' = CYCLE_VAL s" by (simp add: s' issued_def)
  show "down (dram_state s' c i b)" if "valid_bank P b"
  proof -
    have "b \<in> set (below (NUM_BANKS P))" using that by (simp add: valid_bank_def)
    then have "\<not> down (dram_state s c i b)"
      using allowed by (fastforce simp: is_powerdown_fast_allowed_def all_banks_def list_all_iff down_def
          simp del: set_upto split: if_splits)
    then show ?thesis using that by (simp add: s' issued_def powerdown_loop)
  qed
qed

lemma wake_marks: "pwrdn (wake now c r st) c' r' \<in> {0, pwrdn st c' r'}"
  by (simp add: wake_def)

lemma wakes_marks: "pwrdn (fold (wake now c) rs st) c' r' \<in> {0, pwrdn st c' r'}"
  by (rule fold_rel [where R = "\<lambda>st st'. pwrdn st' c' r' \<in> {0, pwrdn st c' r'}"])
    (use wake_marks in auto)

lemma pwrdn_serve_marks:
  assumes "pwrdn_serve P ptr qs st s = Inr (st', s')"
  shows "pwrdn st' c r \<in> {0, pwrdn st c r}" "CYCLE_VAL s' = CYCLE_VAL s"
proof -
  have clock: "issue_request_command P p s = Inr (u, ok) \<Longrightarrow> CYCLE_VAL u = CYCLE_VAL s" for p u ok
    by (rule issue_request_command_clock)
  show "pwrdn st' c r \<in> {0, pwrdn st c r}"
    using assms wake_marks [where st = st and c' = c and r' = r]
    by (auto simp: pwrdn_serve_def split: option.splits if_splits)
  show "CYCLE_VAL s' = CYCLE_VAL s"
    using assms clock by (auto simp: pwrdn_serve_def split: option.splits)
qed

lemma power_down_first_marks:
  assumes "power_down_first P c is st s = (st', s')" and "pwrdn st' c r \<noteq> pwrdn st c r"
  shows "pwrdn st' c r = CYCLE_VAL s \<and> (\<forall>b. valid_bank P b \<longrightarrow> down (dram_state s' c r b))"
  using assms
proof (induction "is" arbitrary: s)
  case (Cons i "is")
  obtain s1 ok where run: "issue_powerdown_command P c i PWR_DN_FAST_CMD s = (s1, ok)" by fastforce
  have same: "\<not> ok \<Longrightarrow> s1 = s" using run by (auto simp: issue_powerdown_command_def split: if_splits)
  show ?case
  proof (cases "pwrdn st c i = 0 \<and> is_powerdown_fast_allowed P c i s \<and> ok")
    case True
    then show ?thesis using Cons.prems run powerdown_effect [of P c i s s1] by (auto split: if_splits)
  next
    case False
    then have "power_down_first P c is st s = (st', s')"
      using Cons.prems(1) run same by (auto split: if_splits)
    then show ?thesis using Cons by blast
  qed
qed simp

lemma pwrdn_step:
  assumes "schedule_pwrdn N P c st s = Inr (st', s')"
  shows "\<exists>st1 ptr qs st2 s2. pwrdn st1 c r \<in> {0, pwrdn st c r} \<and>
    pwrdn_serve P ptr qs st1 s = Inr (st2, s2) \<and> pwrdn_idle_ranks N P c st2 s2 = Inr (st', s')"
proof -
  obtain k where "modE (CYCLE_VAL s) (8 * T_REFI P) = Inr k"
    using assms by (auto simp: schedule_pwrdn_def)
  define st0 where "st0 = (if k = 0 then fold (wake (CYCLE_VAL s) c) (below (NUM_RANKS P)) st else st)"
  define st1 where "st1 = st0\<lparr>drain_writes := (drain_writes st0)(c := next_drain 40 20 c s (drain_writes st0 c))\<rparr>"
  have "pwrdn st1 c r \<in> {0, pwrdn st c r}"
    using wakes_marks [of "CYCLE_VAL s" c "below (NUM_RANKS P)" st c r] by (auto simp: st1_def st0_def)
  moreover have "\<exists>ptr qs st2 s2. pwrdn_serve P ptr qs st1 s = Inr (st2, s2) \<and>
      pwrdn_idle_ranks N P c st2 s2 = Inr (st', s')"
    using assms unfolding schedule_pwrdn_def \<open>modE _ _ = Inr k\<close> Let_def st1_def st0_def
    by (auto split: if_splits)
  ultimately show ?thesis by blast
qed

text \<open>The power-down marks are truthful when they are made: a rank the policy newly records as
  powered down in a call is recorded with the current cycle, a multiple of the configured period,
  and all its banks are in a power-down state when the call returns.\<close>

theorem pwrdn_marks_down:
  assumes "schedule_pwrdn N P c st s = Inr (st', s')"
    and "pwrdn st' c r \<notin> {0, pwrdn st c r}"
  shows "pwrdn st' c r = CYCLE_VAL s \<and> CYCLE_VAL s smod N = 0 \<and>
    (\<forall>b. valid_bank P b \<longrightarrow> down (dram_state s' c r b))"
proof -
  obtain st1 ptr qs st2 s2 where st1: "pwrdn st1 c r \<in> {0, pwrdn st c r}"
    and serve: "pwrdn_serve P ptr qs st1 s = Inr (st2, s2)"
    and last: "pwrdn_idle_ranks N P c st2 s2 = Inr (st', s')"
    using pwrdn_step [OF assms(1)] by blast
  have st2: "pwrdn st2 c r \<in> {0, pwrdn st c r}" and clock: "CYCLE_VAL s2 = CYCLE_VAL s"
    using pwrdn_serve_marks(1) [OF serve, of c r] pwrdn_serve_marks(2) [OF serve] st1 by auto
  have moved: "pwrdn st' c r \<noteq> pwrdn st2 c r" using assms(2) st2 by auto
  then have "CYCLE_VAL s smod N = 0" "power_down_first P c (below (NUM_RANKS P)) st2 s2 = (st', s')"
    using last clock by (auto simp: pwrdn_idle_ranks_def modE_def split: if_splits)
  then show ?thesis using power_down_first_marks [OF _ moved] clock by auto
qed

text \<open>An idle channel at cycle 100.\<close>

definition demo_idle :: mc where
  "demo_idle = demo_start\<lparr>CYCLE_VAL := 100\<rparr>"

definition demo_pwrdn :: pwrdn_state where
  "demo_pwrdn = \<lparr>drain_writes = (\<lambda>_. False), pwrdn = (\<lambda>_ _. 0), timedn = (\<lambda>_ _. 0)\<rparr>"

lemma demo_idle_fields: "CYCLE_VAL demo_idle = 100" "read_queue demo_idle 0 = []" "write_queue demo_idle 0 = []"
  "read_queue_length demo_idle 0 = 0" "\<not> command_issued_current_cycle demo_idle 0"
  by (simp_all add: demo_idle_def demo_start_def init_memory_controller_vars_def zero_mc_def fill1_def Let_def)

lemma demo_idle_allowed: "is_powerdown_fast_allowed ddr3_params 0 0 demo_idle"
proof -
  have "state (dram_state demo_start 0 0 b) = IDLE \<and> next_powerdown (dram_state demo_start 0 0 b) \<le> 0"
    if "b \<in> set (below (NUM_BANKS ddr3_params))" for b
    using that by (simp add: demo_start_def init_memory_controller_vars_def zero_mc_def zero_bank_def Let_def
        ddr3_params_def)
  moreover have "below (NUM_BANKS ddr3_params) \<noteq> []" by (simp add: ddr3_params_def)
  moreover have "T_PD_MIN ddr3_params = 16" "T_XP ddr3_params = 20" by (simp_all add: ddr3_params_def)
  ultimately show ?thesis
    using demo_idle_fields(5) demo_start_fields
    by (force simp: is_powerdown_fast_allowed_def all_banks_def list_all_iff demo_idle_def simp del: set_upto)
qed

theorem pwrdn_marks_down_witness:
  "\<exists>st' s'. schedule_pwrdn 100 ddr3_params 0 demo_pwrdn demo_idle = Inr (st', s') \<and>
     pwrdn st' 0 0 = 100 \<and> (\<forall>b. valid_bank ddr3_params b \<longrightarrow> down (dram_state s' 0 0 b))"
proof -
  obtain s' where down: "issue_powerdown_command ddr3_params 0 0 PWR_DN_FAST_CMD demo_idle = (s', True)"
    using demo_idle_allowed demo_idle_fields(5) by (auto simp: issue_powerdown_command_def)
  have ranks: "below (NUM_RANKS ddr3_params) = [0, 1]" by (simp add: ddr3_params_def upto.simps)
  have T: "T_REFI ddr3_params = 24960" by (simp add: ddr3_params_def)
  define st where "st = demo_pwrdn\<lparr>drain_writes := (\<lambda>_. False)(0 := True), pwrdn := upd2 (\<lambda>_ _. 0) 0 0 100\<rparr>"
  have run: "schedule_pwrdn 100 ddr3_params 0 demo_pwrdn demo_idle = Inr (st, s')"
    using demo_idle_allowed down powerdown_effect(1) [OF down]
    by (simp add: schedule_pwrdn_def modE_def demo_idle_fields T Let_def next_drain_def demo_pwrdn_def
        pwrdn_serve_def pwrdn_idle_ranks_def ranks st_def smod_nonneg)
  have "pwrdn st 0 0 \<notin> {0, pwrdn demo_pwrdn 0 0}" by (simp add: st_def demo_pwrdn_def)
  from pwrdn_marks_down [OF run this] show ?thesis using run by (auto simp: demo_idle_fields)
qed

end
