(* ===== verification/Main_Loop.thy ===== *)
theory Main_Loop
  imports Rob Fullmod Mlp Refresh_Policy Powerdown_Policy
begin

text \<open>
  The executions of \<open>main\<close>: the iterations of its loop from the first trace lines on. They are
  shown to be executions of \<open>sim_with\<close>, so that all that is proved of the controller and the
  policies holds of the program as it runs; and the processor-side invariants are shown to
  survive the memory phase, whatever policy is linked.
\<close>

section \<open>Executions\<close>

definition fresh_rob :: "robstructure \<Rightarrow> bool" where
  "fresh_rob b \<longleftrightarrow> head b = 0 \<and> tail b = 0 \<and> inflight b = 0 \<and> \<not> tracedone b"

text \<open>What \<open>main\<close> has initialised before it reads the traces; only the entries of existing cores are allocated.\<close>

definition fresh_cores :: "params \<Rightarrow> cpu \<Rightarrow> robstructure arr1 \<Rightarrow> bool" where
  "fresh_cores P u rob \<longleftrightarrow> num_done u = 0 \<and> \<not> expt_done u \<and>
     (\<forall>t. 0 \<le> t \<and> t < NUMCORES P \<longrightarrow>
        fresh_rob (rob t) \<and> committed u t = 0 \<and> fetched u t = 0 \<and> time_done u t = 0)"

inductive main_run ::
  "(params \<Rightarrow> int \<Rightarrow> 'st \<Rightarrow> mc \<Rightarrow> ('st \<times> mc) res) \<Rightarrow> (params \<Rightarrow> 'st \<Rightarrow> bool) \<Rightarrow> params \<Rightarrow>
     cpu \<Rightarrow> 'st \<Rightarrow> mc \<Rightarrow> bool"
  for schedule init P where
  start: "init P st \<Longrightarrow> fresh_cores P u rob \<Longrightarrow>
     read_first_lines P (u, init_memory_controller_vars P (zero_mc rob)) = Inr (u', s) \<Longrightarrow>
     main_run schedule init P u' st s"
| step: "main_run schedule init P u st s \<Longrightarrow> \<not> expt_done u \<Longrightarrow> CYCLE_VAL s + 8 * T_REFI P < 2 ^ 31 \<Longrightarrow>
     iteration schedule P (u, st, s) = Inr (u', st', s') \<Longrightarrow> main_run schedule init P u' st' s'"

section \<open>The processor as an environment of the controller\<close>

lemma env_rob: "(env_step P)\<^sup>*\<^sup>* s (upd_rob t f s)"
  unfolding upd_rob_def by (rule r_into_rtranclp) (rule env_step.rob)

lemma env_trans: "(env_step P)\<^sup>*\<^sup>* s t \<Longrightarrow> (env_step P)\<^sup>*\<^sup>* t u \<Longrightarrow> (env_step P)\<^sup>*\<^sup>* s u"
  by (rule rtranclp_trans)

lemma env_stats: "(env_step P)\<^sup>*\<^sup>* s (upd_stats f s)"
  unfolding upd_stats_def by (rule r_into_rtranclp) (rule env_step.stats)

lemma env_read: "(env_step P)\<^sup>*\<^sup>* s (insert_read P a t n i pc s)"
  by (rule r_into_rtranclp) (rule env_step.insert_read)

lemma env_write: "(env_step P)\<^sup>*\<^sup>* s (insert_write P a t n i s)"
  by (rule r_into_rtranclp) (rule env_step.insert_write)

lemma env_merges: "(env_step P)\<^sup>*\<^sup>* s (fst (read_matches_write_or_read_queue P a s))"
  "(env_step P)\<^sup>*\<^sup>* s (fst (write_exists_in_write_queue P a s))"
  using env_stats by (auto simp: read_matches_write_or_read_queue_def write_exists_in_write_queue_def Let_def)

lemma env_push: "(env_step P)\<^sup>*\<^sup>* s (snd x) \<Longrightarrow> (env_step P)\<^sup>*\<^sup>* s (snd (push P numc x))"
  using env_trans [OF _ env_rob] by (auto simp: push_def split: prod.splits)

lemma env_fetch_nonmem: "(env_step P)\<^sup>*\<^sup>* (snd x) (snd (fetch_nonmem P numc x))"
  by (auto simp: fetch_nonmem_def Let_def split: prod.splits intro!: env_push env_rob)

lemma env_fetch_read: "(env_step P)\<^sup>*\<^sup>* (snd x) (snd (fetch_read P numc x))"
  by (auto simp: fetch_read_def Let_def case_prod_beta intro!: env_push
      intro: env_trans [OF env_trans [OF env_rob env_merges(1)] env_rob]
        env_trans [OF env_trans [OF env_rob env_merges(1)] env_read])

lemma env_fetch_write: "(env_step P)\<^sup>*\<^sup>* (snd x) (snd (fetch_write P numc x))"
  by (auto simp: fetch_write_def Let_def case_prod_beta intro!: env_push
      intro: env_trans [OF env_rob env_merges(2)] env_trans [OF env_trans [OF env_rob env_merges(2)] env_write])

lemma env_fetch_mem: "fetch_mem P numc x = Inr y \<Longrightarrow> (env_step P)\<^sup>*\<^sup>* (snd x) (snd y)"
  using env_fetch_read [of P x numc] env_fetch_write [of P x numc] by (auto simp: fetch_mem_def split: if_splits)

lemma env_next_line: "next_line t numc x = Inr (again, y) \<Longrightarrow> (env_step P)\<^sup>*\<^sup>* (snd x) (snd y)"
  using env_rob by (cases x; cases y) (auto elim!: next_line_cases)

lemma env_fetch_loop: "fetch_loop P numc n x = Inr y \<Longrightarrow> (env_step P)\<^sup>*\<^sup>* (snd x) (snd y)"
proof (induction n arbitrary: x)
  case (Suc n)
  from Suc.prems show ?case
  proof (cases rule: fetch_loop_SucE)
    case nonmem
    then show ?thesis using env_trans [OF env_fetch_nonmem Suc.IH] by blast
  next
    case (mem y1 again y2)
    have "(env_step P)\<^sup>*\<^sup>* (snd x) (snd y2)" by (rule env_trans [OF env_fetch_mem [OF mem(3)] env_next_line [OF mem(4)]])
    moreover have "(env_step P)\<^sup>*\<^sup>* (snd y2) (snd y)" using mem(5) Suc.IH by (cases again) auto
    ultimately show ?thesis by (rule env_trans)
  qed simp
qed simp

lemma env_fetch_core: "fetch_core P numc x = Inr y \<Longrightarrow> (env_step P)\<^sup>*\<^sup>* (snd x) (snd y)"
  using env_fetch_loop [of P numc "nat (MAX_FETCH P)" x y]
  by (cases x) (auto simp: fetch_core_def split: if_splits)

lemma env_fetch_phase:
  assumes "fetch_phase P x = Inr y" shows "(env_step P)\<^sup>*\<^sup>* (snd x) (snd y)"
proof -
  obtain u s where x: "x = (u, s)" by force
  show ?thesis
    using assms unfolding x fetch_phase_def Let_def prod.case
    by (rule foldE_Inr_induct) (auto dest!: env_fetch_core intro: env_trans)
qed

lemma env_first_lines: "read_first_lines P x = Inr y \<Longrightarrow> (env_step P)\<^sup>*\<^sup>* (snd x) (snd y)"
  unfolding read_first_lines_def
  by (erule foldE_Inr_induct) (auto dest!: env_next_line intro: env_trans)

lemma env_retire: "(env_step P)\<^sup>*\<^sup>* (snd x) (snd (retire P x))"
proof -
  have "(env_step P)\<^sup>*\<^sup>* (snd x) (snd (retire_loop P numc n x))" for numc n x
    using retire_loop_others [of P numc n "fst x" "snd x"] env_rob by (metis prod.collapse snd_conv)
  then show ?thesis
    unfolding retire_def
    by (intro fold_rel [where R = "\<lambda>x y. (env_step P)\<^sup>*\<^sup>* (snd x) (snd y)"]) (auto intro: env_trans)
qed

section \<open>What the memory phase does to the processor\<close>

text \<open>It writes completion times into the reorder buffers and removes writes from the queues.\<close>

definition rob_fixed :: "robstructure \<Rightarrow> _" where
  "rob_fixed b = (head b, tail b, inflight b, mem_address b, optype b, instrpc b, tracedone b)"

definition mem_frame :: "mc \<Rightarrow> mc \<Rightarrow> bool" where
  "mem_frame s s' \<longleftrightarrow> (\<forall>t. rob_fixed (ROB s' t) = rob_fixed (ROB s t)) \<and>
     (\<forall>c. write_queue_length s' c \<le> write_queue_length s c)"

lemma mem_frame_same: "ROB s' = ROB s \<Longrightarrow> write_queue_length s' = write_queue_length s \<Longrightarrow> mem_frame s s'"
  by (simp add: mem_frame_def)

lemma mem_frame_trans: "mem_frame s t \<Longrightarrow> mem_frame t u \<Longrightarrow> mem_frame s u"
  unfolding mem_frame_def by (metis order_trans)

lemma api_step_frame:
  assumes "api_step P c s fs t" shows "mem_frame s t"
  using assms
proof cases
  case (request p q ok)
  show ?thesis
  proof (cases "next_command q = COL_READ_CMD \<and> command_issuable q \<and> \<not> command_issued_current_cycle s (channel (dram_addr q))")
    case True
    then have "issue_COL_READ P p q s = Inr t" using request by (auto simp: issue_request_command_def)
    then show ?thesis
      by (auto simp: issue_COL_READ_def issued_def Let_def mem_frame_def rob_fixed_def split: if_splits)
  next
    case False
    then show ?thesis using request
      by (intro mem_frame_same) (auto simp: issue_request_command_def issue_ACT_def issue_COL_WRITE_def
        issue_PRE_def issue_PWR_UP_def issued_def record_activate_def Let_def
        split: option.splits if_splits command_t.splits)
  qed
next
  case (powerdown r cmd ok)
  have "ROB (powerdown_iteration P c r cmd i t) = ROB t" "write_queue_length (powerdown_iteration P c r cmd i t) = write_queue_length t" for i t
    by (simp_all add: powerdown_iteration_def Let_def)
  then have "ROB (fold (powerdown_iteration P c r cmd) bs s) = ROB s"
    "write_queue_length (fold (powerdown_iteration P c r cmd) bs s) = write_queue_length s" for bs
    by (simp_all add: fold_frame)
  then show ?thesis using powerdown
    by (intro mem_frame_same) (auto simp: issue_powerdown_command_def issued_def split: if_splits)
next
  case (all_bank_precharge r ok)
  have "ROB (all_bank_precharge_iteration P c r i t) = ROB t"
    "write_queue_length (all_bank_precharge_iteration P c r i t) = write_queue_length t" for i t
    by (simp_all add: all_bank_precharge_iteration_def issue_precharge_command_def issued_def Let_def)
  then have "ROB (fold (all_bank_precharge_iteration P c r) bs s) = ROB s"
    "write_queue_length (fold (all_bank_precharge_iteration P c r) bs s) = write_queue_length s" for bs
    by (simp_all add: fold_frame)
  then show ?thesis using all_bank_precharge
    by (intro mem_frame_same) (auto simp: issue_all_bank_precharge_command_def issued_def split: if_splits)
qed (auto intro!: mem_frame_same simp: issue_powerup_command_def issue_activate_command_def issue_precharge_command_def
    issue_refresh_command_def issue_autoprecharge_def record_activate_def issued_def Let_def split: if_splits)

lemma api_steps_frame: "api_steps P s fs t \<Longrightarrow> mem_frame s t"
proof (induction rule: api_steps.induct)
  case (account s es t x)
  have "mem_frame t (t\<lparr>stats := x\<rparr>)" by (rule mem_frame_same) simp_all
  then show ?case using account mem_frame_trans by blast
qed (auto intro: mem_frame_same mem_frame_trans dest: api_step_frame)

lemma clean_write_queue_shrinks: "clean_write_queue qs n = Inr (qs', n') \<Longrightarrow> n' \<le> n"
  by (induction qs n arbitrary: qs' n' rule: clean_write_queue.induct) (fastforce split: if_splits)+

lemma update_channel_frame:
  assumes "update_memory_channel P c s = Inr s'" shows "mem_frame s s'"
proof -
  let ?s0 = "s\<lparr>command_issued_current_cycle := (command_issued_current_cycle s)(c := False)\<rparr>"
  have flush: "ROB (flush_activate_record P c r n t) = ROB t"
    "write_queue_length (flush_activate_record P c r n t) = write_queue_length t" for r n t
    unfolding flush_activate_record_def by (simp_all add: fold_frame)
  have rank: "ROB (update_rank P c r t) = ROB t" "write_queue_length (update_rank P c r t) = write_queue_length t" for r t
    by (simp_all add: update_rank_def update_refresh_def flush issue_forced_refresh_commands_def Let_def)
  have iss: "ROB (update_issuable_rank P c r t) = ROB t"
    "write_queue_length (update_issuable_rank P c r t) = write_queue_length t" for r t
    by (simp_all add: update_issuable_rank_def Let_def)
  let ?t = "update_write_queue_commands P c (update_read_queue_commands P c (update_issuable_commands P c
    (fold (update_rank P c) (below (NUM_RANKS P)) ?s0)))"
  have "ROB ?t = ROB s" "write_queue_length ?t = write_queue_length s"
    using fold_frame [of ROB "update_rank P c", OF rank(1)] fold_frame [of write_queue_length "update_rank P c", OF rank(2)]
      fold_frame [of ROB "update_issuable_rank P c", OF iss(1)]
      fold_frame [of write_queue_length "update_issuable_rank P c", OF iss(2)]
    by (simp_all add: update_write_queue_commands_def update_read_queue_commands_def update_issuable_commands_def)
  moreover have "clean_queues c ?t = Inr s'" using assms by (simp add: update_memory_channel_def Let_def)
  ultimately show ?thesis
    by (auto simp: clean_queues_def mem_frame_def dest: clean_write_queue_shrinks)
qed

lemma update_memory_frame: "update_memory P s = Inr s' \<Longrightarrow> mem_frame s s'"
  unfolding update_memory_def
  by (erule foldE_Inr_induct [where P = "mem_frame s"])
    (auto intro: mem_frame_same mem_frame_trans dest: update_channel_frame)

section \<open>Any policy\<close>

text \<open>The core invariant and the occupancy of the write queues survive the memory phase.\<close>

lemma frame_core_ok: "mem_frame s s' \<Longrightarrow> core_ok P t (u, s) \<Longrightarrow> core_ok P t (u, s')"
  by (simp add: mem_frame_def core_ok_def rob_ok_def rob_fixed_def)

definition wq_ok :: "params \<Rightarrow> mc \<Rightarrow> bool" where
  "wq_ok P s \<longleftrightarrow> (\<forall>c. valid_channel P c \<longrightarrow> write_queue_length s c \<le> WQ_CAPACITY P)"

text \<open>While the flag \<open>writeqfull\<close> is down there is room in every write queue.\<close>

definition wq_flag :: "params \<Rightarrow> cpu \<times> mc \<Rightarrow> bool" where
  "wq_flag P x \<longleftrightarrow> wq_ok P (snd x) \<and> (writeqfull (fst x) \<or> \<not> any_full P (snd x))"

lemma any_full_iff: "any_full P s \<longleftrightarrow> (\<exists>c. valid_channel P c \<and> write_queue_length s c = WQ_CAPACITY P)"
  by (auto simp: any_full_def list_ex_iff valid_channel_def)

lemma fetch_nonmem_wq: "wq_flag P x \<Longrightarrow> wq_flag P (fetch_nonmem P numc x)"
  by (cases x) (auto simp: wq_flag_def wq_ok_def any_full_iff fetch_nonmem_def push_def Let_def)

lemma fetch_read_wq: "wq_flag P x \<Longrightarrow> wq_flag P (fetch_read P numc x)"
  using merge_read_fields
  by (cases x) (auto simp: wq_flag_def wq_ok_def any_full_iff fetch_read_def push_def Let_def split: prod.splits)

lemma fetch_write_wq:
  assumes "wq_flag P x" and "\<not> writeqfull (fst x)" shows "wq_flag P (fetch_write P numc x)"
proof -
  obtain u s where x: "x = (u, s)" by force
  define a where "a = prefix_address P (prefixtable u numc) (addr u numc)"
  define s0 where "s0 = upd_rob numc (\<lambda>b. put_comptime (CYCLE_VAL s + PIPELINEDEPTH P)
    (put_optype CHR ''W'' (put_address a b))) s"
  obtain s1 b where m: "write_exists_in_write_queue P a s0 = (s1, b)" by (metis surj_pair)
  define s2 where "s2 = (if b then s1 else insert_write P a (CYCLE_VAL s1) numc (tail (ROB s1 numc)) s1)"
  have len: "write_queue_length s2 c \<le> write_queue_length s c + 1" for c
    using merge_write_fields [OF m] by (auto simp: s2_def s0_def insert_write_def Let_def)
  have "write_queue_length s c < WQ_CAPACITY P" if "valid_channel P c" for c
    using assms that by (force simp: x wq_flag_def wq_ok_def any_full_iff)
  then have "wq_ok P s2" using len by (smt (verit) wq_ok_def)
  moreover have "snd (fetch_write P numc x) = upd_rob numc (rob_grow P) s2"
    "writeqfull (fst (fetch_write P numc x)) = (any_full P s2 \<or> writeqfull u)"
    using m by (simp_all add: x fetch_write_def push_def Let_def s2_def a_def s0_def)
  ultimately show ?thesis by (auto simp: wq_flag_def wq_ok_def any_full_iff)
qed

lemma fetch_mem_wq: "fetch_mem P numc x = Inr y \<Longrightarrow> wq_flag P x \<Longrightarrow> \<not> writeqfull (fst x) \<Longrightarrow> wq_flag P y"
  using fetch_read_wq [of P x numc] fetch_write_wq [of P x numc] by (auto simp: fetch_mem_def split: if_splits)

lemma next_line_wq:
  assumes "next_line t numc x = Inr (again, y)" and "wq_flag P x" shows "wq_flag P y"
proof -
  obtain u s u' s' where xy: "x = (u, s)" "y = (u', s')" by force
  show ?thesis
    by (rule next_line_cases [OF assms(1) [unfolded xy]])
      (use assms(2) read_trace_line_frame(3) in \<open>fastforce simp: xy wq_flag_def wq_ok_def any_full_iff\<close>)+
qed

lemma fetch_loop_wq: "fetch_loop P numc n x = Inr y \<Longrightarrow> wq_flag P x \<Longrightarrow> wq_flag P y"
proof (induction n arbitrary: x)
  case (Suc n)
  from Suc.prems(1) show ?case
  proof (cases rule: fetch_loop_SucE)
    case nonmem
    then show ?thesis using Suc.IH fetch_nonmem_wq Suc.prems(2) by blast
  next
    case (mem y1 again y2)
    have "wq_flag P y2" by (rule next_line_wq [OF mem(4) fetch_mem_wq [OF mem(3) Suc.prems(2) mem(2)]])
    then show ?thesis using mem(5) Suc.IH by (cases again) auto
  qed (use Suc.prems in simp)
qed simp

lemma fetch_core_wq: "fetch_core P numc x = Inr y \<Longrightarrow> wq_flag P x \<Longrightarrow> wq_flag P y"
  using fetch_loop_wq [of P numc "nat (MAX_FETCH P)" x y]
  by (cases x) (auto simp: fetch_core_def wq_flag_def split: if_splits)

lemma fetch_phase_wq:
  assumes "fetch_phase P (u, s) = Inr y" and "wq_ok P s" shows "wq_flag P y"
  using assms(1) unfolding fetch_phase_def Let_def prod.case
  by (rule foldE_Inr_induct) (use assms(2) fetch_core_wq in \<open>auto simp: wq_flag_def\<close>)

lemma fetch_core_core_ok:
  assumes "fetch_core P numc x = Inr y" and "core_ok P t x" and "core_ok P numc x"
  shows "core_ok P t y \<and> core_ok P numc y"
proof -
  have "rob_ok P (ROB (snd x) numc)" using assms(3) by (simp add: core_ok_def)
  then have "fetch_loop P numc n x = Inr y \<Longrightarrow> core_ok P t y \<and> core_ok P numc y" for n
    using fetch_loop_grown [of P numc n x y] grown_core_ok [of P numc n x y] assms(2,3) by blast
  then show ?thesis using assms by (cases x) (auto simp: fetch_core_def core_ok_def split: if_splits)
qed

definition cores_ok :: "params \<Rightarrow> cpu \<times> mc \<Rightarrow> bool" where
  "cores_ok P x \<longleftrightarrow> (\<forall>t. 0 \<le> t \<and> t < NUMCORES P \<longrightarrow> core_ok P t x)"

lemma fetch_phase_cores:
  assumes "fetch_phase P (u, s) = Inr y" and "cores_ok P (u, s)" shows "cores_ok P y"
  using assms(1) unfolding fetch_phase_def Let_def prod.case
proof (rule foldE_Inr_induct)
  show "cores_ok P (u\<lparr>num_done := 0, writeqfull := any_full P s\<rparr>, s)"
    using assms(2) by (simp add: cores_ok_def core_ok_def)
  show "cores_ok P z" if "numc \<in> set (below (NUMCORES P))" "cores_ok P x" "fetch_core P numc x = Inr z" for numc x z
    using fetch_core_core_ok [OF that(3)] that(1,2) unfolding cores_ok_def by auto
qed

lemma fresh_cores_ok:
  assumes "read_first_lines P (u, s) = Inr y" and "fresh_cores P u (ROB s)" and "0 < ROBSIZE P"
  shows "cores_ok P y"
  using assms(1) unfolding read_first_lines_def
proof (rule foldE_Inr_induct)
  show "cores_ok P (u, s)" using assms(2,3) by (simp add: cores_ok_def core_ok_def rob_ok_def fresh_rob_def fresh_cores_def)
  show "cores_ok P z" if cores: "cores_ok P x" and numc: "numc \<in> set (below (NUMCORES P))"
    and run: "bindE (next_line 1 numc x) (\<lambda>(_, x). Inr x) = Inr z" for numc x z
  proof -
    obtain again where "next_line 1 numc x = Inr (again, z)" using run by auto
    then have "grown P numc 0 x z"
      using cores numc by (auto intro!: next_line_grown simp: cores_ok_def core_ok_def)
    then show ?thesis using cores grown_core_ok [of P numc 0 x z] unfolding cores_ok_def by blast
  qed
qed

text \<open>The processor stops only at a line of the trace it cannot read.\<close>

definition trace_error :: "fault \<Rightarrow> bool" where
  "trace_error e \<longleftrightarrow> e \<in> {Exits (- 1), Exits (- 2)}"

lemma bindE_eq_Inl: "bindE m f = Inl e \<longleftrightarrow> m = Inl e \<or> (\<exists>x. m = Inr x \<and> f x = Inl e)"
  by (cases m) auto

lemma foldE_Inl:
  "foldE f xs s = Inl e \<Longrightarrow> (\<And>x s e. x \<in> set xs \<Longrightarrow> f x s = Inl e \<Longrightarrow> Q e) \<Longrightarrow> Q e"
  by (induction xs arbitrary: s) (auto simp: bindE_eq_Inl)

lemma next_line_error: "next_line t numc x = Inl e \<Longrightarrow> trace_error e"
  by (auto simp: next_line_def read_trace_line_def trace_error_def Let_def bindE_eq_Inl
      split: prod.splits option.splits if_splits)

lemma fetch_loop_error: "fetch_loop P numc n x = Inl e \<Longrightarrow> trace_error e"
proof (induction n arbitrary: x)
  case (Suc n)
  have "fetch_mem P numc x = Inl e \<Longrightarrow> trace_error e"
    by (auto simp: fetch_mem_def trace_error_def split: if_splits)
  then show ?case using Suc.prems Suc.IH next_line_error
    by (auto simp: bindE_eq_Inl split: if_splits)
qed simp

lemma fetch_phase_error: "fetch_phase P x = Inl e \<Longrightarrow> trace_error e"
proof -
  have "fetch_core P numc x = Inl e \<Longrightarrow> trace_error e" for numc x e
    using fetch_loop_error by (cases x) (auto simp: fetch_core_def split: if_splits)
  then show "fetch_phase P x = Inl e \<Longrightarrow> trace_error e"
    by (cases x) (auto simp: fetch_phase_def elim: foldE_Inl)
qed

lemma retire_env_lengths: "write_queue_length (snd (retire P x)) = write_queue_length (snd x)"
proof -
  have "write_queue_length (snd (retire_loop P numc n x)) = write_queue_length (snd x)" for numc n x
    using retire_loop_others [of P numc n "fst x" "snd x"] by (metis prod.collapse snd_conv upd_rob_fields(3))
  then show ?thesis unfolding retire_def
    by (intro fold_rel [where R = "\<lambda>x y. write_queue_length (snd y) = write_queue_length (snd x)"]) auto
qed

context scheduler
begin

text \<open>A run of the program is a run of the protocol, up to processor steps since the last cycle.\<close>

lemma main_sim:
  assumes "main_run schedule init P u st s" and wf: "wf_params P"
  shows "\<exists>s0. sim_with schedule init P st s0 \<and> (env_step P)\<^sup>*\<^sup>* s0 s"
  using assms(1)
proof (induction rule: main_run.induct)
  case (start st u rob u' s)
  then show ?case using sim_with.start [of init P st schedule rob] env_first_lines by fastforce
next
  case (step u st s u' st' s')
  obtain s0 where s0: "sim_with schedule init P st s0" "(env_step P)\<^sup>*\<^sup>* s0 s" using step.IH by blast
  obtain u1 s1 where ret: "retire P (u, s) = (u1, s1)" by force
  obtain s2 u2 s3 where mem: "memory_phase schedule P st s1 = Inr (st', s2)"
    and fetch: "fetch_phase P (u1, s2) = Inr (u2, s3)" and s': "s' = s3\<lparr>CYCLE_VAL := CYCLE_VAL s3 + 1\<rparr>"
    using step.hyps(4) ret by (auto simp: iteration_def Let_def split: prod.splits)
  have env: "(env_step P)\<^sup>*\<^sup>* s s1" using env_retire [of P "(u, s)"] ret by simp
  have "CYCLE_VAL s1 = CYCLE_VAL s" by (rule env_steps_clock [OF env])
  then have "sim_with schedule init P st' s'"
    using sim_with.iteration [OF s0(1) env_trans [OF s0(2) env] _ mem] env_fetch_phase [OF fetch] step.hyps(3) s' by simp
  then show ?case by blast
qed

lemma main_inv:
  assumes "main_run schedule init P u st s" and wf: "wf_params P" and "CYCLE_VAL s + 8 * T_REFI P < 2 ^ 31"
  shows "\<exists>es. ctl_inv P (last_cycle P (CYCLE_VAL s)) es s \<and> 0 \<le> CYCLE_VAL s"
proof -
  obtain s0 where s0: "sim_with schedule init P st s0" "(env_step P)\<^sup>*\<^sup>* s0 s" using main_sim [OF assms(1,2)] by blast
  then obtain es where "sim P s0 es" using run_sim wf by blast
  from run_state [OF this s0(2) wf assms(3)] show ?thesis by blast
qed

lemma main_safe:
  assumes "main_run schedule init P u st s" and "wf_params P" and "CYCLE_VAL s + 8 * T_REFI P < 2 ^ 31"
  shows "\<exists>es D. timing_ok P es \<and> faw_ok P es \<and> dram_run es dram_reset = Some D \<and>
    (\<forall>c r. valid_channel P c \<longrightarrow> valid_rank P r \<longrightarrow> D c r = abs_rank P (dram_state s c r))"
  using main_inv [OF assms] by (auto simp: ctl_inv_def legal_def)

text \<open>The memory phase of the next iteration returns, and what it leaves of the processor state.\<close>

lemma main_memory_phase:
  assumes "main_run schedule init P u st s" and wf: "wf_params P" and bound: "CYCLE_VAL s + 8 * T_REFI P < 2 ^ 31"
    and ret: "retire P (u, s) = (u1, s1)"
  shows "\<exists>st' s2. memory_phase schedule P st s1 = Inr (st', s2) \<and> mem_frame s1 s2"
proof -
  obtain s0 where s0: "sim_with schedule init P st s0" "(env_step P)\<^sup>*\<^sup>* s0 s" using main_sim [OF assms(1,2)] by blast
  have env: "(env_step P)\<^sup>*\<^sup>* s s1" using env_retire [of P "(u, s)"] ret by simp
  note s1 = env_trans [OF s0(2) env]
  have bound1: "CYCLE_VAL s1 + 8 * T_REFI P < 2 ^ 31" using env_steps_clock [OF env] bound by simp
  show ?thesis
  proof (cases "CYCLE_VAL s1 mod PROCESSOR_CLK_MULTIPLIER P = 0")
    case True
    obtain es where es: "sim P s0 es" and idle: "\<forall>c. valid_channel P c \<longrightarrow> idle P c st (num_issued_refreshes s1 c)"
      using run_sim_idle [OF s0(1) wf] env_steps_counts [OF s1] by auto
    have "ctl_inv P (last_cycle P (CYCLE_VAL s1)) es s1" "0 \<le> CYCLE_VAL s1"
      using run_state [OF es s1 wf bound1] by blast+
    from memory_phase_returns [OF this wf bound1 idle True] obtain st' t s2 fs where
      "memory_phase schedule P st s1 = Inr (st', s2)" "update_memory P s1 = Inr t" "api_steps P t fs s2" by blast
    then show ?thesis using mem_frame_trans [OF update_memory_frame api_steps_frame] by blast
  qed (auto simp: memory_phase_def intro: mem_frame_same)
qed

lemma main_progress:
  assumes "main_run schedule init P u st s" and "wf_params P" and "CYCLE_VAL s + 8 * T_REFI P < 2 ^ 31"
    and "iteration schedule P (u, st, s) = Inl e"
  shows "trace_error e"
proof -
  obtain u1 s1 where ret: "retire P (u, s) = (u1, s1)" by force
  obtain st' s2 where "memory_phase schedule P st s1 = Inr (st', s2)"
    using main_memory_phase [OF assms(1-3) ret] by blast
  then show ?thesis using assms(4) ret fetch_phase_error
    by (auto simp: iteration_def bindE_eq_Inl split: prod.splits)
qed

lemma main_memory_clock:
  assumes "main_run schedule init P u st s" and wf: "wf_params P" and bound: "CYCLE_VAL s + 8 * T_REFI P < 2 ^ 31"
    and ret: "retire P (u, s) = (u1, s1)" and run: "memory_phase schedule P st s1 = Inr (st', s2)"
  shows "CYCLE_VAL s2 = CYCLE_VAL s"
proof -
  obtain s0 where s0: "sim_with schedule init P st s0" "(env_step P)\<^sup>*\<^sup>* s0 s" using main_sim [OF assms(1,2)] by blast
  have env: "(env_step P)\<^sup>*\<^sup>* s s1" using env_retire [of P "(u, s)"] ret by simp
  show ?thesis
    using memory_phase_clock [OF s0(1) wf env_trans [OF s0(2) env] _ run] env_steps_clock [OF env] bound by simp
qed

lemma main_cores:
  assumes "main_run schedule init P u st s" and wf: "wf_params P" and "0 < ROBSIZE P" and "0 \<le> WQ_CAPACITY P"
  shows "cores_ok P (u, s) \<and> wq_ok P s"
  using assms(1)
proof (induction rule: main_run.induct)
  case (start st u rob u' s)
  let ?s0 = "init_memory_controller_vars P (zero_mc rob)"
  have "ROB ?s0 = rob" "valid_channel P c \<Longrightarrow> write_queue_length ?s0 c = 0" for c
    by (simp_all add: init_memory_controller_vars_def zero_mc_def fill1_def Let_def valid_channel_def)
  moreover have "wq_flag P (u\<lparr>writeqfull := True\<rparr>, ?s0)"
    using calculation(2) assms(4) by (simp add: wq_flag_def wq_ok_def)
  moreover have "write_queue_length s = write_queue_length ?s0"
    using start(3) unfolding read_first_lines_def
    by (rule foldE_Inr_induct [where P = "\<lambda>z. write_queue_length (snd z) = write_queue_length ?s0", of _ _ _ "(u', s)", simplified])
      (auto simp: next_line_def split: option.splits prod.splits)
  ultimately show ?case
    using fresh_cores_ok [OF start(3)] start(2) assms(3,4) by (simp add: wq_ok_def)
next
  case (step u st s u' st' s')
  obtain u1 s1 where ret: "retire P (u, s) = (u1, s1)" by force
  obtain s2 where mem: "memory_phase schedule P st s1 = Inr (st', s2)" and frame: "mem_frame s1 s2"
    using main_memory_phase [OF step.hyps(1) wf step.hyps(3) ret] step.hyps(4) ret
    by (auto simp: iteration_def Let_def split: prod.splits)
  then obtain u2 s3 where fetch: "fetch_phase P (u1, s2) = Inr (u2, s3)"
    and fin: "u' = check_end P (u2, s3)" "s' = s3\<lparr>CYCLE_VAL := CYCLE_VAL s3 + 1\<rparr>"
    using step.hyps(4) ret by (auto simp: iteration_def Let_def split: prod.splits)
  have "cores_ok P (u1, s1)" using step.IH retire_ok [of P _ "(u, s)"] ret by (simp add: cores_ok_def)
  then have "cores_ok P (u2, s3)"
    using frame_core_ok [OF frame] fetch_phase_cores [OF fetch] by (simp add: cores_ok_def)
  moreover have "write_queue_length s1 = write_queue_length s"
    using retire_env_lengths [of P "(u, s)"] ret by simp
  then have "wq_ok P s2" using step.IH frame unfolding mem_frame_def wq_ok_def by (metis order_trans)
  then have "wq_ok P s3" using fetch_phase_wq [OF fetch] by (simp add: wq_flag_def)
  ultimately show ?case
    using fin by (auto simp: cores_ok_def core_ok_def wq_ok_def check_end_def)
qed

end

section \<open>The end of the simulation\<close>

lemma next_line_done:
  assumes "next_line t numc (u, s) = Inr (again, u', s')" and "inflight (ROB s numc) \<noteq> 0"
  shows "num_done u' = num_done u"
  by (rule next_line_cases [OF assms(1)])
    (use assms(2) read_trace_line_frame(4) in \<open>fastforce simp: core_done_def\<close>)+

lemma fetch_mem_done:
  assumes "fetch_mem P numc x = Inr y" and "core_ok P numc x"
  shows "num_done (fst y) = num_done (fst x) \<and> inflight (ROB (snd y) numc) \<noteq> 0"
proof -
  obtain u s where x: "x = (u, s)" by force
  have "0 \<le> inflight (ROB s numc)" using assms(2) by (simp add: x core_ok_def rob_ok_def)
  then show ?thesis using assms(1) merge_read_fields merge_write_fields
    by (fastforce simp: x fetch_mem_def fetch_read_def fetch_write_def push_def Let_def rob_grow_def put_comptime_def
        put_optype_def put_address_def put_pc_def split: if_splits prod.splits)
qed

lemma fetch_loop_done:
  "fetch_loop P numc n x = Inr y \<Longrightarrow> core_ok P numc x \<Longrightarrow> num_done (fst y) = num_done (fst x)"
proof (induction n arbitrary: x)
  case (Suc n)
  from Suc.prems(1) show ?case
  proof (cases rule: fetch_loop_SucE)
    case nonmem
    have "grown P numc 1 x (fetch_nonmem P numc x)"
      using fetch_nonmem_grown [of P "snd x" numc "fst x"] nonmem(1) Suc.prems(2) by (simp add: core_ok_def)
    then have "core_ok P numc (fetch_nonmem P numc x)" by (rule grown_core_ok [OF _ Suc.prems(2)])
    then show ?thesis using Suc.IH [OF nonmem(3)]
      by (cases x) (simp add: fetch_nonmem_def push_def Let_def)
  next
    case (mem y1 again y2)
    note dn = fetch_mem_done [OF mem(3) Suc.prems(2)]
    have 1: "grown P numc 1 x y1"
      by (rule fetch_mem_grown [OF mem(3) _ mem(1)]) (use Suc.prems(2) in \<open>simp add: core_ok_def\<close>)
    then have 2: "grown P numc 0 y1 y2" by (intro next_line_grown [OF mem(4)]) (simp add: grown_def)
    have ok: "core_ok P numc y2" by (rule grown_core_ok [OF 2 grown_core_ok [OF 1 Suc.prems(2)]])
    have "num_done (fst y2) = num_done (fst x)"
      using next_line_done [of _ numc "fst y1" "snd y1" again "fst y2" "snd y2"] mem(4) dn by simp
    then show ?thesis using mem(5) Suc.IH [OF _ ok] by (cases again) auto
  qed (use Suc.prems in simp)
qed simp

definition finished :: "robstructure \<Rightarrow> bool" where
  "finished b \<longleftrightarrow> tracedone b \<and> inflight b = 0"

lemma fetch_core_done:
  assumes "fetch_core P numc x = Inr y" and "core_ok P numc x"
  shows "num_done (fst y) = num_done (fst x) \<or>
    num_done (fst y) = num_done (fst x) + 1 \<and> finished (ROB (snd y) numc)"
  using assms fetch_loop_done [of P numc "nat (MAX_FETCH P)" x y]
  by (cases x) (auto simp: fetch_core_def core_done_def finished_def split: if_splits)

lemma fetch_core_others:
  assumes "fetch_core P numc x = Inr y" and "core_ok P numc x" and "t \<noteq> numc"
  shows "ROB (snd y) t = ROB (snd x) t"
  using assms fetch_loop_grown [of P numc "nat (MAX_FETCH P)" x y]
  by (cases x) (auto simp: fetch_core_def core_ok_def grown_def split: if_splits)

lemma fetch_cores_done:
  assumes "foldE (fetch_core P) ts x = Inr y" and "distinct ts" and "\<forall>t\<in>set ts. core_ok P t x"
  shows "num_done (fst y) \<le> num_done (fst x) + int (length ts) \<and>
    (num_done (fst y) = num_done (fst x) + int (length ts) \<longrightarrow> (\<forall>t\<in>set ts. finished (ROB (snd y) t))) \<and>
    (\<forall>t. t \<notin> set ts \<longrightarrow> ROB (snd y) t = ROB (snd x) t)"
  using assms
proof (induction ts arbitrary: x)
  case (Cons t ts)
  then obtain z where z: "fetch_core P t x = Inr z" and rest: "foldE (fetch_core P) ts z = Inr y" by auto
  have ok: "core_ok P t x" using Cons.prems by simp
  have "\<forall>t'\<in>set ts. core_ok P t' z" using fetch_core_core_ok [OF z _ ok] Cons.prems(3) by auto
  note IH = Cons.IH [OF rest _ this]
  have "t \<notin> set ts" using Cons.prems(2) by simp
  then show ?case
    using IH Cons.prems(2) fetch_core_done [OF z ok] fetch_core_others [OF z ok] by auto
qed simp

text \<open>Only the last test of an iteration ends the loop.\<close>

lemma retire_expt: "expt_done (fst (retire P x)) = expt_done (fst x)"
proof -
  have "expt_done (count_committed t k u) = expt_done u" for t k u by (simp add: count_committed_def)
  then have "expt_done (fst (retire_loop P numc n x)) = expt_done (fst x)" for numc n x
    using retire_loop_others [of P numc n "fst x" "snd x"] by (metis prod.collapse fst_conv)
  then show ?thesis unfolding retire_def
    by (intro fold_rel [where R = "\<lambda>x y. expt_done (fst y) = expt_done (fst x)"]) auto
qed

lemma fetch_loop_expt: "fetch_loop P numc n x = Inr y \<Longrightarrow> expt_done (fst y) = expt_done (fst x)"
proof (induction n arbitrary: x)
  case (Suc n)
  have nonmem: "expt_done (fst (fetch_nonmem P numc x)) = expt_done (fst x)"
    by (cases x) (simp add: fetch_nonmem_def push_def Let_def)
  have mem: "expt_done (fst y1) = expt_done (fst x)" if "fetch_mem P numc x = Inr y1" for y1
    using that by (cases x) (auto simp: fetch_mem_def fetch_read_def fetch_write_def push_def Let_def
        split: if_splits prod.splits)
  have line: "expt_done (fst y2) = expt_done (fst y1)" if "next_line t numc y1 = Inr (again, y2)" for t y1 again y2
    using that read_trace_line_frame(6)
    by (cases y1; cases y2) (fastforce elim!: next_line_cases)
  from Suc.prems show ?case
  proof (cases rule: fetch_loop_SucE)
    case nonmem
    then show ?thesis using Suc.IH \<open>expt_done (fst (fetch_nonmem P numc x)) = expt_done (fst x)\<close> by simp
  next
    case (mem y1 again y2)
    then show ?thesis using Suc.IH [of y2] \<open>fetch_mem P numc x = Inr y1 \<Longrightarrow> expt_done (fst y1) = expt_done (fst x)\<close>
        line by (cases again) auto
  qed simp
qed simp

lemma fetch_phase_expt:
  assumes "fetch_phase P (u, s) = Inr y" shows "expt_done (fst y) = expt_done u"
  using assms unfolding fetch_phase_def Let_def prod.case
proof (rule foldE_Inr_induct)
  show "expt_done (fst z) = expt_done u" if "expt_done (fst x) = expt_done u" "fetch_core P numc x = Inr z" for numc x z
    using that fetch_loop_expt [of P numc "nat (MAX_FETCH P)" x z]
    by (cases x) (auto simp: fetch_core_def split: if_splits)
qed simp

section \<open>A concrete run\<close>

text \<open>One core whose trace is empty, before and after the first iteration.\<close>

definition demo_boot :: mc where
  "demo_boot = init_memory_controller_vars ddr3_params (zero_mc (\<lambda>_. demo_ring\<lparr>head := 0, tail := 0, inflight := 0\<rparr>))"

definition demo_main_cpu :: cpu where
  "demo_main_cpu = core_done 1 0 demo_cpu demo_boot"

definition demo_main :: mc where
  "demo_main = upd_rob 0 (\<lambda>b. b\<lparr>tracedone := True\<rparr>) demo_boot"

lemma demo_boot_fields: "ROB demo_boot = (\<lambda>_. demo_ring\<lparr>head := 0, tail := 0, inflight := 0\<rparr>)"
  "CYCLE_VAL demo_boot = 0" "write_queue_length demo_boot 0 = 0"
  by (simp_all add: demo_boot_def init_memory_controller_vars_def zero_mc_def fill1_def Let_def ddr3_params_def)

lemma demo_main_run: "main_run schedule_mypolicy init_my ddr3_params demo_main_cpu demo_my demo_main"
proof (rule main_run.start)
  show "read_first_lines ddr3_params
      (demo_cpu, init_memory_controller_vars ddr3_params (zero_mc (\<lambda>_. demo_ring\<lparr>head := 0, tail := 0, inflight := 0\<rparr>))) =
    Inr (demo_main_cpu, demo_main)"
    unfolding demo_boot_def [symmetric] demo_main_cpu_def demo_main_def
    by (simp add: read_first_lines_def ddr3_params_def next_line_def fgets_def Let_def) (auto simp: demo_cpu_def)
  show "init_my ddr3_params demo_my" by (simp add: init_my_def demo_my_def)
  show "fresh_cores ddr3_params demo_cpu (\<lambda>_. demo_ring\<lparr>head := 0, tail := 0, inflight := 0\<rparr>)"
    by (simp add: fresh_cores_def fresh_rob_def demo_cpu_def demo_ring_def)
qed

lemma demo_main_fields: "CYCLE_VAL demo_main + 8 * T_REFI ddr3_params < 2 ^ 31" "\<not> expt_done demo_main_cpu"
  "0 < ROBSIZE ddr3_params" "0 \<le> WQ_CAPACITY ddr3_params"
  by (simp_all add: demo_main_def demo_boot_fields ddr3_params_def demo_main_cpu_def)
    (simp_all add: demo_cpu_def)

section \<open>Properties\<close>

text \<open>C10. No instruction is lost or retired twice: in every run of the program with the linked policy,
  the reorder buffer of every core is a well-formed ring, and the instructions fetched are the
  committed ones and those in flight.\<close>

theorem instructions_accounted:
  assumes "main_run schedule_mypolicy init_my P u st s" and "wf_params P" and "0 < ROBSIZE P"
    and "0 \<le> WQ_CAPACITY P" and "0 \<le> t" and "t < NUMCORES P"
  shows "rob_ok P (ROB s t) \<and> fetched u t = committed u t + inflight (ROB s t)"
  using mypolicy.main_cores [OF assms(1-4)] assms(5,6) by (simp add: cores_ok_def core_ok_def)

theorem instructions_accounted_witness:
  "rob_ok ddr3_params (ROB demo_main 0) \<and>
   fetched demo_main_cpu 0 = committed demo_main_cpu 0 + inflight (ROB demo_main 0)"
  using instructions_accounted [OF demo_main_run wf_params_ddr3 demo_main_fields(3,4), of 0]
  by (simp add: ddr3_params_def)

text \<open>C11. The write queues never overflow: in every run of the program no write queue holds more than
  \<open>WQ_CAPACITY\<close> requests, although the capacity is only tested for equality.\<close>

theorem write_queues_bounded:
  assumes "main_run schedule_mypolicy init_my P u st s" and "wf_params P" and "0 < ROBSIZE P"
    and "0 \<le> WQ_CAPACITY P" and "valid_channel P c"
  shows "write_queue_length s c \<le> WQ_CAPACITY P"
  using mypolicy.main_cores [OF assms(1-4)] assms(5) by (simp add: wq_ok_def)

theorem write_queues_bounded_witness: "write_queue_length demo_main 0 \<le> WQ_CAPACITY ddr3_params"
  using write_queues_bounded [OF demo_main_run wf_params_ddr3 demo_main_fields(3,4) demo_valid(1)] .

text \<open>C9. The simulation ends only when everything is done: when an iteration sets \<open>expt_done\<close>, every
  core has read its whole trace and committed all it fetched, and all write queues are empty.\<close>

theorem simulation_ends_drained:
  assumes "main_run schedule_mypolicy init_my P u st s" and "wf_params P" and "0 < ROBSIZE P"
    and "0 \<le> WQ_CAPACITY P" and "CYCLE_VAL s + 8 * T_REFI P < 2 ^ 31" and "\<not> expt_done u"
    and "iteration schedule_mypolicy P (u, st, s) = Inr (u', st', s')" and "expt_done u'"
  shows "(\<forall>t. 0 \<le> t \<and> t < NUMCORES P \<longrightarrow>
      tracedone (ROB s' t) \<and> inflight (ROB s' t) = 0 \<and> committed u' t = fetched u' t) \<and>
    (\<forall>c. valid_channel P c \<longrightarrow> write_queue_length s' c = 0)"
proof -
  have run: "main_run schedule_mypolicy init_my P u' st' s'" by (rule main_run.step [OF assms(1,6,5,7)])
  obtain u1 s1 where ret: "retire P (u, s) = (u1, s1)" by force
  obtain s2 where frame: "mem_frame s1 s2" and mem: "memory_phase schedule_mypolicy P st s1 = Inr (st', s2)"
    using mypolicy.main_memory_phase [OF assms(1,2,5) ret] assms(7) ret
    by (auto simp: iteration_def Let_def split: prod.splits)
  then obtain u2 s3 where fetch: "fetch_phase P (u1, s2) = Inr (u2, s3)"
    and fin: "u' = check_end P (u2, s3)" "s' = s3\<lparr>CYCLE_VAL := CYCLE_VAL s3 + 1\<rparr>"
    using assms(7) ret by (auto simp: iteration_def Let_def split: prod.splits)
  have cores: "core_ok P t (u1, s2)" if "0 \<le> t" "t < NUMCORES P" for t
  proof -
    have "core_ok P t (u, s)" using mypolicy.main_cores [OF assms(1-4)] that by (simp add: cores_ok_def)
    then show ?thesis using retire_ok [of P t "(u, s)"] ret frame_core_ok [OF frame] by simp
  qed
  have same: "expt_done u2 = expt_done u" using fetch_phase_expt [OF fetch] retire_expt [of P "(u, s)"] ret by simp
  then have fin2: "num_done u2 = NUMCORES P" "\<forall>c. valid_channel P c \<longrightarrow> write_queue_length s3 c = 0"
    using fin(1) assms(6,8) by (auto simp: check_end_def list_all_iff valid_channel_def split: if_splits)
  have "NUMCORES P = int (length (below (NUMCORES P)))"
    using assms(2) by (simp add: wf_params_def wf_geometry_def)
  then have "\<forall>t\<in>set (below (NUMCORES P)). finished (ROB s3 t)"
    using fetch_cores_done [of P "below (NUMCORES P)" "(u1\<lparr>num_done := 0, writeqfull := any_full P s2\<rparr>, s2)" "(u2, s3)"]
      fetch fin2(1) cores by (simp add: fetch_phase_def core_ok_def)
  moreover have "fetched u' t = committed u' t + inflight (ROB s' t)" if "0 \<le> t" "t < NUMCORES P" for t
    using mypolicy.main_cores [OF run assms(2-4)] that by (simp add: cores_ok_def core_ok_def)
  ultimately show ?thesis using fin fin2(2) by (simp add: finished_def)
qed

theorem simulation_ends_drained_witness:
  "\<exists>u' st' s'. iteration schedule_mypolicy ddr3_params (demo_main_cpu, demo_my, demo_main) = Inr (u', st', s') \<and>
     expt_done u' \<and> tracedone (ROB s' 0) \<and> inflight (ROB s' 0) = 0 \<and> write_queue_length s' 0 = 0"
proof -
  let ?P = ddr3_params
  note wf = wf_params_ddr3 and fields = demo_main_fields
  have start: "inflight (ROB demo_main 0) = 0" "tracedone (ROB demo_main 0)" "write_queue_length demo_main 0 = 0"
    by (simp_all add: demo_main_def demo_boot_fields)
  have cores: "below (NUMCORES ?P) = [0]" and chans: "below (NUM_CHANNELS ?P) = [0]" and one: "NUMCORES ?P = 1"
    by (simp_all add: ddr3_params_def)
  have ret: "retire ?P (demo_main_cpu, demo_main) = (demo_main_cpu, demo_main)"
    using start(1) by (cases "nat (MAX_RETIRE ?P)") (simp_all add: retire_def cores Let_def)
  obtain st2 s2 where mem: "memory_phase schedule_mypolicy ?P demo_my demo_main = Inr (st2, s2)" and frame: "mem_frame demo_main s2"
    using mypolicy.main_memory_phase [OF demo_main_run wf fields(1) ret] by blast
  have s2: "inflight (ROB s2 0) = 0" "tracedone (ROB s2 0)" "write_queue_length s2 0 \<le> 0"
    using frame start spec [of "\<lambda>c. write_queue_length s2 c \<le> write_queue_length demo_main c" 0]
    by (auto simp: mem_frame_def rob_fixed_def)
  define u1 where "u1 = demo_main_cpu\<lparr>num_done := 0, writeqfull := any_full ?P s2\<rparr>"
  define u2 where "u2 = core_done (CYCLE_VAL s2) 0 u1 s2"
  have fetch: "fetch_phase ?P (demo_main_cpu, s2) = Inr (u2, s2)"
    using s2 by (simp add: fetch_phase_def cores fetch_core_def u2_def u1_def)
  have iter: "iteration schedule_mypolicy ?P (demo_main_cpu, demo_my, demo_main) =
      Inr (check_end ?P (u2, s2), st2, s2\<lparr>CYCLE_VAL := CYCLE_VAL s2 + 1\<rparr>)"
    by (simp add: iteration_def ret mem fetch)
  have run: "main_run schedule_mypolicy init_my ?P (check_end ?P (u2, s2)) st2 (s2\<lparr>CYCLE_VAL := CYCLE_VAL s2 + 1\<rparr>)"
    by (rule main_run.step [OF demo_main_run fields(2,1) iter])
  have clock: "CYCLE_VAL s2 = 0"
    using mypolicy.main_memory_clock [OF demo_main_run wf fields(1) ret mem] by (simp add: demo_main_def demo_boot_fields)
  have "write_queue_length s2 0 \<ge> 0"
    using mypolicy.main_inv [OF run wf] demo_valid(1) clock
    by (auto simp: ctl_inv_def ch_inv_def queue_inv_def ddr3_params_def)
  then have "expt_done (check_end ?P (u2, s2))"
    using s2 by (simp add: check_end_def chans one u2_def u1_def core_done_def)
  then show ?thesis
    using simulation_ends_drained [OF demo_main_run wf fields(3,4,1,2) iter] iter demo_valid(1) one by auto
qed

end
