(* ===== verification/Config.thy ===== *)
theory Config
  imports Complex_Main Scan Params
begin

text \<open>
  \<open>usimm-v1.3/src/configfile.h\<close>: the parser of the configuration files. The buffer \<open>input_string\<close>
  is the array of 256 characters that it is in the code, because a conversion that fails at the end
  of the file leaves the previous word in it, and the loop reads that word again. The two
  \<open>PANIC\<close> messages are not modelled: an unknown word is skipped.
\<close>

section \<open>Words\<close>

datatype token_t =
  processor_clk_multiplier_token | robsize_token | max_retire_token | max_fetch_token | pipelinedepth_token
| num_channels_token | num_ranks_token | num_banks_token | num_rows_token | num_columns_token
| cache_line_size_token | address_bits_token
| dram_clk_frequency_token | t_rcd_token | t_rp_token | t_cas_token | t_rc_token | t_ras_token | t_rrd_token
| t_faw_token | t_wr_token | t_wtr_token | t_rtp_token | t_ccd_token | t_rfc_token | t_refi_token | t_cwd_token
| t_rtrs_token | t_pd_min_token | t_xp_token | t_xp_dll_token | t_data_trans_token
| vdd_token | idd0_token | idd2p0_token | idd2p1_token | idd2n_token | idd3p_token | idd3n_token | idd4r_token
| idd4w_token | idd5_token
| wq_capacity_token | address_mapping_token | wq_lookup_latency_token
| comment_token | unknown_token

text \<open>The words in the order in which \<open>tokenize\<close> compares them.\<close>

definition config_keys :: "(string \<times> token_t) list" where
  "config_keys =
    [(''PROCESSOR_CLK_MULTIPLIER'', processor_clk_multiplier_token),
     (''ROBSIZE'', robsize_token),
     (''MAX_RETIRE'', max_retire_token),
     (''MAX_FETCH'', max_fetch_token),
     (''PIPELINEDEPTH'', pipelinedepth_token),
     (''NUM_CHANNELS'', num_channels_token),
     (''NUM_RANKS'', num_ranks_token),
     (''NUM_BANKS'', num_banks_token),
     (''NUM_ROWS'', num_rows_token),
     (''NUM_COLUMNS'', num_columns_token),
     (''CACHE_LINE_SIZE'', cache_line_size_token),
     (''ADDRESS_BITS'', address_bits_token),
     (''DRAM_CLK_FREQUENCY'', dram_clk_frequency_token),
     (''T_RC'', t_rc_token),
     (''T_RP'', t_rp_token),
     (''T_CAS'', t_cas_token),
     (''T_RCD'', t_rcd_token),
     (''T_RAS'', t_ras_token),
     (''T_RRD'', t_rrd_token),
     (''T_FAW'', t_faw_token),
     (''T_WR'', t_wr_token),
     (''T_WTR'', t_wtr_token),
     (''T_RTP'', t_rtp_token),
     (''T_CCD'', t_ccd_token),
     (''T_RFC'', t_rfc_token),
     (''T_REFI'', t_refi_token),
     (''T_CWD'', t_cwd_token),
     (''T_RTRS'', t_rtrs_token),
     (''T_PD_MIN'', t_pd_min_token),
     (''T_XP'', t_xp_token),
     (''T_XP_DLL'', t_xp_dll_token),
     (''T_DATA_TRANS'', t_data_trans_token),
     (''VDD'', vdd_token),
     (''IDD0'', idd0_token),
     (''IDD2P0'', idd2p0_token),
     (''IDD2P1'', idd2p1_token),
     (''IDD2N'', idd2n_token),
     (''IDD3P'', idd3p_token),
     (''IDD3N'', idd3n_token),
     (''IDD4R'', idd4r_token),
     (''IDD4W'', idd4w_token),
     (''IDD5'', idd5_token),
     (''WQ_CAPACITY'', wq_capacity_token),
     (''ADDRESS_MAPPING'', address_mapping_token),
     (''WQ_LOOKUP_LATENCY'', wq_lookup_latency_token)]"

text \<open>\<open>strncmp (a, b, n) == 0\<close> on strings without their terminating zero.\<close>

definition strncmp_eq :: "string \<Rightarrow> string \<Rightarrow> nat \<Rightarrow> bool" where
  "strncmp_eq a b n \<longleftrightarrow> take n (a @ [CHR 0x00]) = take n (b @ [CHR 0x00])"

definition tokenize :: "string \<Rightarrow> token_t" where
  "tokenize input =
     (if strncmp_eq input ''//'' 2 then comment_token
      else case List.find (\<lambda>(k, _). strncmp_eq input k (length input)) config_keys of
             Some (_, t) \<Rightarrow> t
           | None \<Rightarrow> unknown_token)"

section \<open>Values\<close>

text \<open>The supply voltage and the currents of the power model; the \<open>float\<close>s are exact decimals here.\<close>

record power_params =
  VDD :: rat
  IDD0 :: rat
  IDD2P0 :: rat
  IDD2P1 :: rat
  IDD2N :: rat
  IDD3P :: rat
  IDD3N :: rat
  IDD4R :: rat
  IDD4W :: rat
  IDD5 :: rat

text \<open>The cases of the \<open>switch\<close> that read an integer; the timings are scaled to processor cycles.\<close>

definition set_param :: "token_t \<Rightarrow> int \<Rightarrow> params \<Rightarrow> params" where
  "set_param t v P =
     (case t of
        processor_clk_multiplier_token \<Rightarrow> P\<lparr>PROCESSOR_CLK_MULTIPLIER := v\<rparr>
      | robsize_token \<Rightarrow> P\<lparr>ROBSIZE := v\<rparr>
      | max_retire_token \<Rightarrow> P\<lparr>MAX_RETIRE := v\<rparr>
      | max_fetch_token \<Rightarrow> P\<lparr>MAX_FETCH := v\<rparr>
      | pipelinedepth_token \<Rightarrow> P\<lparr>PIPELINEDEPTH := v\<rparr>
      | num_channels_token \<Rightarrow> P\<lparr>NUM_CHANNELS := v\<rparr>
      | num_ranks_token \<Rightarrow> P\<lparr>NUM_RANKS := v\<rparr>
      | num_banks_token \<Rightarrow> P\<lparr>NUM_BANKS := v\<rparr>
      | num_rows_token \<Rightarrow> P\<lparr>NUM_ROWS := v\<rparr>
      | num_columns_token \<Rightarrow> P\<lparr>NUM_COLUMNS := v\<rparr>
      | cache_line_size_token \<Rightarrow> P\<lparr>CACHE_LINE_SIZE := v\<rparr>
      | address_bits_token \<Rightarrow> P\<lparr>ADDRESS_BITS := v\<rparr>
      | dram_clk_frequency_token \<Rightarrow> P\<lparr>DRAM_CLK_FREQUENCY := v\<rparr>
      | t_rcd_token \<Rightarrow> P\<lparr>T_RCD := v * PROCESSOR_CLK_MULTIPLIER P\<rparr>
      | t_rp_token \<Rightarrow> P\<lparr>T_RP := v * PROCESSOR_CLK_MULTIPLIER P\<rparr>
      | t_cas_token \<Rightarrow> P\<lparr>T_CAS := v * PROCESSOR_CLK_MULTIPLIER P\<rparr>
      | t_rc_token \<Rightarrow> P\<lparr>T_RC := v * PROCESSOR_CLK_MULTIPLIER P\<rparr>
      | t_ras_token \<Rightarrow> P\<lparr>T_RAS := v * PROCESSOR_CLK_MULTIPLIER P\<rparr>
      | t_rrd_token \<Rightarrow> P\<lparr>T_RRD := v * PROCESSOR_CLK_MULTIPLIER P\<rparr>
      | t_faw_token \<Rightarrow> P\<lparr>T_FAW := v * PROCESSOR_CLK_MULTIPLIER P\<rparr>
      | t_wr_token \<Rightarrow> P\<lparr>T_WR := v * PROCESSOR_CLK_MULTIPLIER P\<rparr>
      | t_wtr_token \<Rightarrow> P\<lparr>T_WTR := v * PROCESSOR_CLK_MULTIPLIER P\<rparr>
      | t_rtp_token \<Rightarrow> P\<lparr>T_RTP := v * PROCESSOR_CLK_MULTIPLIER P\<rparr>
      | t_ccd_token \<Rightarrow> P\<lparr>T_CCD := v * PROCESSOR_CLK_MULTIPLIER P\<rparr>
      | t_rfc_token \<Rightarrow> P\<lparr>T_RFC := v * PROCESSOR_CLK_MULTIPLIER P\<rparr>
      | t_refi_token \<Rightarrow> P\<lparr>T_REFI := v * PROCESSOR_CLK_MULTIPLIER P\<rparr>
      | t_cwd_token \<Rightarrow> P\<lparr>T_CWD := v * PROCESSOR_CLK_MULTIPLIER P\<rparr>
      | t_rtrs_token \<Rightarrow> P\<lparr>T_RTRS := v * PROCESSOR_CLK_MULTIPLIER P\<rparr>
      | t_pd_min_token \<Rightarrow> P\<lparr>T_PD_MIN := v * PROCESSOR_CLK_MULTIPLIER P\<rparr>
      | t_xp_token \<Rightarrow> P\<lparr>T_XP := v * PROCESSOR_CLK_MULTIPLIER P\<rparr>
      | t_xp_dll_token \<Rightarrow> P\<lparr>T_XP_DLL := v * PROCESSOR_CLK_MULTIPLIER P\<rparr>
      | t_data_trans_token \<Rightarrow> P\<lparr>T_DATA_TRANS := v * PROCESSOR_CLK_MULTIPLIER P\<rparr>
      | wq_capacity_token \<Rightarrow> P\<lparr>WQ_CAPACITY := v\<rparr>
      | address_mapping_token \<Rightarrow> P\<lparr>ADDRESS_MAPPING := v\<rparr>
      | wq_lookup_latency_token \<Rightarrow> P\<lparr>WQ_LOOKUP_LATENCY := v\<rparr>
      | _ \<Rightarrow> P)"

text \<open>The cases that read a \<open>float\<close>.\<close>

definition float_tokens :: "token_t list" where
  "float_tokens = [vdd_token, idd0_token, idd2p0_token, idd2p1_token, idd2n_token, idd3p_token, idd3n_token, idd4r_token, idd4w_token, idd5_token]"

definition set_power :: "token_t \<Rightarrow> rat \<Rightarrow> power_params \<Rightarrow> power_params" where
  "set_power t v Q =
     (case t of
        vdd_token \<Rightarrow> Q\<lparr>VDD := v\<rparr>
      | idd0_token \<Rightarrow> Q\<lparr>IDD0 := v\<rparr>
      | idd2p0_token \<Rightarrow> Q\<lparr>IDD2P0 := v\<rparr>
      | idd2p1_token \<Rightarrow> Q\<lparr>IDD2P1 := v\<rparr>
      | idd2n_token \<Rightarrow> Q\<lparr>IDD2N := v\<rparr>
      | idd3p_token \<Rightarrow> Q\<lparr>IDD3P := v\<rparr>
      | idd3n_token \<Rightarrow> Q\<lparr>IDD3N := v\<rparr>
      | idd4r_token \<Rightarrow> Q\<lparr>IDD4R := v\<rparr>
      | idd4w_token \<Rightarrow> Q\<lparr>IDD4W := v\<rparr>
      | idd5_token \<Rightarrow> Q\<lparr>IDD5 := v\<rparr>
      | _ \<Rightarrow> Q)"

text \<open>\<open>%f\<close>: decimal notation with an optional fraction and exponent.\<close>

definition scan_exponent :: "string \<Rightarrow> int \<times> string" where
  "scan_exponent r =
     (case r of [] \<Rightarrow> (0, []) | c # r' \<Rightarrow>
       let (neg, r2) = scan_sign r'; ds = takeWhile (is_digit 10) r2
       in if c \<in> {CHR ''e'', CHR ''E''} \<and> ds \<noteq> []
          then (if neg then - number 10 ds else number 10 ds, dropWhile (is_digit 10) r2)
          else (0, r))"

definition scan_fraction :: "string \<Rightarrow> string \<times> string" where
  "scan_fraction r =
     (case r of [] \<Rightarrow> ([], []) | c # r' \<Rightarrow>
       if c = CHR ''.'' then (takeWhile (is_digit 10) r', dropWhile (is_digit 10) r') else ([], r))"

definition decimal :: "string \<Rightarrow> int \<Rightarrow> rat" where
  "decimal ds e = (if 0 \<le> e then of_int (number 10 ds * 10 ^ nat e) else of_int (number 10 ds) / of_int (10 ^ nat (- e)))"

definition fscan_f :: "string \<Rightarrow> rat option \<times> string" where
  "fscan_f cs =
     (let (neg, cs) = scan_sign (skip_space cs);
          ds = takeWhile (is_digit 10) cs;
          (fs, r) = scan_fraction (dropWhile (is_digit 10) cs)
      in if ds @ fs = [] then (None, r)
         else let (e, r) = scan_exponent r; v = decimal (ds @ fs) (e - int (length fs))
              in (Some (if neg then - v else v), r))"

section \<open>read_config_file\<close>

record config =
  fin :: string
  input_string :: string
  input_int :: int
  input_float :: rat
  cfg_params :: params
  cfg_power :: power_params

text \<open>The string in a character array, and a word stored at an offset with its terminating zero.\<close>

definition c_str :: "string \<Rightarrow> string" where
  "c_str buf = takeWhile (\<lambda>c. c \<noteq> CHR 0x00) buf"

definition store_str :: "nat \<Rightarrow> string \<Rightarrow> string \<Rightarrow> string res" where
  "store_str off w buf =
     (if off + length w < length buf
      then Inr (take off buf @ w @ [CHR 0x00] @ drop (off + length w + 1) buf)
      else Inl Invalid_pointer)"

text \<open>The word that begins with the character \<open>c\<close> that \<open>fgetc\<close> has returned, or follows it.\<close>

definition read_word :: "char \<Rightarrow> config \<Rightarrow> config res" where
  "read_word c st =
     (let (w, r) = fscan_s (fin st);
          blank = (c \<in> {CHR 0x0A, CHR 0x0D, CHR 0x20, CHR 0x09})
      in bindE (case w of None \<Rightarrow> Inr (input_string st)
                | Some w \<Rightarrow> store_str (if blank then 0 else 1) w (input_string st))
           (\<lambda>buf. Inr (st\<lparr>fin := r, input_string := (if blank then buf else c # drop 1 buf)\<rparr>)))"

definition skip_comment :: "string \<Rightarrow> string" where
  "skip_comment cs = drop 1 (dropWhile (\<lambda>c. c \<noteq> CHR 0x0A \<and> c \<noteq> CHR 0xFF) cs)"

definition read_field :: "token_t \<Rightarrow> config \<Rightarrow> config" where
  "read_field t st =
     (if t = comment_token then st\<lparr>fin := skip_comment (fin st)\<rparr>
      else if t = unknown_token then st
      else if t \<in> set float_tokens then
        (let (v, r) = fscan_f (fin st);
             st = st\<lparr>fin := r, input_float := (case v of None \<Rightarrow> input_float st | Some x \<Rightarrow> x)\<rparr>
         in st\<lparr>cfg_power := set_power t (input_float st) (cfg_power st)\<rparr>)
      else
        (let (v, r) = fscan_d (fin st);
             st = st\<lparr>fin := r, input_int := (case v of None \<Rightarrow> input_int st | Some x \<Rightarrow> x)\<rparr>
         in st\<lparr>cfg_params := set_param t (input_int st) (cfg_params st)\<rparr>))"

definition config_step :: "char \<Rightarrow> config \<Rightarrow> config res" where
  "config_step c st =
     bindE (read_word c st) (\<lambda>st. Inr (read_field (tokenize (c_str (input_string st))) st))"

lemma fscan_shrinks: "length (snd (fscan_s cs)) \<le> length cs" "length (snd (fscan_d cs)) \<le> length cs"
  "length (snd (fscan_f cs)) \<le> length cs" "length (skip_comment cs) \<le> length cs"
proof -
  have drop: "length (dropWhile p cs) \<le> length cs" for p :: "char \<Rightarrow> bool" and cs by (rule length_dropWhile_le)
  have space: "length (skip_space cs) \<le> length cs" for cs by (simp add: skip_space_def drop)
  have sign: "length (snd (scan_sign cs)) \<le> length cs" for cs by (simp add: scan_sign_def split: list.split)
  show "length (snd (fscan_s cs)) \<le> length cs"
    using space [of cs] drop order_trans by (fastforce simp: fscan_s_def Let_def)
  have num: "length r \<le> length cs" if "scan_number b (\<lambda>cs. cs) cs = Some (v, r)" for b v r
    using that space [of cs] sign [of "skip_space cs"] drop [of "is_digit b" "snd (scan_sign (skip_space cs))"]
    by (auto simp: scan_number_def Let_def split: prod.splits if_splits)
  then show "length (snd (fscan_d cs)) \<le> length cs"
    using sign [of "skip_space cs"] space [of cs]
    by (auto simp: fscan_d_def scan_d_def split: option.splits)
  have frac: "length (snd (scan_fraction r)) \<le> length r" for r
    using drop by (auto simp: scan_fraction_def le_SucI split: list.split)
  have exp: "length (snd (scan_exponent r)) \<le> length r" for r
  proof (cases r)
    case (Cons c r')
    have "length (dropWhile (is_digit 10) (snd (scan_sign r'))) \<le> length r'"
      using drop [of "is_digit 10" "snd (scan_sign r')"] sign [of r'] by simp
    then show ?thesis by (auto simp: Cons scan_exponent_def Let_def split: prod.splits)
  qed (simp add: scan_exponent_def)
  let ?cs = "snd (scan_sign (skip_space cs))"
  have "length (snd (scan_fraction (dropWhile (is_digit 10) ?cs))) \<le> length cs"
    using frac [of "dropWhile (is_digit 10) ?cs"] drop [of "is_digit 10" ?cs] sign [of "skip_space cs"] space [of cs] by linarith
  then show "length (snd (fscan_f cs)) \<le> length cs"
    using exp [of "snd (scan_fraction (dropWhile (is_digit 10) ?cs))"]
    by (auto simp: fscan_f_def Let_def split: prod.splits)
  show "length (skip_comment cs) \<le> length cs"
    using drop [of "\<lambda>c. c \<noteq> CHR 0x0A \<and> c \<noteq> CHR 0xFF" cs] by (simp add: skip_comment_def)
qed

lemma config_step_shrinks:
  assumes "config_step c st = Inr st'" shows "length (fin st') \<le> length (fin st)"
proof -
  obtain st1 where w: "read_word c st = Inr st1" and st': "st' = read_field (tokenize (c_str (input_string st1))) st1"
    using assms by (auto simp: config_step_def)
  have "fin st1 = snd (fscan_s (fin st))" using w by (auto simp: read_word_def Let_def split: prod.splits)
  moreover have "length (fin (read_field t st1)) \<le> length (fin st1)" for t
    using fscan_shrinks [of "fin st1"] by (auto simp: read_field_def Let_def split: prod.splits)
  ultimately show ?thesis using fscan_shrinks(1) [of "fin st"] st' order_trans by metis
qed

text \<open>
  The loop. Every iteration consumes the character it begins with, so it terminates. \<open>c\<close> is a
  \<open>char\<close>: the byte \<open>0xFF\<close> equals \<open>EOF\<close> and ends the loop.
\<close>

function read_config_file :: "config \<Rightarrow> config res" where
  "read_config_file st =
     (case fin st of
        [] \<Rightarrow> Inr st
      | c # r \<Rightarrow>
          if c = CHR 0xFF then Inr (st\<lparr>fin := r\<rparr>)
          else case config_step c (st\<lparr>fin := r\<rparr>) of
                 Inl e \<Rightarrow> Inl e
               | Inr st' \<Rightarrow> read_config_file st')"
  by pat_completeness auto
termination
  by (relation "measure (\<lambda>st. length (fin st))") (auto dest!: config_step_shrinks)

declare read_config_file.simps [simp del]

section \<open>What is read\<close>

text \<open>A configuration file as it is meant: one integer parameter and its value per line.\<close>

definition config_line :: "string \<times> nat \<Rightarrow> string" where
  "config_line e = fst e @ CHR 0x20 # show_nat 10 (snd e) @ [CHR 0x0A]"

definition config_text :: "(string \<times> nat) list \<Rightarrow> string" where
  "config_text es = concat (map config_line es)"

definition line_ok :: "string \<times> nat \<Rightarrow> bool" where
  "line_ok e \<longleftrightarrow> fst e \<in> set (map fst config_keys) \<and> tokenize (fst e) \<notin> set float_tokens \<and> snd e < 2 ^ 31"

definition assign :: "string \<times> nat \<Rightarrow> params \<Rightarrow> params" where
  "assign e P = set_param (tokenize (fst e)) (int (snd e)) P"

definition word_ok :: "string \<Rightarrow> bool" where
  "word_ok k \<longleftrightarrow> 2 \<le> length k \<and> length k < 100 \<and> list_all (\<lambda>c. \<not> is_space c \<and> c \<noteq> CHR 0x00) k \<and> hd k \<noteq> CHR 0xFF \<and>
     tokenize k \<noteq> comment_token \<and> tokenize k \<noteq> unknown_token"

lemma key_tokens: "list_all (\<lambda>(k, t). tokenize k = t) config_keys"
  by code_simp

lemma key_words: "list_all word_ok (map fst config_keys)"
  by code_simp

lemma key_word: "line_ok e \<Longrightarrow> word_ok (fst e)"
  using key_words by (auto simp: line_ok_def list_all_iff)

lemma word_split: assumes "word_ok k" obtains c w where "k = c # w" "w \<noteq> []"
  using assms by (cases k; cases "tl k") (auto simp: word_ok_def)

lemma fscan_s_word:
  assumes "list_all (\<lambda>c. \<not> is_space c \<and> c \<noteq> CHR 0x00) w" and "w \<noteq> []"
  shows "fscan_s (w @ CHR 0x20 # r) = (Some w, CHR 0x20 # r)"
proof -
  have sp: "is_space (CHR 0x20)" by (simp add: is_space_def)
  have "skip_space (w @ CHR 0x20 # r) = w @ CHR 0x20 # r"
    using assms by (cases w) (simp_all add: skip_space_def)
  moreover have "takeWhile (\<lambda>c. \<not> is_space c) (w @ CHR 0x20 # r) = w" "dropWhile (\<lambda>c. \<not> is_space c) (w @ CHR 0x20 # r) = CHR 0x20 # r"
    using assms(1) sp by (simp_all add: takeWhile_append2 dropWhile_append2 list_all_iff)
  ultimately show ?thesis using assms(2) by (simp add: fscan_s_def Let_def)
qed

lemma read_field_int:
  assumes "word_ok k" and "tokenize k \<notin> set float_tokens" and "v < 2 ^ 31"
    and "fin st = CHR 0x20 # show_nat 10 v @ CHR 0x0A # r"
  shows "read_field (tokenize k) st = st\<lparr>fin := CHR 0x0A # r, input_int := int v,
    cfg_params := set_param (tokenize k) (int v) (cfg_params st)\<rparr>"
proof -
  have "ends_number 10 (CHR 0x0A # r)" by (simp add: ends_number_def is_digit_def digit_value_def)
  then have "scan_d ([CHR 0x20] @ show_nat 10 v @ CHR 0x0A # r) = Some (int v, CHR 0x0A # r)"
    using assms(3) by (intro scan_d_show) (simp_all add: is_space_def)
  then have "fscan_d (fin st) = (Some (int v), CHR 0x0A # r)" by (simp add: fscan_d_def assms(4))
  then show ?thesis using assms(1,2) by (simp add: read_field_def word_ok_def Let_def)
qed

lemma c_str_word: "list_all (\<lambda>c. \<not> is_space c \<and> c \<noteq> CHR 0x00) k \<Longrightarrow> c_str (k @ CHR 0x00 # r) = k"
  by (simp add: c_str_def takeWhile_append2 list_all_iff)

text \<open>The state after a line.\<close>

definition after :: "string \<times> nat \<Rightarrow> string \<Rightarrow> params \<Rightarrow> config \<Rightarrow> bool" where
  "after e r P st \<longleftrightarrow> fin st = r \<and> c_str (input_string st) = fst e \<and> length (input_string st) = 256 \<and>
     input_int st = int (snd e) \<and> cfg_params st = assign e P"

lemma next_line_step:
  assumes "line_ok e" and "length (input_string st) = 256"
    and "fin st = fst e @ CHR 0x20 # show_nat 10 (snd e) @ CHR 0x0A # r"
  shows "\<exists>st'. config_step (CHR 0x0A) st = Inr st' \<and> after e (CHR 0x0A # r) (cfg_params st) st'"
proof -
  obtain k v where e: "e = (k, v)" by force
  have k: "word_ok k" using key_word [OF assms(1)] by (simp add: e)
  have w: "fscan_s (fin st) = (Some k, CHR 0x20 # show_nat 10 v @ CHR 0x0A # r)"
    unfolding assms(3) e fst_conv snd_conv by (rule fscan_s_word) (use k in \<open>auto simp: word_ok_def\<close>)
  let ?buf = "k @ CHR 0x00 # drop (length k + 1) (input_string st)"
  have "store_str 0 k (input_string st) = Inr ?buf" using k assms(2) by (simp add: store_str_def word_ok_def)
  then have rw: "read_word (CHR 0x0A) st = Inr (st\<lparr>fin := CHR 0x20 # show_nat 10 v @ CHR 0x0A # r, input_string := ?buf\<rparr>)"
    (is "_ = Inr ?st") using w by (simp add: read_word_def)
  have "c_str ?buf = k" using k by (intro c_str_word) (simp add: word_ok_def)
  moreover have "read_field (tokenize k) ?st = ?st\<lparr>fin := CHR 0x0A # r, input_int := int v,
      cfg_params := set_param (tokenize k) (int v) (cfg_params ?st)\<rparr>"
    by (rule read_field_int [OF k]) (use assms(1) in \<open>simp_all add: e line_ok_def\<close>)
  ultimately show ?thesis
    using rw k assms(2) by (simp add: config_step_def after_def assign_def e word_ok_def)
qed

lemma first_line_step:
  assumes "line_ok e" and "length (input_string st) = 256"
    and "fin st = tl (fst e) @ CHR 0x20 # show_nat 10 (snd e) @ CHR 0x0A # r"
  shows "\<exists>st'. config_step (hd (fst e)) st = Inr st' \<and> after e (CHR 0x0A # r) (cfg_params st) st'"
proof -
  obtain k v where e: "e = (k, v)" by force
  have k: "word_ok k" using key_word [OF assms(1)] by (simp add: e)
  obtain c w where cw: "k = c # w" "w \<noteq> []" using word_split [OF k] by blast
  have s: "fscan_s (fin st) = (Some w, CHR 0x20 # show_nat 10 v @ CHR 0x0A # r)"
    unfolding assms(3) e fst_conv snd_conv using k cw by (simp add: word_ok_def fscan_s_word)
  have blank: "c \<notin> {CHR 0x0A, CHR 0x0D, CHR 0x20, CHR 0x09}" using k cw by (auto simp: word_ok_def is_space_def)
  let ?buf = "k @ CHR 0x00 # drop (length k + 1) (input_string st)"
  have "store_str 1 w (input_string st) = Inr (take 1 (input_string st) @ w @ [CHR 0x00] @ drop (length k + 1) (input_string st))"
    using k cw assms(2) by (simp add: store_str_def word_ok_def)
  moreover have "drop 1 (take 1 (input_string st) @ w @ [CHR 0x00] @ drop (length k + 1) (input_string st)) =
      w @ [CHR 0x00] @ drop (length k + 1) (input_string st)" using assms(2) by simp
  ultimately have rw: "read_word c st = Inr (st\<lparr>fin := CHR 0x20 # show_nat 10 v @ CHR 0x0A # r, input_string := ?buf\<rparr>)"
    (is "_ = Inr ?st") using s blank cw by (simp add: read_word_def)
  have "c_str ?buf = k" using k by (intro c_str_word) (simp add: word_ok_def)
  moreover have "read_field (tokenize k) ?st = ?st\<lparr>fin := CHR 0x0A # r, input_int := int v,
      cfg_params := set_param (tokenize k) (int v) (cfg_params ?st)\<rparr>"
    by (rule read_field_int [OF k]) (use assms(1) in \<open>simp_all add: e line_ok_def\<close>)
  ultimately show ?thesis
    using rw k assms(2) cw by (simp add: config_step_def after_def assign_def e word_ok_def)
qed

text \<open>The newline at the end of the file makes the loop read the last word again, with the last value.\<close>

lemma set_param_twice: "set_param t v (set_param t v P) = set_param t v P"
  by (cases t) (simp_all add: set_param_def)

lemma last_step:
  assumes "line_ok e" and "after e [] P st"
  shows "\<exists>st'. config_step (CHR 0x0A) st = Inr st' \<and> fin st' = [] \<and> cfg_params st' = assign e P"
proof -
  have k: "word_ok (fst e)" by (rule key_word [OF assms(1)])
  have "fscan_s [] = (None, [])" "fscan_d [] = (None, [])"
    by (simp_all add: fscan_s_def skip_space_def fscan_d_def scan_d_def scan_number_def scan_sign_def)
  then show ?thesis using assms k
    by (simp add: config_step_def read_word_def read_field_def after_def line_ok_def word_ok_def Let_def assign_def
        set_param_twice)
qed

lemma config_text_rest:
  assumes "list_all line_ok es" and "line_ok e" and "after e (CHR 0x0A # config_text es) P st"
  shows "\<exists>st'. read_config_file st = Inr st' \<and> cfg_params st' = fold assign es (assign e P)"
  using assms
proof (induction es arbitrary: e P st)
  case Nil
  have "after e [] P (st\<lparr>fin := []\<rparr>)" using Nil(3) by (simp add: after_def config_text_def)
  from last_step [OF Nil(2) this] obtain st' where "config_step (CHR 0x0A) (st\<lparr>fin := []\<rparr>) = Inr st'"
    "fin st' = []" "cfg_params st' = assign e P" by blast
  then show ?case
    using Nil(3) by (subst read_config_file.simps) (simp add: after_def config_text_def read_config_file.simps [of st'])
next
  case (Cons e' es)
  let ?st = "st\<lparr>fin := config_text (e' # es)\<rparr>"
  have "fin ?st = fst e' @ CHR 0x20 # show_nat 10 (snd e') @ CHR 0x0A # config_text es"
    by (simp add: config_text_def config_line_def)
  with next_line_step [of e' ?st "config_text es"] Cons.prems obtain st' where
    step: "config_step (CHR 0x0A) ?st = Inr st'" and after: "after e' (CHR 0x0A # config_text es) (cfg_params ?st) st'"
    by (auto simp: after_def)
  have "read_config_file st = read_config_file st'"
    using Cons.prems(3) step by (subst read_config_file.simps) (simp add: after_def)
  moreover have "cfg_params ?st = assign e P" using Cons.prems(3) by (simp add: after_def)
  ultimately show ?case using Cons.IH [OF _ _ after] Cons.prems(1) by simp
qed

lemma config_round_trip_fold:
  assumes "list_all line_ok (e # es)" and "length (input_string st) = 256"
  shows "\<exists>st'. read_config_file (st\<lparr>fin := config_text (e # es)\<rparr>) = Inr st' \<and>
    cfg_params st' = fold assign (e # es) (cfg_params st)"
proof -
  have k: "word_ok (fst e)" using key_word assms(1) by simp
  obtain c w where cw: "fst e = c # w" using word_split [OF k] by blast
  let ?r = "tl (fst e) @ CHR 0x20 # show_nat 10 (snd e) @ CHR 0x0A # config_text es"
  have fin: "fin (st\<lparr>fin := config_text (e # es)\<rparr>) = c # ?r" by (simp add: config_text_def config_line_def cw)
  obtain st1 where step: "config_step (hd (fst e)) (st\<lparr>fin := ?r\<rparr>) = Inr st1"
    and after: "after e (CHR 0x0A # config_text es) (cfg_params (st\<lparr>fin := ?r\<rparr>)) st1"
    using first_line_step [of e "st\<lparr>fin := ?r\<rparr>" "config_text es"] assms by auto
  have "c \<noteq> CHR 0xFF" using k cw by (simp add: word_ok_def)
  then have "read_config_file (st\<lparr>fin := config_text (e # es)\<rparr>) = read_config_file st1"
    using step fin cw by (subst read_config_file.simps) simp
  then show ?thesis using config_text_rest [OF _ _ after] assms(1) by simp
qed

section \<open>Properties\<close>


definition zero_params :: params where
  "zero_params = \<lparr>
     NUMCORES = 0, PROCESSOR_CLK_MULTIPLIER = 0, ROBSIZE = 0, MAX_RETIRE = 0, MAX_FETCH = 0,
     PIPELINEDEPTH = 0, NUM_CHANNELS = 0, NUM_RANKS = 0, NUM_BANKS = 0, NUM_ROWS = 0,
     NUM_COLUMNS = 0, CACHE_LINE_SIZE = 0, ADDRESS_BITS = 0, DRAM_CLK_FREQUENCY = 0,
     T_RCD = 0, T_RP = 0, T_CAS = 0, T_RAS = 0, T_RC = 0, T_CWD = 0, T_WR = 0,
     T_WTR = 0, T_RTRS = 0, T_DATA_TRANS = 0, T_RTP = 0, T_CCD = 0, T_XP = 0,
     T_XP_DLL = 0, T_CKE = 0, T_PD_MIN = 0, T_RRD = 0, T_FAW = 0, T_REFI = 0,
     T_RFC = 0, WQ_CAPACITY = 0, ADDRESS_MAPPING = 0, WQ_LOOKUP_LATENCY = 0\<rparr>"

definition demo_config :: config where
  "demo_config = \<lparr>fin = [], input_string = replicate 256 CHR ''x'', input_int = 0, input_float = 0,
     cfg_params = zero_params,
     cfg_power = \<lparr>VDD = 0, IDD0 = 0, IDD2P0 = 0, IDD2P1 = 0, IDD2N = 0, IDD3P = 0, IDD3N = 0, IDD4R = 0, IDD4W = 0, IDD5 = 0\<rparr>\<rparr>"

definition demo_lines :: "(string \<times> nat) list" where
  "demo_lines = [(''T_RP'', 11), (''T_RFC'', 88)]"

lemma demo_tokens: "tokenize ''PROCESSOR_CLK_MULTIPLIER'' = processor_clk_multiplier_token"
  "tokenize ''T_RP'' = t_rp_token" "tokenize ''T_RFC'' = t_rfc_token"
  by code_simp+

lemma demo_lines_ok: "line_ok (''PROCESSOR_CLK_MULTIPLIER'', 4)" "list_all line_ok demo_lines"
proof -
  have "''PROCESSOR_CLK_MULTIPLIER'' \<in> set (map fst config_keys)" "''T_RP'' \<in> set (map fst config_keys)"
    "''T_RFC'' \<in> set (map fst config_keys)"
    by code_simp+
  then show "line_ok (''PROCESSOR_CLK_MULTIPLIER'', 4)" "list_all line_ok demo_lines"
    by (simp_all add: line_ok_def demo_lines_def demo_tokens float_tokens_def del: set_map)
qed


text \<open>Timings are multiples of the clock multiplier, which the refresh logic relies on when it
  compares deadlines for equality: if the clock multiplier is the first line and not set again, all
  timing parameters that the refresh logic and the activation window use are multiples of it,
  whatever integer parameters the further lines assign, in any order.\<close>

theorem config_aligned:
  assumes "list_all line_ok ((''PROCESSOR_CLK_MULTIPLIER'', m) # es)" and "length (input_string st) = 256"
    and "cfg_params st = zero_params"
    and "\<forall>e\<in>set es. fst e \<noteq> ''PROCESSOR_CLK_MULTIPLIER''"
  shows "\<exists>st'. read_config_file (st\<lparr>fin := config_text ((''PROCESSOR_CLK_MULTIPLIER'', m) # es)\<rparr>) = Inr st' \<and>
    PROCESSOR_CLK_MULTIPLIER (cfg_params st') = int m \<and> aligned_timing (cfg_params st')"
proof -
  have key: "tokenize (fst e) \<noteq> processor_clk_multiplier_token"
    if "line_ok e" and "fst e \<noteq> ''PROCESSOR_CLK_MULTIPLIER''" for e
  proof -
    have "list_all (\<lambda>(k, t). k \<noteq> ''PROCESSOR_CLK_MULTIPLIER'' \<longrightarrow> tokenize k \<noteq> processor_clk_multiplier_token) config_keys"
      by code_simp
    then show ?thesis using that by (auto simp: line_ok_def list_all_iff)
  qed
  have keep: "PROCESSOR_CLK_MULTIPLIER (set_param t v P) = PROCESSOR_CLK_MULTIPLIER P \<and> aligned_timing (set_param t v P)"
    if "t \<noteq> processor_clk_multiplier_token" and "aligned_timing P" for t v P
    using that by (cases t) (simp_all add: set_param_def aligned_timing_def)
  have es: "PROCESSOR_CLK_MULTIPLIER (fold assign es P) = PROCESSOR_CLK_MULTIPLIER P \<and> aligned_timing (fold assign es P)"
    if "aligned_timing P" and "list_all line_ok es" and "\<forall>e\<in>set es. fst e \<noteq> ''PROCESSOR_CLK_MULTIPLIER''" for es P
    using that key keep by (induction es arbitrary: P) (simp_all add: assign_def)
  let ?P = "assign (''PROCESSOR_CLK_MULTIPLIER'', m) zero_params"
  have "aligned_timing ?P" "PROCESSOR_CLK_MULTIPLIER ?P = int m"
    by (simp_all add: assign_def demo_tokens(1) set_param_def aligned_timing_def zero_params_def)
  then have "PROCESSOR_CLK_MULTIPLIER (fold assign es ?P) = int m \<and> aligned_timing (fold assign es ?P)"
    using es [of ?P es] assms(1,4) by simp
  then show ?thesis using config_round_trip_fold [OF assms(1,2)] assms(3) by auto
qed

theorem config_aligned_witness:
  "\<exists>st'. read_config_file (demo_config\<lparr>fin := config_text ((''PROCESSOR_CLK_MULTIPLIER'', 4) # demo_lines)\<rparr>) = Inr st' \<and>
     aligned_timing (cfg_params st')"
proof -
  have "length (input_string demo_config) = 256" "cfg_params demo_config = zero_params" by (simp_all add: demo_config_def)
  from config_aligned [OF _ this, of 4 demo_lines] show ?thesis
    using demo_lines_ok by (auto simp: demo_lines_def)
qed

end
