(* ===== verification/Startup.thy ===== *)
theory Startup
  imports Main_Loop Config
begin

text \<open>
  The start and the end of \<open>main\<close> (\<open>usimm-v1.3/src/main.c\<close>): the command line, the trace files and
  the address prefixes of their cores, the choice of the chip file, the geometry scaled to the
  number of cores, and the execution time of the core that finishes last. The file system is a
  parameter: the contents of the files that can be opened for reading.

  The theorems: the prefix table gives the threads of one multi-threaded program one address space
  and everything else its own, the address spaces of different prefixes do not overlap in the scaled
  DRAM, and what the initialisation leaves is a start of \<open>main_run\<close>.
\<close>

section \<open>Trace files and prefixes\<close>

text \<open>
  \<open>fnstart\<close>: the loop from the terminating zero down to the last slash, and the increment after it;
  the number is the position the loop is at.
\<close>

fun fn_start :: "string \<Rightarrow> nat \<Rightarrow> nat" where
  "fn_start name 0 = (if (name @ [CHR 0x00]) ! 0 = CHR ''/'' then 1 else 0)"
| "fn_start name (Suc n) = (if (name @ [CHR 0x00]) ! Suc n = CHR ''/'' then Suc (Suc n) else fn_start name n)"

text \<open>The prefix of core \<open>numc\<close> and the new \<open>currMTapp\<close>.\<close>

definition core_prefix :: "string \<Rightarrow> int \<Rightarrow> int \<Rightarrow> (int \<times> int) res" where
  "core_prefix name numc currMTapp =
     (let fnstart = fn_start name (length name) in
      if length name - fnstart > 2 then
        if name ! fnstart = CHR ''M'' \<and> name ! (fnstart + 1) = CHR ''T'' then
          if name ! (fnstart + 2) = CHR ''0'' then Inr (numc, numc)
          else if currMTapp < 0 then Inl (Exits (- 6))
          else Inr (currMTapp, currMTapp)
        else Inr (numc, currMTapp)
      else Inr (numc, currMTapp))"

definition reset_rob :: "robstructure \<Rightarrow> robstructure" where
  "reset_rob b = b\<lparr>head := 0, tail := 0, inflight := 0, tracedone := False\<rparr>"

definition init_core ::
  "(string \<Rightarrow> string option) \<Rightarrow> string list \<Rightarrow> int \<Rightarrow> cpu \<times> robstructure arr1 \<times> int \<Rightarrow> (cpu \<times> robstructure arr1 \<times> int) res" where
  "init_core fs argv numc x =
     (let (u, rob, currMTapp) = x; name = argv ! nat (numc + 2) in
      case fs name of
        None \<Rightarrow> Inl (Exits (- 5))
      | Some text \<Rightarrow>
          bindE (core_prefix name numc currMTapp) (\<lambda>(p, currMTapp).
            Inr (u\<lparr>tif := (tif u)(numc := text), prefixtable := (prefixtable u)(numc := p),
                   committed := (committed u)(numc := 0), fetched := (fetched u)(numc := 0),
                   time_done := (time_done u)(numc := 0)\<rparr>,
                 rob(numc := reset_rob (rob numc)), currMTapp)))"

section \<open>The configuration\<close>

text \<open>
  The chip file and \<open>chips_per_rank\<close>. In the last branch \<open>assert (-1)\<close> holds, so the program goes on
  with the null pointer that the global \<open>vi_file\<close> still is.
\<close>

definition vi_choice :: "params \<Rightarrow> (string \<times> int) option" where
  "vi_choice P =
     (let ch = NUM_CHANNELS P; n = NUMCORES P in
      if ch = 1 \<and> n = 1 then Some (''input/1Gb_x4.vi'', 16)
      else if ch = 1 \<and> n = 2 then Some (''input/2Gb_x4.vi'', 16)
      else if ch = 1 \<and> n > 2 \<and> n \<le> 4 then Some (''input/4Gb_x4.vi'', 16)
      else if ch = 4 \<and> n = 1 then Some (''input/1Gb_x16.vi'', 4)
      else if ch = 4 \<and> n = 2 then Some (''input/1Gb_x8.vi'', 8)
      else if ch = 4 \<and> n > 2 \<and> n \<le> 4 then Some (''input/2Gb_x8.vi'', 8)
      else if ch = 4 \<and> n > 4 \<and> n \<le> 8 then Some (''input/4Gb_x8.vi'', 8)
      else if ch = 4 \<and> n > 8 \<and> n \<le> 16 then Some (''input/4Gb_x4.vi'', 16)
      else None)"

definition address_widths :: "params \<Rightarrow> int" where
  "address_widths P = int (bit_width (NUM_CHANNELS P) + bit_width (NUM_RANKS P) + bit_width (NUM_BANKS P) +
     bit_width (NUM_ROWS P) + bit_width (NUM_COLUMNS P) + bit_width (CACHE_LINE_SIZE P))"

definition pow_of_2_cores :: "params \<Rightarrow> int" where
  "pow_of_2_cores P = (if NUMCORES P = 1 then 1 else push_bit (bit_width (NUMCORES P - 1) + 1) 1)"

definition scale_params :: "params \<Rightarrow> params" where
  "scale_params P = P\<lparr>ADDRESS_BITS := ADDRESS_BITS P + int (bit_width (NUMCORES P)),
     NUM_ROWS := NUM_ROWS P * pow_of_2_cores P\<rparr>"

text \<open>A call of \<open>read_config_file\<close> on globals; \<open>g\<close> holds what its uninitialised locals contain.\<close>

definition read_globals :: "config \<Rightarrow> string \<Rightarrow> params \<times> power_params \<Rightarrow> (params \<times> power_params) res" where
  "read_globals g text x =
     bindE (read_config_file (g\<lparr>fin := text, cfg_params := fst x, cfg_power := snd x\<rparr>))
       (\<lambda>st. Inr (cfg_params st, cfg_power st))"

definition zero_power :: power_params where
  "zero_power = \<lparr>VDD = 0, IDD0 = 0, IDD2P0 = 0, IDD2P1 = 0, IDD2N = 0, IDD3P = 0, IDD3N = 0, IDD4R = 0, IDD4W = 0, IDD5 = 0\<rparr>"

text \<open>The two configuration files, with the checks between them.\<close>

definition configure ::
  "(string \<Rightarrow> string option) \<Rightarrow> string \<Rightarrow> config \<Rightarrow> config \<Rightarrow> params \<Rightarrow> (params \<times> power_params \<times> int) res" where
  "configure fs config_file g1 g2 P =
     bindE (read_globals g1 config_file (P, zero_power)) (\<lambda>(P, W).
       case vi_choice P of
         None \<Rightarrow> Inl (Exits (- 5))
       | Some (name, chips_per_rank) \<Rightarrow>
           case fs name of
             None \<Rightarrow> Inl (Exits (- 5))
           | Some vi_file \<Rightarrow>
               bindE (assertE (address_widths P = ADDRESS_BITS P) ''ADDRESS_BITS'') (\<lambda>_.
               bindE (read_globals g2 vi_file (scale_params P, W)) (\<lambda>(P, W). Inr (P, W, chips_per_rank))))"

text \<open>
  \<open>main\<close> up to the initialisation of the controller; \<open>u\<close> and \<open>rob\<close> are the allocated arrays. The last
  argument sets \<open>N_value\<close>, which only the power-down policy reads; it is a parameter of that policy.
\<close>

definition startup ::
  "(string \<Rightarrow> string option) \<Rightarrow> string list \<Rightarrow> config \<Rightarrow> config \<Rightarrow> cpu \<Rightarrow> robstructure arr1 \<Rightarrow>
    (params \<times> power_params \<times> int \<times> cpu \<times> robstructure arr1) res" where
  "startup fs argv g1 g2 u rob =
     (let argc = int (length argv) in
      if argc < 3 then Inl (Exits (- 3))
      else case fs (argv ! 1) of
        None \<Rightarrow> Inl (Exits (- 4))
      | Some config_file \<Rightarrow>
          let P = zero_params\<lparr>NUMCORES := argc - 2 - 1\<rparr> in
          bindE (foldE (init_core fs argv) (below (NUMCORES P)) (u, rob, - 1)) (\<lambda>(u, rob, _).
          bindE (configure fs config_file g1 g2 P) (\<lambda>(P, W, chips_per_rank).
            Inr (P, W, chips_per_rank, u, rob))))"

section \<open>The end\<close>

text \<open>\<open>maxcr\<close>, and the assignment after its loop.\<close>

definition last_core :: "params \<Rightarrow> cpu \<Rightarrow> int" where
  "last_core P u =
     snd (fold (\<lambda>numc (maxtd, maxcr). if time_done u numc > maxtd then (time_done u numc, numc) else (maxtd, maxcr))
       [1..NUMCORES P - 1] (time_done u 0, 0))"

definition finish_times :: "params \<Rightarrow> cpu \<times> mc \<Rightarrow> cpu" where
  "finish_times P x = (let (u, s) = x in u\<lparr>time_done := (time_done u)(last_core P u := CYCLE_VAL s)\<rparr>)"

text \<open>The core whose time is extended is one that finishes last.\<close>

lemma last_core_max:
  assumes "0 \<le> t" and "t < NUMCORES P"
  shows "time_done u t \<le> time_done u (last_core P u) \<and> 0 \<le> last_core P u \<and> last_core P u < NUMCORES P"
proof -
  define f where "f = (\<lambda>numc (maxtd, maxcr). if time_done u numc > maxtd then (time_done u numc, numc) else (maxtd, maxcr))"
  have "let (m, c) = fold f [1..int k] (time_done u 0, 0) in
    m = time_done u c \<and> 0 \<le> c \<and> c \<le> int k \<and> (\<forall>t. 0 \<le> t \<and> t \<le> int k \<longrightarrow> time_done u t \<le> m)" for k
  proof (induction k)
    case 0
    have "t = 0" if "0 \<le> t \<and> t \<le> 0" for t :: int using that by simp
    then show ?case by auto
  next
    case (Suc k)
    have "[1..int (Suc k)] = [1..int k] @ [int k + 1]" by (simp add: upto_rec2)
    moreover have "t \<le> int (Suc k) \<longleftrightarrow> t \<le> int k \<or> t = int k + 1" for t by auto
    ultimately show ?case using Suc by (fastforce simp: f_def split: prod.splits if_splits)
  qed
  from this [of "nat (NUMCORES P - 1)"] show ?thesis
    using assms by (auto simp: last_core_def f_def split: prod.splits)
qed

section \<open>Prefixes\<close>

lemma fn_start_le: "n \<le> length name \<Longrightarrow> fn_start name n \<le> length name"
  by (induction n) (auto simp: nth_append Suc_le_eq split: if_splits)

text \<open>What \<open>fnstart\<close> finds is the name without its directories.\<close>

definition base_name :: "string \<Rightarrow> string" where
  "base_name name = rev (takeWhile (\<lambda>c. c \<noteq> CHR ''/'') (rev name))"

lemma base_name_snoc: "base_name (name @ [c]) = (if c = CHR ''/'' then [] else base_name name @ [c])"
  by (simp add: base_name_def)

lemma fn_start_prefix: "n < length name \<Longrightarrow> drop (fn_start name n) (take (Suc n) name) = base_name (take (Suc n) name)"
proof (induction n)
  case 0
  then show ?case by (cases name) (auto simp: base_name_def)
next
  case (Suc n)
  have t: "take (Suc (Suc n)) name = take (Suc n) name @ [name ! Suc n]" using Suc.prems by (simp add: take_Suc_conv_app_nth)
  have "fn_start name n \<le> Suc n" by (induction n) auto
  then show ?case
    using Suc by (auto simp: t base_name_snoc nth_append)
qed

lemma fn_start_base: "drop (fn_start name (length name)) name = base_name name"
proof (cases "length name")
  case 0
  then show ?thesis by (simp add: base_name_def)
next
  case (Suc n)
  then have "fn_start name (length name) = fn_start name n" by (simp add: nth_append)
  then show ?thesis using fn_start_prefix [of n name] Suc by simp
qed

text \<open>The first thread of a multi-threaded program, and the further ones.\<close>

definition starts_app :: "string \<Rightarrow> bool" where
  "starts_app name \<longleftrightarrow> take 3 (base_name name) = ''MT0''"

definition joins_app :: "string \<Rightarrow> bool" where
  "joins_app name \<longleftrightarrow> length (base_name name) > 2 \<and> take 2 (base_name name) = ''MT'' \<and> \<not> starts_app name"

lemma core_prefix_eq:
  "core_prefix name numc cur =
     (if starts_app name then Inr (numc, numc)
      else if joins_app name then (if cur < 0 then Inl (Exits (- 6)) else Inr (cur, cur))
      else Inr (numc, cur))"
proof -
  define k where "k = fn_start name (length name)"
  have "drop k name = base_name name" unfolding k_def by (rule fn_start_base)
  moreover have "k \<le> length name" unfolding k_def by (rule fn_start_le) simp
  moreover have "take 3 (drop k name) = [name ! k, name ! (k + 1), name ! (k + 2)]"
    "take 2 (drop k name) = [name ! k, name ! (k + 1)]" if "length name - k > 2"
    using that \<open>k \<le> length name\<close>
    by (auto simp: numeral_3_eq_3 numeral_2_eq_2 take_Suc_conv_app_nth nth_drop)
  moreover have "length (base_name name) = length name - k" using calculation(1) by (metis length_drop)
  moreover have "length (base_name name) > 2" if "starts_app name"
    using that by (auto simp: starts_app_def dest: arg_cong [of _ _ length])
  ultimately show ?thesis
    by (auto simp: core_prefix_def starts_app_def joins_app_def k_def [symmetric] Let_def)
qed

text \<open>The loop over the cores: the entries below \<open>n\<close> are done.\<close>

lemma foldE_below:
  assumes "foldE f (below n) s = Inr s'" and "0 \<le> n" and "I 0 s"
    and step: "\<And>i s s'. 0 \<le> i \<Longrightarrow> i < n \<Longrightarrow> I i s \<Longrightarrow> f i s = Inr s' \<Longrightarrow> I (i + 1) s'"
  shows "I n s'"
proof -
  have "foldE f (below (int k)) s = Inr s' \<Longrightarrow> int k \<le> n \<Longrightarrow> I (int k) s'" for k s'
  proof (induction k arbitrary: s')
    case 0
    then show ?case using assms(3) by simp
  next
    case (Suc k)
    have "below (int (Suc k)) = below (int k) @ [int k]" by (simp add: upto_rec2)
    then obtain s1 where "foldE f (below (int k)) s = Inr s1" "f (int k) s1 = Inr s'"
      using Suc.prems(1) by (auto simp: foldE_append)
    then show ?case using Suc.IH [of s1] step [of "int k" s1 s'] Suc.prems(2) by (simp add: add.commute)
  qed
  from this [of "nat n"] show ?thesis using assms(1,2) by simp
qed

definition own_prefix :: "(int \<Rightarrow> string) \<Rightarrow> int arr1 \<Rightarrow> int \<Rightarrow> bool" where
  "own_prefix name p t \<longleftrightarrow>
     (if joins_app (name t)
      then 0 \<le> p t \<and> p t < t \<and> starts_app (name (p t)) \<and> (\<forall>j. p t < j \<and> j \<le> t \<longrightarrow> \<not> starts_app (name j))
      else p t = t)"

definition cores_done :: "(string \<Rightarrow> string option) \<Rightarrow> (int \<Rightarrow> string) \<Rightarrow> int \<Rightarrow> cpu \<Rightarrow> robstructure arr1 \<Rightarrow> bool" where
  "cores_done fs name n u rob \<longleftrightarrow> (\<forall>t. 0 \<le> t \<and> t < n \<longrightarrow>
     fs (name t) = Some (tif u t) \<and> own_prefix name (prefixtable u) t \<and>
     fresh_rob (rob t) \<and> committed u t = 0 \<and> fetched u t = 0 \<and> time_done u t = 0)"

definition app_at :: "(int \<Rightarrow> string) \<Rightarrow> int \<Rightarrow> int \<Rightarrow> bool" where
  "app_at name n cur \<longleftrightarrow> (0 \<le> cur \<longrightarrow> cur < n \<and> starts_app (name cur)) \<and>
     (\<forall>j. 0 \<le> j \<and> cur < j \<and> j < n \<longrightarrow> \<not> starts_app (name j))"

lemma starts_joins: "starts_app name \<Longrightarrow> \<not> joins_app name"
  by (simp add: joins_app_def)

lemma core_prefix_app:
  assumes "core_prefix (name n) n cur = Inr (p, cur')" and "app_at name n cur" and "0 \<le> n"
  shows "app_at name (n + 1) cur'" and "pt n = p \<Longrightarrow> own_prefix name pt n"
proof -
  have less: "j < n + 1 \<longleftrightarrow> j < n \<or> j = n" for j :: int by auto
  show "app_at name (n + 1) cur'"
    using assms unfolding core_prefix_eq app_at_def less by (auto split: if_splits)
  show "own_prefix name pt n" if "pt n = p"
    using assms that starts_joins unfolding core_prefix_eq app_at_def own_prefix_def
    by (auto simp: le_less split: if_splits)
qed

lemma own_prefix_cong: "pt t = pt' t \<Longrightarrow> own_prefix name pt t = own_prefix name pt' t"
  by (simp add: own_prefix_def)

lemma init_core_step:
  assumes "init_core fs argv n (u, rob, cur) = Inr (u', rob', cur')" and "0 \<le> n"
    and "cores_done fs (\<lambda>t. argv ! nat (t + 2)) n u rob" and "app_at (\<lambda>t. argv ! nat (t + 2)) n cur"
  shows "cores_done fs (\<lambda>t. argv ! nat (t + 2)) (n + 1) u' rob' \<and> app_at (\<lambda>t. argv ! nat (t + 2)) (n + 1) cur' \<and>
    num_done u' = num_done u \<and> expt_done u' = expt_done u"
proof -
  let ?name = "\<lambda>t. argv ! nat (t + 2)"
  obtain contents p where fs: "fs (?name n) = Some contents" and cp: "core_prefix (?name n) n cur = Inr (p, cur')"
    and u': "u' = u\<lparr>tif := (tif u)(n := contents), prefixtable := (prefixtable u)(n := p), committed := (committed u)(n := 0),
       fetched := (fetched u)(n := 0), time_done := (time_done u)(n := 0)\<rparr>"
    and rob': "rob' = rob(n := reset_rob (rob n))"
    using assms(1) by (auto simp: init_core_def Let_def split: option.splits)
  note app = core_prefix_app [of ?name n cur p cur', OF cp assms(4,2)]
  have "own_prefix ?name (prefixtable u') n" by (rule app(2)) (simp add: u')
  moreover have "own_prefix ?name (prefixtable u') t = own_prefix ?name (prefixtable u) t" if "t < n" for t
    by (rule own_prefix_cong) (use that in \<open>simp add: u'\<close>)
  ultimately have "fs (?name t) = Some (tif u' t) \<and> own_prefix ?name (prefixtable u') t \<and>
     fresh_rob (rob' t) \<and> committed u' t = 0 \<and> fetched u' t = 0 \<and> time_done u' t = 0" if "0 \<le> t" "t < n + 1" for t
    using that assms(3) fs unfolding cores_done_def
    by (cases "t = n") (simp_all add: u' rob' fresh_rob_def reset_rob_def)
  then show ?thesis using app(1) by (simp add: cores_done_def u')
qed

lemma init_cores:
  assumes "foldE (init_core fs argv) (below n) (u, rob, - 1) = Inr (u', rob', cur')" and "0 \<le> n"
  shows "cores_done fs (\<lambda>t. argv ! nat (t + 2)) n u' rob' \<and> num_done u' = num_done u \<and> expt_done u' = expt_done u"
proof -
  let ?name = "\<lambda>t. argv ! nat (t + 2)"
  define I where "I = (\<lambda>i x. cores_done fs ?name i (fst x) (fst (snd x)) \<and> app_at ?name i (snd (snd x)) \<and>
    num_done (fst x) = num_done u \<and> expt_done (fst x) = expt_done u)"
  have "I n (u', rob', cur')"
    using assms
  proof (rule foldE_below)
    show "I 0 (u, rob, - 1)" by (auto simp: I_def cores_done_def app_at_def)
    show "I (i + 1) x'" if "0 \<le> i" "I i x" "init_core fs argv i x = Inr x'" for i x x'
      using that init_core_step [of fs argv i "fst x" "fst (snd x)" "snd (snd x)" "fst x'" "fst (snd x')" "snd (snd x')"]
      by (simp add: I_def)
  qed
  then show ?thesis by (simp add: I_def)
qed

section \<open>The configuration\<close>

text \<open>No word of a configuration file changes the number of cores.\<close>

lemma set_param_cores: "NUMCORES (set_param t v P) = NUMCORES P"
  by (cases t) (simp_all add: set_param_def)

lemma config_step_cores:
  assumes "config_step c st = Inr st'" shows "NUMCORES (cfg_params st') = NUMCORES (cfg_params st)"
  using assms
  by (auto simp: config_step_def read_word_def read_field_def set_param_cores Let_def split: prod.splits option.splits)

lemma read_config_cores:
  "read_config_file st = Inr st' \<Longrightarrow> NUMCORES (cfg_params st') = NUMCORES (cfg_params st)"
proof (induction st rule: read_config_file.induct)
  case (1 st)
  show ?case
  proof (cases "fin st")
    case Nil
    then show ?thesis using 1(2) by (simp add: read_config_file.simps [of st])
  next
    case (Cons c r)
    show ?thesis
    proof (cases "c = CHR 0xFF")
      case True
      then show ?thesis using 1(2) Cons by (auto simp: read_config_file.simps [of st])
    next
      case False
      then obtain st1 where s: "config_step c (st\<lparr>fin := r\<rparr>) = Inr st1" and "read_config_file st1 = Inr st'"
        using 1(2) Cons by (simp add: read_config_file.simps [of st] split: sum.splits)
      then show ?thesis using 1(1) [OF Cons False s] config_step_cores [OF s] by simp
    qed
  qed
qed

lemma read_globals_cores: "read_globals g text x = Inr y \<Longrightarrow> NUMCORES (fst y) = NUMCORES (fst x)"
  by (auto simp: read_globals_def dest!: read_config_cores)

lemma vi_choice_cores:
  assumes "vi_choice P = Some x" shows "1 \<le> NUMCORES P \<and> NUMCORES P \<le> 16 \<and> NUM_CHANNELS P \<in> {1, 4}"
  using assms by (auto simp: vi_choice_def Let_def split: if_splits)

lemma configure_Inr:
  assumes "configure fs cfg g1 g2 P0 = Inr (P, W, chips)"
  obtains P1 W1 name vi where "read_globals g1 cfg (P0, zero_power) = Inr (P1, W1)"
    "vi_choice P1 = Some (name, chips)" "fs name = Some vi" "address_widths P1 = ADDRESS_BITS P1"
    "read_globals g2 vi (scale_params P1, W1) = Inr (P, W)"
proof -
  obtain P1 W1 where rd: "read_globals g1 cfg (P0, zero_power) = Inr (P1, W1)"
    and rest: "(case vi_choice P1 of None \<Rightarrow> Inl (Exits (- 5)) | Some (name, chips_per_rank) \<Rightarrow>
      case fs name of None \<Rightarrow> Inl (Exits (- 5)) | Some vi_file \<Rightarrow>
        bindE (assertE (address_widths P1 = ADDRESS_BITS P1) ''ADDRESS_BITS'') (\<lambda>_.
        bindE (read_globals g2 vi_file (scale_params P1, W1)) (\<lambda>(P, W). Inr (P, W, chips_per_rank)))) =
      Inr (P, W, chips)"
    using assms unfolding configure_def bindE_eq_Inr by auto
  from rest obtain name vi where "vi_choice P1 = Some (name, chips)" "fs name = Some vi"
    "address_widths P1 = ADDRESS_BITS P1" "read_globals g2 vi (scale_params P1, W1) = Inr (P, W)"
    by (auto split: option.splits)
  then show ?thesis using that rd by simp
qed

lemma startup_Inr:
  assumes "startup fs argv g1 g2 u rob = Inr (P, W, chips, u', rob')"
  obtains cfg cur where "fs (argv ! 1) = Some cfg" "3 \<le> length argv"
    "foldE (init_core fs argv) (below (int (length argv) - 3)) (u, rob, - 1) = Inr (u', rob', cur)"
    "configure fs cfg g1 g2 (zero_params\<lparr>NUMCORES := int (length argv) - 3\<rparr>) = Inr (P, W, chips)"
  using assms by (auto simp: startup_def Let_def split: if_splits option.splits)

lemma startup_cores:
  assumes "startup fs argv g1 g2 u rob = Inr (P, W, chips, u', rob')"
  shows "NUMCORES P = int (length argv) - 3 \<and> 1 \<le> NUMCORES P \<and> NUMCORES P \<le> 16 \<and>
    cores_done fs (\<lambda>t. argv ! nat (t + 2)) (NUMCORES P) u' rob' \<and> num_done u' = num_done u \<and> expt_done u' = expt_done u"
  using assms
proof (rule startup_Inr)
  fix cfg cur
  assume fold: "foldE (init_core fs argv) (below (int (length argv) - 3)) (u, rob, - 1) = Inr (u', rob', cur)"
    and "configure fs cfg g1 g2 (zero_params\<lparr>NUMCORES := int (length argv) - 3\<rparr>) = Inr (P, W, chips)"
  from this(2) show ?thesis
  proof (rule configure_Inr)
    fix P1 W1 name vi
    assume rd1: "read_globals g1 cfg (zero_params\<lparr>NUMCORES := int (length argv) - 3\<rparr>, zero_power) = Inr (P1, W1)"
      and vi: "vi_choice P1 = Some (name, chips)" and rd: "read_globals g2 vi (scale_params P1, W1) = Inr (P, W)"
    have "NUMCORES P = NUMCORES P1" using read_globals_cores [OF rd] by (simp add: scale_params_def)
    then show ?thesis using vi_choice_cores [OF vi] read_globals_cores [OF rd1] init_cores [OF fold] by simp
  qed
qed

section \<open>Address spaces\<close>

lemma bit_width_unique:
  assumes "2 ^ k \<le> n" and "n < 2 ^ Suc k" and "n < 2 ^ 31"
  shows "bit_width n = k"
proof -
  have n: "1 \<le> n" using assms(1) by (smt (verit) zero_less_power)
  have u: "unat (word_of_int n :: 32 word) = nat n"
    using n assms(3) by (simp add: unat_eq_nat_uint uint_word_of_int_eq take_bit_int_eq_self)
  have "nat n \<noteq> 0" using n by simp
  then have nz: "(word_of_int n :: 32 word) \<noteq> 0" using u by (metis unat_0)
  let ?w = "bit_width n"
  have "2 ^ ?w \<le> nat n" "nat n < 2 ^ Suc ?w" using log_base2_bounds(1,2) [OF nz] by (simp_all add: u)
  then have w: "(2 :: int) ^ ?w \<le> n" "n < 2 ^ Suc ?w" using n by (simp_all add: le_nat_iff nat_less_iff)
  have "(2 :: int) ^ k < 2 ^ Suc ?w" "(2 :: int) ^ ?w < 2 ^ Suc k" using w assms(1,2) by linarith+
  then have "k < Suc ?w" "?w < Suc k" by (simp_all only: power_strict_increasing_iff) 
  then show ?thesis by simp
qed

lemma bit_width_bounds:
  assumes "1 \<le> n" and "n < 2 ^ 31"
  shows "2 ^ bit_width n \<le> n \<and> n < 2 ^ Suc (bit_width n)"
proof -
  have u: "unat (word_of_int n :: 32 word) = nat n"
    using assms by (simp add: unat_eq_nat_uint uint_word_of_int_eq take_bit_int_eq_self)
  have "nat n \<noteq> 0" using assms by simp
  then have "(word_of_int n :: 32 word) \<noteq> 0" using u by (metis unat_0)
  from log_base2_bounds(1,2) [OF this] show ?thesis using assms by (simp add: u le_nat_iff nat_less_iff)
qed

lemma bit_width_scale:
  assumes "1 \<le> n" and "n * 2 ^ j < 2 ^ 31"
  shows "bit_width (n * 2 ^ j) = bit_width n + j"
proof -
  have "n * 1 \<le> n * 2 ^ j" using assms(1) by (intro mult_left_mono) simp_all
  then have "n < 2 ^ 31" using assms(2) by linarith
  then have "2 ^ bit_width n \<le> n \<and> n < 2 ^ Suc (bit_width n)" by (intro bit_width_bounds assms(1))
  then have "2 ^ (bit_width n + j) \<le> n * 2 ^ j" "n * 2 ^ j < 2 ^ Suc (bit_width n + j)"
    by (simp_all add: power_add)
  then show ?thesis using assms(2) by (intro bit_width_unique) simp_all
qed

text \<open>The factor of the rows is the least power of two that is not below the number of cores.\<close>

lemma pow_of_2_cores_least:
  assumes "1 \<le> NUMCORES P" and "NUMCORES P < 2 ^ 31"
  obtains j where "pow_of_2_cores P = 2 ^ j" "NUMCORES P \<le> 2 ^ j" "\<And>i. NUMCORES P \<le> 2 ^ i \<Longrightarrow> j \<le> i"
proof (cases "NUMCORES P = 1")
  case True
  then show ?thesis using that [of 0] by (simp add: pow_of_2_cores_def)
next
  case False
  let ?w = "bit_width (NUMCORES P - 1)"
  have b: "2 ^ ?w \<le> NUMCORES P - 1 \<and> NUMCORES P - 1 < 2 ^ Suc ?w" using assms False by (intro bit_width_bounds) simp_all
  show ?thesis
  proof (rule that [of "Suc ?w"])
    show "pow_of_2_cores P = 2 ^ Suc ?w" using False by (simp add: pow_of_2_cores_def push_bit_eq_mult)
    show "NUMCORES P \<le> 2 ^ Suc ?w" using b by simp
    fix i assume "NUMCORES P \<le> 2 ^ i"
    then have "(2 :: int) ^ ?w < 2 ^ i" using b by linarith
    then have "?w < i" by (rule power_less_imp_less_exp [rotated]) simp
    then show "Suc ?w \<le> i" by simp
  qed
qed

definition same_location :: "dram_address_t \<Rightarrow> dram_address_t \<Rightarrow> bool" where
  "same_location d e \<longleftrightarrow> channel d = channel e \<and> rank d = rank e \<and> bank d = bank e \<and> row d = row e \<and> column d = column e"

lemma same_location_iff:
  assumes "wf_geometry P" and "0 \<le> a" and "0 \<le> b"
    and "a < 2 ^ (bit_width (CACHE_LINE_SIZE P) + line_width P)" and "b < 2 ^ (bit_width (CACHE_LINE_SIZE P) + line_width P)"
  shows "same_location (calc_dram_addr P a) (calc_dram_addr P b) \<longleftrightarrow>
    a div 2 ^ bit_width (CACHE_LINE_SIZE P) = b div 2 ^ bit_width (CACHE_LINE_SIZE P)"
proof
  let ?w = "bit_width (CACHE_LINE_SIZE P)"
  have line: "line_of_addr P (calc_dram_addr P x) = x div 2 ^ ?w" if "0 \<le> x" "x < 2 ^ (?w + line_width P)" for x
  proof -
    have "x div 2 ^ ?w < 2 ^ line_width P" using that(2) by (simp add: int_div_less power_add mult.commute)
    then show ?thesis using that(1)
      by (simp add: line_of_calc_dram_addr [OF assms(1)] drop_bit_eq_div take_bit_int_eq_self pos_imp_zdiv_nonneg_iff)
  qed
  assume "same_location (calc_dram_addr P a) (calc_dram_addr P b)"
  then have "line_of_addr P (calc_dram_addr P a) = line_of_addr P (calc_dram_addr P b)"
    by (simp add: same_location_def line_of_addr_def Let_def)
  then show "a div 2 ^ ?w = b div 2 ^ ?w" using line assms by simp
next
  let ?w = "bit_width (CACHE_LINE_SIZE P)"
  assume "a div 2 ^ ?w = b div 2 ^ ?w"
  then have "drop_bit ?w a = drop_bit ?w b" by (simp add: drop_bit_eq_div)
  then show "same_location (calc_dram_addr P a) (calc_dram_addr P b)"
    by (cases "ADDRESS_MAPPING P = 1") (simp_all add: calc_dram_addr_fields [OF assms(1)] same_location_def)
qed

lemma scaled_widths:
  assumes "wf_geometry (scale_params P)" and "address_widths P = ADDRESS_BITS P" and "1 \<le> NUMCORES P"
    and "NUMCORES P < 2 ^ 31"
  shows "ADDRESS_BITS P = int (bit_width (CACHE_LINE_SIZE P) + line_width P)"
    and "NUMCORES P * 2 ^ nat (ADDRESS_BITS P) \<le> 2 ^ (bit_width (CACHE_LINE_SIZE (scale_params P)) + line_width (scale_params P))"
proof -
  obtain j where j: "pow_of_2_cores P = 2 ^ j" "NUMCORES P \<le> 2 ^ j" using pow_of_2_cores_least [OF assms(3,4)] by blast
  show bits: "ADDRESS_BITS P = int (bit_width (CACHE_LINE_SIZE P) + line_width P)"
    using assms(2) by (simp add: address_widths_def line_width_def)
  have nat: "nat (ADDRESS_BITS P) = bit_width (CACHE_LINE_SIZE P) + line_width P" using bits by simp
  have rows: "1 \<le> NUM_ROWS P * 2 ^ j" "NUM_ROWS P * 2 ^ j < 2 ^ 31"
    using wf_geometry_int(7,8) [OF assms(1)] by (simp_all add: scale_params_def j)
  then have "1 \<le> NUM_ROWS P" by (metis int_one_le_iff_zero_less zero_less_mult_pos2 zero_less_numeral zero_less_power)
  then have "line_width (scale_params P) = line_width P + j"
    using bit_width_scale rows(2) by (simp add: line_width_def scale_params_def j)
  then have "2 ^ (bit_width (CACHE_LINE_SIZE (scale_params P)) + line_width (scale_params P)) = 2 ^ nat (ADDRESS_BITS P) * (2 :: int) ^ j"
    using nat by (simp add: power_add scale_params_def)
  then show "NUMCORES P * 2 ^ nat (ADDRESS_BITS P) \<le> 2 ^ (bit_width (CACHE_LINE_SIZE (scale_params P)) + line_width (scale_params P))"
    using j(2) by simp
qed

lemma prefix_address_scaled:
  "0 \<le> ADDRESS_BITS P \<Longrightarrow> prefix_address (scale_params P) p a = a + p * 2 ^ nat (ADDRESS_BITS P)"
  by (simp add: prefix_address_def scale_params_def push_bit_eq_mult)

lemma prefixed_line:
  fixes a p :: int
  assumes "0 \<le> a" and "a < 2 ^ (w + l)"
  shows "(a + p * 2 ^ (w + l)) div 2 ^ w = a div 2 ^ w + p * 2 ^ l" and "a div 2 ^ w < 2 ^ l"
proof -
  have "(a + p * 2 ^ (w + l)) = a + (p * 2 ^ l) * 2 ^ w" by (simp add: power_add)
  also have "\<dots> div 2 ^ w = p * 2 ^ l + a div 2 ^ w" by (rule div_mult_self1) simp
  finally show "(a + p * 2 ^ (w + l)) div 2 ^ w = a div 2 ^ w + p * 2 ^ l" by simp
  show "a div 2 ^ w < 2 ^ l" using assms(2) by (simp add: int_div_less power_add mult.commute)
qed

lemma offset_unique:
  fixes x y p q :: int
  assumes "0 \<le> x" "x < m" "0 \<le> y" "y < m" and "x + p * m = y + q * m"
  shows "p = q \<and> x = y"
proof -
  have "(x + p * m) div m = p" "(y + q * m) div m = q" using assms(1-4) by simp_all
  then show ?thesis using assms(5) by simp
qed

section \<open>Properties\<close>

text \<open>C36. Address spaces are disjoint: in the geometry that \<open>main\<close> scales to the number of cores, the
  accesses of a core with prefix \<open>p\<close> to \<open>a\<close> and of one with prefix \<open>q\<close> to \<open>b\<close> fall on the same
  channel, rank, bank, row and column exactly if the prefixes agree and \<open>a\<close> and \<open>b\<close> are in the same
  cache line. The rows grow by the next power of two, \<open>ADDRESS_BITS\<close> only by the floor of the
  logarithm, and the prefixes still fit.\<close>

theorem address_spaces_disjoint:
  assumes "wf_geometry (scale_params P)" and "address_widths P = ADDRESS_BITS P"
    and "1 \<le> NUMCORES P" and "NUMCORES P < 2 ^ 31"
    and "0 \<le> p" and "p < NUMCORES P" and "0 \<le> q" and "q < NUMCORES P"
    and "0 \<le> a" and "a < 2 ^ nat (ADDRESS_BITS P)" and "0 \<le> b" and "b < 2 ^ nat (ADDRESS_BITS P)"
  shows "same_location (calc_dram_addr (scale_params P) (prefix_address (scale_params P) p a))
      (calc_dram_addr (scale_params P) (prefix_address (scale_params P) q b)) \<longleftrightarrow>
    p = q \<and> a div 2 ^ bit_width (CACHE_LINE_SIZE P) = b div 2 ^ bit_width (CACHE_LINE_SIZE P)"
proof -
  let ?P = "scale_params P" and ?w = "bit_width (CACHE_LINE_SIZE P)" and ?l = "line_width P"
  note w = scaled_widths [OF assms(1-4)]
  have bits: "nat (ADDRESS_BITS P) = ?w + ?l" "0 \<le> ADDRESS_BITS P" using w(1) by simp_all
  have range: "0 \<le> prefix_address ?P r x \<and> prefix_address ?P r x < 2 ^ (bit_width (CACHE_LINE_SIZE ?P) + line_width ?P)"
    if "0 \<le> r" "r < NUMCORES P" "0 \<le> x" "x < 2 ^ nat (ADDRESS_BITS P)" for r x
  proof -
    have "x + r * 2 ^ nat (ADDRESS_BITS P) < (r + 1) * 2 ^ nat (ADDRESS_BITS P)" using that by (simp add: algebra_simps)
    also have "\<dots> \<le> NUMCORES P * 2 ^ nat (ADDRESS_BITS P)" using that by (intro mult_right_mono) simp_all
    finally show ?thesis using w(2) that by (simp add: prefix_address_scaled [OF bits(2)])
  qed
  have line: "prefix_address ?P r x div 2 ^ ?w = x div 2 ^ ?w + r * 2 ^ ?l \<and> 0 \<le> x div 2 ^ ?w \<and> x div 2 ^ ?w < 2 ^ ?l"
    if "0 \<le> x" "x < 2 ^ nat (ADDRESS_BITS P)" for r x
    using that prefixed_line(1) [of x ?w ?l r] prefixed_line(2) [of x ?w ?l] by (simp add: prefix_address_scaled [OF bits(2)] bits(1) pos_imp_zdiv_nonneg_iff)
  have "CACHE_LINE_SIZE ?P = CACHE_LINE_SIZE P" by (simp add: scale_params_def)
  then show ?thesis
    using same_location_iff [OF assms(1), of "prefix_address ?P p a" "prefix_address ?P q b"]
      range [OF assms(5,6,9,10)] range [OF assms(7,8,11,12)] line [OF assms(9,10), of p] line [OF assms(11,12), of q]
      offset_unique [of "a div 2 ^ ?w" "2 ^ ?l" "b div 2 ^ ?w" p q]
    by auto
qed

definition demo_three :: params where
  "demo_three = ddr3_params\<lparr>NUMCORES := 3, ADDRESS_BITS := 32\<rparr>"

lemma demo_three_ok: "wf_geometry (scale_params demo_three)" "address_widths demo_three = ADDRESS_BITS demo_three"
  by code_simp+

theorem address_spaces_disjoint_witness:
  "\<not> same_location (calc_dram_addr (scale_params demo_three) (prefix_address (scale_params demo_three) 1 64))
      (calc_dram_addr (scale_params demo_three) (prefix_address (scale_params demo_three) 2 64))"
  using address_spaces_disjoint [OF demo_three_ok, of 1 2 64 64] by (simp add: demo_three_def ddr3_params_def)

text \<open>Threads share an address space with their program and with nothing else: when the
  initialisation succeeds, a core whose trace is named \<open>MT...\<close> but not \<open>MT0...\<close> has the prefix of the
  nearest preceding core whose trace is named \<open>MT0...\<close>, which exists, and every other core has its
  own number as prefix; directories in the names do not matter. Every core reads its own file.\<close>

theorem prefix_table_groups:
  assumes "startup fs argv g1 g2 u rob = Inr (P, W, chips, u', rob')" and "0 \<le> t" and "t < NUMCORES P"
  shows "fs (argv ! nat (t + 2)) = Some (tif u' t) \<and>
    (if joins_app (argv ! nat (t + 2))
     then 0 \<le> prefixtable u' t \<and> prefixtable u' t < t \<and> starts_app (argv ! nat (prefixtable u' t + 2)) \<and>
       (\<forall>j. prefixtable u' t < j \<and> j \<le> t \<longrightarrow> \<not> starts_app (argv ! nat (j + 2)))
     else prefixtable u' t = t)"
  using startup_cores [OF assms(1)] assms(2,3) by (simp add: cores_done_def own_prefix_def)

definition demo_argv :: "string list" where
  "demo_argv = [''usimm'', ''cfg'', ''input/MT0cg'', ''input/MT1cg'', ''0'']"

definition demo_fs :: "string \<Rightarrow> string option" where
  "demo_fs name = (if name = ''cfg'' then Some (config_text [(''NUM_CHANNELS'', 1)]) else Some [])"

definition demo_params2 :: params where
  "demo_params2 = scale_params (zero_params\<lparr>NUMCORES := 2, NUM_CHANNELS := 1\<rparr>)"

definition demo_allocated :: cpu where
  "demo_allocated = demo_cpu\<lparr>committed := (\<lambda>_. 7), prefixtable := (\<lambda>_. 9)\<rparr>"

definition demo_started :: "cpu \<times> robstructure arr1 \<times> int" where
  "demo_started = (demo_allocated\<lparr>tif := (tif demo_allocated)(0 := [], 1 := []), prefixtable := (\<lambda>_. 9)(0 := 0, 1 := 0),
     committed := (\<lambda>_. 7)(0 := 0, 1 := 0), fetched := (fetched demo_allocated)(0 := 0, 1 := 0),
     time_done := (time_done demo_allocated)(0 := 0, 1 := 0)\<rparr>, (\<lambda>_. demo_ring)(0 := reset_rob demo_ring, 1 := reset_rob demo_ring), 0)"

lemma demo_config_read:
  "\<exists>W'. read_globals demo_config (config_text [(''NUM_CHANNELS'', 1)]) (P, W) = Inr (P\<lparr>NUM_CHANNELS := 1\<rparr>, W')"
proof -
  have t: "tokenize ''NUM_CHANNELS'' = num_channels_token" "''NUM_CHANNELS'' \<in> set (map fst config_keys)" by code_simp+
  then have "list_all line_ok [(''NUM_CHANNELS'', 1)]" by (simp add: line_ok_def float_tokens_def del: set_map)
  from config_round_trip_fold [OF this, of "demo_config\<lparr>cfg_params := P, cfg_power := W\<rparr>"] show ?thesis
    by (auto simp: read_globals_def demo_config_def assign_def t set_param_def)
qed

lemma demo_startup:
  "\<exists>W. startup demo_fs demo_argv demo_config demo_config demo_allocated (\<lambda>_. demo_ring) =
     Inr (demo_params2, W, 16, fst demo_started, fst (snd demo_started))"
proof -
  have p: "core_prefix ''input/MT0cg'' 0 (- 1) = Inr (0, 0)" "core_prefix ''input/MT1cg'' 1 0 = Inr (0, 0)"
    by code_simp+
  have "foldE (init_core demo_fs demo_argv) (below 2) (demo_allocated, (\<lambda>_. demo_ring), - 1) = Inr demo_started"
    by (simp add: init_core_def demo_argv_def demo_fs_def p upto_rec1 demo_started_def demo_allocated_def demo_cpu_def fun_eq_iff)
  moreover obtain W where "configure demo_fs (config_text [(''NUM_CHANNELS'', 1)]) demo_config demo_config (zero_params\<lparr>NUMCORES := 2\<rparr>) =
      Inr (demo_params2, W, 16)"
  proof -
    let ?P = "zero_params\<lparr>NUMCORES := 2, NUM_CHANNELS := 1\<rparr>"
    obtain W where "read_globals demo_config (config_text [(''NUM_CHANNELS'', 1)]) (zero_params\<lparr>NUMCORES := 2\<rparr>, zero_power) = Inr (?P, W)"
      using demo_config_read by blast
    moreover have "vi_choice ?P = Some (''input/2Gb_x4.vi'', 16)" by (simp add: vi_choice_def)
    moreover have "address_widths ?P = ADDRESS_BITS ?P" by code_simp
    moreover have "read_globals demo_config [] x = Inr x" for x
      by (simp add: read_globals_def read_config_file.simps)
    ultimately show ?thesis
      using that [of W] by (simp add: configure_def demo_fs_def demo_params2_def del: params.update_convs)
  qed
  ultimately show ?thesis
    by (simp add: startup_def demo_fs_def demo_argv_def demo_started_def)
qed

theorem prefix_table_groups_witness:
  "joins_app (demo_argv ! 3) \<and> starts_app (demo_argv ! nat (prefixtable (fst demo_started) 1 + 2))"
proof -
  obtain W where "startup demo_fs demo_argv demo_config demo_config demo_allocated (\<lambda>_. demo_ring) =
     Inr (demo_params2, W, 16, fst demo_started, fst (snd demo_started))" using demo_startup by blast
  moreover have "joins_app (demo_argv ! 3)" by code_simp
  ultimately show ?thesis
    using prefix_table_groups [of demo_fs demo_argv, where t = 1]
    by (simp add: demo_params2_def scale_params_def)
qed

text \<open>The initialisation establishes what the runs of the main loop start from, whatever the
  allocated memory contained: when it succeeds and the first lines of the traces can be read, the
  program with the linked policy is in a state of \<open>main_run\<close>, with one core for every argument
  between the configuration file and the last, at most 16.\<close>

theorem startup_reaches_run:
  assumes "startup fs argv g1 g2 u rob = Inr (P, W, chips, u', rob')" and "num_done u = 0" and "\<not> expt_done u"
    and "init_my P st" and "read_first_lines P (u', init_memory_controller_vars P (zero_mc rob')) = Inr (u'', s)"
  shows "main_run schedule_mypolicy init_my P u'' st s \<and> NUMCORES P = int (length argv) - 3 \<and>
    1 \<le> NUMCORES P \<and> NUMCORES P \<le> 16"
proof -
  note cores = startup_cores [OF assms(1)]
  have "fresh_cores P u' rob'" using cores assms(2,3) by (simp add: fresh_cores_def cores_done_def)
  then show ?thesis using main_run.start [of init_my P st u' rob' u'' s] assms(4,5) cores by simp
qed

theorem startup_reaches_run_witness:
  "\<exists>u s. main_run schedule_mypolicy init_my demo_params2 u demo_my s"
proof -
  let ?u = "fst demo_started" and ?s = "init_memory_controller_vars demo_params2 (zero_mc (fst (snd demo_started)))"
  have "\<exists>y. read_first_lines demo_params2 (?u, ?s) = Inr y \<and> tif (fst y) = (\<lambda>_. [])"
    unfolding read_first_lines_def
  proof (rule foldE_invariant)
    show "tif (fst (?u, ?s)) = (\<lambda>_. [])" by (simp add: demo_started_def demo_allocated_def demo_cpu_def fun_eq_iff)
    show "\<exists>x'. bindE (next_line 1 numc x) (\<lambda>(_, x). Inr x) = Inr x' \<and> tif (fst x') = (\<lambda>_. [])"
      if "tif (fst x) = (\<lambda>_. [])" for numc x
      using that by (cases x) (simp add: next_line_def fgets_def core_done_def)
  qed
  then obtain y where "read_first_lines demo_params2 (?u, ?s) = Inr y" by blast
  moreover have "init_my demo_params2 demo_my" by (simp add: init_my_def demo_my_def)
  moreover obtain W where "startup demo_fs demo_argv demo_config demo_config demo_allocated (\<lambda>_. demo_ring) =
     Inr (demo_params2, W, 16, ?u, fst (snd demo_started))" using demo_startup by blast
  ultimately show ?thesis
    using startup_reaches_run [of demo_fs demo_argv demo_config demo_config demo_allocated "\<lambda>_. demo_ring" demo_params2 W 16
        ?u "fst (snd demo_started)" demo_my "fst y" "snd y"]
    by (auto simp: demo_allocated_def demo_cpu_def)
qed

end
