(* ===== verification/Trace.thy ===== *)
theory Trace
  imports Rob
begin

text \<open>
  The trace format of \<open>usimm-v1.3/src/main.c\<close>: a line gives the number of instructions before a memory
  access, \<open>R\<close> or \<open>W\<close>, its address and, for a read, the address of the instruction. The theorem is
  that \<open>main\<close> reads back every such line: the 64 characters of \<open>newstr\<close> hold any of them.
\<close>

section \<open>Printed numbers\<close>

lemma show_nat_length:
  assumes "2 \<le> base" and "n < base ^ k" and "0 < k"
  shows "length (show_nat base n) \<le> k"
  using assms
proof (induction base n arbitrary: k rule: show_nat.induct)
  case (1 base n)
  show ?case
  proof (cases "n < base")
    case True
    then show ?thesis using "1.prems"(3) by (simp add: show_nat.simps)
  next
    case False
    then obtain j where k: "k = Suc j" and "j \<noteq> 0" using "1.prems"(2,3) by (cases k; cases "k - 1") simp_all
    have "n div base < base ^ j" using "1.prems"(2) k by (simp add: less_mult_imp_div_less mult.commute)
    then have "length (show_nat base (n div base)) \<le> j"
      using "1.IH" False "1.prems"(1) \<open>j \<noteq> 0\<close> by simp
    then show ?thesis using False "1.prems"(1) k by (simp add: show_nat.simps [of base n])
  qed
qed

lemma show_nat_newline:
  assumes "2 \<le> base" and "base \<le> 16" shows "CHR 0x0A \<notin> set (show_nat base n)"
proof
  assume "CHR 0x0A \<in> set (show_nat base n)"
  then have "is_digit (int base) (CHR 0x0A)" using show_nat_digits [OF assms, of n] by (auto simp: list_all_iff)
  then show False using digit_not_special(1) assms(2) by (fastforce simp: is_space_def)
qed

section \<open>Lines\<close>

datatype trace_op = Read nat nat nat | Write nat nat

definition hex :: "nat \<Rightarrow> string" where
  "hex n = ''0x'' @ show_nat 16 n"

definition trace_body :: "trace_op \<Rightarrow> string" where
  "trace_body x = (case x of
     Read n a pc \<Rightarrow> show_nat 10 n @ '' R '' @ hex a @ '' '' @ hex pc
   | Write n a \<Rightarrow> show_nat 10 n @ '' W '' @ hex a)"

definition trace_line :: "trace_op \<Rightarrow> string" where
  "trace_line x = trace_body x @ [CHR 0x0A]"

definition op_ok :: "trace_op \<Rightarrow> bool" where
  "op_ok x = (case x of Read n a pc \<Rightarrow> n < 2 ^ 31 \<and> a < 2 ^ 63 \<and> pc < 2 ^ 63 | Write n a \<Rightarrow> n < 2 ^ 31 \<and> a < 2 ^ 63)"

text \<open>What the variables of a core hold after the line.\<close>

definition load_op :: "int \<Rightarrow> trace_op \<Rightarrow> cpu \<Rightarrow> cpu" where
  "load_op c x u = (case x of
     Read n a pc \<Rightarrow> u\<lparr>nonmemops := (nonmemops u)(c := int n), opertype := (opertype u)(c := CHR ''R''),
       addr := (addr u)(c := int a), line_pc := (line_pc u)(c := int pc)\<rparr>
   | Write n a \<Rightarrow> u\<lparr>nonmemops := (nonmemops u)(c := int n), opertype := (opertype u)(c := CHR ''W''),
       addr := (addr u)(c := int a)\<rparr>)"

lemma take_line_newline:
  assumes "CHR 0x0A \<notin> set l" and "length l < n"
  shows "take_line n (l @ CHR 0x0A # r) = (l @ [CHR 0x0A], r)"
  using assms
proof (induction l arbitrary: n)
  case Nil
  then show ?case by (cases n) simp_all
next
  case (Cons c l)
  then show ?case by (cases n) auto
qed

lemma scan_hex:
  assumes "n < 2 ^ 63" and "ends_number 16 r" and "list_all is_space ws"
  shows "scan_Lx (ws @ hex n @ r) = Some (int n, r)"
proof -
  have skip: "skip_space (ws @ hex n @ r) = hex n @ r"
    using assms(3) by (simp add: skip_space_def hex_def dropWhile_append2 list_all_iff is_space_def)
  have sign: "scan_sign (hex n @ r) = (False, hex n @ r)" by (simp add: scan_sign_def hex_def)
  have "scan_number 16 skip_0x (ws @ hex n @ r) = scan_number 16 (\<lambda>cs. cs) (show_nat 16 n @ r)"
  proof -
    have "skip_space (show_nat 16 n @ r) = show_nat 16 n @ r \<and> scan_sign (show_nat 16 n @ r) = (False, show_nat 16 n @ r)"
    proof -
      have "show_nat 16 n \<noteq> []" "is_digit 16 (hd (show_nat 16 n))"
        using show_nat_digits [of 16 n] by (auto simp: list_all_iff)
      then show ?thesis using digit_not_special [of 16 "hd (show_nat 16 n)"]
        by (cases "show_nat 16 n") (simp_all add: skip_space_def scan_sign_def)
    qed
    then show ?thesis by (simp add: scan_number_def skip sign) (simp add: hex_def skip_0x_def Let_def)
  qed
  also have "\<dots> = Some (int n, r)" using scan_number_show [of 16 r "[]" "\<lambda>cs. cs" n] assms(2) by simp
  finally have "scan_number 16 skip_0x (ws @ hex n @ r) = Some (int n, r)" .
  moreover have "signed_take_bit 63 (int n) = int n"
    using assms(1) by (intro signed_take_bit_int_eq_self) (simp_all add: zless_nat_eq_int_zless [symmetric] flip: of_nat_power)
  ultimately show ?thesis by (simp add: scan_Lx_def)
qed

lemma sscan_line:
  assumes "op_ok x"
  shows "sscan (trace_line x) = (case x of
     Read n a pc \<Rightarrow> (Some (int n), Some CHR ''R'', Some (int a), Some (int pc))
   | Write n a \<Rightarrow> (Some (int n), Some CHR ''W'', Some (int a), None))"
proof -
  have sp: "ends_number 10 (CHR 0x20 # r)" "ends_number 16 (CHR 0x20 # r)" "ends_number 16 (CHR 0x0A # r)" for r
    by (simp_all add: ends_number_def is_digit_def digit_value_def)
  have c: "scan_c (CHR 0x20 # c # r) = Some (c, r)" if "\<not> is_space c" for c r
    using that by (simp add: scan_c_def skip_space_def is_space_def)
  have op: "\<not> is_space CHR ''R''" "\<not> is_space CHR ''W''" by (simp_all add: is_space_def)
  have d: "scan_d (show_nat 10 n @ CHR 0x20 # r) = Some (int n, CHR 0x20 # r)" if "n < 2 ^ 31" for n r
    using scan_d_show [of n "CHR 0x20 # r" "[]"] that sp by simp
  have h: "scan_Lx (CHR 0x20 # hex n @ r) = Some (int n, r)" if "n < 2 ^ 63" "ends_number 16 r" for n r
    using scan_hex [of n r "[CHR 0x20]"] that by (simp add: is_space_def)
  have e: "scan_Lx [CHR 0x0A] = None"
    by (simp add: scan_Lx_def scan_number_def skip_space_def is_space_def scan_sign_def skip_0x_def)
  show ?thesis
    using assms by (cases x) (simp_all add: trace_line_def trace_body_def sscan_def d c op h sp e op_ok_def)
qed

lemma trace_line_length:
  assumes "op_ok x" shows "length (trace_body x) < 63" and "CHR 0x0A \<notin> set (trace_body x)"
proof -
  have d: "length (show_nat 10 n) \<le> 10" if "n < 2 ^ 31" for n using that by (intro show_nat_length) simp_all
  have h: "length (show_nat 16 n) \<le> 16" if "n < 2 ^ 63" for n using that by (intro show_nat_length) simp_all
  show "length (trace_body x) < 63"
  proof (cases x)
    case (Read n a pc)
    then show ?thesis using assms d [of n] h [of a] h [of pc] by (simp add: trace_body_def hex_def op_ok_def)
  next
    case (Write n a)
    then show ?thesis using assms d [of n] h [of a] by (simp add: trace_body_def hex_def op_ok_def)
  qed
  show "CHR 0x0A \<notin> set (trace_body x)"
    using show_nat_newline [of 10] show_nat_newline [of 16] by (cases x) (simp_all add: trace_body_def hex_def)
qed

section \<open>Properties\<close>

text \<open>C37. Traces are read back: when the text left of a core's trace starts with the line of a read or
  a write with a count below \<open>2 ^ 31\<close> and addresses below \<open>2 ^ 63\<close>, the next line the core reads
  has exactly these values, the rest of the text is left, and nothing else changes.\<close>

theorem trace_round_trip:
  assumes "op_ok x" and "tif u c = trace_line x @ r"
  shows "next_line t c (u, s) = Inr (True, load_op c x (u\<lparr>tif := (tif u)(c := r)\<rparr>), s)"
proof -
  have "take_line 63 (trace_body x @ CHR 0x0A # r) = (trace_line x, r)"
    using take_line_newline [of "trace_body x" 63 r] trace_line_length [OF assms(1)] by (simp add: trace_line_def)
  then have "fgets MAXTRACELINESIZE (tif u c) = Some (trace_line x, r)"
    using assms(2) by (simp add: fgets_def MAXTRACELINESIZE_def trace_line_def)
  moreover have "read_trace_line c (trace_line x) (u\<lparr>tif := (tif u)(c := r)\<rparr>) = Inr (load_op c x (u\<lparr>tif := (tif u)(c := r)\<rparr>))"
    using sscan_line [OF assms(1)] by (cases x) (simp_all add: read_trace_line_def load_op_def set_opt_def)
  ultimately show ?thesis by (simp add: next_line_def)
qed

theorem trace_round_trip_witness:
  "\<exists>u. next_line 1 0 (demo_cpu\<lparr>tif := (\<lambda>_. trace_line (Read 12 4096 255))\<rparr>, demo_cores) = Inr (True, u, demo_cores) \<and>
     nonmemops u 0 = 12 \<and> addr u 0 = 4096 \<and> line_pc u 0 = 255 \<and> tif u 0 = []"
  using trace_round_trip [of "Read 12 4096 255" "demo_cpu\<lparr>tif := (\<lambda>_. trace_line (Read 12 4096 255))\<rparr>" 0 "[]" 1 demo_cores]
  by (simp add: op_ok_def load_op_def)

end
