(* ===== verification/Spec2Isabelle.thy ===== *)
theory Spec2Isabelle
  imports Rvm_Recovery Web_Proxy Llc_Run Tournament Tree_Barrier Gtthread Producer_Consumer Startup Trace
begin

text \<open>
  A verification development for the programs of this repository: the memory-system simulator USIMM,
  version 1.3, with its scheduling policies
  (\<open>src/memsystems/mem-scheduling-championship/usimm-v1.3/src\<close>; the file names in the paragraphs on
  USIMM are relative to that directory), the cache simulator of the replacement championship
  (\<open>src/memsystems/cache-championship/CRC/src/LLCsim\<close>), and the projects under \<open>src/aos\<close>: barriers,
  user-level threads, a producer with two consumers, a recoverable virtual memory and a caching web
  proxy. The programs share no code; the theories share \<open>Prelude\<close> and the models of the C library.

  \<^bold>\<open>USIMM.\<close> \<open>main.c\<close> simulates cores that replay traces. Every processor cycle it retires
  and fetches instructions; memory operations are inserted into the read and write queues of a
  DRAM channel. Every \<open>PROCESSOR_CLK_MULTIPLIER\<close> cycles it calls \<open>update_memory\<close>
  (\<open>memory_controller.c\<close>), which computes for every queued request the next DRAM command it
  needs and whether the timing state allows it, keeps the refresh state machine of every rank and
  forces overdue refreshes; then, per channel, it calls \<open>schedule\<close> of the linked policy
  (\<open>partA/scheduler-*.c\<close>), which issues at most one command through the \<open>issue_\<close> functions, and
  \<open>gather_stats\<close>.

  \<^bold>\<open>Its model.\<close> C globals are fields of records: \<open>params\<close> for the configuration, \<open>mc\<close> for the
  controller, one record per policy for its private variables. Arrays are functions on \<open>int\<close>
  indices (\<open>arr1\<close>, \<open>arr2\<close>, \<open>arr3\<close>) that are read and written only at the indices the code uses,
  the linked lists are lists in queue order, pointers into them are \<open>req_ptr\<close>. Functions that can
  run into a failing \<open>assert\<close> or a trap return a sum type (\<open>res\<close>) whose left values are the
  faults. Integers are \<open>int\<close>; where the code mixes widths, the conversion is written out
  (\<open>Prelude\<close>).

  \<^item> \<open>Prelude\<close>: results, loops (\<open>foldE\<close>, \<open>below\<close>), arrays, shared lemmas. \<open>Params\<close>: the
    configuration and what is assumed of it (\<open>wf_params\<close>), with the shipped DDR3 parameters as
    an instance. \<open>Dram_Address\<close>: \<open>log_base2\<close> and \<open>calc_dram_addr\<close> with both mappings.
  \<^item> \<open>Mc_State\<close>: types and globals of \<open>memory_controller.h\<close> and their initialisation.
    \<open>Queues\<close>: insertion, look-up and merging of requests, \<open>clean_queues\<close>. \<open>Activation\<close>: the ring
    of activate flags behind \<open>T_FAW\<close>. \<open>Commands\<close>: the \<open>issue_\<close> functions and the \<open>is_..._allowed\<close>
    predicates. \<open>Memory_Cycle\<close>: \<open>update_memory\<close>, \<open>gather_stats\<close>.
  \<^item> \<open>Protocol\<close>: the abstract DRAM (row and power state machine) and the command log; the calls a
    policy may make (\<open>api_step\<close>), the insertions of the environment (\<open>env_step\<close>) and the
    executions \<open>sim\<close> of the main loop with an arbitrary policy. \<open>Timing\<close>, \<open>Faw\<close>, \<open>Invariant\<close>:
    the invariants; \<open>Api\<close>, \<open>Cycle\<close>: that the calls and \<open>update_memory\<close> keep them.
    \<open>Simulation\<close>: the theorems about all executions: timing constraints between any two
    commands, refinement of the abstract DRAM, refresh deadlines, the four-activate window, no
    failing assertion, one command per cycle, accurate queues.
  \<^item> \<open>Scheduler\<close>: the interface between \<open>main.c\<close> and a policy as a locale. Its interpretations
    \<open>fcfs\<close>, \<open>frfcfs\<close> (\<open>Fcfs\<close>), \<open>close\<close>, \<open>closemod\<close>, \<open>openclosed\<close> (\<open>Close_Page\<close>), \<open>refr\<close>
    (\<open>Refresh_Policy\<close>), \<open>pwrdn\<close> (\<open>Powerdown_Policy\<close>), \<open>frrr\<close>, \<open>fair\<close> (\<open>Fair\<close>), \<open>mlp\<close> (\<open>Mlp\<close>),
    \<open>fullmod\<close> (\<open>Fullmod\<close>) and \<open>mypolicy\<close> (\<open>Mypolicy\<close>, the policy the Makefile links) make every run
    of the main loop with one of these policies an execution of \<open>sim\<close>, and show that its memory
    phase never aborts. Each theory adds what is specific to its policy. \<open>Demo\<close> holds the concrete
    states of the witnesses.
  \<^item> \<open>Scan\<close>: the conversions of \<open>scanf\<close> and printed numbers. \<open>Processor\<close>: trace lines, retiring and
    fetching, an iteration of the main loop. \<open>Rob\<close>: the reorder buffer as an implementation of a
    queue (locale \<open>fifo\<close>). \<open>Trace\<close>: trace lines are read back. \<open>Main_Loop\<close>: the executions
    \<open>main_run\<close> of \<open>main\<close> with a policy; inside the locale of the policies, that they are executions
    of \<open>sim\<close> interleaved with insertions, and the invariants of the cores. \<open>Config\<close>: the parser of
    \<open>configfile.h\<close>. \<open>Startup\<close>: command line, address prefixes, chip file and scaling of the geometry,
    up to the start of \<open>main_run\<close>. The theorems of this theory state the safety of the composed
    program.

  \<^bold>\<open>The concurrency projects.\<close> Each program is a set of threads or processes with a step function per
  thread; the executions of the program are an inductive predicate over all interleavings. The
  shared memory is sequentially consistent, a step being one access to a shared variable or one
  call of a library. Waiting is a step that is not enabled, or one that changes nothing.

  \<^item> \<open>Mpi_Net\<close>: the calls \<open>MPI_Irecv\<close>, \<open>MPI_Send\<close>, \<open>MPI_Wait\<close> on a network of channels, and as locales what
    makes a program of such calls synchronise (\<open>paired\<close>: the receive number \<open>k\<close> from a process is
    matched by its send number \<open>k\<close>) and never get stuck (\<open>ranked\<close>: a rank that every call's partner
    respects). \<open>Dissemination\<close> (\<open>aos/mpi/release/mpi/diss.c\<close>) and \<open>Tournament\<close> (\<open>mpi/tourn.c\<close>)
    interpret both; the theorems are that these barriers separate their episodes and terminate, also
    when \<open>MPI_Send\<close> blocks until it is received.
  \<^item> \<open>Sense_Barrier\<close> (\<open>omp/barrier_sense.c\<close>, and the same barrier in \<open>combined/mp_mpi_sendiss.c\<close>) and
    \<open>Tree_Barrier\<close> (\<open>omp/tree_barrier.c\<close>): what these barriers guarantee, and executions in which
    they do not hold the threads back.
  \<^item> \<open>Gtthread\<close> (\<open>aos/gthreads\<close>): the thread table, the scheduler, creating, joining, cancelling and
    exiting threads, and the mutexes, with an arbitrary program that is preempted anywhere between
    its calls. A saved context is the place where it goes on. The theorems: accurate counts, round
    robin, exit values that reach the join, exclusion, and what an early cancel breaks.
  \<^item> \<open>Producer_Consumer\<close> (\<open>aos/prelab/producer_consumer.c\<close>): the doubly linked queue on an explicit heap
    with the producer, two consumers and the main thread. The theorems: the queue is a queue of
    letters (\<open>dll\<close> relates the heap to a list), exclusion, no fault, no deadlock, the right total, and
    an execution that loses letters.

  \<^bold>\<open>The recoverable memory\<close> (\<open>aos/l-recoverable-vm/prj4/rvm.cpp\<close>). \<open>Rvm\<close>: segments, transactions with undo
  records and redo logs, every operation of the library over blocks of memory and files that are
  strings of bytes; the redo log is printed and scanned as the code does it. Freed nodes that are
  still linked, null pointers and copies beyond a block are faults; memory that is read before it is
  written is an argument. \<open>Rvm_Log\<close>: a printed log is read back. \<open>Rvm_Recovery\<close>: transactions as an
  inductive predicate (\<open>session\<close>) with their invariant; a committed transaction survives a crash, an
  abort restores the memory, truncating the logs changes nothing a new process can see; and
  executions in which a leading blank is lost and an overlapping region is not undone.

  \<^bold>\<open>The web proxy\<close> (\<open>aos/a3/rpc/gen-cpp\<close>). \<open>Std_Map\<close>: \<open>std::map\<close>. \<open>Web_Cache\<close>: the three implementations of the
  interface \<open>cache.h\<close>. \<open>Cache_Contract\<close>: the interface as the locale \<open>page_cache\<close>, and the invariant of the
  two caches that keep a recency table. \<open>Cache_Policies\<close>: the interpretations \<open>lru\<close>, \<open>minlru\<close> and \<open>randc\<close>, and
  the policies as functions on the list of pages in the order of their use, which the code refines.
  \<open>Web_Proxy\<close>: the server, with libcurl as a parameter; its lemmas are proved once in the locale and
  give, for each of the three caches, that the proxy is transparent and bounded.

  \<^bold>\<open>The cache simulator.\<close> \<open>Llc_Policy\<close>: the state and the five policies of \<open>replacement_state.cpp\<close>.
  \<open>Llc_Cache\<close>: the cache of \<open>crc_cache.cpp\<close>. \<open>Llc_Replacement\<close>: what the policies keep and choose; recency
  stacks for LRU, the ageing loop for the RRIP policies. \<open>Llc_Access\<close>: the contract between the two files
  as the locale \<open>replacement\<close>, its interpretation, and what an access does to the resident lines. \<open>Llc_Run\<close>:
  every sequence of accesses is answered and keeps the state well formed.

  \<^bold>\<open>Bounds.\<close> The simulation theorems hold as long as \<open>CYCLE_VAL + 8 * T_REFI < 2 ^ 31\<close>: the code
  keeps \<open>refresh_issue_deadline\<close> in an \<open>int\<close>. There is no fuel: the loops of the modelled code are
  over lists and index ranges, or have a termination proof (\<open>log_base2\<close>, \<open>read_config_file\<close>); the
  loop of \<open>main\<close> itself is the inductive predicate \<open>main_run\<close>. \<open>sched_iters\<close> bounds the loop of the
  thread scheduler by the number of threads, which \<open>scheduler_round_robin\<close> shows to be enough;
  \<open>generate_thread_id\<close> takes the list of values that \<open>rand\<close> returns. Loops that may run forever are partial
  functions whose value is then \<open>None\<close> (\<open>minlru_evict\<close>, \<open>wd_grow\<close>, \<open>rrip_loop\<close>); that they end is proved. The two
  recency caches keep their contract for 2 to the 32 operations, after which their keys wrap; the cache
  simulator has 2 to 256 ways, because the RRIP loop does not end with more.

  \<^bold>\<open>Not modelled.\<close> Output (\<open>print_stats\<close>, \<open>print_params\<close>, \<open>scheduler_stats\<close>, \<open>PrintStats\<close>, messages of failed
  calls), the power estimate \<open>calculate_power\<close> (floating-point arithmetic over the statistics), failing
  \<open>malloc\<close> and failing \<open>pthread\<close> calls, time measurement; \<open>float\<close> values of the configuration are exact
  decimals. A timer signal in the midst of a call of the thread library is not modelled, nor the
  regions of the tree barrier after the first, nor the writes of \<open>rvm.cpp\<close> to a transaction it has just
  freed. Beside these programs the repository holds vendored packages (GnuPG, libgpg-error, the Pin
  kit), other authors' code kept as reference, RPC stubs generated by Thrift, a benchmark that
  measures access times, a batch system in Java, and test programs.
\<close>



text \<open>C6. The program never aborts: an iteration of the main loop with the linked policy either
  completes or ends at a trace line it cannot read, with exit code -1 or -2; no assertion of the
  controller fails, no pointer is dangling and nothing is divided by zero.\<close>

theorem program_never_aborts:
  assumes "main_run schedule_mypolicy init_my P u st s" and "wf_params P" and "CYCLE_VAL s + 8 * T_REFI P < 2 ^ 31"
  shows "(\<exists>x. iteration schedule_mypolicy P (u, st, s) = Inr x) \<or>
    iteration schedule_mypolicy P (u, st, s) \<in> {Inl (Exits (- 1)), Inl (Exits (- 2))}"
  using mypolicy.main_progress [OF assms] by (cases "iteration schedule_mypolicy P (u, st, s)") (auto simp: trace_error_def)

theorem program_never_aborts_witness:
  "\<forall>msg. iteration schedule_mypolicy ddr3_params (demo_main_cpu, demo_my, demo_main) \<noteq> Inl (Assertion_failed msg)"
  using program_never_aborts [OF demo_main_run wf_params_ddr3 demo_main_fields(1)] by auto

end
